(* ===== verification/Klomang_Prelude.thy ===== *)
theory Klomang_Prelude
  imports Main "HOL-Library.Word" "HOL-Library.FSet" "HOL-Library.Finite_Map"
    "HOL-Library.Multiset"
begin

text \<open>
  Shared vocabulary of the development: the machine integer types, Rust's checked and
  saturating arithmetic on them, the byte encodings \<open>to_be_bytes\<close>, \<open>to_le_bytes\<close> and
  their inverses, the result type of fallible operations, and the generic lemmas on words,
  finite sets, finite maps and lists that the component theories use.

  Conventions of the translation:
  \<^item> \<open>u8\<close>, \<open>u32\<close>, \<open>u64\<close>, \<open>u128\<close> are \<open>'n word\<close>; a bare \<open>+\<close>, \<open>-\<close>, \<open>*\<close> of the code is
    the wrapping operation of a release build;
  \<^item> \<open>Vec\<close> is a list, \<open>usize\<close> counters and lengths are \<open>nat\<close>;
  \<^item> \<open>HashMap\<close> is a finite map, \<open>HashSet\<close> a finite set;
  \<^item> \<open>Result<T, E>\<close> is \<open>E + T\<close> with \<open>Inl\<close> for the error.
\<close>

section \<open>Types and theorem collections\<close>

type_synonym u8 = "8 word"
type_synonym u32 = "32 word"
type_synonym u64 = "64 word"
type_synonym u128 = "128 word"
type_synonym i128 = "128 word"

type_synonym byte = u8
type_synonym bytes = "byte list"

named_theorems arith_ops \<open>readings of the Rust arithmetic operations as natural numbers\<close>
named_theorems enc_len \<open>lengths of the byte encodings\<close>
named_theorems frames \<open>fields that an operation leaves alone\<close>

section \<open>Rust arithmetic\<close>

definition checked_add :: "'a::len word \<Rightarrow> 'a word \<Rightarrow> 'a word option" where
  "checked_add a b = (if unat a + unat b < 2 ^ LENGTH('a) then Some (a + b) else None)"

definition checked_sub :: "'a::len word \<Rightarrow> 'a word \<Rightarrow> 'a word option" where
  "checked_sub a b = (if b \<le> a then Some (a - b) else None)"

definition saturating_add :: "'a::len word \<Rightarrow> 'a word \<Rightarrow> 'a word" where
  "saturating_add a b = (if unat a + unat b < 2 ^ LENGTH('a) then a + b else - 1)"

definition saturating_sub :: "'a::len word \<Rightarrow> 'a word \<Rightarrow> 'a word" where
  "saturating_sub a b = (if b \<le> a then a - b else 0)"

definition saturating_mul :: "'a::len word \<Rightarrow> 'a word \<Rightarrow> 'a word" where
  "saturating_mul a b = (if unat a * unat b < 2 ^ LENGTH('a) then a * b else - 1)"

text \<open>\<open>x.clamp(lo, hi)\<close> of \<open>Ord\<close>.\<close>

definition clamp :: "'a::linorder \<Rightarrow> 'a \<Rightarrow> 'a \<Rightarrow> 'a" where
  "clamp x lo hi = (if x < lo then lo else if hi < x then hi else x)"

lemma unat_max_word: "unat (- 1 :: 'a::len word) = 2 ^ LENGTH('a) - 1"
  by (simp add: unsigned_minus_1_eq_mask mask_eq_exp_minus_1)

lemma unat_add_no_overflow [arith_ops]:
  "unat (a :: 'a::len word) + unat b < 2 ^ LENGTH('a) \<Longrightarrow> unat (a + b) = unat a + unat b"
  by (rule unat_add_lem [THEN iffD1])

lemma unat_mult_no_overflow [arith_ops]:
  "unat (a :: 'a::len word) * unat b < 2 ^ LENGTH('a) \<Longrightarrow> unat (a * b) = unat a * unat b"
  by (rule unat_mult_lem [THEN iffD1])

lemma unat_sub_no_underflow [arith_ops]:
  "(b :: 'a::len word) \<le> a \<Longrightarrow> unat (a - b) = unat a - unat b"
  by (rule unat_sub)

lemma checked_add_eq_Some [arith_ops]:
  "checked_add a b = Some c \<longleftrightarrow>
     unat a + unat b < 2 ^ LENGTH('a) \<and> c = (a :: 'a::len word) + b"
  by (auto simp: checked_add_def)

lemma checked_add_eq_None [arith_ops]:
  "checked_add (a :: 'a::len word) b = None \<longleftrightarrow> 2 ^ LENGTH('a) \<le> unat a + unat b"
  by (auto simp: checked_add_def)

lemma unat_checked_add: "checked_add a b = Some c \<Longrightarrow> unat c = unat a + unat b"
  by (simp add: arith_ops)

lemma unat_saturating_add [arith_ops]:
  "unat (saturating_add (a :: 'a::len word) b) = min (unat a + unat b) (2 ^ LENGTH('a) - 1)"
  by (auto simp: saturating_add_def unat_max_word unat_add_no_overflow)

lemma unat_saturating_sub [arith_ops]:
  "unat (saturating_sub (a :: 'a::len word) b) = unat a - unat b"
proof (cases "b \<le> a")
  case True
  then show ?thesis by (simp add: saturating_sub_def unat_sub)
next
  case False
  then have "unat a < unat b" by (simp add: not_le word_less_nat_alt)
  with False show ?thesis by (simp add: saturating_sub_def)
qed

lemma unat_saturating_mul [arith_ops]:
  "unat (saturating_mul (a :: 'a::len word) b) = min (unat a * unat b) (2 ^ LENGTH('a) - 1)"
  by (auto simp: saturating_mul_def unat_max_word unat_mult_no_overflow)

lemma unat_u64_bound: "unat (a :: u64) < 2 ^ 64"
  using unsigned_less [of a] by simp

lemma unat_ucast_u64_u128 [simp]: "unat (ucast (a :: u64) :: u128) = unat a"
  by (simp add: unsigned_ucast_eq take_bit_nat_eq_self unat_u64_bound less_trans [OF unat_u64_bound])

lemma unat_of_nat_small: "n < 2 ^ LENGTH('a) \<Longrightarrow> unat (of_nat n :: 'a::len word) = n"
  by (simp add: unat_of_nat take_bit_nat_eq_self)

lemma clamp_bounds: "lo \<le> hi \<Longrightarrow> lo \<le> clamp x lo hi \<and> clamp x lo hi \<le> hi"
  by (auto simp: clamp_def)

lemma clamp_id: "lo \<le> x \<Longrightarrow> x \<le> hi \<Longrightarrow> clamp x lo hi = x"
  by (auto simp: clamp_def)

section \<open>Byte encodings\<close>

text \<open>
  \<open>nat_bytes k n\<close> is the last \<open>k\<close> base-256 digits of \<open>n\<close>, most significant first, and
  \<open>be_nat\<close> reads such a digit list back. Rust's \<open>to_be_bytes\<close> and \<open>to_le_bytes\<close> are the
  digit list of the width of the type, in the two orders.
\<close>

fun nat_bytes :: "nat \<Rightarrow> nat \<Rightarrow> bytes" where
  "nat_bytes 0 n = []"
| "nat_bytes (Suc k) n = nat_bytes k (n div 256) @ [word_of_nat n]"

definition be_nat :: "bytes \<Rightarrow> nat" where
  "be_nat bs = foldl (\<lambda>n b. n * 256 + unat b) 0 bs"

definition to_be_bytes :: "'a::len word \<Rightarrow> bytes" where
  "to_be_bytes w = nat_bytes (LENGTH('a) div 8) (unat w)"

definition to_le_bytes :: "'a::len word \<Rightarrow> bytes" where
  "to_le_bytes w = rev (to_be_bytes w)"

definition from_be_bytes :: "bytes \<Rightarrow> 'a::len word" where
  "from_be_bytes bs = word_of_nat (be_nat bs)"

definition from_le_bytes :: "bytes \<Rightarrow> 'a::len word" where
  "from_le_bytes bs = from_be_bytes (rev bs)"

lemma length_nat_bytes [simp, enc_len]: "length (nat_bytes k n) = k"
  by (induction k arbitrary: n) simp_all

lemma length_to_be_bytes [simp, enc_len]:
  "length (to_be_bytes (w :: 'a::len word)) = LENGTH('a) div 8"
  by (simp add: to_be_bytes_def)

lemma length_to_le_bytes [simp, enc_len]:
  "length (to_le_bytes (w :: 'a::len word)) = LENGTH('a) div 8"
  by (simp add: to_le_bytes_def)

lemma be_nat_Nil [simp]: "be_nat [] = 0"
  by (simp add: be_nat_def)

lemma be_nat_snoc [simp]: "be_nat (bs @ [b]) = be_nat bs * 256 + unat b"
  by (simp add: be_nat_def)

lemma unat_byte_bound: "unat (b :: byte) < 256"
  using unsigned_less [of b] by simp

lemma be_nat_bound: "be_nat bs < 256 ^ length bs"
proof (induction bs rule: rev_induct)
  case Nil
  show ?case by simp
next
  case (snoc b bs)
  have "be_nat bs * 256 + unat b < (be_nat bs + 1) * 256"
    using unat_byte_bound [of b] by simp
  also have "\<dots> \<le> 256 ^ length bs * 256"
    using snoc.IH by (intro mult_right_mono) simp_all
  finally show ?case by simp
qed

lemma be_nat_Cons: "be_nat (b # bs) = unat b * 256 ^ length bs + be_nat bs"
proof (induction bs rule: rev_induct)
  case Nil
  show ?case by (simp add: be_nat_def)
next
  case (snoc c bs)
  have "be_nat (b # bs @ [c]) = be_nat (b # bs) * 256 + unat c"
    by (metis append_Cons be_nat_snoc)
  with snoc.IH show ?case by (simp add: algebra_simps)
qed

text \<open>Lists of the same length compare byte by byte exactly as the numbers they spell.\<close>

lemma be_nat_less_iff_lex:
  "length xs = length ys \<Longrightarrow> be_nat xs < be_nat ys \<longleftrightarrow> ord_class.lexordp xs ys"
proof (induction xs ys rule: list_induct2)
  case Nil
  show ?case by simp
next
  case (Cons x xs y ys)
  let ?p = "(256 :: nat) ^ length ys"
  have bx: "be_nat xs < ?p" and by': "be_nat ys < ?p"
    using be_nat_bound [of xs] be_nat_bound [of ys] Cons.hyps by simp_all
  have lt: "unat a * ?p + m < unat b * ?p + n" if "unat a < unat b" "m < ?p" for a b :: byte and m n
  proof -
    have "unat a * ?p + m < (unat a + 1) * ?p" using that(2) by simp
    also have "\<dots> \<le> unat b * ?p" using that(1) by (intro mult_right_mono) simp_all
    finally show ?thesis by simp
  qed
  consider "x < y" | "x = y" | "y < x" by fastforce
  then show ?case
  proof cases
    case 1
    then show ?thesis
      using lt [of x y] bx Cons.hyps by (simp add: be_nat_Cons word_less_nat_alt)
  next
    case 2
    then show ?thesis using Cons.IH Cons.hyps by (simp add: be_nat_Cons)
  next
    case 3
    then have "\<not> be_nat (x # xs) < be_nat (y # ys)"
      using lt [of y x "be_nat ys" "be_nat xs"] by' Cons.hyps
      by (simp add: be_nat_Cons word_less_nat_alt)
    with 3 show ?thesis by auto
  qed
qed

lemma be_nat_nat_bytes: "be_nat (nat_bytes k n) = n mod 256 ^ k"
proof (induction k arbitrary: n)
  case 0
  show ?case by simp
next
  case (Suc k)
  have "be_nat (nat_bytes (Suc k) n) = n div 256 mod 256 ^ k * 256 + n mod 256"
    using Suc.IH by (simp add: unat_of_nat)
  also have "\<dots> = n mod (256 * 256 ^ k)"
    by (simp only: mod_mult2_eq)
  finally show ?case by simp
qed

lemma nat_bytes_be_nat: "nat_bytes (length bs) (be_nat bs) = bs"
proof (induction bs rule: rev_induct)
  case Nil
  show ?case by simp
next
  case (snoc b bs)
  have "(be_nat bs * 256 + unat b) div 256 = be_nat bs"
    using unat_byte_bound [of b] by simp
  moreover have "word_of_nat (be_nat bs * 256 + unat b) = b"
  proof -
    have "(word_of_nat (be_nat bs * 256 + unat b) :: byte) = word_of_nat (be_nat bs) * 256 + b"
      by simp
    also have "(256 :: byte) = 0" by simp
    finally show ?thesis by simp
  qed
  ultimately show ?case using snoc.IH by simp
qed

lemma nat_bytes_inject:
  assumes "nat_bytes k m = nat_bytes k n" "m < 256 ^ k" "n < 256 ^ k"
  shows "m = n"
proof -
  from assms(1) have "m mod 256 ^ k = n mod 256 ^ k"
    by (metis be_nat_nat_bytes)
  with assms(2,3) show ?thesis by simp
qed

text \<open>The widths the code uses are multiples of eight.\<close>

lemma unat_byte_width:
  assumes "8 dvd LENGTH('a)"
  shows "unat (w :: 'a::len word) < 256 ^ (LENGTH('a) div 8)"
proof -
  have "(256 :: nat) ^ (LENGTH('a) div 8) = 2 ^ (8 * (LENGTH('a) div 8))"
    by (simp add: power_mult)
  also have "\<dots> = 2 ^ LENGTH('a)" using assms by simp
  finally show ?thesis using unsigned_less [of w] by simp
qed

lemma from_to_be_bytes:
  assumes "8 dvd LENGTH('a)"
  shows "from_be_bytes (to_be_bytes (w :: 'a::len word)) = w"
  using unat_byte_width [OF assms, of w]
  by (simp add: from_be_bytes_def to_be_bytes_def be_nat_nat_bytes)

lemma from_to_le_bytes:
  assumes "8 dvd LENGTH('a)"
  shows "from_le_bytes (to_le_bytes (w :: 'a::len word)) = w"
  by (simp add: from_le_bytes_def to_le_bytes_def from_to_be_bytes [OF assms])

lemma to_from_be_bytes:
  assumes "8 dvd LENGTH('a)" "length bs = LENGTH('a) div 8"
  shows "to_be_bytes (from_be_bytes bs :: 'a::len word) = bs"
proof -
  have "(256 :: nat) ^ (LENGTH('a) div 8) = 2 ^ (8 * (LENGTH('a) div 8))"
    by (simp add: power_mult)
  also have "\<dots> = 2 ^ LENGTH('a)" using assms(1) by simp
  finally have "be_nat bs < 2 ^ LENGTH('a)"
    using be_nat_bound [of bs] assms(2) by simp
  then have "unat (from_be_bytes bs :: 'a word) = be_nat bs"
    by (simp add: from_be_bytes_def unat_of_nat_small)
  then show ?thesis
    by (simp add: to_be_bytes_def assms(2) [symmetric] nat_bytes_be_nat)
qed

lemma to_be_bytes_inject:
  assumes "8 dvd LENGTH('a)"
  shows "to_be_bytes (v :: 'a::len word) = to_be_bytes w \<longleftrightarrow> v = w"
  by (metis from_to_be_bytes [OF assms])

lemma to_le_bytes_inject:
  assumes "8 dvd LENGTH('a)"
  shows "to_le_bytes (v :: 'a::len word) = to_le_bytes w \<longleftrightarrow> v = w"
  by (simp add: to_le_bytes_def to_be_bytes_inject [OF assms])

section \<open>Fallible operations\<close>

text \<open>The \<open>?\<close> operator: go on with the value, or return the error.\<close>

fun bind_res :: "'e + 'a \<Rightarrow> ('a \<Rightarrow> 'e + 'b) \<Rightarrow> 'e + 'b" where
  "bind_res (Inl e) f = Inl e"
| "bind_res (Inr a) f = f a"

fun map_err :: "('e \<Rightarrow> 'f) \<Rightarrow> 'e + 'a \<Rightarrow> 'f + 'a" where
  "map_err g (Inl e) = Inl (g e)"
| "map_err g (Inr a) = Inr a"

fun is_ok :: "'e + 'a \<Rightarrow> bool" where
  "is_ok (Inl e) = False"
| "is_ok (Inr a) = True"

definition ok_or :: "'e \<Rightarrow> 'a option \<Rightarrow> 'e + 'a" where
  "ok_or e x = (case x of None \<Rightarrow> Inl e | Some a \<Rightarrow> Inr a)"

lemma bind_res_eq_Inr [simp]:
  "bind_res m f = Inr b \<longleftrightarrow> (\<exists>a. m = Inr a \<and> f a = Inr b)"
  by (cases m) auto

lemma bind_res_eq_Inl:
  "bind_res m f = Inl e \<longleftrightarrow> m = Inl e \<or> (\<exists>a. m = Inr a \<and> f a = Inl e)"
  by (cases m) auto

text \<open>
  The question mark in a function that may panic: \<open>None\<close> is the panic, and it ends the caller as well.
\<close>

fun bind_try :: "('e + 'a) option \<Rightarrow> ('a \<Rightarrow> ('e + 'b) option) \<Rightarrow> ('e + 'b) option" where
  "bind_try None f = None"
| "bind_try (Some (Inl e)) f = Some (Inl e)"
| "bind_try (Some (Inr a)) f = f a"

lemma bind_try_eq_Inr [simp]:
  "bind_try m f = Some (Inr b) \<longleftrightarrow> (\<exists>a. m = Some (Inr a) \<and> f a = Some (Inr b))"
  by (cases "(m, f)" rule: bind_try.cases) auto

fun returns :: "'a option \<Rightarrow> bool" where
  "returns None = False"
| "returns (Some x) = True"

lemma returns_iff: "returns m \<longleftrightarrow> m \<noteq> None"
  by (cases m) simp_all

lemma returns_map_option [simp]: "returns (map_option f m) \<longleftrightarrow> returns m"
  by (cases m) simp_all

lemma returns_bind_try [intro!]:
  assumes "returns m" "\<And>a. m = Some (Inr a) \<Longrightarrow> returns (f a)"
  shows "returns (bind_try m f)"
  using assms by (cases "(m, f)" rule: bind_try.cases) auto

lemma ok_or_eq_Inr [simp]: "ok_or e x = Inr a \<longleftrightarrow> x = Some a"
  by (auto simp: ok_or_def split: option.splits)

lemma ok_or_eq_Inl [simp]: "ok_or e x = Inl e' \<longleftrightarrow> x = None \<and> e' = e"
  by (auto simp: ok_or_def split: option.splits)

lemma ok_or_simps [simp]: "ok_or e None = Inl e" "ok_or e (Some a) = Inr a"
  by (simp_all add: ok_or_def)

subsection \<open>Loops that stop at the first error\<close>

text \<open>A loop with a result per item, without state and with one.\<close>

fun mapM_res :: "('a \<Rightarrow> 'e + 'b) \<Rightarrow> 'a list \<Rightarrow> 'e + 'b list" where
  "mapM_res f [] = Inr []"
| "mapM_res f (x # xs) = bind_res (f x) (\<lambda>y. bind_res (mapM_res f xs) (\<lambda>ys. Inr (y # ys)))"

fun bind_st :: "('e + 'a) \<times> 's \<Rightarrow> ('a \<Rightarrow> 's \<Rightarrow> ('e + 'b) \<times> 's) \<Rightarrow> ('e + 'b) \<times> 's" where
  "bind_st (Inl e, s) f = (Inl e, s)"
| "bind_st (Inr a, s) f = f a s"

fun mapM_st :: "('a \<Rightarrow> 's \<Rightarrow> ('e + 'b) \<times> 's) \<Rightarrow> 'a list \<Rightarrow> 's \<Rightarrow> ('e + 'b list) \<times> 's" where
  "mapM_st f [] s = (Inr [], s)"
| "mapM_st f (x # xs) s =
     bind_st (f x s) (\<lambda>y s1. bind_st (mapM_st f xs s1) (\<lambda>ys s2. (Inr (y # ys), s2)))"

text \<open>
  A stateful computation that keeps an invariant and answers like a pure one: the rule for
  memoised computations.
\<close>

definition answers :: "('s \<Rightarrow> bool) \<Rightarrow> 'r \<Rightarrow> 'r \<times> 's \<Rightarrow> bool" where
  "answers I r c \<longleftrightarrow> fst c = r \<and> I (snd c)"

lemma answersI [intro?]: "fst c = r \<Longrightarrow> I (snd c) \<Longrightarrow> answers I r c"
  by (simp add: answers_def)

lemma answersD: "answers I r c \<Longrightarrow> fst c = r" "answers I r c \<Longrightarrow> I (snd c)"
  by (simp_all add: answers_def)

lemma answers_bind:
  assumes "answers I r c" "\<And>a s. r = Inr a \<Longrightarrow> I s \<Longrightarrow> answers J (g a) (f a s)" "\<And>s. I s \<Longrightarrow> J s"
  shows "answers J (bind_res r g) (bind_st c f)"
  using assms by (cases c; cases "fst c") (auto simp: answers_def)

lemma answers_mapM:
  assumes "\<And>x s. x \<in> set xs \<Longrightarrow> I s \<Longrightarrow> answers I (g x) (f x s)" "I s"
  shows "answers I (mapM_res g xs) (mapM_st f xs s)"
  using assms
proof (induction xs arbitrary: s)
  case Nil
  then show ?case by (simp add: answers_def)
next
  case (Cons x xs)
  have "answers I (g x) (f x s)" using Cons.prems by simp
  moreover have "answers I (mapM_res g xs) (mapM_st f xs s')" if "I s'" for s'
    using Cons.IH Cons.prems(1) that by simp
  ultimately show ?case
    unfolding mapM_st.simps mapM_res.simps
    by (intro answers_bind [where I = I]) (simp_all add: answers_def)
qed

lemma bind_st_inv:
  "I (snd c) \<Longrightarrow> (\<And>a s. I s \<Longrightarrow> I (snd (f a s))) \<Longrightarrow> I (snd (bind_st c f))"
  by (cases c; cases "fst c") auto

lemma mapM_st_inv:
  "(\<And>x s. I s \<Longrightarrow> I (snd (f x s))) \<Longrightarrow> I s \<Longrightarrow> I (snd (mapM_st f xs s))"
proof (induction xs arbitrary: s)
  case (Cons x xs)
  have "I (snd (mapM_st f xs s'))" if "I s'" for s' using Cons.IH [OF Cons.prems(1) that] .
  then have "I (snd (bind_st (mapM_st f xs s') (\<lambda>ys s2. (Inr (y # ys), s2))))" if "I s'" for s' y
    using that by (intro bind_st_inv [where I = I]) simp_all
  then show ?case
    unfolding mapM_st.simps by (rule bind_st_inv [where I = I, OF Cons.prems(1) [OF Cons.prems(2)]])
qed simp

lemma mapM_res_cong: "(\<And>x. x \<in> set xs \<Longrightarrow> f x = g x) \<Longrightarrow> mapM_res f xs = mapM_res g xs"
  by (induction xs) simp_all

lemma mapM_res_Inr: "(\<And>x. x \<in> set xs \<Longrightarrow> f x = Inr (g x)) \<Longrightarrow> mapM_res f xs = Inr (map g xs)"
  by (induction xs) simp_all

section \<open>Chunks\<close>

text \<open>\<open>slice.chunks(n)\<close>: consecutive pieces of length \<open>n\<close>, the last one possibly shorter.\<close>

function chunks_of :: "nat \<Rightarrow> 'a list \<Rightarrow> 'a list list" where
  "chunks_of n xs = (if n = 0 \<or> xs = [] then [] else take n xs # chunks_of n (drop n xs))"
  by pat_completeness auto
termination
  by (relation "measure (\<lambda>(n, xs). length xs)") auto

declare chunks_of.simps [simp del]

lemma chunks_of_Nil [simp]: "chunks_of n [] = []"
  by (simp add: chunks_of.simps)

lemma concat_chunks_of: "0 < n \<Longrightarrow> concat (chunks_of n xs) = xs"
proof (induction n xs rule: chunks_of.induct)
  case (1 n xs)
  then show ?case by (cases "xs = []") (simp_all add: chunks_of.simps [of n xs])
qed

lemma length_chunks_of: "0 < n \<Longrightarrow> length (chunks_of n xs) = (length xs + n - 1) div n"
proof (induction n xs rule: chunks_of.induct)
  case (1 n xs)
  show ?case
  proof (cases "xs = []")
    case True
    with "1.prems" show ?thesis by simp
  next
    case False
    with 1 have "length (chunks_of n xs) = Suc ((length xs - n + n - 1) div n)"
      by (simp add: chunks_of.simps [of n xs])
    also have "\<dots> = (length xs + n - 1) div n"
    proof (cases "length xs \<le> n")
      case True
      moreover have "0 < length xs" using False by simp
      ultimately have "n \<le> length xs + n - 1" "length xs + n - 1 < n + n"
        using "1.prems" by linarith+
      then have "(length xs + n - 1) div n = 1" by (intro div_nat_eqI) simp_all
      with True "1.prems" show ?thesis by simp
    next
      case False
      then have "length xs + n - 1 = (length xs - n + n - 1) + n" by simp
      with "1.prems" show ?thesis by (metis add.commute div_add_self2 not_gr_zero plus_1_eq_Suc)
    qed
    finally show ?thesis .
  qed
qed

lemma chunks_of_all: "0 < n \<Longrightarrow> (\<forall>c \<in> set (chunks_of n xs). \<forall>x \<in> set c. P x) \<longleftrightarrow> (\<forall>x \<in> set xs. P x)"
  using concat_chunks_of [of n xs] by (metis (no_types, lifting) UN_iff set_concat)

text \<open>An iteration of a hash set or a hash map visits every key once, in some order.\<close>

definition enumerates :: "('a fset \<Rightarrow> 'a list) \<Rightarrow> bool" where
  "enumerates it \<longleftrightarrow> (\<forall>S. set (it S) = fset S \<and> distinct (it S))"

section \<open>Sorted vectors of finite sets\<close>

text \<open>\<open>set.iter().cloned().collect::<Vec<_>>()\<close> followed by \<open>sort\<close>.\<close>

lemma distinct_sorted_list_of_fset [simp]: "distinct (sorted_list_of_fset A)"
  by (simp add: sorted_list_of_fset.rep_eq)

lemma sorted_sorted_list_of_fset [simp]: "sorted (sorted_list_of_fset A)"
  by (simp add: sorted_list_of_fset.rep_eq)

lemma length_sorted_list_of_fset [simp]: "length (sorted_list_of_fset A) = fcard A"
  by (simp add: sorted_list_of_fset.rep_eq fcard.rep_eq)

lemma sorted_list_of_fset_unique:
  "sorted xs \<Longrightarrow> distinct xs \<Longrightarrow> fset_of_list xs = A \<Longrightarrow> sorted_list_of_fset A = xs"
  by (auto simp: sorted_list_of_fset.rep_eq fset_of_list.rep_eq
      intro: sorted_distinct_set_unique)

lemma sorted_list_of_fset_Nil [simp]: "sorted_list_of_fset A = [] \<longleftrightarrow> A = {||}"
  by (metis length_0_conv length_sorted_list_of_fset fcard_0_eq)

lemma sorted_list_of_fset_empty [simp]: "sorted_list_of_fset {||} = []"
  by simp

section \<open>Sorting and maxima by a comparison\<close>

text \<open>
  \<open>slice.sort_by(cmp)\<close> is stable; here \<open>le a b\<close> reads \<open>cmp(a, b) != Greater\<close>. The order
  need only be total and transitive on the elements.
\<close>

fun insert_by :: "('a \<Rightarrow> 'a \<Rightarrow> bool) \<Rightarrow> 'a \<Rightarrow> 'a list \<Rightarrow> 'a list" where
  "insert_by le x [] = [x]"
| "insert_by le x (y # ys) = (if le x y then x # y # ys else y # insert_by le x ys)"

definition sort_by :: "('a \<Rightarrow> 'a \<Rightarrow> bool) \<Rightarrow> 'a list \<Rightarrow> 'a list" where
  "sort_by le xs = foldr (insert_by le) xs []"

lemma mset_insert_by [simp]: "mset (insert_by le x ys) = add_mset x (mset ys)"
  by (induction ys) auto

lemma mset_sort_by [simp]: "mset (sort_by le xs) = mset xs"
  by (induction xs) (simp_all add: sort_by_def)

lemma set_sort_by [simp]: "set (sort_by le xs) = set xs"
  by (metis mset_sort_by set_mset_mset)

lemma length_sort_by [simp]: "length (sort_by le xs) = length xs"
  by (metis mset_sort_by size_mset)

lemma distinct_sort_by [simp]: "distinct (sort_by le xs) = distinct xs"
  by (metis mset_sort_by mset_eq_imp_distinct_iff)

lemma sort_by_Nil [simp]: "sort_by le xs = [] \<longleftrightarrow> xs = []"
  by (metis length_0_conv length_sort_by)

text \<open>
  What \<open>sort_by\<close> relies on: the comparison is total and transitive (the contract of Rust's
  \<open>Ord\<close>). Each comparison of the code interprets this locale.
\<close>

locale comparison =
  fixes le :: "'a \<Rightarrow> 'a \<Rightarrow> bool"
  assumes le_total: "le a b \<or> le b a"
    and le_trans: "le a b \<Longrightarrow> le b c \<Longrightarrow> le a c"
begin

lemma sorted_insert_by: "sorted_wrt le ys \<Longrightarrow> sorted_wrt le (insert_by le x ys)"
proof (induction ys)
  case Nil
  show ?case by simp
next
  case (Cons y ys)
  have "set (insert_by le x ys) = insert x (set ys)"
    by (metis mset_insert_by set_mset_mset set_mset_add_mset_insert)
  with Cons show ?case using le_total by (auto intro: le_trans)
qed

lemma sorted_sort_by: "sorted_wrt le (sort_by le xs)"
  by (induction xs) (simp_all add: sort_by_def sorted_insert_by)

lemma hd_sort_by:
  assumes "x \<in> set xs"
  shows "le (hd (sort_by le xs)) x"
proof -
  from assms have x: "x \<in> set (sort_by le xs)" by simp
  then obtain y ys where "sort_by le xs = y # ys" by (cases "sort_by le xs") auto
  with sorted_sort_by [of xs] x le_total show ?thesis by auto
qed

end

text \<open>\<open>iter.max_by(cmp)\<close>: of two equal elements the later one; \<open>gt a b\<close> reads \<open>cmp(a, b) == Greater\<close>.\<close>

fun max_by :: "('a \<Rightarrow> 'a \<Rightarrow> bool) \<Rightarrow> 'a list \<Rightarrow> 'a option" where
  "max_by gt [] = None"
| "max_by gt (x # xs) = Some (foldl (\<lambda>m y. if gt m y then m else y) x xs)"

lemma max_by_Some:
  assumes "\<And>a b c. \<not> gt a b \<Longrightarrow> \<not> gt b c \<Longrightarrow> \<not> gt a c" "\<And>a b. gt a b \<Longrightarrow> \<not> gt b a" "\<And>a. \<not> gt a a"
    and "max_by gt xs = Some m"
  shows "m \<in> set xs \<and> (\<forall>x \<in> set xs. \<not> gt x m)"
proof -
  let ?F = "foldl (\<lambda>m y. if gt m y then m else y)"
  have "?F x ys \<in> insert x (set ys) \<and> (\<forall>z \<in> insert x (set ys). \<not> gt z (?F x ys))" for x ys
  proof (induction ys arbitrary: x)
    case Nil
    show ?case by (simp add: assms(3))
  next
    case (Cons y ys)
    show ?case
    proof (cases "gt x y")
      case True
      with Cons.IH [of x] assms(1) [of y x "?F x ys"] assms(2) [OF True] show ?thesis by auto
    next
      case False
      with Cons.IH [of y] assms(1) [of x y "?F y ys"] show ?thesis by auto
    qed
  qed
  with assms(4) show ?thesis by (cases xs) auto
qed

end
