(* ===== verification/Core_Types.thy ===== *)
theory Core_Types
  imports Klomang_Prelude
begin

text \<open>
  The types every component shares: the 32-byte hash of \<open>src/core/crypto/hash.rs\<close>, the
  error type of \<open>src/core/errors.rs\<close>, and the configuration of \<open>src/core/config.rs\<close>.

  A Rust \<open>[u8; 32]\<close> is a 256-bit word read big-endian (\<open>bytes32\<close>), so that every value of
  the type is a value of the program and the derived, lexicographic order of the code is
  the order on words (\<open>hash_less_iff_bytes\<close>). BLAKE3 is a third-party function: it is the
  parameter \<open>H\<close> of every definition that hashes.

  Error payloads keep the fixed text of the code's message up to its first formatted value;
  the formatted values themselves (hashes, heights) are display text and are left out.
\<close>

section \<open>Hashes\<close>

type_synonym bytes32 = "256 word"
type_synonym blake3 = "bytes \<Rightarrow> bytes32"

datatype hash = Hash (as_bytes: bytes32)

definition hash_new :: "blake3 \<Rightarrow> bytes \<Rightarrow> hash" where
  "hash_new H data = Hash (H data)"

definition hash_from_bytes :: "bytes32 \<Rightarrow> hash" where
  "hash_from_bytes b = Hash b"

text \<open>The array as the slice that \<open>extend_from_slice\<close> and \<open>to_vec\<close> see.\<close>

abbreviation array_bytes :: "bytes32 \<Rightarrow> bytes" where
  "array_bytes b \<equiv> to_be_bytes b"

abbreviation hash_bytes :: "hash \<Rightarrow> bytes" where
  "hash_bytes h \<equiv> to_be_bytes (as_bytes h)"

text \<open>\<open>str::as_bytes\<close>.\<close>

definition str_bytes :: "string \<Rightarrow> bytes" where
  "str_bytes s = map of_char s"

instantiation hash :: linorder
begin

definition less_eq_hash :: "hash \<Rightarrow> hash \<Rightarrow> bool" where
  "less_eq_hash a b \<longleftrightarrow> as_bytes a \<le> as_bytes b"

definition less_hash :: "hash \<Rightarrow> hash \<Rightarrow> bool" where
  "less_hash a b \<longleftrightarrow> as_bytes a < as_bytes b"

instance
proof
  fix x y z :: hash
  show "x < y \<longleftrightarrow> x \<le> y \<and> \<not> y \<le> x"
    by (auto simp: less_eq_hash_def less_hash_def)
  show "x \<le> x" by (simp add: less_eq_hash_def)
  show "x \<le> z" if "x \<le> y" "y \<le> z" using that by (simp add: less_eq_hash_def)
  show "x = y" if "x \<le> y" "y \<le> x" using that by (simp add: less_eq_hash_def hash.expand)
  show "x \<le> y \<or> y \<le> x" by (auto simp: less_eq_hash_def)
qed

end

lemma hash_le_simp [simp]: "Hash a \<le> Hash b \<longleftrightarrow> a \<le> b"
  by (simp add: less_eq_hash_def)

lemma hash_less_simp [simp]: "Hash a < Hash b \<longleftrightarrow> a < b"
  by (simp add: less_hash_def)

lemma hash_bytes_inject [simp]: "hash_bytes a = hash_bytes b \<longleftrightarrow> a = b"
  by (cases a; cases b) (simp add: to_be_bytes_inject)

lemma bytes32_less_iff_bytes:
  "(a :: bytes32) < b \<longleftrightarrow> ord_class.lexordp (to_be_bytes a) (to_be_bytes b)"
proof -
  have "be_nat (to_be_bytes a) = unat a" for a :: bytes32
    using unat_byte_width [of a] by (simp add: to_be_bytes_def be_nat_nat_bytes)
  then show ?thesis
    using be_nat_less_iff_lex [of "to_be_bytes a" "to_be_bytes b"]
    by (simp add: word_less_nat_alt)
qed

text \<open>The derived order of the code: lexicographic on the 32 bytes.\<close>

lemma hash_less_iff_bytes: "a < b \<longleftrightarrow> ord_class.lexordp (hash_bytes a) (hash_bytes b)"
  by (simp add: less_hash_def bytes32_less_iff_bytes)

section \<open>Errors\<close>

datatype core_error =
    BlockNotFound
  | InvalidParent
  | DuplicateBlock
  | ConsensusError string
  | TransactionError string
  | InvalidSignature
  | InvalidPublicKey
  | SignatureVerificationFailed
  | ConfigError string
  | SerializationError string
  | PolynomialCommitmentError string
  | CryptographicError string
  | StorageError string
  | PrunedData string
  | InvalidState string

fun show_core_error :: "core_error \<Rightarrow> string" where
  "show_core_error BlockNotFound = ''Block not found''"
| "show_core_error InvalidParent = ''Invalid parent''"
| "show_core_error DuplicateBlock = ''Duplicate block''"
| "show_core_error (ConsensusError msg) = ''Consensus error: '' @ msg"
| "show_core_error (TransactionError msg) = ''Transaction error: '' @ msg"
| "show_core_error InvalidSignature = ''Invalid signature''"
| "show_core_error InvalidPublicKey = ''Invalid public key''"
| "show_core_error SignatureVerificationFailed = ''Signature verification failed''"
| "show_core_error (ConfigError msg) = ''Config error: '' @ msg"
| "show_core_error (SerializationError msg) = ''Serialization error: '' @ msg"
| "show_core_error (PolynomialCommitmentError msg) = ''Polynomial commitment error: '' @ msg"
| "show_core_error (CryptographicError msg) = ''Cryptographic error: '' @ msg"
| "show_core_error (StorageError msg) = ''Storage error: '' @ msg"
| "show_core_error (PrunedData msg) = ''Pruned data access error: '' @ msg"
| "show_core_error (InvalidState msg) = ''Invalid state: '' @ msg"

section \<open>Configuration\<close>

record config =
  network :: string
  data_dir :: string
  max_block_weight :: u64
  mempool_max_size :: nat
  cfg_block_reward :: u64
  cfg_k :: nat
  target_block_time :: u64
  finality_depth :: nat

definition config_default :: config where
  "config_default =
     \<lparr>network = ''mainnet'', data_dir = ''./data'', max_block_weight = 4000000,
      mempool_max_size = 10000, cfg_block_reward = 100, cfg_k = 18,
      target_block_time = 1, finality_depth = 100\<rparr>"

definition load_config :: "string \<Rightarrow> core_error + config" where
  "load_config path = Inr config_default"

end
