(* ===== verification/Transaction.thy ===== *)
theory Transaction
  imports Core_Types
begin

text \<open>
  Transactions (\<open>src/core/state/transaction.rs\<close>) and access sets
  (\<open>src/core/state/access_set.rs\<close>): the data, the transaction id, the key of an output in
  the state tree, the access set a transaction declares to the scheduler, and the byte
  encoding of an output with its round trip.

  The WASM parse in \<open>analyze_execution_payload\<close> only fills local variables that the
  function never reads, so the model is the byte scan that follows it.
\<close>

section \<open>Data\<close>

datatype sighash_type = SigHash_All | SigHash_None | SigHash_Single

fun sighash_from_u8 :: "u8 \<Rightarrow> sighash_type option" where
  "sighash_from_u8 b =
     (if b = 1 then Some SigHash_All
      else if b = 2 then Some SigHash_None
      else if b = 3 then Some SigHash_Single
      else None)"

fun sighash_as_u8 :: "sighash_type \<Rightarrow> u8" where
  "sighash_as_u8 SigHash_All = 1"
| "sighash_as_u8 SigHash_None = 2"
| "sighash_as_u8 SigHash_Single = 3"

record tx_input =
  prev_tx :: hash
  in_index :: u32
  in_signature :: bytes
  in_pubkey :: bytes
  in_sighash_type :: sighash_type

record tx_output =
  out_value :: u64
  pubkey_hash :: hash

record transaction =
  tx_id :: hash
  inputs :: "tx_input list"
  outputs :: "tx_output list"
  execution_payload :: bytes
  contract_address :: "bytes32 option"
  gas_limit :: u64
  max_fee_per_gas :: u128
  chain_id :: u32
  locktime :: u32

record access_set =
  read_set :: "bytes32 fset"
  write_set :: "bytes32 fset"

section \<open>Transaction identity\<close>

definition input_id_bytes :: "tx_input \<Rightarrow> bytes" where
  "input_id_bytes i =
     hash_bytes (prev_tx i) @ to_be_bytes (in_index i) @ in_pubkey i
       @ [sighash_as_u8 (in_sighash_type i)]"

definition output_bytes :: "tx_output \<Rightarrow> bytes" where
  "output_bytes out = to_be_bytes (out_value out) @ hash_bytes (pubkey_hash out)"

definition calculate_id :: "blake3 \<Rightarrow> transaction \<Rightarrow> hash" where
  "calculate_id H tx =
     hash_new H
       (to_be_bytes (chain_id tx) @ concat (map input_id_bytes (inputs tx))
         @ concat (map output_bytes (outputs tx)) @ to_be_bytes (locktime tx))"

definition transaction_default :: "blake3 \<Rightarrow> transaction" where
  "transaction_default H =
     \<lparr>tx_id = hash_new H [], inputs = [], outputs = [], execution_payload = [],
      contract_address = None, gas_limit = 0, max_fee_per_gas = 0, chain_id = 1, locktime = 0\<rparr>"

definition transaction_new :: "blake3 \<Rightarrow> tx_input list \<Rightarrow> tx_output list \<Rightarrow> transaction" where
  "transaction_new H ins outs =
     (let tx = (transaction_default H)\<lparr>inputs := ins, outputs := outs\<rparr>
      in tx\<lparr>tx_id := calculate_id H tx\<rparr>)"

definition is_coinbase :: "transaction \<Rightarrow> bool" where
  "is_coinbase tx \<longleftrightarrow> inputs tx = []"

definition hash_with_index :: "blake3 \<Rightarrow> transaction \<Rightarrow> u32 \<Rightarrow> bytes32" where
  "hash_with_index H tx i = as_bytes (hash_new H (hash_bytes (tx_id tx) @ to_be_bytes i))"

section \<open>Access sets\<close>

definition access_set_new :: access_set where
  "access_set_new = \<lparr>read_set = {||}, write_set = {||}\<rparr>"

definition has_conflict :: "access_set \<Rightarrow> access_set \<Rightarrow> bool" where
  "has_conflict a b \<longleftrightarrow>
     write_set a |\<inter>| read_set b \<noteq> {||} \<or>
     write_set a |\<inter>| write_set b \<noteq> {||} \<or>
     write_set b |\<inter>| read_set a \<noteq> {||}"

definition access_merge :: "access_set \<Rightarrow> access_set \<Rightarrow> access_set" where
  "access_merge a b =
     \<lparr>read_set = read_set a |\<union>| read_set b, write_set = write_set a |\<union>| write_set b\<rparr>"

text \<open>\<open>(0..n).step_by(8)\<close>.\<close>

definition step_by_8 :: "nat \<Rightarrow> nat list" where
  "step_by_8 n = map (\<lambda>k. 8 * k) [0..<(n + 7) div 8]"

definition payload_slot :: "bytes \<Rightarrow> nat \<Rightarrow> bytes32" where
  "payload_slot payload i = from_be_bytes (take 32 (drop i payload))"

definition add_slot :: "bytes32 \<Rightarrow> access_set \<Rightarrow> access_set" where
  "add_slot slot a =
     (if slot \<noteq> 0 \<and> slot \<noteq> - 1
      then a\<lparr>read_set := finsert slot (read_set a), write_set := finsert slot (write_set a)\<rparr>
      else a)"

definition analyze_execution_payload :: "blake3 \<Rightarrow> bytes \<Rightarrow> access_set" where
  "analyze_execution_payload H payload =
     (let a = (if length payload \<ge> 8
               then fold (\<lambda>i. add_slot (payload_slot payload i))
                      (step_by_8 (length payload - 32)) access_set_new
               else access_set_new)
      in if read_set a = {||} \<and> write_set a = {||}
         then a\<lparr>write_set := finsert (as_bytes (hash_new H payload)) (write_set a)\<rparr>
         else a)"

definition index_keys :: "blake3 \<Rightarrow> transaction \<Rightarrow> nat \<Rightarrow> bytes32 fset" where
  "index_keys H tx n = fset_of_list (map (\<lambda>i. hash_with_index H tx (word_of_nat i)) [0..<n])"

definition generate_access_set :: "blake3 \<Rightarrow> transaction \<Rightarrow> access_set" where
  "generate_access_set H tx =
     (let a = \<lparr>read_set = index_keys H tx (length (inputs tx)),
               write_set = index_keys H tx (length (outputs tx))\<rparr>
      in case contract_address tx of
           None \<Rightarrow> a
         | Some addr \<Rightarrow>
             access_merge (a\<lparr>write_set := finsert addr (write_set a)\<rparr>)
               (analyze_execution_payload H (execution_payload tx)))"

section \<open>Output encoding\<close>

definition output_serialize :: "tx_output \<Rightarrow> bytes" where
  "output_serialize out = to_be_bytes (out_value out) @ hash_bytes (pubkey_hash out)"

definition output_deserialize :: "bytes \<Rightarrow> string + tx_output" where
  "output_deserialize bs =
     (if length bs \<noteq> 8 + 32 then Inl ''Invalid length for TxOutput''
      else Inr \<lparr>out_value = from_be_bytes (take 8 bs),
                pubkey_hash = hash_from_bytes (from_be_bytes (take 32 (drop 8 bs)))\<rparr>)"

section \<open>Lemmas\<close>

lemma sighash_roundtrip [simp]: "sighash_from_u8 (sighash_as_u8 t) = Some t"
  by (cases t) simp_all

lemma sighash_from_u8_Some: "sighash_from_u8 b = Some t \<Longrightarrow> sighash_as_u8 t = b"
  by (auto split: if_splits)

lemma length_output_serialize [simp, enc_len]: "length (output_serialize out) = 40"
  by (simp add: output_serialize_def)

lemma output_deserialize_serialize [simp]: "output_deserialize (output_serialize out) = Inr out"
proof -
  have "take 8 (output_serialize out) = to_be_bytes (out_value out)"
    and "take 32 (drop 8 (output_serialize out)) = hash_bytes (pubkey_hash out)"
    by (simp_all add: output_serialize_def)
  then show ?thesis
    by (cases out) (simp add: output_deserialize_def from_to_be_bytes hash_from_bytes_def)
qed

lemma output_serialize_deserialize:
  assumes "output_deserialize bs = Inr out"
  shows "output_serialize out = bs"
proof -
  from assms have len: "length bs = 40"
    by (simp add: output_deserialize_def split: if_splits)
  with assms have out: "out = \<lparr>out_value = from_be_bytes (take 8 bs),
      pubkey_hash = Hash (from_be_bytes (drop 8 bs))\<rparr>"
    by (simp add: output_deserialize_def hash_from_bytes_def)
  have "to_be_bytes (from_be_bytes (take 8 bs) :: u64) = take 8 bs"
    and "to_be_bytes (from_be_bytes (drop 8 bs) :: bytes32) = drop 8 bs"
    using len by (simp_all add: to_from_be_bytes)
  then show ?thesis by (simp add: out output_serialize_def)
qed

lemma output_serialize_inject: "output_serialize a = output_serialize b \<longleftrightarrow> a = b"
  by (metis output_deserialize_serialize sum.inject(2))

lemma transaction_new_fields [simp]:
  "inputs (transaction_new H ins outs) = ins"
  "outputs (transaction_new H ins outs) = outs"
  "execution_payload (transaction_new H ins outs) = []"
  "contract_address (transaction_new H ins outs) = None"
  "gas_limit (transaction_new H ins outs) = 0"
  "max_fee_per_gas (transaction_new H ins outs) = 0"
  "chain_id (transaction_new H ins outs) = 1"
  "locktime (transaction_new H ins outs) = 0"
  by (simp_all add: transaction_new_def transaction_default_def Let_def)

text \<open>A transaction built by the constructor carries the id that block validation expects.\<close>

lemma transaction_new_id:
  "tx_id (transaction_new H ins outs) = calculate_id H (transaction_new H ins outs)"
  by (simp add: transaction_new_def transaction_default_def calculate_id_def Let_def)

text \<open>The fields the id does not commit to.\<close>

lemma calculate_id_frame [frames]:
  "calculate_id H (tx\<lparr>tx_id := i\<rparr>) = calculate_id H tx"
  "calculate_id H (tx\<lparr>execution_payload := p\<rparr>) = calculate_id H tx"
  "calculate_id H (tx\<lparr>contract_address := a\<rparr>) = calculate_id H tx"
  "calculate_id H (tx\<lparr>gas_limit := g\<rparr>) = calculate_id H tx"
  "calculate_id H (tx\<lparr>max_fee_per_gas := f\<rparr>) = calculate_id H tx"
  by (simp_all add: calculate_id_def)

lemma calculate_id_signatures [frames]:
  "calculate_id H (tx\<lparr>inputs := map (in_signature_update f) (inputs tx)\<rparr>) = calculate_id H tx"
proof -
  have "input_id_bytes \<circ> in_signature_update f = input_id_bytes"
    by (simp add: fun_eq_iff input_id_bytes_def)
  then show ?thesis by (simp add: calculate_id_def)
qed

subsection \<open>Access sets\<close>

lemma has_conflict_sym: "has_conflict a b \<longleftrightarrow> has_conflict b a"
  by (auto simp: has_conflict_def)

lemma has_conflict_new [simp]: "\<not> has_conflict access_set_new a" "\<not> has_conflict a access_set_new"
  by (auto simp: has_conflict_def access_set_new_def)

lemma has_conflict_merge:
  "has_conflict (access_merge a b) c \<longleftrightarrow> has_conflict a c \<or> has_conflict b c"
  by (auto simp: has_conflict_def access_merge_def)

lemma has_conflict_merge_right:
  "has_conflict c (access_merge a b) \<longleftrightarrow> has_conflict c a \<or> has_conflict c b"
  by (auto simp: has_conflict_def access_merge_def)

lemma access_merge_new [simp]: "access_merge access_set_new a = a"
  by (simp add: access_merge_def access_set_new_def)

lemma has_conflict_self: "has_conflict a a \<longleftrightarrow> write_set a \<noteq> {||}"
  by (auto simp: has_conflict_def)

lemma has_conflict_write:
  "x |\<in>| write_set a \<Longrightarrow> x |\<in>| write_set b \<or> x |\<in>| read_set b \<Longrightarrow> has_conflict a b"
  by (auto simp: has_conflict_def)

lemma contract_address_written:
  "contract_address tx = Some addr \<Longrightarrow> addr |\<in>| write_set (generate_access_set H tx)"
  by (simp add: generate_access_set_def access_merge_def Let_def)

lemma index_keys_iff:
  "k |\<in>| index_keys H tx n \<longleftrightarrow> (\<exists>i<n. k = hash_with_index H tx (word_of_nat i))"
  by (auto simp: index_keys_def fset_of_list_elem)

lemma generate_access_set_utxo:
  assumes "contract_address tx = None"
  shows "read_set (generate_access_set H tx) = index_keys H tx (length (inputs tx))"
    and "write_set (generate_access_set H tx) = index_keys H tx (length (outputs tx))"
  using assms by (simp_all add: generate_access_set_def Let_def)

section \<open>Properties\<close>

text \<open>
  The byte encoding of an output and its decoder are inverse to each other: the decoder
  accepts exactly the encodings, and returns the output they encode.
\<close>

theorem output_encoding_exact: "output_deserialize bs = Inr out \<longleftrightarrow> output_serialize out = bs"
  using output_serialize_deserialize by auto

text \<open>
  The id of a transaction, which block validation recomputes, commits to neither the
  contract call nor its gas terms: payload, address, gas limit and gas price can be replaced
  without changing the id.
\<close>

theorem id_ignores_execution:
  "calculate_id H (tx\<lparr>execution_payload := p, contract_address := a, gas_limit := g,
     max_fee_per_gas := f\<rparr>) = calculate_id H tx"
  by (simp only: frames)

end
