(* ===== verification/Schnorr.thy ===== *)
theory Schnorr
  imports Transaction "HOL-Library.Multiset"
begin

text \<open>
  The signing side of \<open>src/core/crypto/schnorr.rs\<close>: domain-separated hashing, the message
  a transaction input signs, single and batch verification.

  The curve operations of the \<open>k256\<close> crate are parameters, collected in the record
  \<open>crypto\<close> together with BLAKE3. Its conversions from slices have three outcomes: \<open>None\<close> is a
  panic, \<open>Some None\<close> the error, \<open>Some (Some v)\<close> the value; the law \<open>conversions_return\<close> names the
  lengths at which they do not panic. A function that converts returns \<open>None\<close> when it panics. An
  incremental BLAKE3 hasher hashes the concatenation of what it was fed. Batch verification hands
  chunks to threads and reads the verdicts in the order they arrive: that order is the parameter \<open>arrival\<close>.
\<close>

section \<open>Parameters for third-party code\<close>

record ('vk, 'sig) crypto =
  blake3_hash :: blake3
  vk_from_bytes :: "bytes \<Rightarrow> 'vk option option"
  sig_try_from :: "bytes \<Rightarrow> 'sig option option"
  vk_verify :: "'vk \<Rightarrow> bytes \<Rightarrow> 'sig \<Rightarrow> bool"

text \<open>
  k256 reads a public key as the 32 bytes of an x-coordinate and splits a signature after 32 bytes;
  slices for which this is possible are converted or refused, others panic.
\<close>

definition conversions_return :: "('vk, 'sig) crypto \<Rightarrow> bool" where
  "conversions_return E \<longleftrightarrow>
     (\<forall>bs. length bs = 32 \<longrightarrow> returns (vk_from_bytes E bs)) \<and>
     (\<forall>bs. 32 \<le> length bs \<longrightarrow> returns (sig_try_from E bs))"

lemma conversions_returnD:
  assumes "conversions_return E"
  shows "length bs = 32 \<Longrightarrow> returns (vk_from_bytes E bs)" "32 \<le> length bs \<Longrightarrow> returns (sig_try_from E bs)"
  using assms by (auto simp: conversions_return_def)

section \<open>Messages\<close>

definition TAG_TX_SIGN :: string where
  "TAG_TX_SIGN = ''KLOMANG_TX_V1''"

definition tagged_hash :: "blake3 \<Rightarrow> string \<Rightarrow> bytes \<Rightarrow> bytes32" where
  "tagged_hash H tag data =
     (let tag_hash = array_bytes (H (str_bytes tag)) in H (tag_hash @ tag_hash @ data))"

definition sighash_input_bytes :: "nat \<Rightarrow> nat \<times> tx_input \<Rightarrow> bytes" where
  "sighash_input_bytes input_index = (\<lambda>(idx, input).
     if idx = input_index then in_pubkey input
     else hash_bytes (prev_tx input) @ to_be_bytes (in_index input))"

definition sighash_inputs :: "transaction \<Rightarrow> nat \<Rightarrow> bytes" where
  "sighash_inputs tx input_index =
     concat (map (sighash_input_bytes input_index) (List.enumerate 0 (inputs tx)))"

definition serialize_tx_for_sighash :: "transaction \<Rightarrow> nat \<Rightarrow> sighash_type \<Rightarrow> bytes" where
  "serialize_tx_for_sighash tx input_index sighash =
     to_be_bytes (chain_id tx)
     @ (case sighash of
          SigHash_All \<Rightarrow>
            sighash_inputs tx input_index @ concat (map output_bytes (outputs tx))
        | SigHash_None \<Rightarrow> sighash_inputs tx input_index
        | SigHash_Single \<Rightarrow>
            sighash_inputs tx input_index
            @ (if input_index < length (outputs tx)
               then output_bytes (outputs tx ! input_index) else []))
     @ to_be_bytes (locktime tx)"

definition compute_sighash ::
    "blake3 \<Rightarrow> transaction \<Rightarrow> nat \<Rightarrow> sighash_type \<Rightarrow> core_error + bytes32" where
  "compute_sighash H tx input_index sighash =
     Inr (tagged_hash H TAG_TX_SIGN (serialize_tx_for_sighash tx input_index sighash))"

section \<open>Verification\<close>

definition schnorr_verify :: "('vk, 'sig) crypto \<Rightarrow> 'vk \<Rightarrow> bytes \<Rightarrow> 'sig \<Rightarrow> bool" where
  "schnorr_verify E pubkey msg signature = vk_verify E pubkey msg signature"

definition verify_schnorr ::
    "('vk, 'sig) crypto \<Rightarrow> bytes32 \<Rightarrow> bytes \<Rightarrow> bytes \<Rightarrow> (core_error + bool) option" where
  "verify_schnorr E pubkey_bytes sig_bytes msg =
     bind_try (map_option (ok_or InvalidPublicKey) (vk_from_bytes E (array_bytes pubkey_bytes))) (\<lambda>pubkey.
       if length sig_bytes \<noteq> 64 then Some (Inl InvalidSignature)
       else bind_try (map_option (ok_or InvalidSignature) (sig_try_from E sig_bytes)) (\<lambda>sig.
              Some (Inr (vk_verify E pubkey
                (array_bytes (tagged_hash (blake3_hash E) TAG_TX_SIGN msg)) sig))))"

type_synonym ('vk, 'sig) sig_item = "'vk \<times> bytes32 \<times> 'sig"

definition item_valid :: "('vk, 'sig) crypto \<Rightarrow> ('vk, 'sig) sig_item \<Rightarrow> bool" where
  "item_valid E = (\<lambda>(pubkey, msg, sig). vk_verify E pubkey (array_bytes msg) sig)"

text \<open>The sequential loop: stop at the first invalid item.\<close>

fun all_items_valid :: "('vk, 'sig) crypto \<Rightarrow> ('vk, 'sig) sig_item list \<Rightarrow> bool" where
  "all_items_valid E [] = True"
| "all_items_valid E (item # items) = (if \<not> item_valid E item then False else all_items_valid E items)"

text \<open>The receiver: stop at the first negative verdict.\<close>

fun collect_verdicts :: "bool list \<Rightarrow> bool" where
  "collect_verdicts [] = True"
| "collect_verdicts (v # vs) = (if \<not> v then False else collect_verdicts vs)"

definition batch_verify ::
    "('vk, 'sig) crypto \<Rightarrow> (bool list \<Rightarrow> bool list) \<Rightarrow> ('vk, 'sig) sig_item list
       \<Rightarrow> core_error + bool" where
  "batch_verify E arrival items =
     (if items = [] then Inr True
      else let chunks = chunks_of 10 items
           in if length chunks = 1 then Inr (all_items_valid E items)
              else Inr (collect_verdicts (arrival (map (all_items_valid E) chunks))))"

section \<open>Lemmas\<close>

text \<open>The lengths \<open>verify_schnorr\<close> passes on are those the conversions take.\<close>

lemma verify_schnorr_returns:
  assumes "conversions_return E"
  shows "returns (verify_schnorr E pubkey_bytes sig_bytes msg)"
  unfolding verify_schnorr_def by (auto simp: conversions_returnD [OF assms])

lemma all_items_valid_iff: "all_items_valid E items \<longleftrightarrow> (\<forall>i \<in> set items. item_valid E i)"
  by (induction items) auto

lemma collect_verdicts_iff: "collect_verdicts vs \<longleftrightarrow> False \<notin> set vs"
  by (induction vs) auto

lemma batch_verify_all:
  assumes "mset (arrival (map (all_items_valid E) (chunks_of 10 items)))
         = mset (map (all_items_valid E) (chunks_of 10 items))"
  shows "batch_verify E arrival items = Inr (\<forall>i \<in> set items. item_valid E i)"
proof -
  have "set (arrival (map (all_items_valid E) (chunks_of 10 items)))
      = all_items_valid E ` set (chunks_of 10 items)"
    using mset_eq_setD [OF assms] by simp
  then have "collect_verdicts (arrival (map (all_items_valid E) (chunks_of 10 items)))
      \<longleftrightarrow> (\<forall>c \<in> set (chunks_of 10 items). \<forall>i \<in> set c. item_valid E i)"
    by (auto simp: collect_verdicts_iff all_items_valid_iff image_iff)
  then show ?thesis
    by (simp add: batch_verify_def Let_def all_items_valid_iff chunks_of_all)
qed

text \<open>The signed input contributes its public key only, so its own outpoint is not signed.\<close>

lemma sighash_inputs_own_outpoint:
  assumes "j < length (inputs tx)"
  shows "sighash_inputs
           (tx\<lparr>inputs := (inputs tx)[j := (inputs tx ! j)\<lparr>prev_tx := p, in_index := i\<rparr>]\<rparr>) j
       = sighash_inputs tx j"
proof -
  let ?xs = "inputs tx"
  let ?ys = "?xs[j := (?xs ! j)\<lparr>prev_tx := p, in_index := i\<rparr>]"
  have "map (sighash_input_bytes j) (List.enumerate 0 ?ys)
      = map (sighash_input_bytes j) (List.enumerate 0 ?xs)"
    using assms
    by (intro nth_equalityI)
      (auto simp: nth_enumerate_eq sighash_input_bytes_def nth_list_update)
  then show ?thesis by (simp add: sighash_inputs_def)
qed

section \<open>Properties\<close>

text \<open>
  Batch verification accepts exactly the batches whose every item verifies, whatever
  the order in which the worker threads deliver the verdicts of their chunks.
\<close>

theorem batch_verify_exact:
  assumes "mset (arrival (map (all_items_valid E) (chunks_of 10 items)))
         = mset (map (all_items_valid E) (chunks_of 10 items))"
  shows "batch_verify E arrival items = Inr (\<forall>i \<in> set items. item_valid E i)"
  using assms by (rule batch_verify_all)

definition sample_crypto :: "(bytes, bool) crypto" where
  "sample_crypto = \<lparr>blake3_hash = (\<lambda>_. 7), vk_from_bytes = (\<lambda>bs. if length bs = 32 then Some (Some bs) else None),
     sig_try_from = (\<lambda>bs. if length bs < 32 then None else Some (Some (take 1 bs = [1]))), vk_verify = (\<lambda>vk msg sig. sig)\<rparr>"

theorem batch_verify_exact_witness:
  "batch_verify sample_crypto rev (replicate 10 ([], 0, True) @ [([], 0, False)]) = Inr False"
  using batch_verify_exact [of rev sample_crypto "replicate 10 ([], 0, True) @ [([], 0, False)]"]
  by (simp add: item_valid_def sample_crypto_def)

text \<open>
  The message an input signs does not depend on the outpoint that input spends: its own
  previous transaction and index can be replaced under the same signature.
\<close>

theorem sighash_omits_own_outpoint:
  assumes "j < length (inputs tx)"
  shows "compute_sighash H
           (tx\<lparr>inputs := (inputs tx)[j := (inputs tx ! j)\<lparr>prev_tx := p, in_index := i\<rparr>]\<rparr>) j t
       = compute_sighash H tx j t"
  using sighash_inputs_own_outpoint [OF assms, where p = p and i = i]
  by (cases t) (simp_all add: compute_sighash_def serialize_tx_for_sighash_def)

definition sample_spend :: transaction where
  "sample_spend =
     \<lparr>tx_id = Hash 9,
      inputs = [\<lparr>prev_tx = Hash 1, in_index = 0, in_signature = replicate 64 1,
                 in_pubkey = replicate 32 2, in_sighash_type = SigHash_All\<rparr>],
      outputs = [\<lparr>out_value = 70, pubkey_hash = Hash 5\<rparr>], execution_payload = [],
      contract_address = None, gas_limit = 0, max_fee_per_gas = 0, chain_id = 1, locktime = 0\<rparr>"

theorem sighash_omits_own_outpoint_witness:
  "compute_sighash (\<lambda>bs. from_be_bytes bs)
     (sample_spend\<lparr>inputs := (inputs sample_spend)
        [0 := (inputs sample_spend ! 0)\<lparr>prev_tx := Hash 4, in_index := 2\<rparr>]\<rparr>) 0 SigHash_All
   = compute_sighash (\<lambda>bs. from_be_bytes bs) sample_spend 0 SigHash_All"
  by (rule sighash_omits_own_outpoint) (simp add: sample_spend_def)

end
