(* ===== verification/Utxo.thy ===== *)
theory Utxo
  imports Schnorr
begin

text \<open>
  The UTXO set (\<open>src/core/state/utxo.rs\<close>): validation of a transaction against the set,
  its atomic application with a change set, and the undo of a change set.

  The abstract view of a set is the money it holds (\<open>utxo_total\<close>, a natural number, so no
  wrap-around) and its lookup function; the lemmas say what each operation does to both.
  An operation that takes \<open>&mut self\<close> and returns a \<open>Result\<close> is a function to the result
  and the new state, because the code may leave a partly changed state behind an error.
  \<open>None\<close> of the outer option is a panic in the conversion of a key or a signature.
\<close>

section \<open>Data and operations\<close>

type_synonym outpoint = "hash \<times> u32"

record utxo_change_set =
  spent :: "outpoint list"
  created :: "(outpoint \<times> tx_output) list"

record utxo_set =
  utxos :: "(outpoint, tx_output) fmap"

definition utxo_new :: utxo_set where
  "utxo_new = \<lparr>utxos = fmempty\<rparr>"

definition BURN_ADDRESS :: bytes32 where
  "BURN_ADDRESS = 0"

definition outpoint_of :: "tx_input \<Rightarrow> outpoint" where
  "outpoint_of input = (prev_tx input, in_index input)"

text \<open>The loop that inserts each outpoint into a set and stops at one already there.\<close>

fun has_duplicate_input :: "outpoint fset \<Rightarrow> tx_input list \<Rightarrow> bool" where
  "has_duplicate_input seen [] = False"
| "has_duplicate_input seen (input # rest) =
     (if outpoint_of input |\<in>| seen then True
      else has_duplicate_input (finsert (outpoint_of input) seen) rest)"

fun sum_outputs :: "u64 \<Rightarrow> tx_output list \<Rightarrow> core_error + u64" where
  "sum_outputs tot [] = Inr tot"
| "sum_outputs tot (out # rest) =
     (case checked_add tot (out_value out) of
        None \<Rightarrow> Inl (TransactionError ''Output overflow'')
      | Some tot' \<Rightarrow> sum_outputs tot' rest)"

definition check_signature ::
    "('vk, 'sig) crypto \<Rightarrow> transaction \<Rightarrow> nat \<Rightarrow> tx_input \<Rightarrow> (core_error + unit) option" where
  "check_signature E tx input_idx input =
     (if length (in_pubkey input) \<noteq> 33 \<and> length (in_pubkey input) \<noteq> 32 then Some (Inl InvalidPublicKey)
      else if length (in_signature input) \<noteq> 64 then Some (Inl InvalidSignature)
      else bind_try (map_option (ok_or InvalidPublicKey) (vk_from_bytes E (in_pubkey input))) (\<lambda>pubkey.
           bind_try (map_option (ok_or InvalidSignature) (sig_try_from E (in_signature input))) (\<lambda>signature.
           bind_try (Some (map_err (\<lambda>_. SignatureVerificationFailed)
                       (compute_sighash (blake3_hash E) tx input_idx (in_sighash_type input)))) (\<lambda>msg.
           if \<not> schnorr_verify E pubkey (array_bytes msg) signature
           then Some (Inl SignatureVerificationFailed) else Some (Inr ())))))"

fun sum_inputs ::
    "('vk, 'sig) crypto \<Rightarrow> utxo_set \<Rightarrow> transaction \<Rightarrow> nat \<Rightarrow> u64 \<Rightarrow> tx_input list
       \<Rightarrow> (core_error + u64) option" where
  "sum_inputs E u tx input_idx tot [] = Some (Inr tot)"
| "sum_inputs E u tx input_idx tot (input # rest) =
     (case fmlookup (utxos u) (outpoint_of input) of
        None \<Rightarrow> Some (Inl (TransactionError ''Input UTXO not found''))
      | Some output \<Rightarrow>
          (case checked_add tot (out_value output) of
             None \<Rightarrow> Some (Inl (TransactionError ''Input overflow''))
           | Some tot' \<Rightarrow>
               bind_try (check_signature E tx input_idx input)
                 (\<lambda>_. sum_inputs E u tx (Suc input_idx) tot' rest)))"

definition validate_tx ::
    "('vk, 'sig) crypto \<Rightarrow> utxo_set \<Rightarrow> transaction \<Rightarrow> (core_error + u64) option" where
  "validate_tx E u tx =
     (let burn_address_hash = hash_new (blake3_hash E) (array_bytes BURN_ADDRESS)
      in if \<exists>out \<in> set (outputs tx). pubkey_hash out = burn_address_hash
         then Some (Inl (TransactionError
                ''Output to zero address (burn) is prohibited by economic policy''))
         else if is_coinbase tx then Some (Inr 0)
         else if has_duplicate_input {||} (inputs tx)
         then Some (Inl (TransactionError ''Duplicate input in transaction ''))
         else bind_try (Some (sum_outputs 0 (outputs tx))) (\<lambda>total_output.
              bind_try (sum_inputs E u tx 0 0 (inputs tx)) (\<lambda>total_input.
              if total_input < total_output
              then Some (Inl (TransactionError ''Insufficient input value''))
              else Some (ok_or (TransactionError ''Fee calculation underflow'')
                     (checked_sub total_input total_output)))))"

fun remove_inputs ::
    "(outpoint, tx_output) fmap \<Rightarrow> outpoint list \<Rightarrow> tx_input list
       \<Rightarrow> (core_error + outpoint list) \<times> (outpoint, tx_output) fmap" where
  "remove_inputs m sp [] = (Inr sp, m)"
| "remove_inputs m sp (input # rest) =
     (case fmlookup m (outpoint_of input) of
        Some _ \<Rightarrow> remove_inputs (fmdrop (outpoint_of input) m) (sp @ [outpoint_of input]) rest
      | None \<Rightarrow> (Inl (TransactionError ''Input UTXO disappeared during apply''), m))"

fun add_outputs ::
    "hash \<Rightarrow> nat \<Rightarrow> (outpoint, tx_output) fmap \<times> (outpoint \<times> tx_output) list \<Rightarrow> tx_output list
       \<Rightarrow> (outpoint, tx_output) fmap \<times> (outpoint \<times> tx_output) list" where
  "add_outputs tid i (m, cr) [] = (m, cr)"
| "add_outputs tid i (m, cr) (out # rest) =
     (let key = (tid, word_of_nat i)
      in add_outputs tid (Suc i) (fmupd key out m, cr @ [(key, out)]) rest)"

definition apply_tx ::
    "('vk, 'sig) crypto \<Rightarrow> utxo_set \<Rightarrow> transaction
       \<Rightarrow> ((core_error + utxo_change_set) \<times> utxo_set) option" where
  "apply_tx E u tx =
     (case validate_tx E u tx of
        None \<Rightarrow> None
      | Some (Inl e) \<Rightarrow> Some (Inl e, u)
      | Some (Inr _) \<Rightarrow>
          (case remove_inputs (utxos u) [] (inputs tx) of
             (Inl e, m) \<Rightarrow> Some (Inl e, u\<lparr>utxos := m\<rparr>)
           | (Inr sp, m) \<Rightarrow>
               (case add_outputs (tx_id tx) 0 (m, []) (outputs tx) of
                  (m', cr) \<Rightarrow> Some (Inr \<lparr>spent = sp, created = cr\<rparr>, u\<lparr>utxos := m'\<rparr>))))"

fun remove_created ::
    "(outpoint, tx_output) fmap \<Rightarrow> (outpoint \<times> tx_output) list
       \<Rightarrow> (core_error + unit) \<times> (outpoint, tx_output) fmap" where
  "remove_created m [] = (Inr (), m)"
| "remove_created m ((key, _) # rest) =
     (case fmlookup m key of
        None \<Rightarrow> (Inl (TransactionError ''Created output not found during revert''), m)
      | Some _ \<Rightarrow> remove_created (fmdrop key m) rest)"

fun restore_spent ::
    "(outpoint, tx_output) fmap \<Rightarrow> (outpoint, tx_output) fmap \<Rightarrow> outpoint list
       \<Rightarrow> (core_error + unit) \<times> (outpoint, tx_output) fmap" where
  "restore_spent spent_outputs m [] = (Inr (), m)"
| "restore_spent spent_outputs m (key # rest) =
     (case fmlookup spent_outputs key of
        Some output \<Rightarrow> restore_spent spent_outputs (fmupd key output m) rest
      | None \<Rightarrow> (Inl (TransactionError ''Spent output not found in revert map''), m))"

definition revert_tx ::
    "utxo_set \<Rightarrow> utxo_change_set \<Rightarrow> (outpoint, tx_output) fmap \<Rightarrow> (core_error + unit) \<times> utxo_set" where
  "revert_tx u changes spent_outputs =
     (case remove_created (utxos u) (created changes) of
        (Inl e, m) \<Rightarrow> (Inl e, u\<lparr>utxos := m\<rparr>)
      | (Inr _, m) \<Rightarrow>
          (case restore_spent spent_outputs m (spent changes) of
             (r, m') \<Rightarrow> (r, u\<lparr>utxos := m'\<rparr>)))"

definition get_balance :: "utxo_set \<Rightarrow> hash \<Rightarrow> u64" where
  "get_balance u addr =
     (\<Sum>k \<in> fset (fmdom (fmfilter (\<lambda>k. map_option pubkey_hash (fmlookup (utxos u) k) = Some addr)
                    (utxos u))).
        (case fmlookup (utxos u) k of None \<Rightarrow> 0 | Some out \<Rightarrow> out_value out))"

section \<open>The abstract view\<close>

definition entry_value :: "(outpoint, tx_output) fmap \<Rightarrow> outpoint \<Rightarrow> nat" where
  "entry_value m k = (case fmlookup m k of None \<Rightarrow> 0 | Some out \<Rightarrow> unat (out_value out))"

definition utxo_total :: "(outpoint, tx_output) fmap \<Rightarrow> nat" where
  "utxo_total m = (\<Sum>k \<in> fset (fmdom m). entry_value m k)"

definition outputs_total :: "tx_output list \<Rightarrow> nat" where
  "outputs_total outs = sum_list (map (\<lambda>out. unat (out_value out)) outs)"

definition inputs_total :: "(outpoint, tx_output) fmap \<Rightarrow> tx_input list \<Rightarrow> nat" where
  "inputs_total m ins = sum_list (map (\<lambda>i. entry_value m (outpoint_of i)) ins)"

definition created_keys :: "transaction \<Rightarrow> outpoint list" where
  "created_keys tx = map (\<lambda>i. (tx_id tx, word_of_nat i)) [0..<length (outputs tx)]"

text \<open>A transaction is fresh for a set when none of its outputs would overwrite an entry.\<close>

definition fresh_outputs :: "(outpoint, tx_output) fmap \<Rightarrow> transaction \<Rightarrow> bool" where
  "fresh_outputs m tx \<longleftrightarrow>
     length (outputs tx) \<le> 2 ^ 32 \<and> (\<forall>k \<in> set (created_keys tx). fmlookup m k = None)"

section \<open>Validation\<close>

lemma has_duplicate_input_iff:
  "has_duplicate_input seen xs \<longleftrightarrow>
     \<not> distinct (map outpoint_of xs) \<or> (\<exists>x \<in> set xs. outpoint_of x |\<in>| seen)"
  by (induction seen xs rule: has_duplicate_input.induct) (auto, (metis image_eqI)+)

lemma outputs_total_simps [simp]:
  "outputs_total [] = 0"
  "outputs_total (out # outs) = unat (out_value out) + outputs_total outs"
  by (simp_all add: outputs_total_def)

lemma inputs_total_simps [simp]:
  "inputs_total m [] = 0"
  "inputs_total m (i # ins) = entry_value m (outpoint_of i) + inputs_total m ins"
  by (simp_all add: inputs_total_def)

lemma sum_outputs_eq_Inr:
  "sum_outputs t outs = Inr r \<longleftrightarrow>
     unat t + outputs_total outs < 2 ^ 64 \<and> unat r = unat t + outputs_total outs"
proof (induction outs arbitrary: t)
  case Nil
  then show ?case using unat_u64_bound [of t] by (auto simp: word_unat_eq_iff)
next
  case (Cons out outs)
  show ?case
  proof (cases "checked_add t (out_value out)")
    case None
    then have "2 ^ 64 \<le> unat t + unat (out_value out)"
      by (simp add: checked_add_eq_None)
    with None show ?thesis by simp
  next
    case (Some t')
    then show ?thesis using unat_checked_add [OF Some] Cons.IH [of t'] by auto
  qed
qed

lemma sum_inputs_eq_Inr:
  "sum_inputs E u tx i t ins = Some (Inr r) \<longleftrightarrow>
     (\<forall>j < length ins. fmlookup (utxos u) (outpoint_of (ins ! j)) \<noteq> None
        \<and> check_signature E tx (i + j) (ins ! j) = Some (Inr ())) \<and>
     unat t + inputs_total (utxos u) ins < 2 ^ 64 \<and>
     unat r = unat t + inputs_total (utxos u) ins"
proof (induction ins arbitrary: i t)
  case Nil
  then show ?case using unat_u64_bound [of t] by (auto simp: word_unat_eq_iff)
next
  case (Cons x ins)
  show ?case
  proof (cases "fmlookup (utxos u) (outpoint_of x)")
    case None
    then show ?thesis by (auto simp: All_less_Suc2)
  next
    case (Some out)
    note look = this
    then have ev: "entry_value (utxos u) (outpoint_of x) = unat (out_value out)"
      by (simp add: entry_value_def)
    show ?thesis
    proof (cases "checked_add t (out_value out)")
      case None
      then have "2 ^ 64 \<le> unat t + unat (out_value out)"
        by (simp add: checked_add_eq_None)
      with None look show ?thesis by (simp add: ev)
    next
      case (Some t')
      show ?thesis
        using look Some unat_checked_add [OF Some] Cons.IH [of "Suc i" t']
        by (simp add: All_less_Suc2 ev add.assoc)
    qed
  qed
qed

text \<open>
  What it means for a transaction to be spendable: no burn output, and for a transaction
  with inputs: distinct existing inputs with valid signatures, sums that fit 64 bits, and
  inputs worth at least the outputs.
\<close>

definition pays_burn :: "blake3 \<Rightarrow> transaction \<Rightarrow> bool" where
  "pays_burn H tx \<longleftrightarrow> (\<exists>out \<in> set (outputs tx). pubkey_hash out = hash_new H (array_bytes BURN_ADDRESS))"

definition spendable :: "('vk, 'sig) crypto \<Rightarrow> utxo_set \<Rightarrow> transaction \<Rightarrow> bool" where
  "spendable E u tx \<longleftrightarrow>
     distinct (map outpoint_of (inputs tx)) \<and>
     (\<forall>j < length (inputs tx).
        fmlookup (utxos u) (outpoint_of (inputs tx ! j)) \<noteq> None
        \<and> check_signature E tx j (inputs tx ! j) = Some (Inr ())) \<and>
     outputs_total (outputs tx) < 2 ^ 64 \<and>
     inputs_total (utxos u) (inputs tx) < 2 ^ 64 \<and>
     outputs_total (outputs tx) \<le> inputs_total (utxos u) (inputs tx)"

lemma validate_tx_coinbase:
  "is_coinbase tx \<Longrightarrow> \<not> pays_burn (blake3_hash E) tx \<Longrightarrow> validate_tx E u tx = Some (Inr 0)"
  by (auto simp: validate_tx_def pays_burn_def Let_def)

lemma validate_tx_eq_Inr:
  "validate_tx E u tx = Some (Inr fee) \<longleftrightarrow>
     \<not> pays_burn (blake3_hash E) tx \<and>
     (if is_coinbase tx then fee = 0
      else spendable E u tx \<and>
           outputs_total (outputs tx) + unat fee = inputs_total (utxos u) (inputs tx))"
proof (cases "pays_burn (blake3_hash E) tx \<or> is_coinbase tx")
  case True
  then show ?thesis by (auto simp: validate_tx_def pays_burn_def Let_def)
next
  case False
  let ?ot = "outputs_total (outputs tx)" and ?it = "inputs_total (utxos u) (inputs tx)"
  from False have "validate_tx E u tx = Some (Inr fee) \<longleftrightarrow>
      distinct (map outpoint_of (inputs tx)) \<and>
      (\<exists>ot it. sum_outputs 0 (outputs tx) = Inr ot \<and> sum_inputs E u tx 0 0 (inputs tx) = Some (Inr it)
         \<and> \<not> it < ot \<and> checked_sub it ot = Some fee)"
    by (auto simp: validate_tx_def pays_burn_def Let_def has_duplicate_input_iff split: if_splits)
  also have "\<dots> \<longleftrightarrow> spendable E u tx \<and> ?ot + unat fee = ?it"
  proof
    assume "distinct (map outpoint_of (inputs tx)) \<and>
      (\<exists>ot it. sum_outputs 0 (outputs tx) = Inr ot \<and> sum_inputs E u tx 0 0 (inputs tx) = Some (Inr it)
         \<and> \<not> it < ot \<and> checked_sub it ot = Some fee)"
    then obtain ot it where "distinct (map outpoint_of (inputs tx))"
      and ot: "sum_outputs 0 (outputs tx) = Inr ot" and it: "sum_inputs E u tx 0 0 (inputs tx) = Some (Inr it)"
      and le: "ot \<le> it" and fee: "fee = it - ot"
      by (auto simp: checked_sub_def split: if_splits)
    moreover from le fee have "unat fee = unat it - unat ot" "unat ot \<le> unat it"
      by (simp_all add: unat_sub word_le_nat_alt)
    ultimately show "spendable E u tx \<and> ?ot + unat fee = ?it"
      by (auto simp: spendable_def sum_outputs_eq_Inr sum_inputs_eq_Inr)
  next
    assume r: "spendable E u tx \<and> ?ot + unat fee = ?it"
    define ot it :: u64 where "ot = word_of_nat ?ot" and "it = word_of_nat ?it"
    from r have u: "unat ot = ?ot" "unat it = ?it"
      by (simp_all add: ot_def it_def spendable_def unat_of_nat_small)
    with r have "sum_outputs 0 (outputs tx) = Inr ot" "sum_inputs E u tx 0 0 (inputs tx) = Some (Inr it)"
      by (simp_all add: spendable_def sum_outputs_eq_Inr sum_inputs_eq_Inr)
    moreover from r u have "ot \<le> it" by (simp add: word_le_nat_alt spendable_def)
    moreover from this r u have "it - ot = fee"
      by (metis add_diff_cancel_left' unat_sub unsigned_word_eqI)
    ultimately show "distinct (map outpoint_of (inputs tx)) \<and>
      (\<exists>ot it. sum_outputs 0 (outputs tx) = Inr ot \<and> sum_inputs E u tx 0 0 (inputs tx) = Some (Inr it)
         \<and> \<not> it < ot \<and> checked_sub it ot = Some fee)"
      using r by (auto simp: checked_sub_def spendable_def)
  qed
  finally show ?thesis using False by simp
qed

lemma validate_tx_present:
  assumes "validate_tx E u tx = Some (Inr fee)" "i \<in> set (inputs tx)"
  shows "fmlookup (utxos u) (outpoint_of i) \<noteq> None"
  using assms by (auto simp: validate_tx_eq_Inr spendable_def is_coinbase_def in_set_conv_nth
      split: if_splits)

lemma validate_tx_distinct:
  "validate_tx E u tx = Some (Inr fee) \<Longrightarrow> distinct (map outpoint_of (inputs tx))"
  by (auto simp: validate_tx_eq_Inr spendable_def is_coinbase_def split: if_splits)

text \<open>Validation panics only at a key or signature whose conversion panics.\<close>

lemma check_signature_returns:
  assumes "conversions_return E" "length (in_pubkey input) \<noteq> 33"
  shows "returns (check_signature E tx i input)"
  using assms(2) by (auto simp: check_signature_def conversions_returnD [OF assms(1)])

lemma sum_inputs_returns:
  assumes "conversions_return E" "\<forall>input \<in> set ins. length (in_pubkey input) \<noteq> 33"
  shows "returns (sum_inputs E u tx i t ins)"
  using assms
  by (induction ins arbitrary: i t)
    (auto simp: check_signature_returns split: option.splits)

lemma validate_tx_returns:
  assumes "conversions_return E" "\<forall>input \<in> set (inputs tx). length (in_pubkey input) \<noteq> 33"
  shows "returns (validate_tx E u tx)"
  using sum_inputs_returns [OF assms]
  by (auto simp: validate_tx_def Let_def)

section \<open>Application and undo\<close>

definition keyed :: "hash \<Rightarrow> nat \<Rightarrow> tx_output list \<Rightarrow> (outpoint \<times> tx_output) list" where
  "keyed tid i outs = map (\<lambda>(j, out). ((tid, word_of_nat j), out)) (List.enumerate i outs)"

lemma keyed_simps [simp]:
  "keyed tid i [] = []"
  "keyed tid i (out # outs) = ((tid, word_of_nat i), out) # keyed tid (Suc i) outs"
  by (simp_all add: keyed_def)

lemma add_outputs_eq:
  "add_outputs tid i (m, cr) outs =
     (fold (\<lambda>(k, out). fmupd k out) (keyed tid i outs) m, cr @ keyed tid i outs)"
  by (induction outs arbitrary: i m cr) (simp_all add: Let_def)

lemma map_fst_keyed:
  "map fst (keyed tid i outs) = map (\<lambda>j. (tid, word_of_nat j)) [i..<i + length outs]"
  by (induction outs arbitrary: i) (simp_all add: upt_rec)

lemma keyed_created_keys: "map fst (keyed (tx_id tx) 0 (outputs tx)) = created_keys tx"
  by (simp add: map_fst_keyed created_keys_def)

lemma map_snd_keyed: "map snd (keyed tid i outs) = outs"
  by (induction outs arbitrary: i) simp_all

lemma distinct_created_keys:
  assumes "length (outputs tx) \<le> 2 ^ 32"
  shows "distinct (created_keys tx)"
proof -
  have "inj_on (\<lambda>j. (tx_id tx, word_of_nat j :: u32)) {0..<length (outputs tx)}"
  proof (rule inj_onI)
    fix i j assume "i \<in> {0..<length (outputs tx)}" "j \<in> {0..<length (outputs tx)}"
      and eq: "(tx_id tx, word_of_nat i :: u32) = (tx_id tx, word_of_nat j)"
    with assms have "i < 2 ^ 32" "j < 2 ^ 32" by simp_all
    then have "unat (word_of_nat i :: u32) = i" "unat (word_of_nat j :: u32) = j"
      by (intro unat_of_nat_small; simp)+
    with eq show "i = j" by (metis prod.inject)
  qed
  then show ?thesis by (simp add: created_keys_def distinct_map)
qed

lemma created_keys_txid: "k \<in> set (created_keys tx) \<Longrightarrow> fst k = tx_id tx"
  by (auto simp: created_keys_def)

lemma fmlookup_fold_fmupd:
  "distinct (map fst kvs) \<Longrightarrow>
     fmlookup (fold (\<lambda>(k, v). fmupd k v) kvs m) x
       = (case map_of kvs x of Some v \<Rightarrow> Some v | None \<Rightarrow> fmlookup m x)"
proof (induction kvs arbitrary: m)
  case Nil
  show ?case by simp
next
  case (Cons kv kvs)
  then have "fst kv \<notin> dom (map_of kvs)" by (simp add: dom_map_of_conv_image_fst)
  with Cons show ?case by (cases kv) (auto split: option.splits)
qed

lemma remove_inputs_ok:
  assumes "distinct (map outpoint_of ins)"
    and "\<forall>i \<in> set ins. fmlookup m (outpoint_of i) \<noteq> None"
  shows "remove_inputs m sp ins
       = (Inr (sp @ map outpoint_of ins), fmdrop_set (outpoint_of ` set ins) m)"
  using assms
proof (induction ins arbitrary: m sp)
  case Nil
  show ?case by simp
next
  case (Cons x ins)
  then obtain out where out: "fmlookup m (outpoint_of x) = Some out" by auto
  have "\<forall>i \<in> set ins. fmlookup (fmdrop (outpoint_of x) m) (outpoint_of i) \<noteq> None"
    using Cons.prems by (auto simp: image_iff)
  with Cons have "remove_inputs (fmdrop (outpoint_of x) m) (sp @ [outpoint_of x]) ins
      = (Inr (sp @ outpoint_of x # map outpoint_of ins),
         fmdrop_set (outpoint_of ` set ins) (fmdrop (outpoint_of x) m))"
    by simp
  moreover have "fmdrop_set A (fmdrop k m) = fmdrop_set (insert k A) m" for A k
    by (rule fmap_ext) simp
  ultimately show ?case using out by simp
qed

text \<open>The map an accepted transaction leaves: inputs gone, outputs added.\<close>

definition applied :: "(outpoint, tx_output) fmap \<Rightarrow> transaction \<Rightarrow> (outpoint, tx_output) fmap" where
  "applied m tx =
     fold (\<lambda>(k, out). fmupd k out) (keyed (tx_id tx) 0 (outputs tx))
       (fmdrop_set (outpoint_of ` set (inputs tx)) m)"

lemma apply_tx_eq:
  "apply_tx E u tx =
     (case validate_tx E u tx of
        None \<Rightarrow> None
      | Some (Inl e) \<Rightarrow> Some (Inl e, u)
      | Some (Inr _) \<Rightarrow>
          Some (Inr \<lparr>spent = map outpoint_of (inputs tx), created = keyed (tx_id tx) 0 (outputs tx)\<rparr>,
           u\<lparr>utxos := applied (utxos u) tx\<rparr>))"
proof (cases "\<exists>fee. validate_tx E u tx = Some (Inr fee)")
  case False
  then show ?thesis by (auto simp: apply_tx_def split: option.split sum.split)
next
  case True
  then obtain fee where Inr: "validate_tx E u tx = Some (Inr fee)" by blast
  have "remove_inputs (utxos u) [] (inputs tx)
      = (Inr (map outpoint_of (inputs tx)), fmdrop_set (outpoint_of ` set (inputs tx)) (utxos u))"
    using remove_inputs_ok [OF validate_tx_distinct [OF Inr]] validate_tx_present [OF Inr] by simp
  with Inr show ?thesis by (simp add: apply_tx_def add_outputs_eq applied_def)
qed

lemma apply_tx_Inl: "apply_tx E u tx = Some (Inl e, u') \<Longrightarrow> u' = u \<and> validate_tx E u tx = Some (Inl e)"
  by (simp add: apply_tx_eq split: option.splits sum.splits)

lemma apply_tx_Inr:
  assumes "apply_tx E u tx = Some (Inr cs, u')"
  obtains fee where "validate_tx E u tx = Some (Inr fee)"
    and "cs = \<lparr>spent = map outpoint_of (inputs tx), created = keyed (tx_id tx) 0 (outputs tx)\<rparr>"
    and "u' = u\<lparr>utxos := applied (utxos u) tx\<rparr>"
  using assms that by (auto simp: apply_tx_eq split: option.splits sum.splits)

lemma fmlookup_applied:
  assumes "length (outputs tx) \<le> 2 ^ 32"
  shows "fmlookup (applied m tx) k =
     (case map_of (keyed (tx_id tx) 0 (outputs tx)) k of
        Some out \<Rightarrow> Some out
      | None \<Rightarrow> if k \<in> outpoint_of ` set (inputs tx) then None else fmlookup m k)"
  using distinct_created_keys [OF assms]
  by (simp add: applied_def fmlookup_fold_fmupd keyed_created_keys split: option.splits)

lemma map_of_keyed_None:
  "map_of (keyed (tx_id tx) 0 (outputs tx)) k = None \<longleftrightarrow> k \<notin> set (created_keys tx)"
  by (simp add: map_of_eq_None_iff keyed_created_keys [symmetric])

subsection \<open>Money\<close>

lemma utxo_total_fmempty [simp]: "utxo_total fmempty = 0"
  by (simp add: utxo_total_def)

lemma utxo_total_fmupd_new:
  assumes "fmlookup m k = None"
  shows "utxo_total (fmupd k out m) = utxo_total m + unat (out_value out)"
proof -
  have k: "k \<notin> fset (fmdom m)" using assms by (simp add: fmdom_notI)
  then have "(\<Sum>x \<in> fset (fmdom m). entry_value (fmupd k out m) x) = utxo_total m"
    unfolding utxo_total_def by (intro sum.cong) (auto simp: entry_value_def)
  with k show ?thesis by (simp add: utxo_total_def entry_value_def)
qed

lemma utxo_total_fold_fmupd:
  "distinct (map fst kvs) \<Longrightarrow> \<forall>k \<in> fst ` set kvs. fmlookup m k = None \<Longrightarrow>
     utxo_total (fold (\<lambda>(k, out). fmupd k out) kvs m) = utxo_total m + outputs_total (map snd kvs)"
proof (induction kvs arbitrary: m)
  case Nil
  show ?case by simp
next
  case (Cons kv kvs)
  obtain k out where kv: "kv = (k, out)" by (cases kv)
  have "utxo_total (fold (\<lambda>(k, out). fmupd k out) kvs (fmupd k out m))
      = utxo_total (fmupd k out m) + outputs_total (map snd kvs)"
    using Cons.prems by (intro Cons.IH) (auto simp: kv)
  moreover have "utxo_total (fmupd k out m) = utxo_total m + unat (out_value out)"
    using Cons.prems by (intro utxo_total_fmupd_new) (simp add: kv)
  ultimately show ?case by (simp add: kv)
qed

lemma utxo_total_fmdrop_set:
  assumes "finite A" "\<forall>k \<in> A. fmlookup m k \<noteq> None"
  shows "utxo_total m = utxo_total (fmdrop_set A m) + (\<Sum>k \<in> A. entry_value m k)"
proof -
  have sub: "A \<subseteq> fset (fmdom m)" using assms(2) by (auto intro: fmdomI)
  have dom: "fset (fmdom (fmdrop_set A m)) = fset (fmdom m) - A"
    by (auto simp: fmdom'_alt_def [symmetric])
  have "utxo_total (fmdrop_set A m) = (\<Sum>k \<in> fset (fmdom m) - A. entry_value m k)"
    unfolding utxo_total_def dom by (intro sum.cong) (auto simp: entry_value_def)
  with sub show ?thesis
    by (simp add: utxo_total_def sum.subset_diff [OF sub] add.commute)
qed

lemma inputs_total_sum:
  "distinct (map outpoint_of ins) \<Longrightarrow>
     inputs_total m ins = (\<Sum>k \<in> outpoint_of ` set ins. entry_value m k)"
  by (induction ins) auto

lemma applied_total:
  assumes "distinct (map outpoint_of (inputs tx))"
    and "\<forall>i \<in> set (inputs tx). fmlookup m (outpoint_of i) \<noteq> None"
    and "fresh_outputs m tx"
  shows "utxo_total (applied m tx) + inputs_total m (inputs tx)
       = utxo_total m + outputs_total (outputs tx)"
proof -
  let ?A = "outpoint_of ` set (inputs tx)"
  have "utxo_total (applied m tx) = utxo_total (fmdrop_set ?A m) + outputs_total (outputs tx)"
    unfolding applied_def
    using assms(3) utxo_total_fold_fmupd [of "keyed (tx_id tx) 0 (outputs tx)" "fmdrop_set ?A m"]
    by (simp add: fresh_outputs_def keyed_created_keys map_snd_keyed distinct_created_keys
        flip: set_map)
  moreover have "utxo_total m = utxo_total (fmdrop_set ?A m) + inputs_total m (inputs tx)"
    using utxo_total_fmdrop_set [of ?A m] assms(1,2) by (simp add: inputs_total_sum)
  ultimately show ?thesis by simp
qed

text \<open>
  Conservation: a spend destroys exactly its fee (which the reward pool collects), a
  coinbase creates exactly its outputs.
\<close>

lemma apply_tx_conserves:
  assumes "apply_tx E u tx = Some (Inr cs, u')" "fresh_outputs (utxos u) tx"
    and "validate_tx E u tx = Some (Inr fee)"
  shows "utxo_total (utxos u') + (if is_coinbase tx then 0 else unat fee)
       = utxo_total (utxos u) + (if is_coinbase tx then outputs_total (outputs tx) else 0)"
proof -
  from assms(1) have u': "utxos u' = applied (utxos u) tx" by (auto elim: apply_tx_Inr)
  have "utxo_total (applied (utxos u) tx) + inputs_total (utxos u) (inputs tx)
      = utxo_total (utxos u) + outputs_total (outputs tx)"
    using validate_tx_distinct [OF assms(3)] validate_tx_present [OF assms(3)] assms(2)
    by (intro applied_total) auto
  with assms(3) u' show ?thesis
    by (auto simp: validate_tx_eq_Inr is_coinbase_def split: if_splits)
qed

subsection \<open>Undo\<close>

lemma remove_created_ok:
  "distinct (map fst kvs) \<Longrightarrow> \<forall>k \<in> fst ` set kvs. fmlookup m k \<noteq> None \<Longrightarrow>
     remove_created m kvs = (Inr (), fmdrop_set (fst ` set kvs) m)"
proof (induction kvs arbitrary: m)
  case Nil
  show ?case by simp
next
  case (Cons kv kvs)
  obtain k out where kv: "kv = (k, out)" by (cases kv)
  have "remove_created (fmdrop k m) kvs = (Inr (), fmdrop_set (fst ` set kvs) (fmdrop k m))"
    using Cons.prems by (intro Cons.IH) (auto simp: kv image_iff)
  moreover have "fmdrop_set A (fmdrop k m) = fmdrop_set (insert k A) m" for A
    by (rule fmap_ext) simp
  ultimately show ?case using Cons.prems by (auto simp: kv split: option.splits)
qed

lemma restore_spent_ok:
  assumes "\<forall>k \<in> set ks. fmlookup so k \<noteq> None"
  shows "\<exists>m'. restore_spent so m ks = (Inr (), m') \<and>
           (\<forall>k. fmlookup m' k = (if k \<in> set ks then fmlookup so k else fmlookup m k))"
  using assms
proof (induction ks arbitrary: m)
  case Nil
  show ?case by simp
next
  case (Cons x ks)
  then obtain out where out: "fmlookup so x = Some out" by auto
  from Cons obtain m' where "restore_spent so (fmupd x out m) ks = (Inr (), m')"
    and "\<forall>k. fmlookup m' k = (if k \<in> set ks then fmlookup so k else fmlookup (fmupd x out m) k)"
    by fastforce
  with out show ?case by (auto simp del: split_paired_All)
qed

text \<open>
  Undoing a change set gives back the set it was made on, provided the outputs did not
  overwrite anything and the map of spent outputs holds the originals.
\<close>

lemma revert_apply:
  assumes "apply_tx E u tx = Some (Inr cs, u')" "fresh_outputs (utxos u) tx"
    and "\<forall>i \<in> set (inputs tx). fmlookup so (outpoint_of i) = fmlookup (utxos u) (outpoint_of i)"
  shows "revert_tx u' cs so = (Inr (), u)"
proof -
  let ?kvs = "keyed (tx_id tx) 0 (outputs tx)" and ?ins = "outpoint_of ` set (inputs tx)"
  obtain fee where val: "validate_tx E u tx = Some (Inr fee)"
    and cs: "cs = \<lparr>spent = map outpoint_of (inputs tx), created = ?kvs\<rparr>"
    and u': "u' = u\<lparr>utxos := applied (utxos u) tx\<rparr>"
    using assms(1) by (rule apply_tx_Inr)
  have len: "length (outputs tx) \<le> 2 ^ 32" and new: "\<forall>k \<in> set (created_keys tx). fmlookup (utxos u) k = None"
    using assms(2) by (simp_all add: fresh_outputs_def)
  have keys: "fst ` set ?kvs = set (created_keys tx)"
    by (simp add: keyed_created_keys [symmetric])
  have "remove_created (applied (utxos u) tx) ?kvs
      = (Inr (), fmdrop_set (fst ` set ?kvs) (applied (utxos u) tx))"
  proof (rule remove_created_ok)
    show "distinct (map fst ?kvs)" using distinct_created_keys [OF len] by (simp add: keyed_created_keys)
    show "\<forall>k \<in> fst ` set ?kvs. fmlookup (applied (utxos u) tx) k \<noteq> None"
      using len by (auto simp: fmlookup_applied map_of_keyed_None keys split: option.splits)
  qed
  moreover have present: "\<forall>k \<in> set (map outpoint_of (inputs tx)). fmlookup so k \<noteq> None"
    using assms(3) validate_tx_present [OF val] by auto
  obtain m' where "restore_spent so (fmdrop_set (fst ` set ?kvs) (applied (utxos u) tx))
        (map outpoint_of (inputs tx)) = (Inr (), m')"
    and m': "\<forall>k. fmlookup m' k = (if k \<in> set (map outpoint_of (inputs tx)) then fmlookup so k
        else fmlookup (fmdrop_set (fst ` set ?kvs) (applied (utxos u) tx)) k)"
    using restore_spent_ok [OF present] by blast
  moreover have "m' = utxos u"
  proof (rule fmap_ext)
    fix k
    show "fmlookup m' k = fmlookup (utxos u) k"
    proof (cases "k \<in> ?ins")
      case True
      with m' assms(3) show ?thesis by (auto simp del: split_paired_All)
    next
      case False
      with m' have m'k: "fmlookup m' k
          = (if k \<in> set (created_keys tx) then None else fmlookup (applied (utxos u) tx) k)"
        by (simp add: keys del: split_paired_All)
      show ?thesis
      proof (cases "k \<in> set (created_keys tx)")
        case True
        with m'k new show ?thesis by simp
      next
        case notin: False
        then have "map_of (keyed (tx_id tx) 0 (outputs tx)) k = None"
          by (simp add: map_of_keyed_None)
        with m'k notin False show ?thesis by (simp add: fmlookup_applied [OF len])
      qed
    qed
  qed
  ultimately show ?thesis by (simp add: revert_tx_def cs u')
qed

section \<open>Runs of transactions\<close>

text \<open>
  The ids of a sequence of transactions are fresh for a set when they are pairwise distinct
  and no entry of the set carries one of them. It holds of every prefix of a run.
\<close>

definition fresh_ids :: "(outpoint, tx_output) fmap \<Rightarrow> transaction list \<Rightarrow> bool" where
  "fresh_ids m txs \<longleftrightarrow>
     distinct (map tx_id txs) \<and> (\<forall>tx \<in> set txs. length (outputs tx) \<le> 2 ^ 32) \<and>
     (\<forall>tx \<in> set txs. \<forall>k. fst k = tx_id tx \<longrightarrow> fmlookup m k = None)"

lemma fresh_ids_Nil [simp]: "fresh_ids m []"
  by (simp add: fresh_ids_def)

lemma fresh_ids_outputs: "fresh_ids m (tx # txs) \<Longrightarrow> fresh_outputs m tx"
  using created_keys_txid [of _ tx]
  by (auto simp: fresh_ids_def fresh_outputs_def simp del: split_paired_All)

lemma fresh_ids_tl: "fresh_ids m (tx # txs) \<Longrightarrow> fresh_ids m txs"
  by (auto simp: fresh_ids_def)

lemma fresh_ids_applied:
  assumes "fresh_ids m (tx # txs)"
  shows "fresh_ids (applied m tx) txs"
proof -
  have "fmlookup (applied m tx) k = None" if "t \<in> set txs" "fst k = tx_id t" for t k
  proof -
    have "length (outputs tx) \<le> 2 ^ 32" "tx_id t \<noteq> tx_id tx" "fmlookup m k = None"
      using assms that by (auto simp: fresh_ids_def image_iff simp del: split_paired_All)
    moreover from this(2) that(2) have "k \<notin> set (created_keys tx)" using created_keys_txid by fastforce
    ultimately show ?thesis by (simp add: fmlookup_applied map_of_keyed_None [THEN iffD2])
  qed
  with assms show ?thesis by (simp add: fresh_ids_def del: split_paired_All)
qed

section \<open>Properties\<close>

definition sample_utxo :: utxo_set where
  "sample_utxo = \<lparr>utxos = fmap_of_list
     [((Hash 1, 0), \<lparr>out_value = 100, pubkey_hash = Hash 3\<rparr>),
      ((Hash 2, 0), \<lparr>out_value = 5, pubkey_hash = Hash 4\<rparr>)]\<rparr>"

definition sample_change :: utxo_change_set where
  "sample_change = \<lparr>spent = [(Hash 1, 0)],
     created = [((Hash 9, 0), \<lparr>out_value = 70, pubkey_hash = Hash 5\<rparr>)]\<rparr>"

definition sample_utxo_after :: utxo_set where
  "sample_utxo_after = snd (the (apply_tx sample_crypto sample_utxo sample_spend))"

lemma sample_lookup:
  "fmlookup (utxos sample_utxo) (Hash 1, 0) = Some \<lparr>out_value = 100, pubkey_hash = Hash 3\<rparr>"
  by (simp add: sample_utxo_def)

lemma sample_apply:
  "validate_tx sample_crypto sample_utxo sample_spend = Some (Inr 30)"
  "apply_tx sample_crypto sample_utxo sample_spend = Some (Inr sample_change, sample_utxo_after)"
proof -
  show v: "validate_tx sample_crypto sample_utxo sample_spend = Some (Inr 30)"
    by (simp add: validate_tx_eq_Inr pays_burn_def is_coinbase_def spendable_def sample_spend_def
        sample_crypto_def hash_new_def outpoint_of_def sample_lookup check_signature_def
        compute_sighash_def schnorr_verify_def entry_value_def)
  show "apply_tx sample_crypto sample_utxo sample_spend = Some (Inr sample_change, sample_utxo_after)"
    by (simp add: sample_utxo_after_def apply_tx_eq v)
      (simp add: sample_change_def sample_spend_def outpoint_of_def)
qed

lemma sample_fresh: "fresh_outputs (utxos sample_utxo) sample_spend"
  by (simp add: fresh_outputs_def created_keys_def sample_spend_def sample_utxo_def)

text \<open>
  C30. Validation returns a fee exactly for the transactions of which no output pays the burn hash
  and that either have no inputs, with fee zero, or are spendable: distinct inputs that exist in the
  set, valid signatures, no 64-bit overflow of either sum, and inputs worth at least the outputs; then
  the fee is the difference of the two sums as natural numbers.
\<close>

theorem validate_tx_exact:
  "validate_tx E u tx = Some (Inr fee) \<longleftrightarrow>
     \<not> pays_burn (blake3_hash E) tx \<and>
     (if is_coinbase tx then fee = 0
      else spendable E u tx \<and>
           outputs_total (outputs tx) + unat fee = inputs_total (utxos u) (inputs tx))"
  by (rule validate_tx_eq_Inr)

text \<open>
  Application is all or nothing: a transaction that does not validate leaves the set
  unchanged and returns the validation error; one that validates removes its inputs, adds its
  outputs under its id, and reports exactly that.
\<close>

theorem apply_tx_exact:
  "apply_tx E u tx =
     (case validate_tx E u tx of
        None \<Rightarrow> None
      | Some (Inl e) \<Rightarrow> Some (Inl e, u)
      | Some (Inr _) \<Rightarrow>
          Some (Inr \<lparr>spent = map outpoint_of (inputs tx), created = keyed (tx_id tx) 0 (outputs tx)\<rparr>,
           u\<lparr>utxos := applied (utxos u) tx\<rparr>))"
  by (rule apply_tx_eq)

text \<open>
  C1. Money is conserved: a spend takes exactly its fee out of the set, a coinbase brings in
  exactly its outputs, when the outputs overwrite no entry.
\<close>

theorem apply_tx_conserves_value:
  assumes "apply_tx E u tx = Some (Inr cs, u')" "fresh_outputs (utxos u) tx"
    and "validate_tx E u tx = Some (Inr fee)"
  shows "utxo_total (utxos u') + (if is_coinbase tx then 0 else unat fee)
       = utxo_total (utxos u) + (if is_coinbase tx then outputs_total (outputs tx) else 0)"
  using assms by (rule apply_tx_conserves)

theorem apply_tx_conserves_value_witness:
  "utxo_total (utxos sample_utxo_after) + 30 = utxo_total (utxos sample_utxo)"
proof -
  have "\<not> is_coinbase sample_spend" by (simp add: is_coinbase_def sample_spend_def)
  then show ?thesis
    using apply_tx_conserves_value [OF sample_apply(2) sample_fresh sample_apply(1)] by simp
qed

text \<open>
  C14. Undoing a change set restores the very set it was made on, when the outputs overwrote no
  entry and the map of spent outputs holds the originals.
\<close>

theorem revert_undoes_apply:
  assumes "apply_tx E u tx = Some (Inr cs, u')" "fresh_outputs (utxos u) tx"
    and "\<forall>i \<in> set (inputs tx). fmlookup so (outpoint_of i) = fmlookup (utxos u) (outpoint_of i)"
  shows "revert_tx u' cs so = (Inr (), u)"
  using assms by (rule revert_apply)

theorem revert_undoes_apply_witness:
  "revert_tx sample_utxo_after sample_change (utxos sample_utxo) = (Inr (), sample_utxo)"
  by (rule revert_undoes_apply [OF sample_apply(2) sample_fresh]) simp

text \<open>The sum over the inputs reads values only.\<close>

lemma sum_inputs_owner:
  "sum_inputs E (u\<lparr>utxos := fmmap (pubkey_hash_update f) (utxos u)\<rparr>) tx i t ins
     = sum_inputs E u tx i t ins"
  by (induction ins arbitrary: i t) (auto split: option.splits intro!: arg_cong [of _ _ "bind_try _"])

text \<open>
  Validation never looks at who owns an output: replacing every owner hash of the set in
  any way does not change the verdict on any transaction, so any key pair can spend any entry.
\<close>

theorem validate_tx_ignores_owner:
  "validate_tx E (u\<lparr>utxos := fmmap (pubkey_hash_update f) (utxos u)\<rparr>) tx = validate_tx E u tx"
  unfolding validate_tx_def sum_inputs_owner ..

end
