(* ===== verification/Graph_Search.thy ===== *)
theory Graph_Search
  imports Klomang_Prelude
begin

text \<open>
  Stack-driven graph search. The code walks its block graph with an explicit stack in two
  styles: a node is marked when it is popped (\<open>get_ancestors\<close>, \<open>is_ancestor\<close>), or when it
  is pushed (\<open>get_descendants\<close>). Each style has one loop invariant here, with a lemma per
  way the loop body can go and one for the empty stack; the components instantiate the
  successor function and never repeat the reachability argument.
\<close>

definition edges :: "('a \<Rightarrow> 'a set) \<Rightarrow> ('a \<times> 'a) set" where
  "edges succ = {(a, b). b \<in> succ a}"

definition reach :: "('a \<Rightarrow> 'a set) \<Rightarrow> 'a \<Rightarrow> 'a set" where
  "reach succ r = {x. (r, x) \<in> (edges succ)\<^sup>*}"

lemma reach_self [simp]: "r \<in> reach succ r"
  by (simp add: reach_def)

lemma reach_step: "x \<in> reach succ r \<Longrightarrow> y \<in> succ x \<Longrightarrow> y \<in> reach succ r"
  by (auto simp: reach_def edges_def intro: rtrancl_into_rtrancl)

lemma reach_least:
  assumes "r \<in> A" "\<And>x y. x \<in> A \<Longrightarrow> y \<in> succ x \<Longrightarrow> y \<in> A"
  shows "reach succ r \<subseteq> A"
proof
  fix x assume "x \<in> reach succ r"
  then have "(r, x) \<in> (edges succ)\<^sup>*" by (simp add: reach_def)
  then show "x \<in> A" by induction (use assms in \<open>auto simp: edges_def\<close>)
qed

lemma reach_trancl: "(\<Union>x \<in> reach succ r. succ x) = {y. (r, y) \<in> (edges succ)\<^sup>+}"
proof -
  have "y \<in> (\<Union>x \<in> reach succ r. succ x) \<longleftrightarrow> (\<exists>x. (r, x) \<in> (edges succ)\<^sup>* \<and> (x, y) \<in> edges succ)" for y
    by (auto simp: reach_def edges_def)
  also have "\<dots> y \<longleftrightarrow> (r, y) \<in> (edges succ)\<^sup>+" for y
    by (meson rtrancl_into_trancl1 tranclD2)
  finally show ?thesis by blast
qed

section \<open>Marking when popped\<close>

definition pop_inv :: "('a \<Rightarrow> 'a set) \<Rightarrow> 'a \<Rightarrow> 'a list \<Rightarrow> 'a set \<Rightarrow> bool" where
  "pop_inv succ r stack visited \<longleftrightarrow>
     r \<in> visited \<union> set stack \<and> visited \<union> set stack \<subseteq> reach succ r \<and>
     (\<forall>v \<in> visited. succ v \<subseteq> visited \<union> set stack)"

lemma pop_inv_start: "pop_inv succ r [r] {}"
  by (simp add: pop_inv_def)

lemma pop_inv_skip: "pop_inv succ r (c # stack) visited \<Longrightarrow> c \<in> visited \<Longrightarrow> pop_inv succ r stack visited"
  by (auto simp: pop_inv_def)

lemma pop_inv_expand:
  assumes "pop_inv succ r (c # stack) visited" "set new = succ c"
  shows "pop_inv succ r (new @ stack) (insert c visited)"
  using assms by (auto simp: pop_inv_def dest: reach_step)

lemma pop_inv_done: "pop_inv succ r [] visited \<Longrightarrow> visited = reach succ r"
  using reach_least [of r visited succ] by (auto simp: pop_inv_def)

section \<open>Marking when pushed\<close>

definition push_inv :: "('a \<Rightarrow> 'a set) \<Rightarrow> 'a \<Rightarrow> 'a list \<Rightarrow> 'a set \<Rightarrow> bool" where
  "push_inv succ r stack visited \<longleftrightarrow>
     r \<in> visited \<and> set stack \<subseteq> visited \<and> visited \<subseteq> reach succ r \<and>
     (\<forall>v \<in> visited - set stack. succ v \<subseteq> visited)"

lemma push_inv_start: "push_inv succ r [r] {r}"
  by (simp add: push_inv_def)

lemma push_inv_expand:
  assumes "push_inv succ r (c # stack) visited" "set new = succ c - visited"
  shows "push_inv succ r (new @ stack) (visited \<union> succ c)"
  using assms by (auto simp: push_inv_def dest: reach_step)

lemma push_inv_done: "push_inv succ r [] visited \<Longrightarrow> visited = reach succ r"
  using reach_least [of r visited succ] by (auto simp: push_inv_def)

end
