(* ===== verification/Dag.thy ===== *)
theory Dag
  imports Transaction Graph_Search "HOL-Library.Multiset"
begin

text \<open>
  The block graph (\<open>src/core/dag/block.rs\<close>, \<open>mod.rs\<close>, \<open>anticone.rs\<close>): blocks keyed by
  hash, each with its parents (header) and children, and the set of tips.

  A \<open>Vec\<close> used as a stack is a list whose head is the top, so pushing sorted parents one by
  one leaves them reversed on the stack. Operations that check before they write return
  \<open>error + dag\<close>: the error cases leave the graph as it was.
\<close>

section \<open>Data\<close>

record block_header =
  hdr_id :: hash
  parents :: "hash fset"
  timestamp :: u64
  difficulty :: u64
  nonce :: u64
  verkle_root :: hash
  verkle_proofs :: "bytes option"
  hdr_signature :: "bytes option"

record block_node =
  header :: block_header
  children :: "hash fset"
  selected_parent :: "hash option"
  blue_set :: "hash fset"
  red_set :: "hash fset"
  blue_score :: u64
  transactions :: "transaction list"

record dag =
  blocks :: "(hash, block_node) fmap"
  tips :: "hash fset"

abbreviation block_parents :: "block_node \<Rightarrow> hash fset" where
  "block_parents b \<equiv> parents (header b)"

section \<open>Operations\<close>

definition dag_new :: dag where
  "dag_new = \<lparr>blocks = fmempty, tips = {||}\<rparr>"

definition get_block :: "dag \<Rightarrow> hash \<Rightarrow> block_node option" where
  "get_block d h = fmlookup (blocks d) h"

text \<open>A write through \<open>get_block_mut\<close>: nothing happens when the block is absent.\<close>

definition modify_block :: "dag \<Rightarrow> hash \<Rightarrow> (block_node \<Rightarrow> block_node) \<Rightarrow> dag" where
  "modify_block d h f =
     (case get_block d h of
        None \<Rightarrow> d
      | Some b \<Rightarrow> d\<lparr>blocks := fmupd h (f b) (blocks d)\<rparr>)"

definition get_all_hashes :: "dag \<Rightarrow> hash list" where
  "get_all_hashes d = sorted_list_of_fset (fmdom (blocks d))"

definition block_exists :: "dag \<Rightarrow> hash \<Rightarrow> bool" where
  "block_exists d h \<longleftrightarrow> get_block d h \<noteq> None"

definition get_block_count :: "dag \<Rightarrow> nat" where
  "get_block_count d = fcard (fmdom (blocks d))"

definition get_tips :: "dag \<Rightarrow> hash list" where
  "get_tips d = sorted_list_of_fset (tips d)"

definition add_block :: "dag \<Rightarrow> block_node \<Rightarrow> core_error + dag" where
  "add_block d block =
     (let h = hdr_id (header block); ps = block_parents block
      in if get_block d h \<noteq> None then Inl DuplicateBlock
         else if h |\<in>| ps
         then Inl (ConsensusError ''Block cannot reference itself as parent'')
         else if ps = {||} \<and> fmdom (blocks d) \<noteq> {||}
         then Inl (ConsensusError ''Genesis block already exists'')
         else if fBex ps (\<lambda>p. get_block d p = None) then Inl InvalidParent
         else
           let d1 = d\<lparr>blocks := fmupd h block (blocks d)\<rparr>;
               d2 = fold (\<lambda>p d'. modify_block d' p (\<lambda>b. b\<lparr>children := finsert h (children b)\<rparr>))
                      (sorted_list_of_fset ps) d1
           in Inr (d2\<lparr>tips := finsert h (tips d2 |-| ps)\<rparr>))"

definition remove_block :: "dag \<Rightarrow> hash \<Rightarrow> dag" where
  "remove_block d h =
     (case get_block d h of
        None \<Rightarrow> d
      | Some block \<Rightarrow>
          let d1 = d\<lparr>blocks := fmdrop h (blocks d), tips := tips d |-| {|h|}\<rparr>;
              d2 = fold (\<lambda>p d'. modify_block d' p (\<lambda>b. b\<lparr>children := children b |-| {|h|}\<rparr>))
                     (sorted_list_of_fset (block_parents block)) d1
          in fold (\<lambda>c d'. modify_block d' c
                     (\<lambda>b. b\<lparr>header := (header b)\<lparr>parents := block_parents b |-| {|h|}\<rparr>\<rparr>))
               (sorted_list_of_fset (children block)) d2)"

subsection \<open>Walks\<close>

definition parents_of :: "dag \<Rightarrow> hash \<Rightarrow> hash fset" where
  "parents_of d h = (case get_block d h of None \<Rightarrow> {||} | Some b \<Rightarrow> block_parents b)"

definition children_of :: "dag \<Rightarrow> hash \<Rightarrow> hash fset" where
  "children_of d h = (case get_block d h of None \<Rightarrow> {||} | Some b \<Rightarrow> children b)"

function is_ancestor_loop :: "dag \<Rightarrow> hash \<Rightarrow> hash list \<Rightarrow> hash fset \<Rightarrow> bool" where
  "is_ancestor_loop d a [] visited = False"
| "is_ancestor_loop d a (current # stack) visited =
     (if current |\<in>| visited then is_ancestor_loop d a stack visited
      else case get_block d current of
             None \<Rightarrow> is_ancestor_loop d a stack (finsert current visited)
           | Some block \<Rightarrow>
               (if a |\<in>| block_parents block then True
                else is_ancestor_loop d a
                       (rev (sorted_list_of_fset (block_parents block)) @ stack)
                       (finsert current visited)))"
  by pat_completeness auto

definition unvisited :: "dag \<Rightarrow> hash fset \<Rightarrow> nat" where
  "unvisited d visited = fcard (fmdom (blocks d) |-| visited)"

lemma unvisited_insert_block:
  "c |\<notin>| visited \<Longrightarrow> get_block d c = Some b \<Longrightarrow> unvisited d (finsert c visited) < unvisited d visited"
  unfolding unvisited_def
  by (intro pfsubset_fcard_mono) (auto simp: get_block_def dest: fmdomI)

lemma unvisited_insert_absent:
  "get_block d c = None \<Longrightarrow> unvisited d (finsert c visited) = unvisited d visited"
  unfolding unvisited_def
  by (rule arg_cong [where f = fcard]) (auto simp: get_block_def fmdom_notD fmdom_notI)

termination is_ancestor_loop
  by (relation "measures [\<lambda>(d, a, stack, visited). unvisited d visited,
                          \<lambda>(d, a, stack, visited). length stack]")
    (auto simp: unvisited_insert_block unvisited_insert_absent)

definition is_ancestor :: "dag \<Rightarrow> hash \<Rightarrow> hash \<Rightarrow> bool" where
  "is_ancestor d a b = (if a = b then False else is_ancestor_loop d a [b] {||})"

function ancestors_loop :: "dag \<Rightarrow> hash list \<Rightarrow> hash fset \<Rightarrow> hash fset \<Rightarrow> hash fset" where
  "ancestors_loop d [] visited ancestors = ancestors"
| "ancestors_loop d (current # stack) visited ancestors =
     (if current |\<in>| visited then ancestors_loop d stack visited ancestors
      else case get_block d current of
             None \<Rightarrow> ancestors_loop d stack (finsert current visited) ancestors
           | Some block \<Rightarrow>
               ancestors_loop d (rev (sorted_list_of_fset (block_parents block)) @ stack)
                 (finsert current visited) (ancestors |\<union>| block_parents block))"
  by pat_completeness auto
termination
  by (relation "measures [\<lambda>(d, stack, visited, ancestors). unvisited d visited,
                          \<lambda>(d, stack, visited, ancestors). length stack]")
    (auto simp: unvisited_insert_block unvisited_insert_absent)

definition get_ancestors :: "dag \<Rightarrow> hash \<Rightarrow> hash list" where
  "get_ancestors d h = sorted_list_of_fset (ancestors_loop d [h] {||} {||})"

text \<open>
  The inner loop over the sorted children: each child not seen yet is marked, recorded and
  pushed.
\<close>

fun visit_children :: "hash list \<Rightarrow> hash list \<Rightarrow> hash fset \<Rightarrow> hash list
    \<Rightarrow> hash list \<times> hash fset \<times> hash list" where
  "visit_children [] stack visited descendants = (stack, visited, descendants)"
| "visit_children (child # rest) stack visited descendants =
     (if child |\<in>| visited then visit_children rest stack visited descendants
      else visit_children rest (child # stack) (finsert child visited) (descendants @ [child]))"

lemma visit_children_eq:
  "distinct cs \<Longrightarrow> visit_children cs stack visited desc =
     (rev (filter (\<lambda>c. c |\<notin>| visited) cs) @ stack, visited |\<union>| fset_of_list cs,
      desc @ filter (\<lambda>c. c |\<notin>| visited) cs)"
proof (induction cs arbitrary: stack visited desc)
  case Nil
  show ?case by simp
next
  case (Cons c cs)
  then have "filter (\<lambda>x. x |\<notin>| finsert c visited) cs = filter (\<lambda>x. x |\<notin>| visited) cs"
    by (intro filter_cong) auto
  with Cons show ?case by (auto simp: funion_finsert_right [symmetric] simp del: funion_finsert_right)
qed

definition child_pool :: "dag \<Rightarrow> hash fset" where
  "child_pool d = ffUnion (children |`| fmran (blocks d))"

lemma children_in_pool: "get_block d h = Some b \<Longrightarrow> children b |\<subseteq>| child_pool d"
proof -
  assume "get_block d h = Some b"
  then have "children b |\<in>| children |`| fmran (blocks d)"
    by (auto simp: get_block_def intro: fmranI)
  moreover have "fBall (children |`| fmran (blocks d)) (\<lambda>x. x |\<subseteq>| child_pool d)"
    by (simp only: ffUnion_fsubset_iff [symmetric] child_pool_def)
  ultimately show ?thesis by blast
qed

definition unseen :: "dag \<Rightarrow> hash fset \<Rightarrow> nat" where
  "unseen d visited = fcard (child_pool d |-| visited)"

text \<open>Either every child was seen already, or the number of unseen nodes drops.\<close>

lemma visit_children_progress:
  assumes "get_block d h = Some b"
    and "visit_children (sorted_list_of_fset (children b)) stack visited desc
       = (stack', visited', desc')"
  shows "unseen d visited' < unseen d visited \<or>
         unseen d visited' = unseen d visited \<and> length stack' = length stack"
proof -
  have v: "visited' = visited |\<union>| children b"
    and s: "stack' = rev (filter (\<lambda>c. c |\<notin>| visited) (sorted_list_of_fset (children b))) @ stack"
    using assms(2) by (simp_all add: visit_children_eq)
  show ?thesis
  proof (cases "children b |\<subseteq>| visited")
    case True
    then have "visited' = visited" by (auto simp: v)
    moreover have "filter (\<lambda>c. c |\<notin>| visited) (sorted_list_of_fset (children b)) = []"
      using True by (auto simp: filter_empty_conv)
    ultimately show ?thesis by (simp add: s)
  next
    case False
    then obtain c where "c |\<in>| children b" "c |\<notin>| visited" by auto
    with children_in_pool [OF assms(1)] have "child_pool d |-| visited' |\<subset>| child_pool d |-| visited"
      by (auto simp: v)
    then show ?thesis unfolding unseen_def by (intro disjI1 pfsubset_fcard_mono)
  qed
qed

function descendants_loop :: "dag \<Rightarrow> hash list \<Rightarrow> hash fset \<Rightarrow> hash list \<Rightarrow> hash list" where
  "descendants_loop d [] visited descendants = descendants"
| "descendants_loop d (current # stack) visited descendants =
     (case get_block d current of
        None \<Rightarrow> descendants_loop d stack visited descendants
      | Some block \<Rightarrow>
          (case visit_children (sorted_list_of_fset (children block)) stack visited descendants of
             (stack', visited', descendants') \<Rightarrow> descendants_loop d stack' visited' descendants'))"
  by pat_completeness auto
termination
proof (relation "measures [\<lambda>(d, stack, visited, desc). unseen d visited,
                           \<lambda>(d, stack, visited, desc). length stack]", goal_cases)
  case 1
  show ?case by simp
next
  case (2 d current stack visited descendants)
  then show ?case by simp
next
  case 3
  then show ?case
    using visit_children_progress [OF 3(1)] by (fastforce split: prod.splits)
qed

definition get_descendants :: "dag \<Rightarrow> hash \<Rightarrow> hash list" where
  "get_descendants d h = sort (descendants_loop d [h] {|h|} [])"

definition get_anticone :: "dag \<Rightarrow> hash \<Rightarrow> hash list" where
  "get_anticone d h =
     (let ancestors = fset_of_list (get_ancestors d h);
          descendants = fset_of_list (get_descendants d h)
      in filter (\<lambda>x. x \<noteq> h \<and> x |\<notin>| ancestors \<and> x |\<notin>| descendants) (get_all_hashes d))"

section \<open>What the walks compute\<close>

definition parent_rel :: "dag \<Rightarrow> (hash \<times> hash) set" where
  "parent_rel d = {(p, c). p |\<in>| parents_of d c}"

definition child_rel :: "dag \<Rightarrow> (hash \<times> hash) set" where
  "child_rel d = {(p, c). c |\<in>| children_of d p}"

definition dag_past :: "dag \<Rightarrow> hash \<Rightarrow> hash set" where
  "dag_past d h = {a. (a, h) \<in> (parent_rel d)\<^sup>+}"

definition dag_future :: "dag \<Rightarrow> hash \<Rightarrow> hash set" where
  "dag_future d h = {c. (h, c) \<in> (child_rel d)\<^sup>+}"

abbreviation up :: "dag \<Rightarrow> hash \<Rightarrow> hash set" where
  "up d h \<equiv> fset (parents_of d h)"

abbreviation down :: "dag \<Rightarrow> hash \<Rightarrow> hash set" where
  "down d h \<equiv> fset (children_of d h)"

lemma edges_up: "edges (up d) = (parent_rel d)\<inverse>"
  by (auto simp: edges_def parent_rel_def)

lemma edges_down: "edges (down d) = child_rel d"
  by (auto simp: edges_def child_rel_def)

lemma up_reach_past: "(\<Union>x \<in> reach (up d) h. up d x) = dag_past d h"
  by (simp add: reach_trancl edges_up dag_past_def trancl_converse)

lemma down_reach_future: "reach (down d) h = insert h (dag_future d h)"
  by (auto simp: reach_def edges_down dag_future_def rtrancl_eq_or_trancl)

lemma dag_past_step: "(p, h) \<in> parent_rel d \<Longrightarrow> p \<in> dag_past d h"
  by (auto simp: dag_past_def)

lemma parents_of_block [simp]: "get_block d h = Some b \<Longrightarrow> parents_of d h = block_parents b"
  by (simp add: parents_of_def)

lemma parents_of_None [simp]: "get_block d h = None \<Longrightarrow> parents_of d h = {||}"
  by (simp add: parents_of_def)

lemma children_of_block [simp]: "get_block d h = Some b \<Longrightarrow> children_of d h = children b"
  by (simp add: children_of_def)

lemma children_of_None [simp]: "get_block d h = None \<Longrightarrow> children_of d h = {||}"
  by (simp add: children_of_def)

lemma ancestors_loop_eq:
  assumes "pop_inv (up d) r stack (fset visited)"
    and "fset ancestors = (\<Union>v \<in> fset visited. up d v)"
  shows "fset (ancestors_loop d stack visited ancestors) = dag_past d r"
  using assms
proof (induction d stack visited ancestors rule: ancestors_loop.induct)
  case (1 d visited ancestors)
  then show ?case by (simp add: pop_inv_done [OF "1.prems"(1)] up_reach_past)
next
  case (2 d current stack visited ancestors)
  show ?case
  proof (cases "current |\<in>| visited")
    case True
    with 2 show ?thesis by (simp add: pop_inv_skip)
  next
    case False
    show ?thesis
    proof (cases "get_block d current")
      case None
      have "pop_inv (up d) r stack (fset (finsert current visited))"
        using pop_inv_expand [OF "2.prems"(1), of "[]"] None by simp
      with None False 2 show ?thesis by simp
    next
      case (Some block)
      have "pop_inv (up d) r (rev (sorted_list_of_fset (block_parents block)) @ stack)
              (fset (finsert current visited))"
        using pop_inv_expand [OF "2.prems"(1), of "rev (sorted_list_of_fset (block_parents block))"]
          Some by simp
      moreover have "fset (ancestors |\<union>| block_parents block)
          = (\<Union>v \<in> fset (finsert current visited). up d v)"
        using "2.prems"(2) Some by auto
      ultimately show ?thesis using "2.IH"(3) [OF False Some] Some False by simp
    qed
  qed
qed

lemma set_get_ancestors: "set (get_ancestors d h) = dag_past d h"
  using ancestors_loop_eq [OF pop_inv_start [of "up d" h, folded bot_fset.rep_eq], of "{||}"]
  by (simp add: get_ancestors_def del: ancestors_loop.simps)

lemma sorted_get_ancestors [simp]: "sorted (get_ancestors d h)" "distinct (get_ancestors d h)"
  by (simp_all add: get_ancestors_def)

lemma is_ancestor_loop_eq:
  assumes "pop_inv (up d) b stack (fset visited)"
    and "\<forall>v \<in> fset visited. a \<notin> up d v"
  shows "is_ancestor_loop d a stack visited \<longleftrightarrow> a \<in> dag_past d b"
  using assms
proof (induction d a stack visited rule: is_ancestor_loop.induct)
  case (1 d a visited)
  then show ?case
    using pop_inv_done [OF "1.prems"(1)] by (auto simp: up_reach_past [symmetric])
next
  case (2 d a current stack visited)
  show ?case
  proof (cases "current |\<in>| visited")
    case True
    with 2 show ?thesis by (simp add: pop_inv_skip)
  next
    case False
    show ?thesis
    proof (cases "get_block d current")
      case None
      have "pop_inv (up d) b stack (fset (finsert current visited))"
        using pop_inv_expand [OF "2.prems"(1), of "[]"] None by simp
      with None False 2 show ?thesis by simp
    next
      case (Some block)
      show ?thesis
      proof (cases "a |\<in>| block_parents block")
        case True
        have "current \<in> reach (up d) b" using "2.prems"(1) by (simp add: pop_inv_def)
        moreover have "a \<in> up d current" using True Some by simp
        ultimately have "a \<in> dag_past d b" unfolding up_reach_past [symmetric] by blast
        with True False Some show ?thesis by simp
      next
        case not_parent: False
        have "pop_inv (up d) b (rev (sorted_list_of_fset (block_parents block)) @ stack)
                (fset (finsert current visited))"
          using pop_inv_expand [OF "2.prems"(1), of "rev (sorted_list_of_fset (block_parents block))"]
            Some by simp
        with "2.IH"(3) [OF False Some not_parent] "2.prems"(2) Some False not_parent
        show ?thesis by simp
      qed
    qed
  qed
qed

lemma is_ancestor_iff: "is_ancestor d a b \<longleftrightarrow> a \<noteq> b \<and> a \<in> dag_past d b"
  using is_ancestor_loop_eq [OF pop_inv_start [of "up d" b, folded bot_fset.rep_eq], of a]
  by (simp add: is_ancestor_def del: is_ancestor_loop.simps)

lemma descendants_loop_eq:
  assumes "push_inv (down d) r stack (fset visited)"
    and "set desc = fset visited - {r}" "distinct desc"
  shows "set (descendants_loop d stack visited desc) = dag_future d r - {r} \<and>
         distinct (descendants_loop d stack visited desc)"
  using assms
proof (induction d stack visited desc rule: descendants_loop.induct)
  case (1 d visited desc)
  then show ?case
    using push_inv_done [OF "1.prems"(1)] by (auto simp: down_reach_future)
next
  case (2 d current stack visited desc)
  show ?case
  proof (cases "get_block d current")
    case None
    have "push_inv (down d) r stack (fset visited)"
      using push_inv_expand [OF "2.prems"(1), of "[]"] None by simp
    with None 2 show ?thesis by simp
  next
    case (Some block)
    let ?cs = "sorted_list_of_fset (children block)"
    let ?new = "filter (\<lambda>c. c |\<notin>| visited) ?cs"
    have step: "descendants_loop d (current # stack) visited desc
        = descendants_loop d (rev ?new @ stack) (visited |\<union>| children block) (desc @ ?new)"
      using Some by (simp add: visit_children_eq)
    have "push_inv (down d) r (rev ?new @ stack) (fset (visited |\<union>| children block))"
      using push_inv_expand [OF "2.prems"(1), of "rev ?new"] Some by (auto simp: set_diff_eq)
    moreover have "r \<in> fset visited" using "2.prems"(1) by (simp add: push_inv_def)
    then have "set (desc @ ?new) = fset (visited |\<union>| children block) - {r}" "distinct (desc @ ?new)"
      using "2.prems"(2,3) by auto
    ultimately show ?thesis
      unfolding step
      by (intro "2.IH"(2) [OF Some _ refl]) (simp_all add: visit_children_eq)
  qed
qed

lemma set_get_descendants: "set (get_descendants d h) = dag_future d h - {h}"
  using descendants_loop_eq [of d h "[h]" "{|h|}" "[]"]
  by (simp add: get_descendants_def push_inv_start del: descendants_loop.simps)

lemma sorted_get_descendants [simp]: "sorted (get_descendants d h)" "distinct (get_descendants d h)"
  using descendants_loop_eq [of d h "[h]" "{|h|}" "[]"]
  by (simp_all add: get_descendants_def push_inv_start del: descendants_loop.simps)

lemma set_get_all_hashes: "set (get_all_hashes d) = fset (fmdom (blocks d))"
  by (simp add: get_all_hashes_def)

lemma sorted_get_all_hashes [simp]: "sorted (get_all_hashes d)" "distinct (get_all_hashes d)"
  by (simp_all add: get_all_hashes_def)

lemma get_block_dom: "h |\<in>| fmdom (blocks d) \<longleftrightarrow> get_block d h \<noteq> None"
  by (simp add: get_block_def fmlookup_dom_iff)

lemma set_get_anticone:
  "set (get_anticone d h) =
     {x. get_block d x \<noteq> None \<and> x \<noteq> h \<and> x \<notin> dag_past d h \<and> x \<notin> dag_future d h}"
  by (auto simp: get_anticone_def Let_def fset_of_list_elem set_get_ancestors set_get_descendants
      set_get_all_hashes get_block_dom)

lemma sorted_get_anticone [simp]: "sorted (get_anticone d h)" "distinct (get_anticone d h)"
  by (simp_all add: get_anticone_def Let_def sorted_wrt_filter)

section \<open>Well-formed graphs\<close>

definition dag_wf :: "dag \<Rightarrow> bool" where
  "dag_wf d \<longleftrightarrow>
     (\<forall>h b. get_block d h = Some b \<longrightarrow> hdr_id (header b) = h) \<and>
     (\<forall>p c. (p, c) \<in> parent_rel d \<longrightarrow> get_block d p \<noteq> None) \<and>
     child_rel d = parent_rel d \<and> acyclic (parent_rel d)"

definition tips_ok :: "dag \<Rightarrow> bool" where
  "tips_ok d \<longleftrightarrow> (\<forall>h. h |\<in>| tips d \<longleftrightarrow> get_block d h \<noteq> None \<and> children_of d h = {||})"

lemma dag_wf_new: "dag_wf dag_new" "tips_ok dag_new"
  by (simp_all add: dag_wf_def tips_ok_def dag_new_def parent_rel_def child_rel_def get_block_def
      parents_of_def children_of_def acyclic_def)

lemma get_block_modify [simp]:
  "get_block (modify_block d h f) x = (if x = h then map_option f (get_block d h) else get_block d x)"
  by (auto simp: modify_block_def get_block_def split: option.splits)

lemma tips_modify [simp]: "tips (modify_block d h f) = tips d"
  by (simp add: modify_block_def split: option.splits)

lemma fmdom_modify [simp]: "fmdom (blocks (modify_block d h f)) = fmdom (blocks d)"
  by (auto simp: modify_block_def get_block_def split: option.splits intro: fmdomI)

lemma get_block_fold_modify:
  "distinct hs \<Longrightarrow> get_block (fold (\<lambda>h d. modify_block d h f) hs d) x =
     (if x \<in> set hs then map_option f (get_block d x) else get_block d x)"
  by (induction hs arbitrary: d) auto

lemma tips_fold_modify [simp]: "tips (fold (\<lambda>h d. modify_block d h f) hs d) = tips d"
  by (induction hs arbitrary: d) auto

lemma get_block_upd [simp]:
  "get_block (d\<lparr>blocks := fmupd h b (blocks d)\<rparr>) x = (if x = h then Some b else get_block d x)"
  "get_block (d\<lparr>blocks := fmdrop h (blocks d), tips := t\<rparr>) x = (if x = h then None else get_block d x)"
  "get_block (d\<lparr>blocks := fmdrop h (blocks d)\<rparr>) x = (if x = h then None else get_block d x)"
  "get_block (d\<lparr>tips := t\<rparr>) x = get_block d x"
  by (simp_all add: get_block_def)

subsection \<open>Adding a block\<close>

lemma add_block_Inr:
  assumes "add_block d block = Inr d'"
  shows "get_block d (hdr_id (header block)) = None"
    and "hdr_id (header block) |\<notin>| block_parents block"
    and "\<And>p. p |\<in>| block_parents block \<Longrightarrow> get_block d p \<noteq> None"
    and "block_parents block = {||} \<Longrightarrow> fmdom (blocks d) = {||}"
    and "get_block d' x =
           (if x = hdr_id (header block) then Some block
            else if x |\<in>| block_parents block
            then map_option (\<lambda>b. b\<lparr>children := finsert (hdr_id (header block)) (children b)\<rparr>) (get_block d x)
            else get_block d x)"
    and "tips d' = finsert (hdr_id (header block)) (tips d |-| block_parents block)"
proof -
  let ?h = "hdr_id (header block)" and ?ps = "block_parents block"
  from assms have r: "get_block d ?h = None" "?h |\<notin>| ?ps" "\<not> (?ps = {||} \<and> fmdom (blocks d) \<noteq> {||})"
      "\<not> (\<exists>p. p |\<in>| ?ps \<and> get_block d p = None)"
    and d': "d' = (fold (\<lambda>p d'. modify_block d' p (\<lambda>b. b\<lparr>children := finsert ?h (children b)\<rparr>))
                (sorted_list_of_fset ?ps) (d\<lparr>blocks := fmupd ?h block (blocks d)\<rparr>))
                \<lparr>tips := finsert ?h (tips d |-| ?ps)\<rparr>"
    by (auto simp: add_block_def Let_def split: if_splits)
  from r show "get_block d ?h = None" "?h |\<notin>| ?ps" "\<And>p. p |\<in>| ?ps \<Longrightarrow> get_block d p \<noteq> None"
    "?ps = {||} \<Longrightarrow> fmdom (blocks d) = {||}" by auto
  show "get_block d' x = (if x = ?h then Some block else if x |\<in>| ?ps
      then map_option (\<lambda>b. b\<lparr>children := finsert ?h (children b)\<rparr>) (get_block d x) else get_block d x)"
    using r(2) by (auto simp: d' get_block_fold_modify)
  show "tips d' = finsert ?h (tips d |-| ?ps)" by (simp add: d')
qed

lemma add_block_accepts:
  "is_ok (add_block d block) \<longleftrightarrow>
     get_block d (hdr_id (header block)) = None \<and>
     hdr_id (header block) |\<notin>| block_parents block \<and>
     (block_parents block = {||} \<longrightarrow> fmdom (blocks d) = {||}) \<and>
     fBall (block_parents block) (\<lambda>p. get_block d p \<noteq> None)"
  by (auto simp: add_block_def Let_def)

lemma add_block_parents_of:
  assumes "add_block d block = Inr d'"
  shows "parents_of d' x =
     (if x = hdr_id (header block) then block_parents block else parents_of d x)"
  by (auto simp: parents_of_def add_block_Inr(5) [OF assms] split: option.splits)

lemma add_block_children_of:
  assumes "add_block d block = Inr d'"
  shows "children_of d' x =
     (if x = hdr_id (header block) then children block
      else if x |\<in>| block_parents block then finsert (hdr_id (header block)) (children_of d x)
      else children_of d x)"
  using add_block_Inr(3) [OF assms, of x]
  by (auto simp: children_of_def add_block_Inr(5) [OF assms] split: option.splits)

lemma add_block_parent_rel:
  assumes "add_block d block = Inr d'"
  shows "parent_rel d' = parent_rel d \<union> fset (block_parents block) \<times> {hdr_id (header block)}"
  using add_block_Inr(1) [OF assms]
  by (auto simp: parent_rel_def add_block_parents_of [OF assms] split: if_splits)

text \<open>Edges into a node that has no outgoing edge change no other path.\<close>

lemma trancl_sink:
  assumes "(x, y) \<in> (r \<union> A \<times> {h})\<^sup>+" "h \<notin> Domain r" "h \<notin> A" "y \<noteq> h"
  shows "(x, y) \<in> r\<^sup>+"
  using assms(1,4)
proof (induction rule: trancl_induct)
  case (base y)
  then show ?case by auto
next
  case (step y z)
  have "(y, z) \<in> r" using step by auto
  moreover from this assms(2) have "y \<noteq> h" by auto
  ultimately show ?case using step.IH by (meson trancl_into_trancl)
qed

lemma trancl_no_out: "(x, y) \<in> r\<^sup>+ \<Longrightarrow> x \<in> Domain r"
  by (metis DomainI tranclD)

lemma dag_wf_not_parent:
  "dag_wf d \<Longrightarrow> get_block d h = None \<Longrightarrow> h \<notin> Domain (parent_rel d)"
  by (auto simp: dag_wf_def)

lemma add_block_past:
  assumes "dag_wf d" "add_block d block = Inr d'" "x \<noteq> hdr_id (header block)"
  shows "dag_past d' x = dag_past d x"
proof -
  have "h \<notin> Domain (parent_rel d)" if "h = hdr_id (header block)" for h
    using dag_wf_not_parent [OF assms(1)] add_block_Inr(1) [OF assms(2)] that by simp
  then show ?thesis
    using assms(3) add_block_Inr(2) [OF assms(2)]
    by (auto simp: dag_past_def add_block_parent_rel [OF assms(2)] intro: trancl_sink
        trancl_mono [of _ "parent_rel d"])
qed

lemma add_block_wf:
  assumes "dag_wf d" "add_block d block = Inr d'" "children block = {||}"
  shows "dag_wf d'"
proof -
  let ?h = "hdr_id (header block)" and ?ps = "fset (block_parents block)"
  have dom: "?h \<notin> Domain (parent_rel d)"
    using dag_wf_not_parent [OF assms(1)] add_block_Inr(1) [OF assms(2)] .
  have notin: "?h \<notin> ?ps" using add_block_Inr(2) [OF assms(2)] .
  have "acyclic (parent_rel d')"
  proof (rule acyclicI, intro allI notI)
    fix x assume cyc: "(x, x) \<in> (parent_rel d')\<^sup>+"
    then have "x \<noteq> ?h"
      using dom notin by (auto dest!: trancl_no_out simp: add_block_parent_rel [OF assms(2)])
    with cyc have "(x, x) \<in> (parent_rel d)\<^sup>+"
      using dom notin by (auto simp: add_block_parent_rel [OF assms(2)] intro: trancl_sink)
    with assms(1) show False by (auto simp: dag_wf_def acyclic_def)
  qed
  moreover have "child_rel d' = parent_rel d'"
  proof -
    have "child_rel d' = child_rel d \<union> ?ps \<times> {?h}"
      using assms(3) add_block_Inr(1) [OF assms(2)] notin
      by (auto simp: child_rel_def add_block_children_of [OF assms(2)] split: if_splits)
    then show ?thesis using assms(1) by (simp add: dag_wf_def add_block_parent_rel [OF assms(2)])
  qed
  moreover have "get_block d' p \<noteq> None" if "(p, c) \<in> parent_rel d'" for p c
    using that assms(1) add_block_Inr(3) [OF assms(2), of p]
    by (auto simp: dag_wf_def add_block_parent_rel [OF assms(2)] add_block_Inr(5) [OF assms(2)])
  moreover have "hdr_id (header b) = x" if "get_block d' x = Some b" for x b
    using that assms(1)
    by (auto simp: dag_wf_def add_block_Inr(5) [OF assms(2)] split: if_splits)
  ultimately show ?thesis by (simp add: dag_wf_def)
qed

lemma add_block_tips_ok:
  assumes "tips_ok d" "add_block d block = Inr d'" "children block = {||}"
  shows "tips_ok d'"
  using assms(1,3) add_block_Inr(3) [OF assms(2)]
  by (auto simp: tips_ok_def add_block_Inr(5,6) [OF assms(2)] add_block_children_of [OF assms(2)])

subsection \<open>Removing a block\<close>

lemma remove_block_absent [simp]: "get_block d h = None \<Longrightarrow> remove_block d h = d"
  by (simp add: remove_block_def)

lemma get_block_remove_block:
  assumes "get_block d h = Some block"
  shows "get_block (remove_block d h) x =
     (if x = h then None
      else map_option (\<lambda>b.
             let b1 = (if x |\<in>| block_parents block then b\<lparr>children := children b |-| {|h|}\<rparr> else b)
             in if x |\<in>| children block
                then b1\<lparr>header := (header b1)\<lparr>parents := block_parents b1 |-| {|h|}\<rparr>\<rparr> else b1)
           (get_block d x))"
  by (cases "get_block d x")
    (auto simp: remove_block_def assms Let_def get_block_fold_modify)

lemma tips_remove_block:
  assumes "get_block d h = Some block"
  shows "tips (remove_block d h) = tips d |-| {|h|}"
  by (simp add: remove_block_def assms Let_def)

lemma dag_wf_parents_child:
  assumes "dag_wf d"
  shows "p |\<in>| parents_of d c \<longleftrightarrow> c |\<in>| children_of d p"
proof -
  have "(p, c) \<in> parent_rel d \<longleftrightarrow> (p, c) \<in> child_rel d" using assms by (simp add: dag_wf_def)
  then show ?thesis by (simp add: parent_rel_def child_rel_def)
qed

lemma remove_block_parents_of:
  assumes "dag_wf d" "get_block d h = Some block"
  shows "parents_of (remove_block d h) x = (if x = h then {||} else parents_of d x |-| {|h|})"
proof (cases "x |\<in>| children block")
  case True
  then show ?thesis
    by (auto simp: parents_of_def get_block_remove_block [OF assms(2)] Let_def split: option.splits)
next
  case False
  then have "h |\<notin>| parents_of d x"
    using assms by (simp add: dag_wf_parents_child children_of_def)
  with False show ?thesis
    by (auto simp: parents_of_def get_block_remove_block [OF assms(2)] Let_def split: option.splits)
qed

lemma remove_block_children_of:
  assumes "dag_wf d" "get_block d h = Some block"
  shows "children_of (remove_block d h) x = (if x = h then {||} else children_of d x |-| {|h|})"
proof (cases "x |\<in>| block_parents block")
  case True
  then show ?thesis
    by (auto simp: children_of_def get_block_remove_block [OF assms(2)] Let_def split: option.splits)
next
  case False
  then have "h |\<notin>| children_of d x"
    using dag_wf_parents_child [OF assms(1), of x h] assms(2) by (simp add: parents_of_def)
  with False show ?thesis
    by (auto simp: children_of_def get_block_remove_block [OF assms(2)] Let_def split: option.splits)
qed

lemma remove_block_wf:
  assumes "dag_wf d"
  shows "dag_wf (remove_block d h)"
proof (cases "get_block d h")
  case None
  with assms show ?thesis by simp
next
  case (Some block)
  have rel: "parent_rel (remove_block d h) \<subseteq> parent_rel d"
    by (auto simp: parent_rel_def remove_block_parents_of [OF assms Some] split: if_splits)
  have "hdr_id (header b) = x" if "get_block (remove_block d h) x = Some b" for x b
    using that assms by (auto simp: get_block_remove_block [OF Some] Let_def dag_wf_def split: if_splits)
  moreover have "get_block (remove_block d h) p \<noteq> None" if "(p, c) \<in> parent_rel (remove_block d h)" for p c
    using that assms rel
    by (auto simp: get_block_remove_block [OF Some] dag_wf_def parent_rel_def
        remove_block_parents_of [OF assms Some] split: if_splits)
  moreover have "child_rel (remove_block d h) = parent_rel (remove_block d h)"
    by (auto simp: child_rel_def parent_rel_def remove_block_children_of [OF assms Some]
        remove_block_parents_of [OF assms Some] dag_wf_parents_child [OF assms] split: if_splits)
  moreover have "acyclic (parent_rel (remove_block d h))"
    using assms rel acyclic_subset by (auto simp: dag_wf_def)
  ultimately show ?thesis by (simp add: dag_wf_def)
qed

lemma parent_present: "dag_wf d \<Longrightarrow> p |\<in>| parents_of d x \<Longrightarrow> get_block d p \<noteq> None"
  unfolding dag_wf_def parent_rel_def by blast

lemma parent_neq: "dag_wf d \<Longrightarrow> p |\<in>| parents_of d x \<Longrightarrow> p \<noteq> x"
  by (auto simp: dag_wf_def acyclic_def parent_rel_def)

text \<open>
  Tips after a removal: the removed block leaves, but a parent whose only child it was has no
  child any more and is not put back.
\<close>

lemma remove_block_tips_ok:
  assumes "dag_wf d" "tips_ok d" "get_block d h = Some block"
  shows "tips_ok (remove_block d h) \<longleftrightarrow> (\<forall>p. p |\<in>| parents_of d h \<longrightarrow> children_of d p \<noteq> {|h|})"
proof -
  have ph: "p \<noteq> h" if "p |\<in>| parents_of d h" for p
    using parent_neq [OF assms(1) that] .
  have ex: "get_block (remove_block d h) x \<noteq> None \<longleftrightarrow> x \<noteq> h \<and> get_block d x \<noteq> None" for x
    by (auto simp: get_block_remove_block [OF assms(3)])
  have "tips_ok (remove_block d h) \<longleftrightarrow>
     (\<forall>x. x |\<in>| tips d \<and> x \<noteq> h \<longleftrightarrow> x \<noteq> h \<and> get_block d x \<noteq> None \<and> children_of d x |\<subseteq>| {|h|})"
    unfolding tips_ok_def ex tips_remove_block [OF assms(3)]
    by (auto simp: remove_block_children_of [OF assms(1,3)])
  also have "\<dots> \<longleftrightarrow> (\<forall>x. x \<noteq> h \<and> get_block d x \<noteq> None \<longrightarrow> children_of d x \<noteq> {|h|})"
    using assms(2) by (auto simp: tips_ok_def fsubset_fsingletonD)
  also have "\<dots> \<longleftrightarrow> (\<forall>p. p |\<in>| parents_of d h \<longrightarrow> children_of d p \<noteq> {|h|})"
    using ph assms(1) by (metis (no_types, lifting) children_of_def dag_wf_parents_child finsertI1
        fempty_iff option.simps(4))
  finally show ?thesis .
qed

subsection \<open>Past, future and anticone\<close>

lemma past_blocks: "dag_wf d \<Longrightarrow> dag_past d h \<subseteq> fset (fmdom (blocks d))"
  using trancl_no_out by (fastforce simp: dag_past_def dag_wf_def get_block_dom)

lemma future_eq:
  "dag_wf d \<Longrightarrow> dag_future d h = {c. (h, c) \<in> (parent_rel d)\<^sup>+}"
  by (simp add: dag_future_def dag_wf_def)

lemma child_block: "(p, c) \<in> parent_rel d \<Longrightarrow> get_block d c \<noteq> None"
  by (auto simp: parent_rel_def parents_of_def split: option.splits)

lemma future_blocks: "dag_wf d \<Longrightarrow> dag_future d h \<subseteq> fset (fmdom (blocks d))"
  by (auto simp: future_eq get_block_dom dest!: tranclD2 child_block)

lemma past_future_irrefl: "dag_wf d \<Longrightarrow> h \<notin> dag_past d h \<and> h \<notin> dag_future d h"
  by (auto simp: future_eq dag_past_def dag_wf_def acyclic_def)

lemma past_future_disjoint: "dag_wf d \<Longrightarrow> dag_past d h \<inter> dag_future d h = {}"
  by (auto simp: future_eq dag_past_def dag_wf_def acyclic_def dest: trancl_trans)

lemma past_future_sym: "dag_wf d \<Longrightarrow> a \<in> dag_past d h \<longleftrightarrow> h \<in> dag_future d a"
  by (simp add: future_eq dag_past_def)

lemma anticone_sym:
  "dag_wf d \<Longrightarrow> get_block d a \<noteq> None \<Longrightarrow> get_block d b \<noteq> None \<Longrightarrow>
   a \<in> set (get_anticone d b) \<longleftrightarrow> b \<in> set (get_anticone d a)"
  by (auto simp: set_get_anticone past_future_sym)

lemma dag_partition:
  assumes "dag_wf d" "get_block d h \<noteq> None"
  shows "mset (h # get_ancestors d h @ get_descendants d h @ get_anticone d h) = mset (get_all_hashes d)"
proof -
  have "set (get_descendants d h) = dag_future d h"
    using past_future_irrefl [OF assms(1), of h] by (auto simp: set_get_descendants)
  then show ?thesis
    using assms past_blocks [OF assms(1), of h] future_blocks [OF assms(1), of h]
      past_future_irrefl [OF assms(1), of h] past_future_disjoint [OF assms(1), of h]
    by (intro set_eq_iff_mset_eq_distinct [THEN iffD1])
      (auto simp: set_get_ancestors set_get_anticone set_get_all_hashes get_block_dom)
qed

section \<open>Properties\<close>

definition sample_block :: "bytes32 \<Rightarrow> hash fset \<Rightarrow> block_node" where
  "sample_block h ps =
     \<lparr>header = \<lparr>hdr_id = Hash h, parents = ps, timestamp = 0, difficulty = 1, nonce = 0,
        verkle_root = Hash 0, verkle_proofs = None, hdr_signature = None\<rparr>,
      children = {||}, selected_parent = None, blue_set = {||}, red_set = {||}, blue_score = 0,
      transactions = []\<rparr>"

fun add_blocks :: "block_node list \<Rightarrow> dag \<Rightarrow> core_error + dag" where
  "add_blocks [] d = Inr d"
| "add_blocks (b # bs) d = bind_res (add_block d b) (add_blocks bs)"

lemma add_blocks_wf:
  "dag_wf d \<Longrightarrow> tips_ok d \<Longrightarrow> \<forall>b \<in> set bs. children b = {||} \<Longrightarrow> add_blocks bs d = Inr d' \<Longrightarrow>
     dag_wf d' \<and> tips_ok d'"
proof (induction bs arbitrary: d)
  case Nil
  then show ?case by simp
next
  case (Cons b bs)
  then obtain d1 where "add_block d b = Inr d1" "add_blocks bs d1 = Inr d'" by auto
  with Cons show ?case by (meson add_block_tips_ok add_block_wf list.set_intros)
qed

text \<open>A diamond with one more block beside it: 1 below 2, 3 and 5; 4 above 2 and 3.\<close>

definition sample_blocks :: "block_node list" where
  "sample_blocks =
     [sample_block 1 {||}, sample_block 2 {|Hash 1|}, sample_block 3 {|Hash 1|},
      sample_block 4 {|Hash 2, Hash 3|}, sample_block 5 {|Hash 1|}]"

definition sample_dag :: dag where
  "sample_dag = (case add_blocks sample_blocks dag_new of Inl _ \<Rightarrow> dag_new | Inr d \<Rightarrow> d)"

lemma sample_dag_built: "add_blocks sample_blocks dag_new = Inr sample_dag"
  by code_simp

lemma sample_dag_ok: "dag_wf sample_dag" "tips_ok sample_dag"
  using add_blocks_wf [OF dag_wf_new _ sample_dag_built]
  by (simp_all add: sample_blocks_def sample_block_def)

lemma sample_dag_lookup: "get_block sample_dag (Hash 4) \<noteq> None" "get_block sample_dag (Hash 2) \<noteq> None"
  "get_block sample_dag (Hash 3) \<noteq> None"
  by code_simp+

lemma sample_dag_facts:
  "get_block_count sample_dag = 5" "Hash 2 |\<in>| parents_of sample_dag (Hash 4)"
  "get_block sample_dag (Hash 5) \<noteq> None" "Hash 5 |\<in>| tips sample_dag"
  "get_block sample_dag (Hash 6) = None"
  by code_simp+

lemma sample_dag_accepts: "is_ok (add_block sample_dag (sample_block 6 {|Hash 4, Hash 5|}))"
  using sample_dag_facts(3,5) sample_dag_lookup(1)
  by (simp add: add_block_accepts) (simp add: sample_block_def)

text \<open>
  C37. The walks of the code compute reachability. For a block of a well-formed graph, the stack
  search over parents lists exactly the blocks from which it can be reached along parent edges, each
  once and in order; the search over children lists exactly the blocks reachable from it along the
  same edges; the anticone lists exactly the other blocks with no path in either direction. So each
  block of the graph is the block itself or in exactly one of the three lists.
\<close>

theorem walks_compute_reachability:
  assumes "dag_wf d" "get_block d h \<noteq> None"
  shows "set (get_ancestors d h) = {a. (a, h) \<in> (parent_rel d)\<^sup>+} \<and>
     set (get_descendants d h) = {c. (h, c) \<in> (parent_rel d)\<^sup>+} \<and>
     set (get_anticone d h) =
       {x. get_block d x \<noteq> None \<and> x \<noteq> h \<and> (x, h) \<notin> (parent_rel d)\<^sup>+ \<and> (h, x) \<notin> (parent_rel d)\<^sup>+} \<and>
     sorted (get_ancestors d h) \<and> sorted (get_descendants d h) \<and> sorted (get_anticone d h) \<and>
     mset (h # get_ancestors d h @ get_descendants d h @ get_anticone d h) = mset (get_all_hashes d)"
proof -
  have "set (get_descendants d h) = {c. (h, c) \<in> (parent_rel d)\<^sup>+}"
    using past_future_irrefl [OF assms(1), of h] by (auto simp: set_get_descendants future_eq [OF assms(1)])
  then show ?thesis
    using dag_partition [OF assms]
    by (simp add: set_get_ancestors set_get_anticone dag_past_def future_eq [OF assms(1)])
qed

theorem walks_compute_reachability_witness:
  "set (get_anticone sample_dag (Hash 2)) =
     {x. get_block sample_dag x \<noteq> None \<and> x \<noteq> Hash 2 \<and>
       (x, Hash 2) \<notin> (parent_rel sample_dag)\<^sup>+ \<and> (Hash 2, x) \<notin> (parent_rel sample_dag)\<^sup>+}"
  using walks_compute_reachability [OF sample_dag_ok(1) sample_dag_lookup(2)] by blast

text \<open>
  Being in the anticone is symmetric, as the pairwise test of the colouring rule assumes.
\<close>

theorem anticone_symmetric:
  assumes "dag_wf d" "get_block d a \<noteq> None" "get_block d b \<noteq> None"
  shows "a \<in> set (get_anticone d b) \<longleftrightarrow> b \<in> set (get_anticone d a)"
  using assms by (rule anticone_sym)

theorem anticone_symmetric_witness:
  "Hash 2 \<in> set (get_anticone sample_dag (Hash 3)) \<longleftrightarrow> Hash 3 \<in> set (get_anticone sample_dag (Hash 2))"
  by (rule anticone_symmetric [OF sample_dag_ok(1) sample_dag_lookup(2,3)])

text \<open>
  \<open>is_ancestor\<close> decides reachability along parent edges, on any graph: its stack search
  neither misses an ancestor nor reports a block that is none, and a block is not its own
  ancestor even on a cyclic graph.
\<close>

theorem is_ancestor_decides:
  "is_ancestor d a b \<longleftrightarrow> a \<noteq> b \<and> (a, b) \<in> {(p, c). p |\<in>| parents_of d c}\<^sup>+"
  by (simp add: is_ancestor_iff dag_past_def parent_rel_def)

text \<open>
  Removing a block keeps the graph well formed, but not its set of tips: the tips are right
  afterwards exactly when no parent of the removed block had it as its only child.
\<close>

theorem remove_block_effect:
  assumes "dag_wf d" "tips_ok d" "get_block d h = Some block"
  shows "dag_wf (remove_block d h) \<and>
     (tips_ok (remove_block d h) \<longleftrightarrow> \<not> (\<exists>p. p |\<in>| parents_of d h \<and> children_of d p = {|h|}))"
  using remove_block_wf [OF assms(1)] remove_block_tips_ok [OF assms] by blast

theorem remove_block_effect_witness:
  "dag_wf (remove_block sample_dag (Hash 4)) \<and> \<not> tips_ok (remove_block sample_dag (Hash 4))"
proof -
  obtain b where b: "get_block sample_dag (Hash 4) = Some b" using sample_dag_lookup(1) by auto
  have "Hash 2 |\<in>| parents_of sample_dag (Hash 4) \<and> children_of sample_dag (Hash 2) = {|Hash 4|}"
    by code_simp
  then have "\<exists>p. p |\<in>| parents_of sample_dag (Hash 4) \<and> children_of sample_dag p = {|Hash 4|}" by blast
  with remove_block_effect [OF sample_dag_ok b] show ?thesis by simp
qed

end
