(* ===== verification/Float64.thy ===== *)
theory Float64
  imports Complex_Main Klomang_Prelude "HOL-Library.Log_Nat"
begin

text \<open>
  The \<open>f64\<close> of Rust as the code uses it: conversions from integers, division, multiplication,
  \<open>clamp\<close>, \<open>round\<close> and the saturating cast to \<open>u64\<close>, with the rounding of IEEE 754 binary64 (to
  the nearest, ties to even). A value is NaN, an infinity (\<open>True\<close> for the negative one) or a
  rational. The two zeros are one value: they differ only as divisors, and the divisors of the
  code come from unsigned integers, so a zero among them is the positive one.
\<close>

section \<open>Values and rounding\<close>

datatype f64 = NaN | Infinite bool | Finite rat

text \<open>The exponent of a positive rational: \<open>2 powi e \<le> x < 2 powi (e + 1)\<close>.\<close>

definition binary_exponent :: "rat \<Rightarrow> int" where
  "binary_exponent x =
     (let (p, q) = quotient_of x; g = bitlen p - bitlen q
      in if 2 powi g \<le> x then g else g - 1)"

definition round_even :: "rat \<Rightarrow> int" where
  "round_even x =
     (let n = \<lfloor>x\<rfloor>; r = x - of_int n
      in if r < 1 / 2 then n else if 1 / 2 < r then n + 1 else if even n then n else n + 1)"

text \<open>The exponent of the last bit: 53 bits of precision, no bit below \<open>2 powi - 1074\<close>.\<close>

definition last_bit :: "rat \<Rightarrow> int" where
  "last_bit x = max (binary_exponent \<bar>x\<bar> - 52) (- 1074)"

definition round_binary :: "rat \<Rightarrow> rat" where
  "round_binary x = (if x = 0 then 0 else of_int (round_even (x / 2 powi last_bit x)) * 2 powi last_bit x)"

definition f64_round :: "rat \<Rightarrow> f64" where
  "f64_round x =
     (let r = round_binary x in if 2 ^ 1024 \<le> \<bar>r\<bar> then Infinite (r < 0) else Finite r)"

section \<open>Operations\<close>

definition f64_of_nat :: "nat \<Rightarrow> f64" where
  "f64_of_nat n = f64_round (of_nat n)"

fun f64_div :: "f64 \<Rightarrow> f64 \<Rightarrow> f64" where
  "f64_div (Finite x) (Finite y) =
     (if y = 0 then if x = 0 then NaN else Infinite (x < 0) else f64_round (x / y))"
| "f64_div (Finite x) (Infinite neg) = Finite 0"
| "f64_div (Infinite neg) (Finite y) = Infinite (neg \<noteq> (y < 0))"
| "f64_div _ _ = NaN"

fun f64_mul :: "f64 \<Rightarrow> f64 \<Rightarrow> f64" where
  "f64_mul (Finite x) (Finite y) = f64_round (x * y)"
| "f64_mul (Finite x) (Infinite neg) = (if x = 0 then NaN else Infinite (neg \<noteq> (x < 0)))"
| "f64_mul (Infinite neg) (Finite y) = (if y = 0 then NaN else Infinite (neg \<noteq> (y < 0)))"
| "f64_mul (Infinite a) (Infinite b) = Infinite (a \<noteq> b)"
| "f64_mul _ _ = NaN"

fun f64_clamp :: "rat \<Rightarrow> rat \<Rightarrow> f64 \<Rightarrow> f64" where
  "f64_clamp lo hi NaN = NaN"
| "f64_clamp lo hi (Infinite neg) = Finite (if neg then lo else hi)"
| "f64_clamp lo hi (Finite x) = Finite (clamp x lo hi)"

text \<open>\<open>x.round()\<close>: to the nearest integer, halves away from zero; every integer result is exact.\<close>

definition round_away :: "rat \<Rightarrow> int" where
  "round_away x = (if x < 0 then - \<lfloor>1 / 2 - x\<rfloor> else \<lfloor>x + 1 / 2\<rfloor>)"

fun f64_nearest :: "f64 \<Rightarrow> f64" where
  "f64_nearest NaN = NaN"
| "f64_nearest (Infinite neg) = Infinite neg"
| "f64_nearest (Finite x) = Finite (of_int (round_away x))"

text \<open>\<open>x as u64\<close>: NaN is 0, what is out of range is cut off, a fraction is dropped.\<close>

fun f64_as_u64 :: "f64 \<Rightarrow> u64" where
  "f64_as_u64 NaN = 0"
| "f64_as_u64 (Infinite neg) = (if neg then 0 else - 1)"
| "f64_as_u64 (Finite x) = word_of_int (clamp \<lfloor>x\<rfloor> 0 (2 ^ 64 - 1))"

section \<open>Rounding is exact where it can be, and monotone\<close>

lemma binary_exponent:
  assumes "0 < x"
  shows "2 powi binary_exponent x \<le> x" "x < 2 powi (binary_exponent x + 1)"
proof -
  obtain p q where pq: "quotient_of x = (p, q)" by (cases "quotient_of x")
  have x: "x = of_int p / of_int q" and q: "0 < q"
    using quotient_of_div [OF pq] quotient_of_denom_pos [OF pq] by simp_all
  with assms have p: "0 < p" by (simp add: zero_less_divide_iff)
  let ?g = "bitlen p - bitlen q"
  have bound: "2 powi (bitlen n - 1) \<le> (of_int n :: rat) \<and> of_int n < (2 powi bitlen n :: rat)" if "0 < n" for n
  proof -
    have "2 ^ nat (bitlen n - 1) \<le> n" "n < 2 ^ nat (bitlen n)" using bitlen_bounds [OF that] by simp_all
    then have "(of_int (2 ^ nat (bitlen n - 1)) :: rat) \<le> of_int n" "(of_int n :: rat) < of_int (2 ^ nat (bitlen n))"
      by (simp_all only: of_int_le_iff of_int_less_iff)
    moreover have "0 < bitlen n" using that by (simp add: bitlen_eq_zero_iff bitlen_nonneg less_le)
    ultimately show ?thesis by (simp add: power_int_def)
  qed
  have "x < 2 powi (?g + 1)"
  proof -
    have "x < 2 powi bitlen p / 2 powi (bitlen q - 1)"
      unfolding x using bound [OF p] bound [OF q] p q by (intro frac_less) simp_all
    also have "\<dots> = 2 powi (?g + 1)" by (simp flip: power_int_diff add: algebra_simps)
    finally show ?thesis .
  qed
  moreover have "2 powi (?g - 1) \<le> x"
  proof -
    have "2 powi (?g - 1) = (2 powi (bitlen p - 1) / 2 powi bitlen q :: rat)"
      by (simp flip: power_int_diff add: algebra_simps)
    also have "\<dots> \<le> x" unfolding x using bound [OF p] bound [OF q] p q by (intro frac_le) simp_all
    finally show ?thesis .
  qed
  ultimately show "2 powi binary_exponent x \<le> x" "x < 2 powi (binary_exponent x + 1)"
    by (auto simp: binary_exponent_def pq Let_def)
qed

lemma round_even_int [simp]: "round_even (of_int n) = n"
  by (simp add: round_even_def)

lemma round_even_mono:
  assumes "x \<le> y"
  shows "round_even x \<le> round_even y"
proof (cases "\<lfloor>x\<rfloor> = \<lfloor>y\<rfloor>")
  case True
  with assms show ?thesis by (simp add: round_even_def Let_def)
next
  case False
  with floor_mono [OF assms] have "\<lfloor>x\<rfloor> + 1 \<le> \<lfloor>y\<rfloor>" by simp
  moreover have "round_even x \<le> \<lfloor>x\<rfloor> + 1" "\<lfloor>y\<rfloor> \<le> round_even y" by (simp_all add: round_even_def Let_def)
  ultimately show ?thesis by simp
qed

lemma last_bit_bound:
  assumes "0 < x"
  shows "x < 2 powi (last_bit x + 53)" "- 1074 < last_bit x \<Longrightarrow> 2 powi (last_bit x + 52) \<le> x"
proof -
  have "(2 :: rat) powi (binary_exponent x + 1) \<le> 2 powi (last_bit x + 53)"
    using assms by (intro power_int_increasing) (simp_all add: last_bit_def)
  with binary_exponent(2) [OF assms] show "x < 2 powi (last_bit x + 53)" by simp
  assume "- 1074 < last_bit x"
  then have "last_bit x + 52 = binary_exponent x" using assms by (simp add: last_bit_def)
  with binary_exponent(1) [OF assms] show "2 powi (last_bit x + 52) \<le> x" by simp
qed

lemma exponent_less:
  assumes "2 powi a \<le> x" "x < (2 :: rat) powi b"
  shows "a < b"
proof (rule ccontr)
  assume "\<not> a < b"
  then have "(2 :: rat) powi b \<le> 2 powi a" by (intro power_int_increasing) simp_all
  with assms show False by simp
qed

lemma last_bit_mono:
  assumes "0 < x" "x \<le> y"
  shows "last_bit x \<le> last_bit y"
proof -
  have "2 powi binary_exponent x \<le> y" "y < 2 powi (binary_exponent y + 1)"
    using binary_exponent [of x] binary_exponent [of y] assms by simp_all
  then have "binary_exponent x < binary_exponent y + 1" by (rule exponent_less)
  with assms show ?thesis by (simp add: last_bit_def)
qed

lemma two_powi_split: "(2 :: rat) powi (a + b) = 2 powi a * 2 powi b"
  by (simp add: power_int_add)

lemma round_binary_exact:
  assumes "0 \<le> m" "m < 2 ^ 53" "- 1074 \<le> e" "x = of_int m * 2 powi e"
  shows "round_binary x = x"
proof (cases "m = 0")
  case True
  with assms(4) show ?thesis by (simp add: round_binary_def)
next
  case False
  with assms have x: "0 < x" by (simp add: less_le)
  have "(of_int m :: rat) < of_int (2 ^ 53)" using assms(2) by (simp only: of_int_less_iff)
  then have "of_int m * 2 powi e < (2 ^ 53 * 2 powi e :: rat)" by (intro mult_strict_right_mono) simp_all
  then have "x < 2 ^ 53 * 2 powi e" by (simp only: assms(4))
  also have "\<dots> = 2 powi (53 + e)" by (simp add: two_powi_split)
  finally have "binary_exponent x < 53 + e" using binary_exponent(1) [OF x] exponent_less by blast
  with assms(3) x have le: "last_bit x \<le> e" by (simp add: last_bit_def)
  have "x / 2 powi last_bit x = of_int m * 2 powi (e - last_bit x)"
    by (simp add: assms(4) power_int_diff)
  also have "\<dots> = of_int (m * 2 ^ nat (e - last_bit x))" using le by (simp add: power_int_def)
  finally have "round_even (x / 2 powi last_bit x) = m * 2 ^ nat (e - last_bit x)" by (simp only: round_even_int)
  then have "round_binary x = of_int m * 2 powi (e - last_bit x) * 2 powi last_bit x"
    using x le by (simp add: round_binary_def power_int_def)
  also have "\<dots> = x" by (simp add: assms(4) power_int_diff)
  finally show ?thesis .
qed

lemma round_binary_mono:
  assumes "0 \<le> x" "x \<le> y"
  shows "round_binary x \<le> round_binary y"
proof (cases "x = 0")
  case True
  have "0 \<le> round_even (y / 2 powi last_bit y)"
    using round_even_mono [of 0 "y / 2 powi last_bit y"] assms round_even_int [of 0] by simp
  with True show ?thesis by (simp add: round_binary_def)
next
  case False
  with assms have x: "0 < x" and y: "0 < y" by simp_all
  let ?u = "last_bit x" and ?v = "last_bit y"
  show ?thesis
  proof (cases "?u = ?v")
    case True
    have "round_even (x / 2 powi ?u) \<le> round_even (y / 2 powi ?u)"
      using assms by (intro round_even_mono divide_right_mono) simp_all
    with x y True show ?thesis by (simp add: round_binary_def)
  next
    case neq: False
    with last_bit_mono [OF x assms(2)] have uv: "?u < ?v" by simp
    have "x / 2 powi ?u \<le> of_int (2 ^ 53)"
      using last_bit_bound(1) [OF x] by (simp add: divide_le_eq two_powi_split mult.commute)
    then have "round_even (x / 2 powi ?u) \<le> 2 ^ 53" by (metis round_even_mono round_even_int)
    then have "(of_int (round_even (x / 2 powi ?u)) :: rat) \<le> 2 ^ 53"
      by (metis of_int_le_iff of_int_numeral of_int_power)
    then have "round_binary x \<le> 2 ^ 53 * 2 powi ?u"
      using x by (simp add: round_binary_def mult_right_mono)
    also have "\<dots> = 2 powi (?u + 53)" by (simp add: two_powi_split mult.commute)
    also have "\<dots> \<le> 2 powi (?v + 52)" using uv by (intro power_int_increasing) simp_all
    also have "\<dots> = 2 ^ 52 * 2 powi ?v" by (simp add: two_powi_split mult.commute)
    also have "\<dots> \<le> round_binary y"
    proof -
      have "- 1074 < ?v" using uv by (simp add: last_bit_def)
      from last_bit_bound(2) [OF y this] have "of_int (2 ^ 52) \<le> y / 2 powi ?v"
        by (simp add: le_divide_eq two_powi_split mult.commute)
      then have "2 ^ 52 \<le> round_even (y / 2 powi ?v)" by (metis round_even_mono round_even_int)
      then have "2 ^ 52 \<le> (of_int (round_even (y / 2 powi ?v)) :: rat)"
        by (metis of_int_le_iff of_int_numeral of_int_power)
      with y show ?thesis by (simp add: round_binary_def mult_right_mono)
    qed
    finally show ?thesis .
  qed
qed

lemma round_binary_nat: "n < 2 ^ 53 \<Longrightarrow> round_binary (of_nat n) = of_nat n"
  by (rule round_binary_exact [of "int n" 0]) simp_all

lemma round_binary_power: "- 1074 \<le> e \<Longrightarrow> round_binary (2 powi e) = 2 powi e"
  by (rule round_binary_exact [of 1 e]) simp_all

text \<open>A value between two powers of two is rounded to a finite value between them.\<close>

lemma f64_round_between:
  assumes "2 powi a \<le> x" "x \<le> 2 powi b" "- 1074 \<le> a" "b < 1024"
  shows "\<exists>r. f64_round x = Finite r \<and> r = round_binary x \<and> 2 powi a \<le> r \<and> r \<le> 2 powi b"
proof -
  have pos: "0 < (2 :: rat) powi a" by simp
  have "(2 :: rat) powi b < 2 powi (b + 1)" by (intro power_int_strict_increasing) simp_all
  with assms(2) have "x < 2 powi (b + 1)" by simp
  with exponent_less [OF assms(1)] have ab: "a \<le> b" by force
  have r: "2 powi a \<le> round_binary x" "round_binary x \<le> 2 powi b"
    using round_binary_mono [of "2 powi a" x] round_binary_mono [of x "2 powi b"] assms pos ab
    by (simp_all add: round_binary_power)
  have "(2 :: rat) powi b < 2 powi 1024" using assms(4) by (intro power_int_strict_increasing) simp_all
  with r pos have "\<not> 2 ^ 1024 \<le> \<bar>round_binary x\<bar>" by (simp add: power_int_def)
  with r show ?thesis by (simp add: f64_round_def Let_def)
qed

end
