(* ===== verification/Ghostdag.thy ===== *)
theory Ghostdag
  imports Dag Float64
begin

text \<open>
  The GHOSTDAG consensus rule (\<open>src/core/consensus/ghostdag.rs\<close>, \<open>ordering.rs\<close>) as the
  code has it: the adaptive parameter \<open>k\<close>, selection of a parent, colouring of the
  anticone, scores, the virtual block, the orderings, the topological sort, and
  \<open>process_block\<close>, which colours a new block and recolours the region it touches.

  The selected-chain walk and the topological sort may run forever on a graph that is not
  well formed, so they are partial functions with value \<open>None\<close> for not returning; that they
  return on the graphs the program builds is proved in \<open>Ghostdag_Process\<close> and \<open>Finality\<close>.
  \<open>SystemTime::now\<close> is a parameter.
\<close>

section \<open>The parameter k\<close>

record ghost_dag =
  k :: nat
  network_load :: f64
  last_adjustment_time :: u64

definition FINALITY_DEPTH :: u64 where "FINALITY_DEPTH = 100"
definition K_MIN :: nat where "K_MIN = 1"
definition K_MAX :: nat where "K_MAX = 64"
definition ADJUSTMENT_INTERVAL :: u64 where "ADJUSTMENT_INTERVAL = 3600"

text \<open>The nearest binary64 values of 0.8 and 0.2.\<close>

definition HIGH_LOAD_THRESHOLD :: rat where
  "HIGH_LOAD_THRESHOLD = 3602879701896397 / 2 ^ 52"

definition LOW_LOAD_THRESHOLD :: rat where
  "LOW_LOAD_THRESHOLD = 3602879701896397 / 2 ^ 54"

text \<open>\<open>x.clamp(0.0, 1.0)\<close>: NaN stays NaN; an infinity (\<open>True\<close> for the negative one) is cut off.\<close>

fun f64_clamp01 :: "f64 \<Rightarrow> f64" where
  "f64_clamp01 NaN = NaN"
| "f64_clamp01 (Infinite neg) = Finite (if neg then 0 else 1)"
| "f64_clamp01 (Finite x) = Finite (clamp x 0 1)"

fun f64_gt :: "f64 \<Rightarrow> rat \<Rightarrow> bool" where
  "f64_gt NaN y = False"
| "f64_gt (Infinite neg) y = (\<not> neg)"
| "f64_gt (Finite x) y = (y < x)"

fun f64_lt :: "f64 \<Rightarrow> rat \<Rightarrow> bool" where
  "f64_lt NaN y = False"
| "f64_lt (Infinite neg) y = neg"
| "f64_lt (Finite x) y = (x < y)"

definition ghost_dag_new :: "nat \<Rightarrow> ghost_dag" where
  "ghost_dag_new n = \<lparr>k = clamp n K_MIN K_MAX, network_load = Finite 0, last_adjustment_time = 0\<rparr>"

definition update_network_load :: "ghost_dag \<Rightarrow> f64 \<Rightarrow> ghost_dag" where
  "update_network_load gd load = gd\<lparr>network_load := f64_clamp01 load\<rparr>"

definition usize_add :: "nat \<Rightarrow> nat \<Rightarrow> nat" where
  "usize_add a b = (a + b) mod 2 ^ 64"

definition usize_sub :: "nat \<Rightarrow> nat \<Rightarrow> nat" where
  "usize_sub a b = (if b \<le> a then a - b else 2 ^ 64 + a - b)"

definition adjust_k :: "u64 \<Rightarrow> ghost_dag \<Rightarrow> ghost_dag" where
  "adjust_k current_time gd =
     (if current_time - last_adjustment_time gd < ADJUSTMENT_INTERVAL then gd
      else
        let new_k = (if f64_gt (network_load gd) HIGH_LOAD_THRESHOLD
                     then min (usize_add (k gd) 1) K_MAX
                     else if f64_lt (network_load gd) LOW_LOAD_THRESHOLD
                     then max (usize_sub (k gd) 1) K_MIN
                     else k gd)
        in if new_k \<noteq> k gd then gd\<lparr>k := new_k, last_adjustment_time := current_time\<rparr> else gd)"

definition new_adaptive :: "u64 \<Rightarrow> f64 \<Rightarrow> ghost_dag" where
  "new_adaptive current_time initial_load =
     adjust_k current_time (update_network_load (ghost_dag_new 1) initial_load)"

definition ghost_dag_default :: ghost_dag where
  "ghost_dag_default = ghost_dag_new 1"

section \<open>Scores and colours\<close>

text \<open>\<open>dag.get_block(h).map_or(0, |b| b.blue_score)\<close>.\<close>

definition score_of :: "dag \<Rightarrow> hash \<Rightarrow> u64" where
  "score_of d h = (case get_block d h of None \<Rightarrow> 0 | Some b \<Rightarrow> blue_score b)"

text \<open>The comparison of \<open>select_parent\<close>: higher score first, then lower hash.\<close>

definition parent_le :: "hash \<times> u64 \<Rightarrow> hash \<times> u64 \<Rightarrow> bool" where
  "parent_le = (\<lambda>(h1, s1) (h2, s2). s2 < s1 \<or> s1 = s2 \<and> h1 \<le> h2)"

definition select_parent :: "dag \<Rightarrow> hash list \<Rightarrow> hash option" where
  "select_parent d ps =
     (if ps = [] then None
      else
        let parent_scores = List.map_filter
              (\<lambda>h. map_option (\<lambda>b. (h, blue_score b)) (get_block d h)) ps
        in case sort_by parent_le parent_scores of
             [] \<Rightarrow> None
           | (h, s) # rest \<Rightarrow> Some h)"

definition calculate_blue_score :: "dag \<Rightarrow> hash \<Rightarrow> u64" where
  "calculate_blue_score d h =
     (case get_block d h of
        None \<Rightarrow> 0
      | Some block \<Rightarrow>
          if block_parents block = {||} then 0
          else case selected_parent block of
                 None \<Rightarrow> 0
               | Some sp \<Rightarrow> score_of d sp + word_of_nat (fcard (blue_set block)))"

text \<open>One round of the loop over the candidates.\<close>

definition color_candidate ::
    "ghost_dag \<Rightarrow> dag \<Rightarrow> hash \<Rightarrow> hash fset \<times> hash fset \<Rightarrow> hash fset \<times> hash fset" where
  "color_candidate gd d candidate = (\<lambda>(blue, red).
     (let conflicts = fcard (fset_of_list (get_anticone d candidate) |\<inter>| blue)
      in if conflicts \<le> k gd then (finsert candidate blue, red)
         else (blue, finsert candidate red)))"

definition initial_blue :: "dag \<Rightarrow> hash \<Rightarrow> hash fset" where
  "initial_blue d sp =
     (case get_block d sp of None \<Rightarrow> {||} | Some b \<Rightarrow> finsert sp (blue_set b))"

definition build_blue_set ::
    "ghost_dag \<Rightarrow> dag \<Rightarrow> hash \<Rightarrow> hash list \<Rightarrow> hash fset \<times> hash fset" where
  "build_blue_set gd d sp parents_vec =
     fold (color_candidate gd d) (get_anticone d sp) (initial_blue d sp, {||})"

section \<open>Recomputing a block\<close>

definition color_fields ::
    "hash option \<Rightarrow> hash fset \<Rightarrow> hash fset \<Rightarrow> u64 \<Rightarrow> block_node \<Rightarrow> block_node" where
  "color_fields sp blue red score b =
     b\<lparr>selected_parent := sp, blue_set := blue, red_set := red, blue_score := score\<rparr>"

definition recompute_block :: "ghost_dag \<Rightarrow> dag \<Rightarrow> hash \<Rightarrow> bool \<times> dag" where
  "recompute_block gd d h =
     (case get_block d h of
        None \<Rightarrow> (False, d)
      | Some block \<Rightarrow>
          if block_parents block = {||} then (False, d)
          else if fBex (block_parents block) (\<lambda>p. get_block d p = None) then (False, d)
          else
            let parents_vec = sorted_list_of_fset (block_parents block)
            in case select_parent d parents_vec of
                 None \<Rightarrow> (False, d)
               | Some sp \<Rightarrow>
                   (case build_blue_set gd d sp parents_vec of
                      (blue, red) \<Rightarrow>
                        let score = score_of d sp + word_of_nat (fcard blue)
                        in if selected_parent block = Some sp \<and> blue_set block = blue
                              \<and> red_set block = red \<and> blue_score block = score
                           then (False, d)
                           else (True, modify_block d h (color_fields (Some sp) blue red score))))"

section \<open>The virtual block\<close>

record virtual_block =
  v_parents :: "hash fset"
  v_selected_parent :: "hash option"
  v_blue_set :: "hash fset"
  v_red_set :: "hash fset"
  v_blue_score :: u64

definition virtual_empty :: "hash fset \<Rightarrow> virtual_block" where
  "virtual_empty ps =
     \<lparr>v_parents = ps, v_selected_parent = None, v_blue_set = {||}, v_red_set = {||}, v_blue_score = 0\<rparr>"

text \<open>The last part of \<open>build_virtual_block\<close>: select among the tips and colour.\<close>

definition virtual_over_tips :: "ghost_dag \<Rightarrow> dag \<Rightarrow> virtual_block" where
  "virtual_over_tips gd d =
     (case select_parent d (get_tips d) of
        None \<Rightarrow> virtual_empty (tips d)
      | Some sp \<Rightarrow>
          (case build_blue_set gd d sp (get_tips d) of
             (blue, red) \<Rightarrow>
               \<lparr>v_parents = tips d, v_selected_parent = Some sp, v_blue_set = blue, v_red_set = red,
                v_blue_score = score_of d sp + word_of_nat (fcard blue)\<rparr>))"

definition build_virtual_block :: "ghost_dag \<Rightarrow> dag \<Rightarrow> virtual_block" where
  "build_virtual_block gd d =
     (case get_all_hashes d of
        [] \<Rightarrow> virtual_empty {||}
      | [only] \<Rightarrow>
          (case get_block d only of
             None \<Rightarrow> virtual_over_tips gd d
           | Some b \<Rightarrow>
               \<lparr>v_parents = tips d, v_selected_parent = selected_parent b, v_blue_set = blue_set b,
                v_red_set = red_set b, v_blue_score = blue_score b\<rparr>)
      | h # h' # hs \<Rightarrow> virtual_over_tips gd d)"

partial_function (option) chain_loop :: "dag \<Rightarrow> hash option \<Rightarrow> hash list \<Rightarrow> hash list option" where
  "chain_loop d current chain =
     (case current of
        None \<Rightarrow> Some chain
      | Some h \<Rightarrow> chain_loop d (Option.bind (get_block d h) selected_parent) (chain @ [h]))"

definition get_virtual_selected_chain :: "ghost_dag \<Rightarrow> dag \<Rightarrow> hash list option" where
  "get_virtual_selected_chain gd d =
     map_option rev (chain_loop d (v_selected_parent (build_virtual_block gd d)) [])"

section \<open>Orderings\<close>

definition order_le :: "dag \<Rightarrow> hash \<Rightarrow> hash \<Rightarrow> bool" where
  "order_le d a b \<longleftrightarrow> score_of d a < score_of d b \<or> score_of d a = score_of d b \<and> a \<le> b"

definition get_virtual_ordering :: "dag \<Rightarrow> hash list" where
  "get_virtual_ordering d = sort_by (order_le d) (get_all_hashes d)"

definition get_ordering :: "dag \<Rightarrow> hash list" where
  "get_ordering d = sort_by (order_le d) (get_all_hashes d)"

definition virtual_gt :: "hash \<times> u64 \<Rightarrow> hash \<times> u64 \<Rightarrow> bool" where
  "virtual_gt = (\<lambda>(h1, s1) (h2, s2). s2 < s1 \<or> s1 = s2 \<and> h1 < h2)"

definition get_virtual_block :: "blake3 \<Rightarrow> dag \<Rightarrow> hash option" where
  "get_virtual_block H d =
     (let all_hashes = get_all_hashes d
      in if all_hashes = [] then Some (hash_new H (map of_char ''genesis''))
         else map_option fst
           (max_by virtual_gt (List.map_filter
              (\<lambda>h. map_option (\<lambda>b. (h, blue_score b)) (get_block d h)) all_hashes)))"

definition get_blue_set :: "dag \<Rightarrow> hash \<Rightarrow> hash fset" where
  "get_blue_set d h = (case get_block d h of None \<Rightarrow> {||} | Some b \<Rightarrow> blue_set b)"

definition get_red_set :: "dag \<Rightarrow> hash \<Rightarrow> hash fset" where
  "get_red_set d h = (case get_block d h of None \<Rightarrow> {||} | Some b \<Rightarrow> red_set b)"

section \<open>Topological sort\<close>

definition node_indegree :: "dag \<Rightarrow> hash fset \<Rightarrow> hash \<Rightarrow> nat" where
  "node_indegree d node_set h = fcard (ffilter (\<lambda>p. p |\<in>| node_set) (parents_of d h))"

definition build_indegree :: "dag \<Rightarrow> hash fset \<Rightarrow> hash list \<Rightarrow> (hash, nat) fmap" where
  "build_indegree d node_set nodes =
     fold (\<lambda>h m. fmupd h (node_indegree d node_set h) m) nodes fmempty"

text \<open>The queue is popped from its end: it is kept here with that end as the head.\<close>

fun release_children :: "hash list \<Rightarrow> (hash, nat) fmap \<Rightarrow> hash list \<Rightarrow> (hash, nat) fmap \<times> hash list" where
  "release_children [] indegree queue = (indegree, queue)"
| "release_children (child # rest) indegree queue =
     (case fmlookup indegree child of
        None \<Rightarrow> release_children rest indegree queue
      | Some deg \<Rightarrow>
          release_children rest (fmupd child (deg - 1) indegree)
            (if deg - 1 = 0 then child # queue else queue))"

partial_function (option) kahn_loop ::
    "dag \<Rightarrow> hash fset \<Rightarrow> (hash, nat) fmap \<Rightarrow> hash list \<Rightarrow> hash list \<Rightarrow> hash list option" where
  "kahn_loop d node_set indegree queue sorted_nodes =
     (case queue of
        [] \<Rightarrow> Some sorted_nodes
      | current # rest \<Rightarrow>
          (case get_block d current of
             None \<Rightarrow> kahn_loop d node_set indegree rest (sorted_nodes @ [current])
           | Some block \<Rightarrow>
               (case release_children
                       (sorted_list_of_fset (ffilter (\<lambda>c. c |\<in>| node_set) (children block)))
                       indegree rest of
                  (indegree', queue') \<Rightarrow>
                    kahn_loop d node_set indegree' queue' (sorted_nodes @ [current]))))"

definition topological_sort :: "dag \<Rightarrow> hash list \<Rightarrow> hash list option" where
  "topological_sort d nodes =
     (let node_set = fset_of_list nodes;
          indegree = build_indegree d node_set nodes;
          queue = rev (sorted_list_of_fset
                         (ffilter (\<lambda>h. fmlookup indegree h = Some 0) (fmdom indegree)))
      in kahn_loop d node_set indegree queue [])"

section \<open>Processing a block\<close>

definition affected_set :: "dag \<Rightarrow> hash fset \<Rightarrow> hash fset" where
  "affected_set d ps =
     fold (\<lambda>p acc. finsert p acc |\<union>| fset_of_list (get_descendants d p)) (sorted_list_of_fset ps) {||}"

definition process_block :: "ghost_dag \<Rightarrow> dag \<Rightarrow> hash \<Rightarrow> dag option" where
  "process_block gd d h =
     (case get_block d h of
        None \<Rightarrow> Some d
      | Some block \<Rightarrow>
          (let d1 = (if block_parents block = {||}
                     then modify_block d h (color_fields None {||} {||} 1)
                     else snd (recompute_block gd d h));
               affected = affected_set d1 (block_parents block)
           in case topological_sort d1 (sorted_list_of_fset affected) of
                None \<Rightarrow> None
              | Some sorted_descendants \<Rightarrow>
                  Some (fold (\<lambda>x d'. snd (recompute_block gd d' x)) sorted_descendants d1)))"

section \<open>Finality\<close>

definition check_finality :: "ghost_dag \<Rightarrow> dag \<Rightarrow> hash \<Rightarrow> u64 \<Rightarrow> bool" where
  "check_finality gd d h finality_threshold \<longleftrightarrow>
     max finality_threshold FINALITY_DEPTH
       \<le> saturating_sub (v_blue_score (build_virtual_block gd d)) (score_of d h)"

function find_common :: "dag \<Rightarrow> hash fset \<Rightarrow> hash option \<Rightarrow> nat \<Rightarrow> core_error + nat" where
  "find_common d vparents current depth =
     (case current of
        None \<Rightarrow> Inr depth
      | Some h \<Rightarrow>
          if h |\<in>| vparents then Inr depth
          else if depth + 1 > 10000
          then Inl (ConsensusError ''Chain too deep while finding common ancestor'')
          else find_common d vparents (Option.bind (get_block d h) selected_parent) (depth + 1))"
  by pat_completeness auto
termination
  by (relation "measure (\<lambda>(d, vparents, current, depth). 10001 - depth)") auto

definition can_reorganize :: "ghost_dag \<Rightarrow> dag \<Rightarrow> hash \<Rightarrow> core_error + bool" where
  "can_reorganize gd d target =
     (case get_block d target of
        None \<Rightarrow> Inl (ConsensusError ''Block '')
      | Some b \<Rightarrow>
          bind_res (find_common d (v_parents (build_virtual_block gd d)) (Some target) 0)
            (\<lambda>depth. Inr (depth \<le> unat FINALITY_DEPTH)))"

declare find_common.simps [simp del]

text \<open>Evaluation of the two loops by the shape of their worklist.\<close>

lemma chain_loop_code [code]:
  "chain_loop d None chain = Some chain"
  "chain_loop d (Some h) chain = chain_loop d (Option.bind (get_block d h) selected_parent) (chain @ [h])"
  by (simp_all add: chain_loop.simps)

lemma kahn_loop_code [code]:
  "kahn_loop d node_set indegree [] sorted_nodes = Some sorted_nodes"
  "kahn_loop d node_set indegree (current # rest) sorted_nodes =
     (case get_block d current of
        None \<Rightarrow> kahn_loop d node_set indegree rest (sorted_nodes @ [current])
      | Some block \<Rightarrow>
          (case release_children
                  (sorted_list_of_fset (ffilter (\<lambda>c. c |\<in>| node_set) (children block)))
                  indegree rest of
             (indegree', queue') \<Rightarrow>
               kahn_loop d node_set indegree' queue' (sorted_nodes @ [current])))"
  by (simp_all add: kahn_loop.simps)

section \<open>Properties\<close>

text \<open>
  The adaptive parameter stays between 1 and 64, moves by at most one per adjustment, and
  does not move before the adjustment interval has passed, whatever the load measurement,
  NaN and infinities included.
\<close>

theorem adjust_k_bounded:
  assumes "K_MIN \<le> k gd" "k gd \<le> K_MAX"
  shows "K_MIN \<le> k (adjust_k now gd) \<and> k (adjust_k now gd) \<le> K_MAX \<and>
     k (adjust_k now gd) \<le> k gd + 1 \<and> k gd \<le> k (adjust_k now gd) + 1 \<and>
     (k (adjust_k now gd) = k gd \<or> ADJUSTMENT_INTERVAL \<le> now - last_adjustment_time gd)"
proof -
  have "usize_add (k gd) 1 = k gd + 1" "usize_sub (k gd) 1 = k gd - 1"
    using assms by (simp_all add: usize_add_def usize_sub_def K_MIN_def K_MAX_def)
  then show ?thesis
    using assms by (auto simp: adjust_k_def Let_def K_MIN_def K_MAX_def)
qed

theorem adjust_k_bounded_witness:
  "K_MIN \<le> k (adjust_k 7200 (update_network_load (ghost_dag_new 70) (Infinite False)))"
  using adjust_k_bounded [of "update_network_load (ghost_dag_new 70) (Infinite False)" 7200]
  by (simp add: update_network_load_def ghost_dag_new_def clamp_def K_MIN_def K_MAX_def)

end
