(* ===== verification/Topo_Sort.thy ===== *)
theory Topo_Sort
  imports Ghostdag
begin

text \<open>
  \<open>topological_sort\<close> of \<open>ghostdag.rs\<close> is Kahn's algorithm with the released nodes taken in
  last-in-first-out order. On a well-formed graph it returns, and what it returns lists every
  given node exactly once, each after all its parents among the given nodes.
\<close>

section \<open>Topological lists\<close>

definition topo_list :: "dag \<Rightarrow> hash fset \<Rightarrow> hash list \<Rightarrow> bool" where
  "topo_list d nodes xs \<longleftrightarrow>
     (\<forall>ys x zs. xs = ys @ x # zs \<longrightarrow> fset (parents_of d x |\<inter>| nodes) \<subseteq> set ys)"

lemma topo_list_Nil [simp]: "topo_list d nodes []"
  by (simp add: topo_list_def)

lemma topo_list_snoc:
  "topo_list d nodes (xs @ [x]) \<longleftrightarrow>
     topo_list d nodes xs \<and> fset (parents_of d x |\<inter>| nodes) \<subseteq> set xs"
  (is "?l \<longleftrightarrow> ?r")
proof
  assume l: ?l
  then have "fset (parents_of d x |\<inter>| nodes) \<subseteq> set xs"
    unfolding topo_list_def by blast
  moreover have "topo_list d nodes xs"
    unfolding topo_list_def
  proof (intro allI impI)
    fix ys y zs assume "xs = ys @ y # zs"
    then have "xs @ [x] = ys @ y # (zs @ [x])" by simp
    with l show "fset (parents_of d y |\<inter>| nodes) \<subseteq> set ys" unfolding topo_list_def by blast
  qed
  ultimately show ?r by simp
next
  assume r: ?r
  show ?l
    unfolding topo_list_def
  proof (intro allI impI)
    fix ys y zs assume eq: "xs @ [x] = ys @ y # zs"
    show "fset (parents_of d y |\<inter>| nodes) \<subseteq> set ys"
    proof (cases zs rule: rev_cases)
      case Nil
      with eq r show ?thesis by simp
    next
      case (snoc zs' z)
      with eq have "xs = ys @ y # zs'" by simp
      with r show ?thesis unfolding topo_list_def by blast
    qed
  qed
qed

lemma topo_list_before:
  assumes "topo_list d nodes xs" "xs = ys @ x # zs" "p |\<in>| parents_of d x" "p |\<in>| nodes"
  shows "p \<in> set ys"
  using assms unfolding topo_list_def by (metis IntI inf_fset.rep_eq subsetD)

section \<open>The loop invariant\<close>

definition waiting :: "dag \<Rightarrow> hash fset \<Rightarrow> hash list \<Rightarrow> hash \<Rightarrow> hash fset" where
  "waiting d nodes done x = ffilter (\<lambda>p. p |\<in>| nodes \<and> p \<notin> set done) (parents_of d x)"

definition kahn_inv ::
    "dag \<Rightarrow> hash fset \<Rightarrow> (hash, nat) fmap \<Rightarrow> hash list \<Rightarrow> hash list \<Rightarrow> bool" where
  "kahn_inv d nodes indegree queue done \<longleftrightarrow>
     distinct (done @ queue) \<and> set (done @ queue) \<subseteq> fset nodes \<and>
     (\<forall>x. x |\<in>| nodes \<longrightarrow> fmlookup indegree x = Some (fcard (waiting d nodes done x))) \<and>
     (\<forall>x. x |\<in>| nodes \<longrightarrow> (x \<in> set (done @ queue) \<longleftrightarrow> waiting d nodes done x = {||})) \<and>
     topo_list d nodes done"

lemma waiting_snoc:
  "waiting d nodes (done @ [c]) x = waiting d nodes done x |-| {|c|}"
  by (auto simp: waiting_def)

lemma release_children_eq:
  assumes "distinct cs" "\<forall>c \<in> set cs. fmlookup indegree c = Some (deg c)"
  shows "release_children cs indegree queue = (indegree', queue') \<Longrightarrow>
     queue' = rev (filter (\<lambda>c. deg c \<le> 1) cs) @ queue \<and>
     fmlookup indegree' x = (if x \<in> set cs then Some (deg x - 1) else fmlookup indegree x)"
  using assms
proof (induction cs arbitrary: indegree queue)
  case Nil
  then show ?case by simp
next
  case (Cons c cs)
  have "release_children cs (fmupd c (deg c - 1) indegree)
      (if deg c - 1 = 0 then c # queue else queue) = (indegree', queue')"
    using Cons.prems by simp
  from Cons.IH [OF this] Cons.prems show ?case by auto
qed

lemma waiting_block:
  assumes "dag_wf d" "c |\<in>| nodes" "c \<notin> set done"
  shows "c |\<in>| waiting d nodes done x \<longleftrightarrow> x |\<in>| children_of d c"
  using assms by (auto simp: waiting_def dag_wf_parents_child)

lemma kahn_inv_step:
  assumes wf: "dag_wf d" and inv: "kahn_inv d nodes indegree (c # queue) done"
    and block: "get_block d c = Some block"
    and rel: "release_children (sorted_list_of_fset (ffilter (\<lambda>x. x |\<in>| nodes) (children block)))
                indegree queue = (indegree', queue')"
  shows "kahn_inv d nodes indegree' queue' (done @ [c])"
proof -
  let ?cs = "sorted_list_of_fset (ffilter (\<lambda>x. x |\<in>| nodes) (children block))"
  let ?W = "waiting d nodes done"
  have c: "c |\<in>| nodes" "c \<notin> set done" "?W c = {||}"
    using inv by (auto simp: kahn_inv_def)
  have cs: "x \<in> set ?cs \<longleftrightarrow> x |\<in>| nodes \<and> c |\<in>| ?W x" for x
    using waiting_block [OF wf c(1,2), of x] block by (auto simp: children_of_def)
  have "\<forall>x \<in> set ?cs. fmlookup indegree x = Some (fcard (?W x))"
    using inv cs by (auto simp: kahn_inv_def)
  note eq = release_children_eq [OF distinct_sorted_list_of_fset this rel]
  have W': "waiting d nodes (done @ [c]) x = ?W x |-| {|c|}" for x by (rule waiting_snoc)
  have card: "fcard (?W x |-| {|c|}) = (if x \<in> set ?cs then fcard (?W x) - 1 else fcard (?W x))"
    if "x |\<in>| nodes" for x
    using cs [of x] that by (auto simp: fcard_fminus_fsingleton)
  have queue': "set queue' = {x. x |\<in>| nodes \<and> c |\<in>| ?W x \<and> ?W x |-| {|c|} = {||}} \<union> set queue"
  proof -
    have "fcard (?W x) \<le> 1 \<longleftrightarrow> ?W x |-| {|c|} = {||}" if "x \<in> set ?cs" for x
      using cs [of x] that card [of x] by (metis diff_is_0_eq fcard_0_eq)
    then show ?thesis using eq [of c] cs by auto
  qed
  have ready: "x \<in> set (done @ c # queue) \<longleftrightarrow> ?W x = {||}" if "x |\<in>| nodes" for x
    using inv that unfolding kahn_inv_def by blast
  have old: "distinct (done @ c # queue)" "set (done @ c # queue) \<subseteq> fset nodes"
    using inv unfolding kahn_inv_def by blast+
  have fresh: "x \<notin> set (done @ c # queue)" if "x \<in> set ?cs" for x
    using cs [of x] ready [of x] that by auto
  have released: "x \<notin> set (done @ c # queue)" if "c |\<in>| ?W x" "x |\<in>| nodes" for x
    using ready [of x] that by auto
  have q': "queue' = rev (filter (\<lambda>x. fcard (?W x) \<le> 1) ?cs) @ queue" using eq [of c] by blast
  have "distinct queue'"
    unfolding q' using old(1) fresh by (auto simp del: ffmember_filter)
  moreover have "set queue' \<inter> set (done @ [c]) = {}"
    using old(1) released by (auto simp: queue')
  ultimately have "distinct ((done @ [c]) @ queue')" using old(1) by auto
  moreover have "set ((done @ [c]) @ queue') \<subseteq> fset nodes"
    using old(2) by (auto simp: queue')
  moreover have "x \<in> set ((done @ [c]) @ queue') \<longleftrightarrow> waiting d nodes (done @ [c]) x = {||}"
    if "x |\<in>| nodes" for x
  proof -
    have "?W x |-| {|c|} = {||} \<longleftrightarrow> ?W x = {||} \<or> c |\<in>| ?W x \<and> ?W x |-| {|c|} = {||}" by auto
    then show ?thesis using ready [OF that] that by (auto simp: queue' W')
  qed
  moreover have "topo_list d nodes (done @ [c])"
    using inv c(3) by (auto simp: topo_list_snoc kahn_inv_def waiting_def)
  moreover have "fmlookup indegree' x = Some (fcard (waiting d nodes (done @ [c]) x))"
    if "x |\<in>| nodes" for x
  proof -
    have "fmlookup indegree x = Some (fcard (?W x))" using inv that unfolding kahn_inv_def by blast
    then show ?thesis using eq [of x] card [OF that] by (simp add: W')
  qed
  ultimately show ?thesis unfolding kahn_inv_def by blast
qed

lemma kahn_inv_absent:
  assumes "dag_wf d" "kahn_inv d nodes indegree (c # queue) done" "get_block d c = None"
  shows "kahn_inv d nodes indegree queue (done @ [c])"
proof -
  have "c |\<notin>| waiting d nodes done x" for x
    using assms(1,3) by (auto simp: waiting_def dag_wf_parents_child children_of_def)
  then have "waiting d nodes (done @ [c]) x = waiting d nodes done x" for x
    by (simp add: waiting_snoc)
  moreover have "fset (parents_of d c |\<inter>| nodes) \<subseteq> set done"
    using assms(3) by (simp add: parents_of_def)
  ultimately show ?thesis
    using assms(2) by (auto simp: kahn_inv_def topo_list_snoc)
qed

text \<open>With the queue empty every node is done: a minimal one left over would be ready.\<close>

lemma kahn_inv_done:
  assumes "dag_wf d" "kahn_inv d nodes indegree [] done"
  shows "set done = fset nodes"
proof (rule ccontr)
  assume "set done \<noteq> fset nodes"
  with assms(2) obtain r where "r \<in> fset nodes - set done" by (auto simp: kahn_inv_def)
  moreover have "wf (parent_rel d)"
  proof (rule finite_acyclic_wf)
    have "parent_rel d \<subseteq> (\<Union>c \<in> fset (fmdom (blocks d)). fset (parents_of d c) \<times> {c})"
      by (auto simp: parent_rel_def parents_of_def get_block_dom split: option.splits)
    then show "finite (parent_rel d)" by (rule finite_subset) auto
    show "acyclic (parent_rel d)" using assms(1) by (simp add: dag_wf_def)
  qed
  ultimately obtain x where x: "x \<in> fset nodes - set done"
    and min: "\<And>p. (p, x) \<in> parent_rel d \<Longrightarrow> p \<notin> fset nodes - set done"
    by (metis wfE_min)
  then have "waiting d nodes done x = {||}"
    by (auto simp: waiting_def parent_rel_def)
  with x assms(2) show False by (auto simp: kahn_inv_def)
qed

lemma kahn_loop_result:
  assumes "dag_wf d" "kahn_inv d nodes indegree queue done"
  shows "\<exists>xs. kahn_loop d nodes indegree queue done = Some xs \<and>
     distinct xs \<and> set xs = fset nodes \<and> topo_list d nodes xs"
  using assms(2)
proof (induction "fcard nodes - length done" arbitrary: indegree queue "done" rule: less_induct)
  case less
  show ?case
  proof (cases queue)
    case Nil
    with kahn_inv_done [OF assms(1)] less.prems show ?thesis
      by (simp add: kahn_loop.simps kahn_inv_def)
  next
    case (Cons c rest)
    have "set (done @ [c]) \<subseteq> fset nodes"
      using less.prems Cons by (auto simp: kahn_inv_def)
    then have "card (set (done @ [c])) \<le> fcard nodes"
      unfolding fcard.rep_eq by (intro card_mono) simp_all
    moreover have "card (set (done @ [c])) = length done + 1"
      using less.prems Cons by (subst distinct_card) (auto simp: kahn_inv_def)
    ultimately have smaller: "fcard nodes - length (done @ [c]) < fcard nodes - length done" by simp
    show ?thesis
    proof (cases "get_block d c")
      case None
      from less.hyps [OF smaller kahn_inv_absent [OF assms(1) less.prems [unfolded Cons] None]]
      show ?thesis by (simp add: kahn_loop.simps [of d nodes indegree "c # rest"] Cons None)
    next
      case (Some block)
      obtain i' q' where r: "release_children
          (sorted_list_of_fset (ffilter (\<lambda>x. x |\<in>| nodes) (children block))) indegree rest = (i', q')"
        by fastforce
      from less.hyps [OF smaller kahn_inv_step [OF assms(1) less.prems [unfolded Cons] Some r]]
      show ?thesis by (simp add: kahn_loop.simps [of d nodes indegree "c # rest"] Cons Some r)
    qed
  qed
qed

section \<open>The sort\<close>

lemma lookup_build_indegree:
  "fmlookup (build_indegree d ns nodes) x = (if x \<in> set nodes then Some (node_indegree d ns x) else None)"
proof -
  have "fmlookup (fold (\<lambda>h m. fmupd h (node_indegree d ns h) m) nodes m0) x =
      (if x \<in> set nodes then Some (node_indegree d ns x) else fmlookup m0 x)" for m0
    by (induction nodes arbitrary: m0) auto
  then show ?thesis by (simp add: build_indegree_def)
qed

lemma kahn_inv_start:
  fixes d :: dag and nodes :: "hash list"
  defines "ns \<equiv> fset_of_list nodes"
  defines "m \<equiv> build_indegree d ns nodes"
  shows "kahn_inv d ns m (rev (sorted_list_of_fset (ffilter (\<lambda>h. fmlookup m h = Some 0) (fmdom m)))) []"
proof -
  have w: "waiting d ns [] x = ffilter (\<lambda>p. p |\<in>| ns) (parents_of d x)" for x
    by (auto simp: waiting_def)
  have m: "fmlookup m x = (if x |\<in>| ns then Some (fcard (waiting d ns [] x)) else None)" for x
    by (simp add: m_def lookup_build_indegree node_indegree_def w) (simp add: ns_def fset_of_list_elem)
  then have "x |\<in>| fmdom m \<longleftrightarrow> x |\<in>| ns" for x
    by (simp add: fmlookup_dom_iff)
  with m show ?thesis by (auto simp: kahn_inv_def)
qed

lemma topological_sort_result:
  assumes "dag_wf d"
  shows "\<exists>xs. topological_sort d nodes = Some xs \<and> distinct xs \<and> set xs = set nodes \<and>
     topo_list d (fset_of_list nodes) xs"
  using kahn_loop_result [OF assms kahn_inv_start [of d nodes]]
  by (simp add: topological_sort_def Let_def fset_of_list.rep_eq)

section \<open>Properties\<close>

text \<open>
  C19. The topological sort returns on every well-formed graph, lists every given node exactly
  once, and lists a node only after all its parents among the given nodes.
\<close>

theorem topological_sort_correct:
  assumes "dag_wf d"
  shows "\<exists>xs. topological_sort d nodes = Some xs \<and> distinct xs \<and> set xs = set nodes \<and>
     topo_list d (fset_of_list nodes) xs"
  using assms by (rule topological_sort_result)

theorem topological_sort_correct_witness:
  "\<exists>xs. topological_sort sample_dag [Hash 4, Hash 1, Hash 2] = Some xs \<and> distinct xs \<and>
     set xs = set [Hash 4, Hash 1, Hash 2] \<and>
     topo_list sample_dag (fset_of_list [Hash 4, Hash 1, Hash 2]) xs"
  by (rule topological_sort_correct [OF sample_dag_ok(1)])

end
