(* ===== verification/Ghostdag_Process.thy ===== *)
theory Ghostdag_Process
  imports Topo_Sort
begin

text \<open>
  Correctness of \<open>process_block\<close>. The invariant of a coloured graph (\<open>ghost_ok\<close>): blue sets
  hold blocks of the graph, a block's selected parent is one of its parents, and its score is
  above the score of every parent. Recolouring keeps it because the affected region is closed
  under children and is visited parents first; the score bound \<open>1 + n * |past|\<close> for a graph
  of \<open>n\<close> blocks shows that the \<open>u64\<close> sum does not wrap below \<open>2 ^ 32\<close> blocks.
\<close>

section \<open>Operations that leave the graph structure alone\<close>

definition skeleton :: "dag \<Rightarrow> hash \<Rightarrow> (block_header \<times> hash fset) option" where
  "skeleton d x = map_option (\<lambda>b. (header b, children b)) (get_block d x)"

definition same_topology :: "dag \<Rightarrow> dag \<Rightarrow> bool" where
  "same_topology d d' \<longleftrightarrow> skeleton d = skeleton d' \<and> tips d = tips d'"

lemma same_topology_refl [simp]: "same_topology d d"
  by (simp add: same_topology_def)

lemma same_topology_trans: "same_topology a b \<Longrightarrow> same_topology b c \<Longrightarrow> same_topology a c"
  by (simp add: same_topology_def)

lemma skeleton_eqs:
  "parents_of d x = (case skeleton d x of None \<Rightarrow> {||} | Some (hdr, cs) \<Rightarrow> parents hdr)"
  "children_of d x = (case skeleton d x of None \<Rightarrow> {||} | Some (hdr, cs) \<Rightarrow> cs)"
  "get_block d x = None \<longleftrightarrow> skeleton d x = None"
  by (auto simp: parents_of_def children_of_def skeleton_def split: option.splits)

lemma same_topology_walks:
  assumes "same_topology d d'"
  shows "parents_of d' = parents_of d" "children_of d' = children_of d"
    "get_block d' x = None \<longleftrightarrow> get_block d x = None"
    "parent_rel d' = parent_rel d" "child_rel d' = child_rel d" "dag_past d' = dag_past d"
    "fmdom (blocks d') = fmdom (blocks d)" "tips d' = tips d"
proof -
  from assms have s: "skeleton d = skeleton d'" and t: "tips d = tips d'"
    by (simp_all add: same_topology_def)
  show p: "parents_of d' = parents_of d" and c: "children_of d' = children_of d"
    by (simp_all add: fun_eq_iff skeleton_eqs s)
  show n: "get_block d' x = None \<longleftrightarrow> get_block d x = None" for x by (simp add: skeleton_eqs s)
  show "parent_rel d' = parent_rel d" and "child_rel d' = child_rel d" and "dag_past d' = dag_past d"
    by (simp_all add: fun_eq_iff parent_rel_def child_rel_def dag_past_def p c)
  show "fmdom (blocks d') = fmdom (blocks d)"
    by (rule fset_eqI) (simp add: get_block_dom n)
  show "tips d' = tips d" by (simp add: t)
qed

lemma same_topology_wf: "same_topology d d' \<Longrightarrow> dag_wf d' \<longleftrightarrow> dag_wf d"
proof -
  assume st: "same_topology d d'"
  have "(\<forall>h b. get_block e h = Some b \<longrightarrow> hdr_id (header b) = h) \<longleftrightarrow>
      (\<forall>h s. skeleton e h = Some s \<longrightarrow> hdr_id (fst s) = h)" for e
    by (auto simp: skeleton_def)
  then show ?thesis
    using st by (simp add: dag_wf_def same_topology_walks [OF st]) (simp add: same_topology_def)
qed

lemma same_topology_tips: "same_topology d d' \<Longrightarrow> tips_ok d' \<longleftrightarrow> tips_ok d"
  by (simp add: tips_ok_def same_topology_walks)

lemma same_topology_color: "same_topology d (modify_block d h (color_fields sp blue red score))"
proof -
  have "skeleton (modify_block d h (color_fields sp blue red score)) x = skeleton d x" for x
    by (cases "get_block d h") (auto simp: skeleton_def color_fields_def)
  then show ?thesis by (simp add: same_topology_def fun_eq_iff)
qed

section \<open>Selection and colouring\<close>

interpretation parent_order: comparison parent_le
  by unfold_locales (auto simp: parent_le_def split: prod.splits)

abbreviation scored :: "dag \<Rightarrow> hash list \<Rightarrow> (hash \<times> u64) list" where
  "scored d ps \<equiv> List.map_filter (\<lambda>h. map_option (\<lambda>b. (h, blue_score b)) (get_block d h)) ps"

lemma scored_iff: "(h, s) \<in> set (scored d ps) \<longleftrightarrow> h \<in> set ps \<and> get_block d h \<noteq> None \<and> s = score_of d h"
  by (induction ps) (auto simp: List.map_filter_simps score_of_def split: option.splits)

lemma select_parent_eq:
  "select_parent d ps = (case sort_by parent_le (scored d ps) of [] \<Rightarrow> None | (h, s) # rest \<Rightarrow> Some h)"
  by (simp add: select_parent_def Let_def sort_by_def List.map_filter_simps)

lemma select_parent_Some:
  assumes "select_parent d ps = Some p"
  shows "p \<in> set ps" "get_block d p \<noteq> None"
    "\<And>q. q \<in> set ps \<Longrightarrow> get_block d q \<noteq> None \<Longrightarrow>
       score_of d q < score_of d p \<or> score_of d q = score_of d p \<and> p \<le> q"
proof -
  obtain s rest where srt: "sort_by parent_le (scored d ps) = (p, s) # rest"
  proof (cases "sort_by parent_le (scored d ps)")
    case Nil
    with assms show ?thesis by (simp only: select_parent_eq list.case option.distinct)
  next
    case (Cons x rest)
    with assms have "fst x = p" by (simp only: select_parent_eq list.case split_beta option.inject)
    with Cons that [of "snd x" rest] show ?thesis by (metis prod.collapse)
  qed
  have "(p, s) \<in> set (sort_by parent_le (scored d ps))" by (simp only: srt list.set_intros)
  then have in_scored: "(p, s) \<in> set (scored d ps)" by (simp only: set_sort_by)
  then show "p \<in> set ps" "get_block d p \<noteq> None" by (simp_all add: scored_iff)
  have s: "s = score_of d p" using in_scored by (simp add: scored_iff)
  fix q assume "q \<in> set ps" "get_block d q \<noteq> None"
  then have "(q, score_of d q) \<in> set (scored d ps)" by (simp add: scored_iff)
  from parent_order.hd_sort_by [OF this]
  have "parent_le (p, s) (q, score_of d q)" by (simp add: srt)
  then show "score_of d q < score_of d p \<or> score_of d q = score_of d p \<and> p \<le> q"
    by (auto simp: parent_le_def s)
qed

lemma select_parent_ex:
  assumes "q \<in> set ps" "get_block d q \<noteq> None"
  shows "\<exists>p. select_parent d ps = Some p"
proof -
  have "(q, score_of d q) \<in> set (scored d ps)" using assms by (simp add: scored_iff)
  then have "(q, score_of d q) \<in> set (sort_by parent_le (scored d ps))" by (simp only: set_sort_by)
  then have "sort_by parent_le (scored d ps) \<noteq> []" by (auto simp only: list.set)
  then obtain x rest where "sort_by parent_le (scored d ps) = x # rest" by (meson neq_Nil_conv)
  then show ?thesis by (simp only: select_parent_eq list.case split_beta) simp
qed

lemma color_candidate_eq:
  "color_candidate gd d c (blue, red) =
     (if fcard (fset_of_list (get_anticone d c) |\<inter>| blue) \<le> k gd then (finsert c blue, red)
      else (blue, finsert c red))"
  by (simp add: color_candidate_def Let_def)

lemma color_fold_bounds:
  "fold (color_candidate gd d) cs (blue0, red0) = (blue, red) \<Longrightarrow>
   blue0 |\<subseteq>| blue \<and> blue |\<subseteq>| blue0 |\<union>| fset_of_list cs \<and> red0 |\<subseteq>| red \<and>
   red |\<subseteq>| red0 |\<union>| fset_of_list cs \<and> fset_of_list cs |\<subseteq>| blue |\<union>| red"
proof (induction cs arbitrary: blue0 red0)
  case Nil
  then show ?case by simp
next
  case (Cons c cs)
  show ?case
  proof (cases "fcard (fset_of_list (get_anticone d c) |\<inter>| blue0) \<le> k gd")
    case True
    with Cons.prems have "fold (color_candidate gd d) cs (finsert c blue0, red0) = (blue, red)"
      by (simp add: color_candidate_eq)
    from Cons.IH [OF this] show ?thesis by auto
  next
    case False
    with Cons.prems have "fold (color_candidate gd d) cs (blue0, finsert c red0) = (blue, red)"
      by (simp add: color_candidate_eq)
    from Cons.IH [OF this] show ?thesis by auto
  qed
qed

lemma build_blue_set_bounds:
  assumes "build_blue_set gd d sp ps = (blue, red)"
  shows "initial_blue d sp |\<subseteq>| blue" "blue |\<subseteq>| initial_blue d sp |\<union>| fset_of_list (get_anticone d sp)"
    "red |\<subseteq>| fset_of_list (get_anticone d sp)" "fset_of_list (get_anticone d sp) |\<subseteq>| blue |\<union>| red"
  using color_fold_bounds [OF assms [unfolded build_blue_set_def]] by auto

text \<open>A red block conflicts with more than \<open>k\<close> blue ones: the blue set only grows after the test.\<close>

lemma color_fold_red:
  assumes "fold (color_candidate gd d) cs (blue0, red0) = (blue, red)" "c |\<in>| red" "c |\<notin>| red0"
  shows "k gd < fcard (fset_of_list (get_anticone d c) |\<inter>| blue)"
  using assms
proof (induction cs arbitrary: blue0 red0)
  case Nil
  then show ?case by simp
next
  case (Cons x cs)
  show ?case
  proof (cases "fcard (fset_of_list (get_anticone d x) |\<inter>| blue0) \<le> k gd")
    case True
    with Cons.prems show ?thesis
      by (intro Cons.IH [of "finsert x blue0" red0]) (simp_all add: color_candidate_eq)
  next
    case False
    have rest: "fold (color_candidate gd d) cs (blue0, finsert x red0) = (blue, red)"
      using Cons.prems(1) False by (simp add: color_candidate_eq)
    show ?thesis
    proof (cases "c = x")
      case True
      have "blue0 |\<subseteq>| blue" using color_fold_bounds [OF rest] by blast
      then have "fcard (fset_of_list (get_anticone d x) |\<inter>| blue0)
          \<le> fcard (fset_of_list (get_anticone d x) |\<inter>| blue)"
        by (intro fcard_mono) auto
      with False True show ?thesis by simp
    next
      case c: False
      then show ?thesis using Cons.IH [OF rest Cons.prems(2)] Cons.prems(3) by simp
    qed
  qed
qed

section \<open>One recomputation\<close>

lemma modify_block_id: "get_block d h = Some b \<Longrightarrow> f b = b \<Longrightarrow> modify_block d h f = d"
proof -
  assume b: "get_block d h = Some b" "f b = b"
  then have "fmupd h b (blocks d) = blocks d"
    by (intro fmap_ext) (auto simp: get_block_def)
  with b show ?thesis by (simp add: modify_block_def)
qed

lemma recompute_leaf: "parents_of d h = {||} \<Longrightarrow> snd (recompute_block gd d h) = d"
  by (auto simp: recompute_block_def parents_of_def split: option.splits)

lemma recompute_block_cases:
  assumes "dag_wf d"
  obtains (leaf) "parents_of d h = {||}" "snd (recompute_block gd d h) = d"
  | (color) sp blue red where
      "select_parent d (sorted_list_of_fset (parents_of d h)) = Some sp"
      "build_blue_set gd d sp (sorted_list_of_fset (parents_of d h)) = (blue, red)"
      "snd (recompute_block gd d h) =
         modify_block d h (color_fields (Some sp) blue red (score_of d sp + word_of_nat (fcard blue)))"
proof (cases "parents_of d h = {||}")
  case True
  from leaf [OF True recompute_leaf [OF True]] show ?thesis .
next
  case False
  then obtain block where b: "get_block d h = Some block" and ps: "parents_of d h = block_parents block"
    by (auto simp: parents_of_def split: option.splits)
  have present: "get_block d p \<noteq> None" if "p |\<in>| block_parents block" for p
    using parent_present [OF assms, of p h] that ps by simp
  obtain p where "p |\<in>| block_parents block" using False ps by auto
  then obtain sp where sp: "select_parent d (sorted_list_of_fset (block_parents block)) = Some sp"
    using select_parent_ex [of p "sorted_list_of_fset (block_parents block)" d] present by auto
  obtain blue red where br: "build_blue_set gd d sp (sorted_list_of_fset (block_parents block)) = (blue, red)"
    by fastforce
  let ?f = "color_fields (Some sp) blue red (score_of d sp + word_of_nat (fcard blue))"
  have "snd (recompute_block gd d h) = modify_block d h ?f"
  proof (cases "selected_parent block = Some sp \<and> blue_set block = blue \<and> red_set block = red
      \<and> blue_score block = score_of d sp + word_of_nat (fcard blue)")
    case True
    then have "?f block = block" by (simp add: color_fields_def)
    with True b show ?thesis
      using False ps present by (simp add: recompute_block_def sp br modify_block_id [OF b] Let_def)
  next
    case False
    then have "recompute_block gd d h = (True, modify_block d h ?f)"
      using b ps present \<open>parents_of d h \<noteq> {||}\<close>
      by (simp add: recompute_block_def sp br Let_def)
    then show ?thesis by simp
  qed
  with sp br ps show ?thesis by (intro color) simp_all
qed

lemma recompute_same_topology:
  assumes "dag_wf d"
  shows "same_topology d (snd (recompute_block gd d h))"
  using assms by (cases rule: recompute_block_cases [of d h gd]) (simp_all add: same_topology_color)

lemma recompute_other:
  assumes "dag_wf d" "x \<noteq> h"
  shows "get_block (snd (recompute_block gd d h)) x = get_block d x"
  using assms by (cases rule: recompute_block_cases [of d h gd]) simp_all

section \<open>The invariant of a coloured graph\<close>

definition node_ok :: "dag \<Rightarrow> hash \<Rightarrow> bool" where
  "node_ok d x \<longleftrightarrow>
     (\<forall>b. get_block d x = Some b \<longrightarrow>
        blue_set b |\<subseteq>| fmdom (blocks d) \<and>
        unat (blue_score b) \<le> 1 + get_block_count d * card (dag_past d x) \<and>
        (case selected_parent b of
           None \<Rightarrow> block_parents b = {||}
         | Some sp \<Rightarrow> sp |\<in>| block_parents b))"

definition edge_ok :: "dag \<Rightarrow> hash \<Rightarrow> bool" where
  "edge_ok d x \<longleftrightarrow> (\<forall>p. p |\<in>| parents_of d x \<longrightarrow> score_of d p < score_of d x)"

definition ghost_ok :: "dag \<Rightarrow> bool" where
  "ghost_ok d \<longleftrightarrow> (\<forall>x. node_ok d x \<and> edge_ok d x)"

lemma node_ok_same:
  assumes "same_topology d d'" "get_block d' x = get_block d x"
  shows "node_ok d' x \<longleftrightarrow> node_ok d x"
  using assms by (simp add: node_ok_def same_topology_walks get_block_count_def)

lemma score_of_same: "get_block d' x = get_block d x \<Longrightarrow> score_of d' x = score_of d x"
  by (simp add: score_of_def)

lemma edge_ok_same:
  assumes "same_topology d d'" "get_block d' x = get_block d x"
    and "\<And>p. p |\<in>| parents_of d x \<Longrightarrow> get_block d' p = get_block d p"
  shows "edge_ok d' x \<longleftrightarrow> edge_ok d x"
proof -
  have "score_of d' x = score_of d x" by (rule score_of_same [OF assms(2)])
  moreover have "score_of d' p = score_of d p" if "p |\<in>| parents_of d x" for p
    by (rule score_of_same [OF assms(3) [OF that]])
  ultimately show ?thesis unfolding edge_ok_def same_topology_walks(1) [OF assms(1)] by auto
qed

lemma finite_past: "dag_wf d \<Longrightarrow> finite (dag_past d x)"
  by (rule finite_subset [OF past_blocks]) simp_all

lemma card_past_bound:
  assumes "dag_wf d" "get_block d x \<noteq> None"
  shows "card (dag_past d x) < get_block_count d"
proof -
  have "dag_past d x \<subset> fset (fmdom (blocks d))"
    using past_blocks [OF assms(1), of x] past_future_irrefl [OF assms(1), of x] assms(2)
    by (auto simp: get_block_dom)
  then show ?thesis unfolding get_block_count_def fcard.rep_eq by (intro psubset_card_mono) simp_all
qed

lemma card_past_parent:
  assumes "dag_wf d" "p |\<in>| parents_of d x"
  shows "card (dag_past d p) < card (dag_past d x)"
proof -
  have e: "(p, x) \<in> parent_rel d" using assms(2) by (simp add: parent_rel_def)
  then have "dag_past d p \<subseteq> dag_past d x" by (auto simp: dag_past_def)
  moreover have "p \<in> dag_past d x" using e by (auto simp: dag_past_def)
  moreover have "p \<notin> dag_past d p" using past_future_irrefl [OF assms(1)] by simp
  ultimately have "dag_past d p \<subset> dag_past d x" by blast
  then show ?thesis using finite_past [OF assms(1)] by (intro psubset_card_mono)
qed

text \<open>The sum of a parent's score and a blue set's size does not wrap.\<close>

lemma score_sum_bound:
  assumes wf: "dag_wf d" and n: "get_block_count d < 2 ^ 32"
    and p: "p |\<in>| parents_of d x" and s: "unat (s :: u64) \<le> 1 + get_block_count d * card (dag_past d p)"
    and blue: "blue |\<subseteq>| fmdom (blocks d)" and x: "get_block d x \<noteq> None"
  shows "unat (s + word_of_nat (fcard blue)) = unat s + fcard blue"
    "unat s + fcard blue \<le> 1 + get_block_count d * card (dag_past d x)"
proof -
  let ?n = "get_block_count d"
  have b: "fcard blue \<le> ?n" unfolding get_block_count_def by (rule fcard_mono [OF blue])
  have past: "card (dag_past d p) + 1 \<le> card (dag_past d x)" using card_past_parent [OF wf p] by simp
  have "unat s + fcard blue \<le> 1 + ?n * (card (dag_past d p) + 1)" using s b by (simp add: algebra_simps)
  also have "\<dots> \<le> 1 + ?n * card (dag_past d x)" using past by (intro add_left_mono mult_left_mono) simp_all
  finally show le: "unat s + fcard blue \<le> 1 + ?n * card (dag_past d x)" .
  have "card (dag_past d x) \<le> 2 ^ 32 - 2" using card_past_bound [OF wf x] n by simp
  then have "?n * card (dag_past d x) \<le> (2 ^ 32 - 1) * (2 ^ 32 - 2)"
    using n by (intro mult_mono) simp_all
  with le have "unat s + fcard blue < 2 ^ 64" by simp
  then show "unat (s + word_of_nat (fcard blue)) = unat s + fcard blue"
    by (simp add: unat_add_no_overflow unat_of_nat_small)
qed

lemma recompute_ok:
  assumes wf: "dag_wf d" and n: "get_block_count d < 2 ^ 32"
    and ps: "\<And>p. p |\<in>| parents_of d h \<Longrightarrow> node_ok d p" and ne: "parents_of d h \<noteq> {||}"
  shows "node_ok (snd (recompute_block gd d h)) h" "edge_ok (snd (recompute_block gd d h)) h"
proof -
  let ?d' = "snd (recompute_block gd d h)"
  from wf obtain sp blue red where
    sp: "select_parent d (sorted_list_of_fset (parents_of d h)) = Some sp"
    and br: "build_blue_set gd d sp (sorted_list_of_fset (parents_of d h)) = (blue, red)"
    and d': "?d' = modify_block d h (color_fields (Some sp) blue red (score_of d sp + word_of_nat (fcard blue)))"
    using ne by (cases rule: recompute_block_cases [of d h gd]) blast+
  obtain block where b: "get_block d h = Some block" and bp: "parents_of d h = block_parents block"
    using ne by (auto simp: parents_of_def split: option.splits)
  have spp: "sp |\<in>| parents_of d h" using select_parent_Some(1) [OF sp] by simp
  obtain spb where spb: "get_block d sp = Some spb" using select_parent_Some(2) [OF sp] by auto
  have st: "same_topology d ?d'" using wf by (rule recompute_same_topology)
  have "node_ok d sp" using ps [OF spp] .
  then have spok: "blue_set spb |\<subseteq>| fmdom (blocks d)"
    "unat (score_of d sp) \<le> 1 + get_block_count d * card (dag_past d sp)"
    using spb by (auto simp: node_ok_def score_of_def)
  have anti: "fset_of_list (get_anticone d sp) |\<subseteq>| fmdom (blocks d)"
    by (auto simp: fset_of_list_elem set_get_anticone get_block_dom)
  have init: "initial_blue d sp = finsert sp (blue_set spb)" by (simp add: initial_blue_def spb)
  have spdom: "sp |\<in>| fmdom (blocks d)" using spb by (simp add: get_block_dom)
  have blue: "blue |\<subseteq>| fmdom (blocks d)"
    using build_blue_set_bounds(2) [OF br] spok(1) anti spdom unfolding init by blast
  have "sp |\<in>| blue" using build_blue_set_bounds(1) [OF br] unfolding init by blast
  then have pos: "0 < fcard blue" by (metis fcard_0_eq fempty_iff neq0_conv)
  note sum = score_sum_bound [OF wf n spp spok(2) blue]
  have h: "get_block ?d' h = Some (color_fields (Some sp) blue red (score_of d sp + word_of_nat (fcard blue)) block)"
    by (simp add: d' b)
  show "node_ok ?d' h"
    using blue sum b bp spp
    by (simp add: node_ok_def h color_fields_def same_topology_walks [OF st] get_block_count_def)
  show "edge_ok ?d' h"
    unfolding edge_ok_def same_topology_walks [OF st]
  proof (intro allI impI)
    fix p assume p: "p |\<in>| parents_of d h"
    then have pb: "get_block d p \<noteq> None" using parent_present [OF wf] by simp
    have "p \<noteq> h" using parent_neq [OF wf p] .
    then have "score_of ?d' p = score_of d p" by (intro score_of_same) (simp add: d')
    moreover have "score_of d p \<le> score_of d sp"
      using select_parent_Some(3) [OF sp, of p] p pb by auto
    moreover have "score_of ?d' h = score_of d sp + word_of_nat (fcard blue)"
      by (simp add: score_of_def h color_fields_def)
    ultimately show "score_of ?d' p < score_of ?d' h"
      using sum(1) b pos by (simp add: word_less_nat_alt word_le_nat_alt)
  qed
qed

section \<open>The affected region\<close>

lemma set_affected:
  assumes "dag_wf d"
  shows "x |\<in>| affected_set d ps \<longleftrightarrow> x |\<in>| ps \<or> (\<exists>p. p |\<in>| ps \<and> x \<in> dag_future d p)"
proof -
  define f where "f = (\<lambda>p acc. finsert p acc |\<union>| fset_of_list (get_descendants d p))"
  have f: "x |\<in>| f p acc \<longleftrightarrow> x |\<in>| acc \<or> x = p \<or> x \<in> dag_future d p" for p acc
    using past_future_irrefl [OF assms, of p]
    by (auto simp: f_def fset_of_list_elem set_get_descendants)
  have "x |\<in>| fold f xs acc \<longleftrightarrow> x |\<in>| acc \<or> x \<in> set xs \<or> (\<exists>p \<in> set xs. x \<in> dag_future d p)" for xs acc
    by (induction xs arbitrary: acc) (auto simp: f)
  then show ?thesis by (auto simp: affected_set_def f_def)
qed

lemma affected_set_empty [simp]: "affected_set d {||} = {||}"
  by (simp add: affected_set_def)

lemma topological_sort_Nil [simp]: "topological_sort d [] = Some []"
  by (simp add: topological_sort_def build_indegree_def kahn_loop.simps Let_def)

lemma affected_closed:
  assumes "dag_wf d" "p |\<in>| affected_set d ps" "p |\<in>| parents_of d x"
  shows "x |\<in>| affected_set d ps"
proof -
  have "(p, x) \<in> parent_rel d" using assms(3) by (simp add: parent_rel_def)
  then show ?thesis
    using assms(1,2) by (auto simp: set_affected future_eq intro: trancl_into_trancl)
qed

text \<open>
  Recolouring a region closed under children, parents first, makes every block of it right if
  all the others were.
\<close>

definition recolor_all :: "ghost_dag \<Rightarrow> hash list \<Rightarrow> dag \<Rightarrow> dag" where
  "recolor_all gd xs d = fold (\<lambda>x d'. snd (recompute_block gd d' x)) xs d"

lemma recolor_all_snoc: "recolor_all gd (xs @ [x]) d = snd (recompute_block gd (recolor_all gd xs d) x)"
  by (simp add: recolor_all_def)

lemma recolor_all_same_topology: "dag_wf d \<Longrightarrow> same_topology d (recolor_all gd xs d)"
proof (induction xs rule: rev_induct)
  case Nil
  show ?case by (simp add: recolor_all_def)
next
  case (snoc x xs)
  then have "dag_wf (recolor_all gd xs d)" using same_topology_wf by blast
  with snoc show ?case
    unfolding recolor_all_snoc by (meson same_topology_trans recompute_same_topology)
qed

lemma recolor_all_ok:
  assumes wf: "dag_wf d" and n: "get_block_count d < 2 ^ 32"
    and closed: "\<And>p x. p |\<in>| region \<Longrightarrow> p |\<in>| parents_of d x \<Longrightarrow> x |\<in>| region"
    and start: "\<And>x. x |\<notin>| region \<or> parents_of d x = {||} \<Longrightarrow> node_ok d x \<and> edge_ok d x"
  shows "distinct xs \<Longrightarrow> topo_list d region xs \<Longrightarrow> set xs \<subseteq> fset region \<Longrightarrow>
     x |\<notin>| region \<or> x \<in> set xs \<or> parents_of d x = {||} \<Longrightarrow>
     node_ok (recolor_all gd xs d) x \<and> edge_ok (recolor_all gd xs d) x"
proof (induction xs arbitrary: x rule: rev_induct)
  case Nil
  then show ?case using start by (simp add: recolor_all_def)
next
  case (snoc c xs)
  let ?e = "recolor_all gd xs d" and ?e' = "recolor_all gd (xs @ [c]) d"
  have st: "same_topology d ?e" and st': "same_topology d ?e'"
    using wf by (simp_all add: recolor_all_same_topology)
  have wfe: "dag_wf ?e" using same_topology_wf [OF st] wf by simp
  have ee': "same_topology ?e ?e'" using st st' by (simp add: same_topology_def)
  have topo: "topo_list d region xs" "fset (parents_of d c |\<inter>| region) \<subseteq> set xs"
    using snoc.prems(2) by (simp_all add: topo_list_snoc)
  have IH: "node_ok ?e y \<and> edge_ok ?e y" if "y |\<notin>| region \<or> y \<in> set xs \<or> parents_of d y = {||}" for y
    using snoc.IH [of y] snoc.prems topo that by simp
  have same: "get_block ?e' y = get_block ?e y" if "y \<noteq> c" for y
    unfolding recolor_all_snoc by (rule recompute_other [OF wfe that])
  show ?case
  proof (cases "x = c")
    case True
    show ?thesis
    proof (cases "parents_of d c = {||}")
      case leaf: True
      then have "?e' = ?e"
        unfolding recolor_all_snoc by (intro recompute_leaf) (simp add: same_topology_walks [OF st])
      with IH [of c] leaf True show ?thesis by simp
    next
      case False
      have "node_ok ?e p" if "p |\<in>| parents_of ?e c" for p
        using IH [of p] that topo(2) unfolding same_topology_walks [OF st] by auto
      moreover have "get_block_count ?e < 2 ^ 32"
        using n by (simp add: get_block_count_def same_topology_walks [OF st])
      moreover have "parents_of ?e c \<noteq> {||}" using False by (simp add: same_topology_walks [OF st])
      ultimately show ?thesis
        using recompute_ok [OF wfe] True by (simp add: recolor_all_snoc)
    qed
  next
    case False
    with snoc.prems(4) have known: "x |\<notin>| region \<or> x \<in> set xs \<or> parents_of d x = {||}" by auto
    have "c |\<notin>| parents_of d x"
    proof
      assume c: "c |\<in>| parents_of d x"
      have cr: "c |\<in>| region" using snoc.prems(3) by simp
      then have "x |\<in>| region" using closed c by blast
      with known c have "x \<in> set xs" by auto
      then obtain ys zs where "xs = ys @ x # zs" by (meson split_list)
      with topo_list_before [OF topo(1) this c cr] snoc.prems(1) show False by simp
    qed
    then have "edge_ok ?e' x \<longleftrightarrow> edge_ok ?e x"
      using same False
      by (intro edge_ok_same [OF ee'] same) (auto simp: same_topology_walks [OF st])
    moreover have "node_ok ?e' x \<longleftrightarrow> node_ok ?e x"
      by (rule node_ok_same [OF ee' same [OF False]])
    ultimately show ?thesis using IH [OF known] by simp
  qed
qed

section \<open>Processing a block\<close>

lemma process_block_ok:
  assumes wf: "dag_wf d" and n: "get_block_count d < 2 ^ 32" and b: "get_block d h = Some b"
    and leaf: "children_of d h = {||}"
    and others: "\<And>x. x \<noteq> h \<Longrightarrow> node_ok d x \<and> edge_ok d x"
  shows "\<exists>d'. process_block gd d h = Some d' \<and> same_topology d d' \<and> ghost_ok d'"
proof (cases "block_parents b = {||}")
  case True
  let ?d1 = "modify_block d h (color_fields None {||} {||} 1)"
  have st: "same_topology d ?d1" by (rule same_topology_color)
  have "process_block gd d h = Some ?d1"
    by (simp add: process_block_def b True Let_def)
  moreover have "node_ok ?d1 x \<and> edge_ok ?d1 x" for x
  proof (cases "x = h")
    case x: True
    have "parents_of d h = {||}" using b True by (simp add: parents_of_def)
    with x b True show ?thesis
      by (simp add: node_ok_def edge_ok_def color_fields_def same_topology_walks [OF st])
  next
    case False
    have "h |\<notin>| parents_of d x" using leaf dag_wf_parents_child [OF wf, of h x] by simp
    then have "edge_ok ?d1 x \<longleftrightarrow> edge_ok d x" using False by (intro edge_ok_same [OF st]) auto
    moreover have "node_ok ?d1 x \<longleftrightarrow> node_ok d x" using False by (intro node_ok_same [OF st]) auto
    ultimately show ?thesis using others [OF False] by simp
  qed
  ultimately show ?thesis using st by (auto simp: ghost_ok_def)
next
  case False
  let ?d1 = "snd (recompute_block gd d h)" and ?ps = "block_parents b"
  let ?region = "affected_set ?d1 ?ps"
  have st: "same_topology d ?d1" using wf by (rule recompute_same_topology)
  have wf1: "dag_wf ?d1" using same_topology_wf [OF st] wf by simp
  have par: "parents_of d h = ?ps" using b by (simp add: parents_of_def)
  have closed: "x |\<in>| ?region" if "p |\<in>| ?region" "p |\<in>| parents_of ?d1 x" for p x
    using affected_closed [OF wf1 that] .
  obtain p where "p |\<in>| ?ps" using False by auto
  then have h: "h |\<in>| ?region"
    using closed [of p h] par by (simp add: set_affected [OF wf1] same_topology_walks [OF st])
  obtain xs where xs: "topological_sort ?d1 (sorted_list_of_fset ?region) = Some xs" "distinct xs"
    "set xs = fset ?region" "topo_list ?d1 (fset_of_list (sorted_list_of_fset ?region)) xs"
    using topological_sort_result [OF wf1, of "sorted_list_of_fset ?region"] by auto
  have region: "fset_of_list (sorted_list_of_fset ?region) = ?region"
    by (rule fset_eqI) (simp add: fset_of_list_elem)
  have start: "node_ok ?d1 x \<and> edge_ok ?d1 x" if "x |\<notin>| ?region \<or> parents_of ?d1 x = {||}" for x
  proof -
    have "x \<noteq> h" using that h par False by (auto simp: same_topology_walks [OF st])
    moreover have "h |\<notin>| parents_of d x" using leaf dag_wf_parents_child [OF wf, of h x] by simp
    ultimately have "edge_ok ?d1 x \<longleftrightarrow> edge_ok d x" "node_ok ?d1 x \<longleftrightarrow> node_ok d x"
      using recompute_other [OF wf, of _ h gd]
      by (intro edge_ok_same [OF st] node_ok_same [OF st]; fastforce)+
    with others [OF \<open>x \<noteq> h\<close>] show ?thesis by simp
  qed
  have n1: "get_block_count ?d1 < 2 ^ 32"
    using n by (simp add: get_block_count_def same_topology_walks [OF st])
  have "node_ok (recolor_all gd xs ?d1) x \<and> edge_ok (recolor_all gd xs ?d1) x" for x
    using xs by (intro recolor_all_ok [OF wf1 n1 closed start]) (auto simp: region)
  then have "ghost_ok (recolor_all gd xs ?d1)" by (simp add: ghost_ok_def)
  moreover have "same_topology d (recolor_all gd xs ?d1)"
    using same_topology_trans [OF st recolor_all_same_topology [OF wf1]] .
  moreover have "process_block gd d h = Some (recolor_all gd xs ?d1)"
    using b False xs(1) by (simp add: process_block_def Let_def recolor_all_def)
  ultimately show ?thesis by blast
qed

section \<open>The graphs the program builds\<close>

text \<open>A block is added and processed; \<open>built\<close> lists the blocks of a run, in order of arrival.\<close>

inductive ingest :: "ghost_dag \<Rightarrow> block_node \<Rightarrow> dag \<Rightarrow> dag \<Rightarrow> bool" for gd where
  ingest: "add_block d block = Inr d1 \<Longrightarrow>
     process_block gd d1 (hdr_id (header block)) = Some d2 \<Longrightarrow> ingest gd block d d2"

inductive built :: "ghost_dag \<Rightarrow> block_node list \<Rightarrow> dag \<Rightarrow> bool" for gd where
  built_new: "built gd [] dag_new"
| built_step: "built gd bs d \<Longrightarrow> ingest gd block d d' \<Longrightarrow> built gd (bs @ [block]) d'"

inductive_cases ingestE: "ingest gd block d d'"

text \<open>
  \<open>add_block\<close> keeps the children a block arrives with, so the condition that the blocks of a run
  arrive without children is a condition on the run. It is necessary.
\<close>

definition arrives_childless :: "block_node \<Rightarrow> bool" where
  "arrives_childless block \<longleftrightarrow> children block = {||}"

lemma tips_ok_after_add:
  assumes "tips_ok d" "add_block d block = Inr d1"
  shows "tips_ok d1 \<longleftrightarrow> arrives_childless block"
proof
  assume "tips_ok d1"
  moreover have "hdr_id (header block) |\<in>| tips d1" by (simp add: add_block_Inr(6) [OF assms(2)])
  ultimately have "children_of d1 (hdr_id (header block)) = {||}" by (simp add: tips_ok_def)
  then show "arrives_childless block"
    by (simp add: arrives_childless_def add_block_children_of [OF assms(2)] split: if_splits)
next
  assume "arrives_childless block"
  then show "tips_ok d1" using add_block_tips_ok [OF assms] by (simp add: arrives_childless_def)
qed

lemma add_block_others_ok:
  assumes wf: "dag_wf d" and ok: "ghost_ok d" and add: "add_block d block = Inr d1"
    and x: "x \<noteq> hdr_id (header block)"
  shows "node_ok d1 x \<and> edge_ok d1 x"
proof -
  let ?h = "hdr_id (header block)"
  have dom: "fmdom (blocks d) |\<subseteq>| fmdom (blocks d1)"
    by (auto simp: get_block_dom add_block_Inr(5) [OF add])
  then have count: "get_block_count d \<le> get_block_count d1"
    unfolding get_block_count_def by (rule fcard_mono)
  have past: "dag_past d1 x = dag_past d x" by (rule add_block_past [OF wf add x])
  have nok: "node_ok d x" and eok: "edge_ok d x" using ok by (simp_all add: ghost_ok_def)
  have "node_ok d1 x"
    unfolding node_ok_def
  proof (intro allI impI)
    fix b1 assume "get_block d1 x = Some b1"
    then obtain b where b: "get_block d x = Some b" and eqs: "blue_set b1 = blue_set b"
      "blue_score b1 = blue_score b" "selected_parent b1 = selected_parent b" "header b1 = header b"
      using x by (auto simp: add_block_Inr(5) [OF add] split: if_splits)
    have "unat (blue_score b) \<le> 1 + get_block_count d * card (dag_past d x)"
      "blue_set b |\<subseteq>| fmdom (blocks d)"
      "case selected_parent b of None \<Rightarrow> block_parents b = {||} | Some sp \<Rightarrow> sp |\<in>| block_parents b"
      using nok b by (simp_all add: node_ok_def)
    moreover have "get_block_count d * card (dag_past d x) \<le> get_block_count d1 * card (dag_past d x)"
      using count by (rule mult_right_mono) simp
    then have "unat (blue_score b) \<le> 1 + get_block_count d1 * card (dag_past d x)" if "unat (blue_score b) \<le> 1 + get_block_count d * card (dag_past d x)"
      using that by linarith
    ultimately show "blue_set b1 |\<subseteq>| fmdom (blocks d1) \<and>
        unat (blue_score b1) \<le> 1 + get_block_count d1 * card (dag_past d1 x) \<and>
        (case selected_parent b1 of None \<Rightarrow> block_parents b1 = {||} | Some sp \<Rightarrow> sp |\<in>| block_parents b1)"
      using dom unfolding eqs past by (intro conjI) auto
  qed
  moreover have "edge_ok d1 x"
  proof -
    have score: "score_of d1 y = score_of d y" if "y \<noteq> ?h" for y
      using that by (auto simp: score_of_def add_block_Inr(5) [OF add] split: option.splits)
    have "?h |\<notin>| parents_of d x"
      using parent_present [OF wf, of ?h x] add_block_Inr(1) [OF add] by auto
    then have "p \<noteq> ?h" if "p |\<in>| parents_of d x" for p using that by auto
    with eok x score show ?thesis
      by (simp add: edge_ok_def add_block_parents_of [OF add])
  qed
  ultimately show ?thesis by simp
qed

text \<open>Every ingestion that \<open>add_block\<close> accepts returns, and keeps the three invariants.\<close>

lemma ingest_ok:
  assumes "dag_wf d" "tips_ok d" "ghost_ok d" "get_block_count d + 1 < 2 ^ 32"
    and "add_block d block = Inr d1" "arrives_childless block"
  shows "\<exists>d2. process_block gd d1 (hdr_id (header block)) = Some d2 \<and>
     dag_wf d2 \<and> tips_ok d2 \<and> ghost_ok d2 \<and> same_topology d1 d2"
proof -
  note childless = assms(6) [unfolded arrives_childless_def]
  let ?h = "hdr_id (header block)"
  have wf1: "dag_wf d1" by (rule add_block_wf [OF assms(1,5) childless])
  have tips1: "tips_ok d1" by (rule add_block_tips_ok [OF assms(2,5) childless])
  have "fmdom (blocks d1) = finsert ?h (fmdom (blocks d))"
    using add_block_Inr(3) [OF assms(5)]
    by (intro fset_eqI) (auto simp: get_block_dom add_block_Inr(5) [OF assms(5)])
  then have n1: "get_block_count d1 < 2 ^ 32"
    using assms(4) add_block_Inr(1) [OF assms(5)]
    by (simp add: get_block_count_def get_block_dom fcard_finsert_disjoint)
  have h: "get_block d1 ?h = Some block" by (simp add: add_block_Inr(5) [OF assms(5)])
  have leaf: "children_of d1 ?h = {||}" using childless by (simp add: children_of_def h)
  from process_block_ok [OF wf1 n1 h leaf add_block_others_ok [OF assms(1,3,5)]]
  obtain d2 where "process_block gd d1 ?h = Some d2" "same_topology d1 d2" "ghost_ok d2" by blast
  then show ?thesis
    using wf1 tips1 same_topology_wf [of d1 d2] same_topology_tips [of d1 d2] by blast
qed

lemma ghost_ok_new: "ghost_ok dag_new"
  by (simp add: ghost_ok_def node_ok_def edge_ok_def dag_new_def get_block_def parents_of_def)

lemma recompute_dom: "fmdom (blocks (snd (recompute_block gd d h))) = fmdom (blocks d)"
  by (simp add: recompute_block_def Let_def split: option.split prod.split)

lemma process_block_dom:
  assumes "process_block gd d h = Some d'"
  shows "fmdom (blocks d') = fmdom (blocks d)"
proof -
  have "fmdom (blocks (fold (\<lambda>x d'. snd (recompute_block gd d' x)) xs e)) = fmdom (blocks e)" for xs e
    by (induction xs arbitrary: e) (simp_all add: recompute_dom)
  with assms show ?thesis
    by (auto simp: process_block_def Let_def recompute_dom split: option.splits if_splits)
qed

lemma ingest_count:
  assumes "ingest gd block d d'"
  shows "get_block_count d' = get_block_count d + 1"
  using assms
proof (rule ingestE)
  fix d1
  assume add: "add_block d block = Inr d1"
    and proc: "process_block gd d1 (hdr_id (header block)) = Some d'"
  have "fmdom (blocks d1) = finsert (hdr_id (header block)) (fmdom (blocks d))"
    using add_block_Inr(3) [OF add]
    by (intro fset_eqI) (auto simp: get_block_dom add_block_Inr(5) [OF add])
  then show ?thesis
    using add_block_Inr(1) [OF add] process_block_dom [OF proc]
    by (simp add: get_block_count_def get_block_dom fcard_finsert_disjoint)
qed

lemma built_ok:
  "built gd bs d \<Longrightarrow> list_all arrives_childless bs \<Longrightarrow> get_block_count d < 2 ^ 32 \<Longrightarrow> dag_wf d \<and> tips_ok d \<and> ghost_ok d"
proof (induction rule: built.induct)
  case built_new
  show ?case by (simp add: dag_wf_new ghost_ok_new)
next
  case (built_step bs d block d')
  have n: "get_block_count d + 1 < 2 ^ 32" using ingest_count [OF built_step.hyps(2)] built_step.prems(2) by simp
  have leaf: "arrives_childless block" using built_step.prems(1) by simp
  from n built_step.IH built_step.prems(1) have ok: "dag_wf d" "tips_ok d" "ghost_ok d" by simp_all
  from built_step.hyps(2) show ?case
  proof (rule ingestE)
    fix d1
    assume "add_block d block = Inr d1"
      "process_block gd d1 (hdr_id (header block)) = Some d'"
    with ingest_ok [OF ok n _ leaf, of d1 gd] show ?thesis by auto
  qed
qed

section \<open>Properties\<close>

text \<open>Adding and processing a list of blocks.\<close>

fun ingest_blocks :: "ghost_dag \<Rightarrow> block_node list \<Rightarrow> dag \<Rightarrow> dag option" where
  "ingest_blocks gd [] d = Some d"
| "ingest_blocks gd (b # bs) d =
     (case add_block d b of
        Inl _ \<Rightarrow> None
      | Inr d1 \<Rightarrow> Option.bind (process_block gd d1 (hdr_id (header b))) (ingest_blocks gd bs))"

lemma ingest_blocks_built:
  "built gd as d \<Longrightarrow> ingest_blocks gd bs d = Some d' \<Longrightarrow> built gd (as @ bs) d'"
proof (induction bs arbitrary: as d)
  case Nil
  then show ?case by simp
next
  case (Cons b bs)
  then obtain d1 d2 where "add_block d b = Inr d1" "process_block gd d1 (hdr_id (header b)) = Some d2"
    "ingest_blocks gd bs d2 = Some d'" by (auto simp: bind_eq_Some_conv split: sum.splits)
  with Cons.IH [OF built_step [OF Cons.prems(1) ingest]] show ?case by simp
qed

text \<open>
  Whether a block can be added depends on the shape of the graph only, so a list of blocks
  that can be added one by one can also be ingested.
\<close>

lemma add_block_same_topology:
  assumes st: "same_topology d e" and add: "add_block d b = Inr d1"
  shows "\<exists>e1. add_block e b = Inr e1 \<and> same_topology d1 e1"
proof -
  let ?h = "hdr_id (header b)" and ?ps = "block_parents b"
  note w = same_topology_walks [OF st] and r = add_block_Inr [OF add]
  have "get_block e ?h = None" "?h |\<notin>| ?ps" "\<not> (?ps = {||} \<and> fmdom (blocks e) \<noteq> {||})"
    "\<not> fBex ?ps (\<lambda>p. get_block e p = None)"
    using r(1,2,3,4) by (auto simp: w)
  then obtain e1 where e1: "add_block e b = Inr e1" by (simp add: add_block_def Let_def)
  have "skeleton e1 x = skeleton d1 x" for x
  proof -
    have "skeleton e x = skeleton d x" using st by (simp add: same_topology_def)
    then show ?thesis
      by (cases "get_block d x"; cases "get_block e x")
        (auto simp: skeleton_def r(5) add_block_Inr(5) [OF e1])
  qed
  then have "same_topology d1 e1"
    by (simp add: same_topology_def fun_eq_iff r(6) add_block_Inr(6) [OF e1] w)
  with e1 show ?thesis by blast
qed

lemma ingest_blocks_returns:
  "dag_wf e \<Longrightarrow> tips_ok e \<Longrightarrow> ghost_ok e \<Longrightarrow> get_block_count e + length bs < 2 ^ 32 \<Longrightarrow>
   list_all arrives_childless bs \<Longrightarrow> same_topology d e \<Longrightarrow> add_blocks bs d = Inr d' \<Longrightarrow>
   \<exists>e'. ingest_blocks gd bs e = Some e' \<and> same_topology d' e'"
proof (induction bs arbitrary: d e)
  case Nil
  then show ?case by simp
next
  case (Cons b bs)
  then obtain d1 where d1: "add_block d b = Inr d1" "add_blocks bs d1 = Inr d'" by auto
  obtain e1 where e1: "add_block e b = Inr e1" "same_topology d1 e1"
    using add_block_same_topology [OF Cons.prems(6) d1(1)] by blast
  have leaf: "arrives_childless b" using Cons.prems(5) by simp
  have n: "get_block_count e + 1 < 2 ^ 32" using Cons.prems(4) by simp
  obtain e2 where e2: "process_block gd e1 (hdr_id (header b)) = Some e2" "dag_wf e2" "tips_ok e2"
    "ghost_ok e2" "same_topology e1 e2"
    using ingest_ok [OF Cons.prems(1-3) n e1(1) leaf] by blast
  have "get_block_count e2 = get_block_count e + 1"
    by (rule ingest_count [OF ingest [OF e1(1) e2(1)]])
  then have "get_block_count e2 + length bs < 2 ^ 32" using Cons.prems(4) by simp
  moreover have "same_topology d1 e2" using same_topology_trans [OF e1(2) e2(5)] .
  ultimately obtain e' where "ingest_blocks gd bs e2 = Some e'" "same_topology d' e'"
    using Cons.IH [OF e2(2,3,4), of d1] Cons.prems(5) d1(2) by auto
  with e1(1) e2(1) show ?case by simp
qed

definition sample_colored :: dag where
  "sample_colored = (case ingest_blocks (ghost_dag_new 1) sample_blocks dag_new of None \<Rightarrow> dag_new | Some d \<Rightarrow> d)"

lemma sample_colored_ingest:
  "ingest_blocks (ghost_dag_new 1) sample_blocks dag_new = Some sample_colored"
  "same_topology sample_dag sample_colored"
proof -
  have "get_block_count dag_new + length sample_blocks < 2 ^ 32"
    by (simp add: sample_blocks_def get_block_count_def dag_new_def fcard.rep_eq)
  moreover have "list_all arrives_childless sample_blocks"
    by (simp add: sample_blocks_def sample_block_def arrives_childless_def)
  ultimately obtain e where "ingest_blocks (ghost_dag_new 1) sample_blocks dag_new = Some e"
    "same_topology sample_dag e"
    using ingest_blocks_returns [OF dag_wf_new ghost_ok_new _ _ same_topology_refl sample_dag_built] by blast
  then show "ingest_blocks (ghost_dag_new 1) sample_blocks dag_new = Some sample_colored"
    "same_topology sample_dag sample_colored" by (simp_all add: sample_colored_def)
qed

lemma sample_colored_built:
  "built (ghost_dag_new 1) sample_blocks sample_colored" "list_all arrives_childless sample_blocks"
  using ingest_blocks_built [OF built_new sample_colored_ingest(1)]
  by (simp_all add: sample_blocks_def sample_block_def arrives_childless_def)

lemma sample_colored_facts:
  "get_block_count sample_colored = 5" "Hash 2 |\<in>| parents_of sample_colored (Hash 4)"
  "get_block sample_colored (Hash 5) \<noteq> None" "Hash 5 |\<in>| tips sample_colored"
  using sample_dag_facts(1-4) same_topology_walks [OF sample_colored_ingest(2)]
  by (simp_all add: get_block_count_def)

lemma sample_colored_ok: "dag_wf sample_colored" "tips_ok sample_colored" "ghost_ok sample_colored"
  using built_ok [OF sample_colored_built] by (simp_all add: sample_colored_facts(1))

text \<open>
  C5. Every graph of fewer than \<open>2 ^ 32\<close> blocks built by adding and processing blocks that arrive
  without children is well formed, its tips are its blocks without children, the score of a block
  is above the score of each of its parents, and a block with a selected parent has it among its
  parents. \<open>add_block\<close> does not reset the children a block carries, and the condition cannot be
  dropped: adding a block to a graph whose tips are right leaves them right exactly when the block
  arrives without children.
\<close>

theorem built_graph_invariant:
  assumes "built gd bs d" "list_all arrives_childless bs" "get_block_count d < 2 ^ 32"
  shows "dag_wf d \<and> tips_ok d \<and>
     (\<forall>x p. p |\<in>| parents_of d x \<longrightarrow> score_of d p < score_of d x) \<and>
     (\<forall>x b sp. get_block d x = Some b \<and> selected_parent b = Some sp \<longrightarrow> sp |\<in>| block_parents b) \<and>
     (\<forall>block d1. add_block d block = Inr d1 \<longrightarrow> (tips_ok d1 \<longleftrightarrow> arrives_childless block))"
proof -
  note ok = built_ok [OF assms]
  then have "tips_ok d1 \<longleftrightarrow> arrives_childless block" if "add_block d block = Inr d1" for block d1
    using tips_ok_after_add that by blast
  with ok show ?thesis by (fastforce simp: ghost_ok_def node_ok_def edge_ok_def)
qed

theorem built_graph_invariant_witness:
  "score_of sample_colored (Hash 2) < score_of sample_colored (Hash 4)"
  using built_graph_invariant [OF sample_colored_built] sample_colored_facts(1,2) by simp

text \<open>
  C18. In a graph that meets the invariant and has fewer than \<open>2 ^ 32 - 1\<close> blocks, processing a block
  that arrived without children and that \<open>add_block\<close> accepted returns: the recolouring of the
  affected region ends, it changes no edge and no tip, and it leaves a graph that meets the
  invariant.
\<close>

theorem process_block_returns:
  assumes "dag_wf d" "tips_ok d" "ghost_ok d" "get_block_count d + 1 < 2 ^ 32"
    and "add_block d block = Inr d1" "arrives_childless block"
  shows "\<exists>d2. process_block gd d1 (hdr_id (header block)) = Some d2 \<and>
     dag_wf d2 \<and> tips_ok d2 \<and> ghost_ok d2 \<and> same_topology d1 d2"
  using assms by (rule ingest_ok)

theorem process_block_returns_witness:
  "\<exists>d1 d2. add_block sample_colored (sample_block 6 {|Hash 4, Hash 5|}) = Inr d1 \<and>
     process_block (ghost_dag_new 1) d1 (Hash 6) = Some d2 \<and> ghost_ok d2"
proof -
  obtain d0 where "add_block sample_dag (sample_block 6 {|Hash 4, Hash 5|}) = Inr d0"
    using sample_dag_accepts by (cases "add_block sample_dag (sample_block 6 {|Hash 4, Hash 5|})") auto
  with add_block_same_topology [OF sample_colored_ingest(2)]
  obtain d1 where add: "add_block sample_colored (sample_block 6 {|Hash 4, Hash 5|}) = Inr d1" by blast
  from process_block_returns [OF sample_colored_ok _ add, of "ghost_dag_new 1"] add show ?thesis
    by (auto simp: sample_colored_facts(1) sample_block_def arrives_childless_def)
qed

text \<open>
  The colouring of the anticone of the selected parent: every block of the anticone gets a
  colour, every red block conflicts with more than \<open>k\<close> blue ones, red blocks come from the
  anticone only, and the blue set extends the selected parent's blue set by itself and blocks
  of the anticone.
\<close>

theorem build_blue_set_colors:
  assumes "build_blue_set gd d sp ps = (blue, red)"
  shows "initial_blue d sp |\<subseteq>| blue \<and>
     blue |\<subseteq>| initial_blue d sp |\<union>| fset_of_list (get_anticone d sp) \<and>
     red |\<subseteq>| fset_of_list (get_anticone d sp) \<and>
     fset_of_list (get_anticone d sp) |\<subseteq>| blue |\<union>| red \<and>
     (\<forall>c. c |\<in>| red \<longrightarrow> k gd < fcard (fset_of_list (get_anticone d c) |\<inter>| blue))"
  using build_blue_set_bounds [OF assms] color_fold_red [OF assms [unfolded build_blue_set_def]]
  by blast

theorem build_blue_set_colors_witness:
  "fset_of_list (get_anticone sample_dag (Hash 2)) |\<subseteq>|
     fst (build_blue_set (ghost_dag_new 1) sample_dag (Hash 2) []) |\<union>|
     snd (build_blue_set (ghost_dag_new 1) sample_dag (Hash 2) [])"
  using build_blue_set_colors [OF prod.collapse [symmetric]] by blast

end
