(* ===== verification/Finality.thy ===== *)
theory Finality
  imports Ghostdag_Process
begin

text \<open>
  Consequences of the invariant of coloured graphs for the read side of \<open>ghostdag.rs\<close> and
  \<open>ordering.rs\<close>: the selected chain ends at a block without parents, the two orderings list
  parents before children, the virtual block dominates every score, finality is inherited by
  ancestors, and \<open>can_reorganize\<close> measures the distance to the genesis block.
\<close>

section \<open>Scores along the graph\<close>

lemma get_block_nonempty: "get_block d x \<noteq> None \<Longrightarrow> fmdom (blocks d) \<noteq> {||}"
  by (metis fempty_iff get_block_dom)

lemma score_past:
  assumes "ghost_ok d" "a \<in> dag_past d x"
  shows "score_of d a < score_of d x"
proof -
  from assms(2) have "(a, x) \<in> (parent_rel d)\<^sup>+" by (simp add: dag_past_def)
  then show ?thesis
  proof (induction rule: trancl_induct)
    case (base y)
    with assms(1) show ?case by (simp add: ghost_ok_def edge_ok_def parent_rel_def)
  next
    case (step y z)
    from step.hyps(2) assms(1) have "score_of d y < score_of d z"
      by (simp add: ghost_ok_def edge_ok_def parent_rel_def)
    with step.IH show ?case by simp
  qed
qed

lemma tip_above:
  assumes "dag_wf d" "tips_ok d" "get_block d x \<noteq> None"
  shows "\<exists>t. t |\<in>| tips d \<and> (t = x \<or> x \<in> dag_past d t)"
  using assms(3)
proof (induction "card (dag_future d x)" arbitrary: x rule: less_induct)
  case less
  show ?case
  proof (cases "children_of d x = {||}")
    case True
    with less.prems assms(2) show ?thesis by (auto simp: tips_ok_def)
  next
    case False
    then obtain c where "c |\<in>| children_of d x" by auto
    then have e: "(x, c) \<in> parent_rel d" using dag_wf_parents_child [OF assms(1)] by (simp add: parent_rel_def)
    have "dag_future d c \<subset> dag_future d x"
    proof
      show "dag_future d c \<subseteq> dag_future d x"
        using e by (auto simp: future_eq [OF assms(1)])
      show "dag_future d c \<noteq> dag_future d x"
        using e past_future_irrefl [OF assms(1), of c] by (auto simp: future_eq [OF assms(1)])
    qed
    moreover have "finite (dag_future d x)"
      by (rule finite_subset [OF future_blocks [OF assms(1)]]) simp
    ultimately have "card (dag_future d c) < card (dag_future d x)" by (rule psubset_card_mono [rotated])
    from less.hyps [OF this child_block [OF e]] obtain t
      where "t |\<in>| tips d" "t = c \<or> c \<in> dag_past d t" by blast
    moreover from this(2) e have "x \<in> dag_past d t" by (auto simp: dag_past_def)
    ultimately show ?thesis by blast
  qed
qed

lemma score_below_tip:
  assumes "dag_wf d" "tips_ok d" "ghost_ok d" "get_block d x \<noteq> None"
  shows "\<exists>t. t |\<in>| tips d \<and> score_of d x \<le> score_of d t"
  using tip_above [OF assms(1,2,4)] score_past [OF assms(3)] by (auto intro: less_imp_le)

section \<open>The virtual block\<close>

lemma set_get_tips [simp]: "set (get_tips d) = fset (tips d)"
  by (simp add: get_tips_def)

lemma select_tip:
  assumes "dag_wf d" "tips_ok d" "fmdom (blocks d) \<noteq> {||}"
  shows "\<exists>sp. select_parent d (get_tips d) = Some sp \<and> sp |\<in>| tips d"
proof -
  obtain x where "x |\<in>| fmdom (blocks d)" using assms(3) by auto
  then obtain t where t: "t |\<in>| tips d" using tip_above [OF assms(1,2), of x] by (auto simp: get_block_dom)
  with assms(2) have "get_block d t \<noteq> None" by (auto simp: tips_ok_def)
  with select_parent_ex [of t "get_tips d" d] t obtain sp where sp: "select_parent d (get_tips d) = Some sp"
    by auto
  with select_parent_Some(1) [OF sp] show ?thesis by simp
qed

lemma virtual_over_tips_Some:
  assumes "dag_wf d" "tips_ok d" "fmdom (blocks d) \<noteq> {||}"
  obtains sp blue red where
    "select_parent d (get_tips d) = Some sp" "sp |\<in>| tips d" "get_block d sp \<noteq> None"
    "build_blue_set gd d sp (get_tips d) = (blue, red)"
    "virtual_over_tips gd d = \<lparr>v_parents = tips d, v_selected_parent = Some sp, v_blue_set = blue,
       v_red_set = red, v_blue_score = score_of d sp + word_of_nat (fcard blue)\<rparr>"
proof -
  obtain sp where sp: "select_parent d (get_tips d) = Some sp" "sp |\<in>| tips d"
    using select_tip [OF assms] by blast
  obtain blue red where br: "build_blue_set gd d sp (get_tips d) = (blue, red)" by fastforce
  show ?thesis
    by (rule that [OF sp select_parent_Some(2) [OF sp(1)] br]) (simp add: virtual_over_tips_def sp(1) br)
qed

lemma length_get_all_hashes: "length (get_all_hashes d) = get_block_count d"
  by (simp add: get_all_hashes_def get_block_count_def)

lemma build_virtual_many:
  "2 \<le> get_block_count d \<Longrightarrow> build_virtual_block gd d = virtual_over_tips gd d"
  using length_get_all_hashes [of d]
  by (auto simp: build_virtual_block_def split: list.splits)

lemma build_virtual_one:
  assumes "get_block_count d = 1" "get_block d h = Some b"
  shows "build_virtual_block gd d =
     \<lparr>v_parents = tips d, v_selected_parent = selected_parent b, v_blue_set = blue_set b,
      v_red_set = red_set b, v_blue_score = blue_score b\<rparr>"
proof -
  have "length (get_all_hashes d) = 1" using assms(1) by (simp add: length_get_all_hashes)
  moreover have "h \<in> set (get_all_hashes d)" using assms(2) by (simp add: set_get_all_hashes get_block_dom)
  ultimately have "get_all_hashes d = [h]" by (cases "get_all_hashes d") auto
  then show ?thesis by (simp add: build_virtual_block_def assms(2))
qed

lemma virtual_parents:
  assumes "dag_wf d" "tips_ok d" "get_block d x \<noteq> None"
  shows "v_parents (build_virtual_block gd d) = tips d"
proof (cases "get_block_count d = 1")
  case True
  with assms(3) show ?thesis by (auto simp: build_virtual_one)
next
  case False
  have dom: "fmdom (blocks d) \<noteq> {||}" using assms(3) by (rule get_block_nonempty)
  then have "0 < get_block_count d" by (metis fcard_0_eq get_block_count_def neq0_conv)
  with False have "build_virtual_block gd d = virtual_over_tips gd d" by (intro build_virtual_many) simp
  then show ?thesis
    using virtual_over_tips_Some [OF assms(1,2) dom, of gd] by (metis virtual_block.select_convs(1))
qed

text \<open>The virtual score is above the score of every block.\<close>

lemma virtual_score_above:
  assumes wf: "dag_wf d" and tips: "tips_ok d" and ok: "ghost_ok d"
    and n: "2 \<le> get_block_count d" "get_block_count d < 2 ^ 32" and x: "get_block d x \<noteq> None"
  shows "score_of d x < v_blue_score (build_virtual_block gd d)"
proof -
  let ?n = "get_block_count d"
  have "fmdom (blocks d) \<noteq> {||}" using x by (rule get_block_nonempty)
  from virtual_over_tips_Some [OF wf tips this, of gd] obtain sp blue red where
    sp: "select_parent d (get_tips d) = Some sp" "sp |\<in>| tips d" "get_block d sp \<noteq> None"
    and br: "build_blue_set gd d sp (get_tips d) = (blue, red)"
    and v: "virtual_over_tips gd d = \<lparr>v_parents = tips d, v_selected_parent = Some sp, v_blue_set = blue,
       v_red_set = red, v_blue_score = score_of d sp + word_of_nat (fcard blue)\<rparr>"
    by metis
  obtain spb where spb: "get_block d sp = Some spb" using sp(3) by auto
  have "node_ok d sp" using ok by (simp add: ghost_ok_def)
  then have spok: "blue_set spb |\<subseteq>| fmdom (blocks d)"
    "unat (score_of d sp) \<le> 1 + ?n * card (dag_past d sp)"
    using spb by (auto simp: node_ok_def score_of_def)
  have anti: "fset_of_list (get_anticone d sp) |\<subseteq>| fmdom (blocks d)"
    by (auto simp: fset_of_list_elem set_get_anticone get_block_dom)
  have init: "initial_blue d sp = finsert sp (blue_set spb)" by (simp add: initial_blue_def spb)
  have "sp |\<in>| fmdom (blocks d)" using spb by (simp add: get_block_dom)
  then have blue: "blue |\<subseteq>| fmdom (blocks d)"
    using build_blue_set_bounds(2) [OF br] spok(1) anti unfolding init by blast
  have "sp |\<in>| blue" using build_blue_set_bounds(1) [OF br] unfolding init by blast
  then have pos: "0 < fcard blue" by (metis fcard_0_eq fempty_iff neq0_conv)
  have fb: "fcard blue \<le> ?n" unfolding get_block_count_def by (rule fcard_mono [OF blue])
  have "card (dag_past d sp) \<le> 2 ^ 32 - 2" using card_past_bound [OF wf sp(3)] n(2) by simp
  then have "?n * card (dag_past d sp) \<le> (2 ^ 32 - 1) * (2 ^ 32 - 2)"
    using n(2) by (intro mult_mono) simp_all
  then have "unat (score_of d sp) + fcard blue < 2 ^ 64" using spok(2) fb n(2) by simp
  then have "unat (score_of d sp + word_of_nat (fcard blue)) = unat (score_of d sp) + fcard blue"
    by (simp add: unat_add_no_overflow unat_of_nat_small)
  moreover have "score_of d x \<le> score_of d sp"
  proof -
    obtain t where t: "t |\<in>| tips d" "score_of d x \<le> score_of d t"
      using score_below_tip [OF wf tips ok x] by blast
    then have "get_block d t \<noteq> None" using tips by (auto simp: tips_ok_def)
    with select_parent_Some(3) [OF sp(1), of t] t show ?thesis by auto
  qed
  ultimately show ?thesis
    using pos by (simp add: build_virtual_many [OF n(1)] v word_less_nat_alt word_le_nat_alt)
qed

section \<open>The selected chain\<close>

definition selected_edge :: "dag \<Rightarrow> hash \<Rightarrow> hash \<Rightarrow> bool" where
  "selected_edge d a b \<longleftrightarrow> Option.bind (get_block d a) selected_parent = Some b"

lemma selected_edge_parent:
  assumes "ghost_ok d" "selected_edge d a b"
  shows "b |\<in>| parents_of d a"
proof -
  have "node_ok d a" using assms(1) by (simp add: ghost_ok_def)
  with assms(2) show ?thesis
    by (auto simp: selected_edge_def node_ok_def parents_of_def bind_eq_Some_conv)
qed

lemma chain_loop_result:
  assumes wf: "dag_wf d" and ok: "ghost_ok d"
  shows "get_block d h \<noteq> None \<Longrightarrow>
     \<exists>xs. (\<forall>acc. chain_loop d (Some h) acc = Some (acc @ h # xs)) \<and>
          successively (selected_edge d) (h # xs) \<and> parents_of d (last (h # xs)) = {||} \<and>
          set xs \<subseteq> dag_past d h \<and> distinct (h # xs)"
proof (induction "card (dag_past d h)" arbitrary: h rule: less_induct)
  case less
  then obtain b where b: "get_block d h = Some b" by auto
  have nok: "node_ok d h" using ok by (simp add: ghost_ok_def)
  show ?case
  proof (cases "selected_parent b")
    case None
    with nok b have "parents_of d h = {||}" by (auto simp: node_ok_def parents_of_def)
    moreover have "chain_loop d (Some h) acc = Some (acc @ [h])" for acc
      by (simp add: chain_loop.simps [of d "Some h"] b None) (simp add: chain_loop.simps)
    ultimately show ?thesis by (intro exI [of _ "[]"]) simp
  next
    case (Some sp)
    then have e: "selected_edge d h sp" by (simp add: selected_edge_def b)
    then have sp: "sp |\<in>| parents_of d h" by (rule selected_edge_parent [OF ok])
    from less.hyps [OF card_past_parent [OF wf sp] parent_present [OF wf sp]] obtain xs where
      xs: "\<And>acc. chain_loop d (Some sp) acc = Some (acc @ sp # xs)"
      "successively (selected_edge d) (sp # xs)" "parents_of d (last (sp # xs)) = {||}"
      "set xs \<subseteq> dag_past d sp" "distinct (sp # xs)" by blast
    have "chain_loop d (Some h) acc = Some (acc @ h # sp # xs)" for acc
      by (simp add: chain_loop.simps [of d "Some h"] b Some xs(1))
    moreover have pr: "(sp, h) \<in> parent_rel d" using sp by (simp add: parent_rel_def)
    then have sub: "set (sp # xs) \<subseteq> dag_past d h"
      using xs(4) by (auto simp: dag_past_def intro: trancl_into_trancl)
    moreover have "h \<notin> set (sp # xs)" using sub past_future_irrefl [OF wf, of h] by blast
    ultimately show ?thesis using xs e by (intro exI [of _ "sp # xs"]) simp
  qed
qed

text \<open>The number of steps to the genesis block along selected parents.\<close>

lemma find_common_chain:
  assumes wf: "dag_wf d" and tips: "tips_ok d" and ok: "ghost_ok d"
  shows "successively (selected_edge d) (h # xs) \<Longrightarrow> parents_of d (last (h # xs)) = {||} \<Longrightarrow>
     h |\<notin>| tips d \<Longrightarrow> get_block d h \<noteq> None \<Longrightarrow> n \<le> 10000 \<Longrightarrow>
     find_common d (tips d) (Some h) n =
       (if n + length (h # xs) \<le> 10000 then Inr (n + length (h # xs))
        else Inl (ConsensusError ''Chain too deep while finding common ancestor''))"
proof (induction xs arbitrary: h n)
  case Nil
  then obtain b where b: "get_block d h = Some b" by auto
  have "node_ok d h" using ok by (simp add: ghost_ok_def)
  with Nil b have "selected_parent b = None"
    by (auto simp: node_ok_def parents_of_def split: option.splits)
  with Nil b show ?case by (simp add: find_common.simps [of _ _ "Some h"]) (simp add: find_common.simps)
next
  case (Cons y ys)
  have e: "selected_edge d h y" using Cons.prems(1) by simp
  then have yp: "y |\<in>| parents_of d h" by (rule selected_edge_parent [OF ok])
  then have "h |\<in>| children_of d y" using dag_wf_parents_child [OF wf] by simp
  then have "y |\<notin>| tips d" using tips by (auto simp: tips_ok_def)
  moreover have "get_block d y \<noteq> None" by (rule parent_present [OF wf yp])
  moreover have "successively (selected_edge d) (y # ys)" "parents_of d (last (y # ys)) = {||}"
    using Cons.prems by simp_all
  ultimately have IH: "n + 1 \<le> 10000 \<Longrightarrow> find_common d (tips d) (Some y) (n + 1) =
     (if n + 1 + length (y # ys) \<le> 10000 then Inr (n + 1 + length (y # ys))
      else Inl (ConsensusError ''Chain too deep while finding common ancestor''))"
    using Cons.IH [of y "n + 1"] by blast
  show ?case
    using Cons.prems(3) e IH
    by (simp add: find_common.simps [of _ _ "Some h"] selected_edge_def)
qed

section \<open>Orderings\<close>

interpretation score_order: comparison "order_le d"
  by unfold_locales (auto simp: order_le_def)

lemma order_list_parents:
  assumes wf: "dag_wf d" and ok: "ghost_ok d"
    and eq: "sort_by (order_le d) (get_all_hashes d) = ys @ x # zs"
  shows "fset (parents_of d x) \<subseteq> set ys"
proof
  fix p assume p: "p \<in> fset (parents_of d x)"
  then have lt: "score_of d p < score_of d x" using ok by (auto simp: ghost_ok_def edge_ok_def)
  have "p \<in> set (get_all_hashes d)"
    using parent_present [OF wf p] by (simp add: set_get_all_hashes get_block_dom)
  then have "p \<in> set (ys @ x # zs)" by (metis eq set_sort_by)
  moreover have "p \<notin> set zs"
    using score_order.sorted_sort_by [of d "get_all_hashes d"] lt
    unfolding eq by (auto simp: sorted_wrt_append order_le_def)
  ultimately show "p \<in> set ys" using lt by auto
qed

lemma get_virtual_block_Some:
  assumes "get_block d x \<noteq> None"
  shows "\<exists>h. get_virtual_block H d = Some h \<and> get_block d h \<noteq> None \<and>
     (\<forall>y. get_block d y \<noteq> None \<longrightarrow>
        score_of d y < score_of d h \<or> score_of d y = score_of d h \<and> h \<le> y)"
proof -
  have x: "x \<in> set (get_all_hashes d)" using assms by (simp add: set_get_all_hashes get_block_dom)
  then have "(x, score_of d x) \<in> set (scored d (get_all_hashes d))" using assms by (simp add: scored_iff)
  then obtain m where m: "max_by virtual_gt (scored d (get_all_hashes d)) = Some m"
    by (cases "scored d (get_all_hashes d)") auto
  have max: "m \<in> set (scored d (get_all_hashes d)) \<and>
      (\<forall>y \<in> set (scored d (get_all_hashes d)). \<not> virtual_gt y m)"
    by (rule max_by_Some [OF _ _ _ m]) (auto simp: virtual_gt_def split: prod.splits)
  have "get_all_hashes d \<noteq> []" using x by auto
  then have gv: "get_virtual_block H d = Some (fst m)" by (simp add: get_virtual_block_def Let_def m)
  have fm: "get_block d (fst m) \<noteq> None" "snd m = score_of d (fst m)"
    using max by (simp_all add: scored_iff [of "fst m" "snd m", simplified])
  have "score_of d y < score_of d (fst m) \<or> score_of d y = score_of d (fst m) \<and> fst m \<le> y"
    if "get_block d y \<noteq> None" for y
  proof -
    have "(y, score_of d y) \<in> set (scored d (get_all_hashes d))"
      using that by (simp add: scored_iff set_get_all_hashes get_block_dom)
    with max have "\<not> virtual_gt (y, score_of d y) m" by blast
    then show ?thesis by (cases m) (use fm(2) in \<open>auto simp: virtual_gt_def\<close>)
  qed
  with gv fm(1) show ?thesis by blast
qed

section \<open>Finality\<close>

lemma check_finality_mono:
  assumes "score_of d a \<le> score_of d b" "check_finality gd d b t"
  shows "check_finality gd d a t"
  using assms
  by (auto simp: check_finality_def word_le_nat_alt unat_saturating_sub intro: order_trans diff_le_mono2)

section \<open>Properties\<close>

text \<open>The path graph with blocks 0 to \<open>n\<close>, built one block at a time.\<close>

lemma dag_new_empty: "get_block dag_new x = None"
  by (simp add: get_block_def dag_new_def)

lemma path_built:
  assumes "n < 2 ^ 16"
  shows "\<exists>bs d. built gd bs d \<and> list_all arrives_childless bs \<and> get_block_count d = n + 1 \<and>
     (\<forall>x. get_block d x \<noteq> None \<longleftrightarrow> (\<exists>i\<le>n. x = Hash (word_of_nat i))) \<and>
     (\<forall>i<n. Hash (word_of_nat i) |\<in>| parents_of d (Hash (word_of_nat (Suc i))))"
  using assms
proof (induction n)
  case 0
  let ?b = "sample_block 0 {||}"
  have "is_ok (add_block dag_new ?b)"
    by (simp add: add_block_accepts get_block_def dag_new_def sample_block_def)
  then obtain d1 where d1: "add_block dag_new ?b = Inr d1" by (cases "add_block dag_new ?b") auto
  have leaf: "arrives_childless ?b" by (simp add: sample_block_def arrives_childless_def)
  have "get_block_count dag_new + 1 < 2 ^ 32" by (simp add: get_block_count_def dag_new_def fcard.rep_eq)
  from ingest_ok [OF dag_wf_new ghost_ok_new this d1 leaf]
  obtain d2 where d2: "process_block gd d1 (hdr_id (header ?b)) = Some d2" "same_topology d1 d2" by blast
  have ing: "ingest gd ?b dag_new d2" by (rule ingest [OF d1 d2(1)])
  then have "built gd [?b] d2" using built_step [OF built_new] by force
  moreover have "get_block_count d2 = 1"
    using ingest_count [OF ing] by (simp add: get_block_count_def dag_new_def fcard.rep_eq)
  moreover have "get_block d2 x \<noteq> None \<longleftrightarrow> x = Hash 0" for x
    using add_block_Inr(5) [OF d1, of x] dag_new_empty [of x]
    by (simp add: same_topology_walks(3) [OF d2(2)] sample_block_def)
  ultimately show ?case using leaf by (intro exI [of _ "[?b]"] exI [of _ d2]) simp
next
  case (Suc n)
  then obtain bs d where d: "built gd bs d" "get_block_count d = n + 1"
    "\<And>x. get_block d x \<noteq> None \<longleftrightarrow> (\<exists>i\<le>n. x = Hash (word_of_nat i))"
    "\<And>i. i < n \<Longrightarrow> Hash (word_of_nat i) |\<in>| parents_of d (Hash (word_of_nat (Suc i)))"
    and bs: "list_all arrives_childless bs" by auto
  have inj: "(word_of_nat i :: bytes32) = word_of_nat j \<longleftrightarrow> i = j" if "i \<le> Suc n" "j \<le> Suc n" for i j
    using that Suc.prems by (simp add: word_unat_eq_iff unat_of_nat_small del: of_nat_Suc)
  let ?h = "Hash (word_of_nat (Suc n))" and ?p = "Hash (word_of_nat n)"
  let ?b = "sample_block (word_of_nat (Suc n)) {|?p|}"
  have fresh: "get_block d ?h = None" using d(3) [of ?h] inj [OF _ order.refl]
    by (metis Suc_n_not_le_n hash.inject le_SucI)
  have have_p: "get_block d ?p \<noteq> None" using d(3) [of ?p] by blast
  have "?h \<noteq> ?p" using inj [of "Suc n" n] by simp
  then have "is_ok (add_block d ?b)"
    unfolding add_block_accepts using fresh have_p by (simp add: sample_block_def del: of_nat_Suc)
  then obtain d1 where d1: "add_block d ?b = Inr d1" by (cases "add_block d ?b") auto
  have leaf: "arrives_childless ?b" by (simp add: sample_block_def arrives_childless_def)
  have n: "get_block_count d + 1 < 2 ^ 32" using d(2) Suc.prems by simp
  have ok: "dag_wf d" "tips_ok d" "ghost_ok d" using built_ok [OF d(1) bs] n by simp_all
  from ingest_ok [OF ok n d1 leaf]
  obtain d2 where d2: "process_block gd d1 (hdr_id (header ?b)) = Some d2" "same_topology d1 d2" by blast
  have ing: "ingest gd ?b d d2" by (rule ingest [OF d1 d2(1)])
  have "get_block d2 x \<noteq> None \<longleftrightarrow> (\<exists>i\<le>Suc n. x = Hash (word_of_nat i))" for x
  proof -
    have "get_block d2 x \<noteq> None \<longleftrightarrow> x = ?h \<or> get_block d x \<noteq> None"
      using add_block_Inr(5) [OF d1, of x]
      by (simp add: same_topology_walks(3) [OF d2(2)] sample_block_def)
    then show ?thesis unfolding d(3) by (auto simp: le_Suc_eq simp del: of_nat_Suc)
  qed
  moreover have "Hash (word_of_nat i) |\<in>| parents_of d2 (Hash (word_of_nat (Suc i)))" if "i < Suc n" for i
  proof (cases "i = n")
    case True
    then show ?thesis
      by (simp add: same_topology_walks(1) [OF d2(2)] add_block_parents_of [OF d1] sample_block_def del: of_nat_Suc)
  next
    case False
    with that have "i < n" by simp
    moreover from this have "Hash (word_of_nat (Suc i)) \<noteq> ?h" using inj [of "Suc i" "Suc n"] by simp
    ultimately show ?thesis using d(4) [of i]
      by (simp add: same_topology_walks(1) [OF d2(2)] add_block_parents_of [OF d1] sample_block_def del: of_nat_Suc)
  qed
  ultimately show ?case
    using built_step [OF d(1) ing] ingest_count [OF ing] d(2) bs leaf by (intro exI [of _ "bs @ [?b]"] exI [of _ d2]) simp
qed

lemma path_dag:
  assumes "1 \<le> n" "n < 2 ^ 16"
  shows "\<exists>d. dag_wf d \<and> tips_ok d \<and> ghost_ok d \<and> get_block_count d = n + 1 \<and>
     get_block d (Hash (word_of_nat n)) \<noteq> None \<and>
     (Hash 0, Hash (word_of_nat n)) \<in> parent_rel d ^^ n \<and> Hash 0 |\<in>| parents_of d (Hash 1)"
proof -
  from path_built [OF assms(2), of "ghost_dag_new 1"] obtain bs d where
    d: "built (ghost_dag_new 1) bs d" "get_block_count d = n + 1"
    "\<And>x. get_block d x \<noteq> None \<longleftrightarrow> (\<exists>i\<le>n. x = Hash (word_of_nat i))"
    "\<And>i. i < n \<Longrightarrow> Hash (word_of_nat i) |\<in>| parents_of d (Hash (word_of_nat (Suc i)))"
    and bs: "list_all arrives_childless bs" by auto
  have "(Hash 0, Hash (word_of_nat m)) \<in> parent_rel d ^^ m" if "m \<le> n" for m
    using that
  proof (induction m)
    case (Suc m)
    then have "(Hash (word_of_nat m), Hash (word_of_nat (Suc m))) \<in> parent_rel d"
      using d(4) [of m] by (simp add: parent_rel_def del: of_nat_Suc)
    with Suc show ?case by (auto simp del: of_nat_Suc)
  qed simp
  moreover have "get_block_count d < 2 ^ 32" using d(2) assms(2) by simp
  moreover have "Hash 0 |\<in>| parents_of d (Hash 1)" using d(4) [of 0] assms(1) by simp
  ultimately show ?thesis using built_ok [OF d(1) bs] d(2,3) by blast
qed

lemma score_steps:
  assumes "ghost_ok d" "(a, x) \<in> parent_rel d ^^ n"
  shows "unat (score_of d a) + n \<le> unat (score_of d x)"
  using assms(2)
proof (induction n arbitrary: x)
  case 0
  then show ?case by simp
next
  case (Suc n)
  then obtain y where y: "(a, y) \<in> parent_rel d ^^ n" "(y, x) \<in> parent_rel d" by auto
  from y(2) assms(1) have "score_of d y < score_of d x" by (simp add: ghost_ok_def edge_ok_def parent_rel_def)
  with Suc.IH [OF y(1)] show ?case by (simp add: word_less_nat_alt)
qed

text \<open>
  The orderings the program executes blocks in are topological: each lists every block of
  the graph once, and every block after all its parents.
\<close>

theorem orderings_topological:
  assumes "dag_wf d" "ghost_ok d"
  shows "get_ordering d = get_virtual_ordering d \<and> mset (get_ordering d) = mset (get_all_hashes d) \<and>
     topo_list d (fmdom (blocks d)) (get_ordering d)"
  using order_list_parents [OF assms]
  by (auto simp: get_ordering_def get_virtual_ordering_def topo_list_def)

theorem orderings_topological_witness:
  "topo_list sample_colored (fmdom (blocks sample_colored)) (get_ordering sample_colored)"
  using orderings_topological [OF sample_colored_ok(1,3)] by blast

text \<open>
  The walk along selected parents from a block of a coloured graph ends, visits distinct
  blocks, each the selected parent of the one before, and ends at a block without parents; the
  chain that \<open>get_virtual_selected_chain\<close> returns is that walk from the virtual selected parent,
  reversed.
\<close>

theorem selected_chain_returns:
  assumes "dag_wf d" "tips_ok d" "ghost_ok d" "2 \<le> get_block_count d"
  shows "\<exists>sp xs. select_parent d (get_tips d) = Some sp \<and>
     get_virtual_selected_chain gd d = Some (rev (sp # xs)) \<and> distinct (sp # xs) \<and>
     successively (selected_edge d) (sp # xs) \<and> parents_of d (last (sp # xs)) = {||}"
proof -
  have "fmdom (blocks d) \<noteq> {||}" using assms(4) by (auto simp: get_block_count_def fcard.rep_eq)
  then obtain sp blue red where sp: "select_parent d (get_tips d) = Some sp" "get_block d sp \<noteq> None"
    and v: "v_selected_parent (virtual_over_tips gd d) = Some sp"
    using virtual_over_tips_Some [OF assms(1,2), of gd] by (metis virtual_block.select_convs(2))
  from chain_loop_result [OF assms(1,3) sp(2)] obtain xs where
    "\<forall>acc. chain_loop d (Some sp) acc = Some (acc @ sp # xs)" "distinct (sp # xs)"
    "successively (selected_edge d) (sp # xs)" "parents_of d (last (sp # xs)) = {||}" by blast
  with sp v show ?thesis
    by (auto simp: get_virtual_selected_chain_def build_virtual_many [OF assms(4)])
qed

theorem selected_chain_returns_witness:
  "\<exists>sp xs. select_parent sample_colored (get_tips sample_colored) = Some sp \<and>
     get_virtual_selected_chain (ghost_dag_new 1) sample_colored = Some (rev (sp # xs))"
  using selected_chain_returns [OF sample_colored_ok, of "ghost_dag_new 1"]
  by (auto simp: sample_colored_facts(1))

text \<open>
  The virtual block, which \<open>get_virtual_block\<close> names by the best score and the lowest hash
  among equals, is a tip of the graph, and the virtual score is above every block's score.
\<close>

theorem virtual_block_is_tip:
  assumes "dag_wf d" "tips_ok d" "ghost_ok d" "2 \<le> get_block_count d" "get_block_count d < 2 ^ 32"
  shows "\<exists>h. get_virtual_block H d = Some h \<and> h |\<in>| tips d \<and>
     (\<forall>x. get_block d x \<noteq> None \<longrightarrow>
        score_of d x \<le> score_of d h \<and> score_of d x < v_blue_score (build_virtual_block gd d))"
proof -
  have "fmdom (blocks d) \<noteq> {||}" using assms(4) by (auto simp: get_block_count_def fcard.rep_eq)
  then obtain x where "get_block d x \<noteq> None" by (metis get_block_dom fempty_iff fset_eqI)
  from get_virtual_block_Some [OF this, of H] obtain h where
    h: "get_virtual_block H d = Some h" "get_block d h \<noteq> None"
    "\<And>y. get_block d y \<noteq> None \<Longrightarrow> score_of d y < score_of d h \<or> score_of d y = score_of d h \<and> h \<le> y"
    by blast
  have "children_of d h = {||}"
  proof (rule ccontr)
    assume "children_of d h \<noteq> {||}"
    then obtain c where c: "h |\<in>| parents_of d c" using dag_wf_parents_child [OF assms(1)] by auto
    then have "score_of d h < score_of d c" using assms(3) by (simp add: ghost_ok_def edge_ok_def)
    moreover have "get_block d c \<noteq> None" using c by (auto simp: parents_of_def split: option.splits)
    ultimately show False using h(3) [of c] by auto
  qed
  then have "h |\<in>| tips d" using assms(2) h(2) by (simp add: tips_ok_def)
  moreover have "score_of d y \<le> score_of d h" if "get_block d y \<noteq> None" for y
    using h(3) [OF that] by auto
  ultimately show ?thesis using h(1) virtual_score_above [OF assms] by blast
qed

theorem virtual_block_is_tip_witness:
  "\<exists>h. get_virtual_block (\<lambda>_. 0) sample_colored = Some h \<and> h |\<in>| tips sample_colored"
proof -
  have "2 \<le> get_block_count sample_colored" "get_block_count sample_colored < 2 ^ 32"
    by (simp_all add: sample_colored_facts(1))
  from virtual_block_is_tip [OF sample_colored_ok this] show ?thesis by blast
qed

text \<open>
  C38. Burial makes a block final: a block with a path of at least \<open>max threshold 100 - 1\<close> blocks
  above it in the graph passes \<open>check_finality\<close>, because each step of the path raises the score
  and the virtual block is above every block of the graph.
\<close>

theorem buried_block_is_final:
  assumes "dag_wf d" "tips_ok d" "ghost_ok d" "get_block_count d < 2 ^ 32"
    and "get_block d x \<noteq> None" "(a, x) \<in> parent_rel d ^^ n" "1 \<le> n"
    and "max (unat threshold) 100 \<le> n + 1"
  shows "check_finality gd d a threshold"
proof -
  have "2 \<le> get_block_count d"
  proof -
    obtain y where "(y, x) \<in> parent_rel d" using assms(6,7) by (cases n) auto
    then have y: "y |\<in>| parents_of d x" by (simp add: parent_rel_def)
    then have "get_block d y \<noteq> None" "y \<noteq> x"
      using parent_present [OF assms(1), of y x] assms(3) by (auto simp: ghost_ok_def edge_ok_def)
    then have "{|x, y|} |\<subseteq>| fmdom (blocks d)" using assms(5) by (simp add: get_block_dom)
    then have "fcard {|x, y|} \<le> get_block_count d" unfolding get_block_count_def by (rule fcard_mono)
    with \<open>y \<noteq> x\<close> show ?thesis by (simp add: fcard_finsert_disjoint fcard.rep_eq)
  qed
  from virtual_score_above [OF assms(1-3) this assms(4,5), of gd]
  have "unat (score_of d a) + n < unat (v_blue_score (build_virtual_block gd d))"
    using score_steps [OF assms(3,6)] by (simp add: word_less_nat_alt)
  with assms(8) show ?thesis
    by (simp add: check_finality_def word_le_nat_alt unat_saturating_sub FINALITY_DEPTH_def max_def
        split: if_splits)
qed

theorem buried_block_is_final_witness:
  "\<exists>d. get_block_count d = 121 \<and> check_finality (ghost_dag_new 1) d (Hash 0) 120"
proof -
  from path_dag [of 120] obtain d where
    "dag_wf d" "tips_ok d" "ghost_ok d" "get_block_count d = 121"
    "get_block d (Hash 120) \<noteq> None" "(Hash 0, Hash 120) \<in> parent_rel d ^^ 120" by auto
  with buried_block_is_final [of d "Hash 120" "Hash 0" 120 120 "ghost_dag_new 1"] show ?thesis by auto
qed

text \<open>
  What \<open>can_reorganize\<close> computes on a coloured graph: a tip is always accepted, however deep
  its fork; for any other block the distance measured is the length of its selected chain down
  to the genesis block, because no ancestor of a block is a tip. The block is accepted when
  that length is at most 100, refused up to 10000, and an error beyond.
\<close>

theorem can_reorganize_measures_height:
  assumes "dag_wf d" "tips_ok d" "ghost_ok d" "get_block d t \<noteq> None"
  shows "\<exists>xs. chain_loop d (Some t) [] = Some xs \<and>
     can_reorganize gd d t =
       (if t |\<in>| tips d then Inr True
        else if length xs \<le> 10000 then Inr (length xs \<le> 100)
        else Inl (ConsensusError ''Chain too deep while finding common ancestor''))"
proof -
  from chain_loop_result [OF assms(1,3,4)] obtain ys where
    ys: "chain_loop d (Some t) [] = Some (t # ys)" "successively (selected_edge d) (t # ys)"
    "parents_of d (last (t # ys)) = {||}" by auto
  obtain b where b: "get_block d t = Some b" using assms(4) by auto
  have vp: "v_parents (build_virtual_block gd d) = tips d"
    by (rule virtual_parents [OF assms(1,2,4)])
  have "can_reorganize gd d t =
      (if t |\<in>| tips d then Inr True
       else if length (t # ys) \<le> 10000 then Inr (length (t # ys) \<le> 100)
       else Inl (ConsensusError ''Chain too deep while finding common ancestor''))"
  proof (cases "t |\<in>| tips d")
    case True
    then show ?thesis by (simp add: can_reorganize_def b vp find_common.simps FINALITY_DEPTH_def)
  next
    case False
    with find_common_chain [OF assms(1-3) ys(2,3) False assms(4), of 0] show ?thesis
      by (simp add: can_reorganize_def b vp FINALITY_DEPTH_def)
  qed
  with ys(1) show ?thesis by blast
qed

theorem can_reorganize_measures_height_witness:
  "can_reorganize (ghost_dag_new 1) sample_colored (Hash 5) = Inr True"
proof -
  from can_reorganize_measures_height [OF sample_colored_ok, of "Hash 5" "ghost_dag_new 1"]
  show ?thesis using sample_colored_facts(3,4) by auto
qed

end
