(* ===== verification/Emission.thy ===== *)
theory Emission
  imports Core_Types
begin

text \<open>
  The emission schedule (\<open>src/core/consensus/emission.rs\<close>) and the economic constants
  (\<open>src/core/consensus/economic_constants.rs\<close>): the reward of a block by its score, the
  tabulated sum of all rewards up to a score, the hard cap, and the 80/20 split.

  The specification is \<open>sched_reward\<close>, the reward of a halving interval as a natural number;
  the loop of the code, its two tables and its closed forms are all related to it.
\<close>

section \<open>Economic constants\<close>

definition MAX_GLOBAL_SUPPLY_NANO_SLUG :: u128 where
  "MAX_GLOBAL_SUPPLY_NANO_SLUG = 600000000000000000"

definition MINER_REWARD_PERCENT :: u128 where "MINER_REWARD_PERCENT = 80"
definition FULLNODE_REWARD_PERCENT :: u128 where "FULLNODE_REWARD_PERCENT = 20"
definition ECON_BURN_ADDRESS :: bytes32 where "ECON_BURN_ADDRESS = 0"
definition NO_BURN_ENFORCEMENT_ACTIVE :: bool where "NO_BURN_ENFORCEMENT_ACTIVE = True"
definition GAS_COLLECTION_POLICY :: string where "GAS_COLLECTION_POLICY = ''ALL_FEES_TO_POOL_NO_BURN''"
definition MIN_GAS_PRICE :: u128 where "MIN_GAS_PRICE = 1"

definition validate_miner_share :: "u128 \<Rightarrow> u128 \<Rightarrow> bool" where
  "validate_miner_share total_pool miner_share \<longleftrightarrow>
     miner_share = total_pool * MINER_REWARD_PERCENT div 100"

definition validate_fullnode_share :: "u128 \<Rightarrow> u128 \<Rightarrow> bool" where
  "validate_fullnode_share total_pool fullnode_share \<longleftrightarrow>
     fullnode_share = total_pool * FULLNODE_REWARD_PERCENT div 100"

definition verify_non_burn_address :: "bytes32 \<Rightarrow> bool" where
  "verify_non_burn_address address \<longleftrightarrow> address \<noteq> ECON_BURN_ADDRESS"

definition verify_all_non_burn_recipients :: "bytes32 list \<Rightarrow> bool" where
  "verify_all_non_burn_recipients addresses \<longleftrightarrow> list_all verify_non_burn_address addresses"

section \<open>The schedule\<close>

definition COIN_UNIT :: u64 where "COIN_UNIT = 100000000"
definition UNIT :: u128 where "UNIT = ucast COIN_UNIT"
definition MAX_GLOBAL_SUPPLY :: u128 where "MAX_GLOBAL_SUPPLY = MAX_GLOBAL_SUPPLY_NANO_SLUG"
definition MAX_SUPPLY :: u128 where "MAX_SUPPLY = MAX_GLOBAL_SUPPLY"
definition BASE_REWARD :: u128 where "BASE_REWARD = 100 * UNIT"
definition HALVING_INTERVAL :: u64 where "HALVING_INTERVAL = 100000"
definition MIN_REWARD :: u128 where "MIN_REWARD = 1"

fun halve_loop :: "nat \<Rightarrow> u128 \<Rightarrow> u128" where
  "halve_loop 0 reward = reward"
| "halve_loop (Suc n) reward =
     (let reward' = max (reward div 2) MIN_REWARD
      in if reward' = MIN_REWARD then reward' else halve_loop n reward')"

definition raw_block_reward :: "u64 \<Rightarrow> u128" where
  "raw_block_reward daa_score =
     (if daa_score = 0 then BASE_REWARD
      else
        let halvings = (ucast (daa_score div HALVING_INTERVAL) :: u32);
            halving_steps = min halvings 128
        in max (halve_loop (unat halving_steps) BASE_REWARD) MIN_REWARD)"

definition HALVING_REWARDS :: "u128 list" where
  "HALVING_REWARDS =
     [10000000000, 5000000000, 2500000000, 1250000000, 625000000, 312500000,
      156250000, 78125000, 39062500, 19531250, 9765625, 4882812, 2441406,
      1220703, 610351, 305175, 152587, 76293, 38146, 19073, 9536, 4768,
      2384, 1192, 596, 298, 149, 74, 37, 18, 9, 4, 2, 1]"

definition CUMULATIVE_REWARDS :: "u128 list" where
  "CUMULATIVE_REWARDS =
     [10000000000, 15000000000, 17500000000, 18750000000, 19375000000,
      19687500000, 19843750000, 19921875000, 19960937500, 19980468750,
      19990234375, 19995117187, 19997558593, 19998779296, 19999389647,
      19999694822, 19999847409, 19999923702, 19999961848, 19999980921,
      19999990457, 19999995225, 19999997609, 19999998801, 19999999397,
      19999999695, 19999999844, 19999999918, 19999999955, 19999999973,
      19999999982, 19999999986, 19999999988, 19999999989]"

definition total_emitted :: "u64 \<Rightarrow> u128" where
  "total_emitted daa_score =
     (if daa_score = 0 then 0
      else
        let full_intervals = unat (daa_score div HALVING_INTERVAL);
            remainder_blocks = daa_score mod HALVING_INTERVAL;
            full_emitted =
              (if full_intervals = 0 then 0
               else if full_intervals \<le> length HALVING_REWARDS
               then CUMULATIVE_REWARDS ! (full_intervals - 1) * ucast HALVING_INTERVAL
               else last CUMULATIVE_REWARDS * ucast HALVING_INTERVAL
                    + (word_of_nat full_intervals - word_of_nat (length HALVING_REWARDS))
                      * MIN_REWARD * ucast HALVING_INTERVAL);
            next_reward =
              (if full_intervals < length HALVING_REWARDS then HALVING_REWARDS ! full_intervals
               else MIN_REWARD);
            remainder_emitted = saturating_mul (ucast remainder_blocks) next_reward
        in min (saturating_add full_emitted remainder_emitted) MAX_SUPPLY)"

definition capped_reward :: "u64 \<Rightarrow> u128" where
  "capped_reward daa_score =
     (let current_total = total_emitted daa_score;
          base_reward = raw_block_reward daa_score
      in if MAX_SUPPLY \<le> current_total then 0
         else if MAX_SUPPLY < current_total + base_reward
         then saturating_sub MAX_SUPPLY current_total
         else base_reward)"

definition block_reward :: "u64 \<Rightarrow> u32 \<Rightarrow> u64 \<times> u64 \<times> u64" where
  "block_reward daa_score active_node_count =
     (let tot = capped_reward daa_score;
          miner = tot * 80 div 100;
          infra = (if active_node_count = 0 then 0 else saturating_sub tot miner);
          miner' = (if active_node_count = 0 then tot else miner);
          per_node = (if active_node_count = 0 then 0 else infra div ucast active_node_count)
      in (ucast miner', ucast infra, ucast per_node))"

definition validate_reward_split :: "u64 \<Rightarrow> u32 \<Rightarrow> bool" where
  "validate_reward_split daa_score active_node_count =
     (case block_reward daa_score active_node_count of
        (miner, infra, _) \<Rightarrow> ucast miner + ucast infra \<le> capped_reward daa_score)"

definition max_supply :: u128 where
  "max_supply = MAX_GLOBAL_SUPPLY"

section \<open>The schedule as natural numbers\<close>

definition sched_reward :: "nat \<Rightarrow> nat" where
  "sched_reward i = max 1 (10 ^ 10 div 2 ^ i)"

lemma unat_BASE_REWARD: "unat BASE_REWARD = 10 ^ 10"
  by (simp add: BASE_REWARD_def UNIT_def COIN_UNIT_def)

lemma unat_max: "unat (max a b) = max (unat a) (unat b)"
  by (simp add: max_def word_le_nat_alt)

lemma unat_min: "unat (min a b) = min (unat a) (unat b)"
  by (simp add: min_def word_le_nat_alt)

lemma unat_halve_loop: "1 \<le> unat r \<Longrightarrow> unat (halve_loop n r) = (if n = 0 then unat r else max 1 (unat r div 2 ^ n))"
proof (induction n arbitrary: r)
  case 0
  then show ?case by simp
next
  case (Suc n)
  let ?r' = "max (r div 2) MIN_REWARD"
  have r': "unat ?r' = max 1 (unat r div 2)"
    by (simp add: unat_max MIN_REWARD_def unat_div)
  have dd: "unat r div 2 ^ Suc n = unat r div 2 div 2 ^ n" by (simp add: div_mult2_eq)
  show ?case
  proof (cases "?r' = MIN_REWARD")
    case True
    with r' have "unat r div 2 \<le> 1" by (simp add: MIN_REWARD_def)
    then have "unat r div 2 div 2 ^ n \<le> 1" by (meson div_le_dividend le_trans)
    with True show ?thesis using dd by (simp add: MIN_REWARD_def)
  next
    case False
    then have "unat ?r' \<noteq> 1" by (simp add: MIN_REWARD_def word_unat_eq_iff)
    with r' have "unat ?r' = unat r div 2" by (simp split: if_splits add: max_def)
    with False Suc.IH [of ?r'] r' dd show ?thesis by (auto simp: Let_def)
  qed
qed

lemma sched_reward_1: "34 \<le> n \<Longrightarrow> sched_reward n = 1"
proof -
  assume "34 \<le> n"
  then have "(2 :: nat) ^ 34 \<le> 2 ^ n" by (intro power_increasing) simp_all
  then have "10 ^ 10 < (2 :: nat) ^ n" by simp
  then show ?thesis by (simp add: sched_reward_def)
qed

lemma unat_raw_block_reward:
  assumes "unat s div 100000 < 2 ^ 32"
  shows "unat (raw_block_reward s) = sched_reward (unat s div 100000)"
proof (cases "s = 0")
  case True
  then show ?thesis by (simp add: raw_block_reward_def unat_BASE_REWARD sched_reward_def)
next
  case False
  let ?q = "unat s div 100000"
  have q: "unat (ucast (s div HALVING_INTERVAL) :: u32) = ?q"
    using assms by (simp add: unsigned_ucast_eq take_bit_nat_eq_self HALVING_INTERVAL_def unat_div)
  then have m: "unat (min (ucast (s div HALVING_INTERVAL) :: u32) 128) = min ?q 128" by (simp add: unat_min)
  have base: "1 \<le> unat BASE_REWARD" by (simp add: unat_BASE_REWARD)
  have "unat (raw_block_reward s) = max (unat (halve_loop (min ?q 128) BASE_REWARD)) 1"
    using False by (simp add: raw_block_reward_def Let_def unat_max MIN_REWARD_def m)
  also have "\<dots> = sched_reward (min ?q 128)"
    using unat_halve_loop [OF base, of "min ?q 128"]
    by (auto simp: unat_BASE_REWARD sched_reward_def max_def)
  also have "\<dots> = sched_reward ?q"
    using sched_reward_1 [of ?q] sched_reward_1 [of 128] by (cases "?q \<le> 128") simp_all
  finally show ?thesis .
qed

lemma raw_block_reward_pos: "1 \<le> unat (raw_block_reward s)"
  by (simp add: raw_block_reward_def Let_def unat_max MIN_REWARD_def unat_BASE_REWARD)

section \<open>The tables\<close>

lemma length_tables [simp]: "length HALVING_REWARDS = 34" "length CUMULATIVE_REWARDS = 34"
  by (simp_all add: HALVING_REWARDS_def CUMULATIVE_REWARDS_def)

fun partial_sums :: "nat \<Rightarrow> nat list \<Rightarrow> nat list" where
  "partial_sums a [] = []"
| "partial_sums a (x # xs) = (a + x) # partial_sums (a + x) xs"

lemma nth_partial_sums: "i < length xs \<Longrightarrow> partial_sums a xs ! i = a + (\<Sum>j<Suc i. xs ! j)"
proof (induction xs arbitrary: a i)
  case Nil
  then show ?case by simp
next
  case (Cons x xs)
  show ?case
  proof (cases i)
    case (Suc k)
    with Cons have "partial_sums (a + x) xs ! k = a + x + (\<Sum>j<Suc k. xs ! j)" by simp
    with Suc show ?thesis by (simp add: sum.lessThan_Suc_shift del: sum.lessThan_Suc)
  qed simp
qed

lemma halving_table: "map unat HALVING_REWARDS = map sched_reward [0..<34]"
  by (simp add: HALVING_REWARDS_def sched_reward_def upt_conv_Cons)

lemma cumulative_table:
  "map unat CUMULATIVE_REWARDS = partial_sums 0 (map unat HALVING_REWARDS)"
  by (simp add: HALVING_REWARDS_def CUMULATIVE_REWARDS_def)

lemma nth_halving: "i < 34 \<Longrightarrow> unat (HALVING_REWARDS ! i) = sched_reward i"
  using arg_cong [OF halving_table, of "\<lambda>xs. xs ! i"] by simp

lemma nth_cumulative:
  assumes "i < 34"
  shows "unat (CUMULATIVE_REWARDS ! i) = (\<Sum>j<Suc i. sched_reward j)"
proof -
  have "unat (CUMULATIVE_REWARDS ! i) = (\<Sum>j<Suc i. map unat HALVING_REWARDS ! j)"
    using arg_cong [OF cumulative_table, of "\<lambda>xs. xs ! i"] assms
    by (simp add: nth_partial_sums del: sum.lessThan_Suc)
  also have "\<dots> = (\<Sum>j<Suc i. sched_reward j)"
    using assms by (intro sum.cong refl) (simp add: nth_halving)
  finally show ?thesis .
qed

text \<open>The rewards of the first \<open>n\<close> blocks, interval by interval.\<close>

lemma sum_by_intervals:
  fixes f :: "nat \<Rightarrow> nat"
  assumes "0 < m"
  shows "(\<Sum>s<n. f (s div m)) = m * (\<Sum>i<n div m. f i) + n mod m * f (n div m)"
proof (induction n)
  case 0
  show ?case by simp
next
  case (Suc n)
  show ?case
  proof (cases "Suc n mod m = 0")
    case True
    then have q: "Suc n div m = Suc (n div m)" "n mod m = m - 1"
      using assms by (simp_all add: div_Suc mod_Suc split: if_splits)
    have "(\<Sum>s<Suc n. f (s div m)) = m * (\<Sum>i<n div m. f i) + ((m - 1) * f (n div m) + f (n div m))"
      using Suc q(2) by simp
    also have "(m - 1) * f (n div m) + f (n div m) = m * f (n div m)" using assms by (cases m) simp_all
    finally show ?thesis using True by (simp add: q(1) algebra_simps)
  next
    case False
    then have "Suc n div m = n div m" "Suc n mod m = Suc (n mod m)"
      by (simp_all add: div_Suc mod_Suc split: if_splits)
    with Suc show ?thesis by simp
  qed
qed

definition emitted_before :: "nat \<Rightarrow> nat" where
  "emitted_before n = (\<Sum>s<n. sched_reward (s div 100000))"

lemma emitted_before_eq:
  "emitted_before n =
     100000 * (\<Sum>i<n div 100000. sched_reward i) + n mod 100000 * sched_reward (n div 100000)"
  unfolding emitted_before_def by (rule sum_by_intervals) simp

lemma sum_sched_tail:
  assumes "34 \<le> q"
  shows "(\<Sum>i<q. sched_reward i) = (\<Sum>i<34. sched_reward i) + (q - 34)"
proof -
  have "(\<Sum>i<q. sched_reward i) = (\<Sum>i<34. sched_reward i) + (\<Sum>i\<in>{34..<q}. sched_reward i)"
    using assms by (simp add: sum.atLeastLessThan_concat flip: atLeast0LessThan)
  also have "(\<Sum>i\<in>{34..<q}. sched_reward i) = q - 34"
    by (simp add: sched_reward_1)
  finally show ?thesis .
qed

lemma sum_sched_34: "(\<Sum>i<34. sched_reward i) = 19999999989"
  using nth_cumulative [of 33] by (simp add: CUMULATIVE_REWARDS_def del: sum.lessThan_Suc)

text \<open>No intermediate sum of the code wraps, so the tables compute the sum of the schedule.\<close>

lemma sched_reward_le: "sched_reward i \<le> 10 ^ 10"
  by (simp add: sched_reward_def div_le_dividend)

lemma sum_sched_le: "(\<Sum>i<q. sched_reward i) \<le> 19999999989 + q"
proof (cases "34 \<le> q")
  case True
  then show ?thesis by (simp add: sum_sched_tail sum_sched_34)
next
  case False
  then have "(\<Sum>i<q. sched_reward i) \<le> (\<Sum>i<34. sched_reward i)" by (intro sum_mono2) auto
  then show ?thesis by (simp add: sum_sched_34)
qed

lemma unat_scaled:
  "unat (w :: u128) \<le> 2 ^ 65 \<Longrightarrow> unat (w * ucast HALVING_INTERVAL) = unat w * 100000"
  by (subst unat_mult_no_overflow) (simp_all add: HALVING_INTERVAL_def)

lemma unat_full_emitted:
  fixes q :: nat
  assumes "q < 2 ^ 64"
  shows "unat (if q = 0 then 0
     else if q \<le> length HALVING_REWARDS then CUMULATIVE_REWARDS ! (q - 1) * ucast HALVING_INTERVAL
     else last CUMULATIVE_REWARDS * ucast HALVING_INTERVAL
          + (word_of_nat q - word_of_nat (length HALVING_REWARDS)) * MIN_REWARD * ucast HALVING_INTERVAL)
   = 100000 * (\<Sum>i<q. sched_reward i)"
proof -
  have sums: "(\<Sum>i<q. sched_reward i) \<le> 19999999989 + q" by (rule sum_sched_le)
  consider "q = 0" | "0 < q" "q \<le> 34" | "34 < q" by linarith
  then show ?thesis
  proof cases
    case 1
    then show ?thesis by simp
  next
    case 2
    then have "unat (CUMULATIVE_REWARDS ! (q - 1)) = (\<Sum>i<q. sched_reward i)"
      using nth_cumulative [of "q - 1"] by (simp del: sum.lessThan_Suc)
    with 2 sums show ?thesis by (simp add: unat_scaled)
  next
    case 3
    have q: "unat (word_of_nat q :: u128) = q" using assms by (intro unat_of_nat_small) simp
    have d: "unat (word_of_nat q - word_of_nat 34 :: u128) = q - 34"
      using 3 q by (subst unat_sub_no_underflow) (simp_all add: word_le_nat_alt)
    then have t: "unat ((word_of_nat q - word_of_nat 34) * MIN_REWARD * ucast HALVING_INTERVAL) = (q - 34) * 100000"
      using assms by (simp add: unat_scaled MIN_REWARD_def)
    have l: "last CUMULATIVE_REWARDS = 19999999989" by (simp add: CUMULATIVE_REWARDS_def)
    have lt: "unat (last CUMULATIVE_REWARDS * ucast HALVING_INTERVAL) = 19999999989 * 100000"
      unfolding l by (subst unat_scaled) simp_all
    have "unat (last CUMULATIVE_REWARDS * ucast HALVING_INTERVAL
          + (word_of_nat q - word_of_nat 34) * MIN_REWARD * ucast HALVING_INTERVAL)
        = 19999999989 * 100000 + (q - 34) * 100000"
      using assms by (subst unat_add_no_overflow) (simp_all only: t lt, simp_all)
    also have "\<dots> = 100000 * (\<Sum>i<q. sched_reward i)"
      using 3 by (simp add: sum_sched_tail sum_sched_34)
    finally show ?thesis using 3 by simp
  qed
qed

lemma unat_total_emitted:
  "unat (total_emitted s) = min (emitted_before (unat s)) (unat MAX_SUPPLY)"
proof (cases "s = 0")
  case True
  then show ?thesis by (simp add: total_emitted_def emitted_before_def)
next
  case False
  let ?q = "unat s div 100000" and ?r = "unat s mod 100000"
  define full :: u128 where "full = (if ?q = 0 then 0
     else if ?q \<le> length HALVING_REWARDS then CUMULATIVE_REWARDS ! (?q - 1) * ucast HALVING_INTERVAL
     else last CUMULATIVE_REWARDS * ucast HALVING_INTERVAL
          + (word_of_nat ?q - word_of_nat (length HALVING_REWARDS)) * MIN_REWARD * ucast HALVING_INTERVAL)"
  define nxt :: u128 where
    "nxt = (if ?q < length HALVING_REWARDS then HALVING_REWARDS ! ?q else MIN_REWARD)"
  have q: "unat (s div HALVING_INTERVAL) = ?q" "unat (s mod HALVING_INTERVAL) = ?r"
    by (simp_all add: HALVING_INTERVAL_def unat_div unat_mod)
  have s: "unat s < 2 ^ 64" by (rule unat_u64_bound)
  then have qs: "?q < 2 ^ 64" by (rule le_less_trans [OF div_le_dividend])
  have full: "unat full = 100000 * (\<Sum>i<?q. sched_reward i)"
    unfolding full_def by (rule unat_full_emitted [OF qs])
  have nxt: "unat nxt = sched_reward ?q"
    by (auto simp: nxt_def nth_halving sched_reward_1 MIN_REWARD_def)
  have "?r * sched_reward ?q \<le> 100000 * 10 ^ 10" by (intro mult_mono sched_reward_le) simp_all
  then have rem: "unat (saturating_mul (ucast (s mod HALVING_INTERVAL)) nxt) = ?r * sched_reward ?q"
    by (simp add: unat_saturating_mul q nxt)
  have "100000 * (\<Sum>i<?q. sched_reward i) \<le> 100000 * (19999999989 + ?q)"
    using sum_sched_le by (intro mult_left_mono) simp_all
  then have small: "unat full + ?r * sched_reward ?q < 2 ^ 128 - 1"
    using \<open>?r * sched_reward ?q \<le> _\<close> qs by (simp add: full)
  have "total_emitted s = min (saturating_add full
      (saturating_mul (ucast (s mod HALVING_INTERVAL)) nxt)) MAX_SUPPLY"
    using False unfolding total_emitted_def full_def nxt_def q by (simp add: Let_def)
  then show ?thesis
    using small by (simp add: unat_min unat_saturating_add rem emitted_before_eq full)
qed

section \<open>The cap\<close>

lemma unat_MAX_SUPPLY: "unat MAX_SUPPLY = 600000000000000000"
  by (simp add: MAX_SUPPLY_def MAX_GLOBAL_SUPPLY_def MAX_GLOBAL_SUPPLY_NANO_SLUG_def)

lemma unat_halve_loop_le: "1 \<le> unat r \<Longrightarrow> unat (halve_loop n r) \<le> unat r"
  by (auto simp: unat_halve_loop div_le_dividend)

lemma raw_block_reward_le: "unat (raw_block_reward s) \<le> 10 ^ 10"
  using unat_halve_loop_le [of BASE_REWARD]
  by (simp add: raw_block_reward_def Let_def unat_max MIN_REWARD_def unat_BASE_REWARD)

lemma unat_capped_reward:
  "unat (capped_reward s) = min (unat (raw_block_reward s)) (unat MAX_SUPPLY - unat (total_emitted s))"
proof -
  have t: "unat (total_emitted s) \<le> unat MAX_SUPPLY" by (simp add: unat_total_emitted)
  have "unat (total_emitted s + raw_block_reward s) = unat (total_emitted s) + unat (raw_block_reward s)"
    using t raw_block_reward_le [of s] by (intro unat_add_no_overflow) (simp add: unat_MAX_SUPPLY)
  then show ?thesis
    using t by (auto simp: capped_reward_def Let_def word_le_nat_alt word_less_nat_alt unat_saturating_sub)
qed

lemma capped_reward_le: "unat (capped_reward s) \<le> 10 ^ 10"
  using raw_block_reward_le [of s] by (simp add: unat_capped_reward)

section \<open>Splitting a pool\<close>

text \<open>
  The contract every 80/20 split of the code has to meet: with full nodes active, the miner
  gets the floor of 80 percent and the node pool gets the rest; without, the miner gets all.
\<close>

locale pool_split =
  fixes active :: "'a \<Rightarrow> bool" and pool :: "'a \<Rightarrow> nat" and miner :: "'a \<Rightarrow> nat" and node :: "'a \<Rightarrow> nat"
  assumes split_sum: "miner x + node x = pool x"
    and miner_share: "active x \<Longrightarrow> miner x = pool x * 80 div 100"
    and inactive: "\<not> active x \<Longrightarrow> node x = 0"
begin

lemma miner_le: "miner x \<le> pool x"
  using split_sum [of x] by simp

lemma node_ceiling:
  assumes "active x"
  shows "node x = (pool x + 4) div 5"
proof -
  have "pool x * 80 div 100 = (20 * (4 * pool x)) div (20 * 5)" by simp
  also have "\<dots> = 4 * pool x div 5" by (simp only: div_mult_mult1)
  finally have "miner x = 4 * pool x div 5" using miner_share [OF assms] by simp
  with split_sum [of x] show ?thesis by linarith
qed

text \<open>The node pool is the floor of 20 percent exactly when the pool is a multiple of five.\<close>

lemma node_exact:
  assumes "active x"
  shows "node x = pool x * 20 div 100 \<longleftrightarrow> 5 dvd pool x"
proof -
  have "pool x * 20 div 100 = (20 * pool x) div (20 * 5)" by simp
  also have "\<dots> = pool x div 5" by (simp only: div_mult_mult1)
  finally have "node x = pool x * 20 div 100 \<longleftrightarrow> (pool x + 4) div 5 = pool x div 5"
    using node_ceiling [OF assms] by simp
  also have "\<dots> \<longleftrightarrow> 5 dvd pool x" by presburger
  finally show ?thesis .
qed

end

lemma unat_ucast_u128_u64: "unat (w :: u128) < 2 ^ 64 \<Longrightarrow> unat (ucast w :: u64) = unat w"
  by (simp add: unsigned_ucast_eq take_bit_nat_eq_self)

lemma unat_share:
  assumes "unat (w :: u128) * 80 < 2 ^ 128"
  shows "unat (w * 80 div 100) = unat w * 80 div 100"
proof -
  have "unat (w * 80) = unat w * 80" using assms by (subst unat_mult_no_overflow) simp_all
  then show ?thesis by (simp add: unat_div)
qed

lemma block_reward_unat:
  "unat (fst (block_reward s n)) =
     (if n = 0 then unat (capped_reward s) else unat (capped_reward s) * 80 div 100)"
  "unat (fst (snd (block_reward s n))) =
     (if n = 0 then 0 else unat (capped_reward s) - unat (capped_reward s) * 80 div 100)"
proof -
  have le: "unat (capped_reward s) \<le> 10 ^ 10" by (rule capped_reward_le)
  then have m: "unat (capped_reward s * 80 div 100) = unat (capped_reward s) * 80 div 100"
    by (intro unat_share) simp
  have d: "unat (capped_reward s) * 80 div 100 \<le> 10 ^ 10" using le by linarith
  show "unat (fst (block_reward s n)) =
     (if n = 0 then unat (capped_reward s) else unat (capped_reward s) * 80 div 100)"
    using le d by (simp add: block_reward_def Let_def unat_ucast_u128_u64 m)
  show "unat (fst (snd (block_reward s n))) =
     (if n = 0 then 0 else unat (capped_reward s) - unat (capped_reward s) * 80 div 100)"
    using le by (simp add: block_reward_def Let_def unat_ucast_u128_u64 unat_saturating_sub m)
qed

interpretation emission_split: pool_split
  "\<lambda>(s, n). n \<noteq> (0 :: u32)" "\<lambda>(s, n). unat (capped_reward s)"
  "\<lambda>(s, n). unat (fst (block_reward s n))" "\<lambda>(s, n). unat (fst (snd (block_reward s n)))"
  by unfold_locales (auto simp: block_reward_unat split: prod.splits)

lemma block_reward_per_node:
  assumes "n \<noteq> 0"
  shows "unat (snd (snd (block_reward s n))) = unat (fst (snd (block_reward s n))) div unat n"
proof -
  let ?i = "saturating_sub (capped_reward s) (capped_reward s * 80 div 100)"
  have le: "unat ?i < 2 ^ 64" using capped_reward_le [of s] by (simp add: unat_saturating_sub)
  have "unat n < 2 ^ 32" using unsigned_less [of n] by simp
  then have "unat n < 2 ^ 128" by simp
  then have n: "unat (ucast n :: u128) = unat n" by (simp add: unsigned_ucast_eq take_bit_nat_eq_self)
  have "unat ?i div unat n < 2 ^ 64" using le by (rule le_less_trans [OF div_le_dividend])
  then show ?thesis
    using assms le by (simp add: block_reward_def Let_def unat_ucast_u128_u64 unat_div n)
qed

lemma validate_reward_split_holds: "validate_reward_split s n"
proof -
  have le: "unat (capped_reward s) \<le> 10 ^ 10" by (rule capped_reward_le)
  obtain m i p where b: "block_reward s n = (m, i, p)" by (metis prod_cases3)
  have "unat m + unat i = unat (capped_reward s)" using emission_split.split_sum [of "(s, n)"] b by simp
  then have "unat (ucast m + ucast i :: u128) = unat (capped_reward s)"
    using le by (subst unat_add_no_overflow) simp_all
  then show ?thesis by (simp add: validate_reward_split_def b word_le_nat_alt)
qed

section \<open>Properties\<close>

text \<open>
  C13. The two tables and the closed form of \<open>total_emitted\<close> compute the sum of the raw rewards
  of all earlier scores, cut at the cap, as long as the halving count fits 32 bits; none of
  the 128-bit sums and products wraps.
\<close>

theorem total_emitted_sums_rewards:
  assumes "unat s \<le> 2 ^ 32 * 100000"
  shows "unat (total_emitted s) =
     min (\<Sum>t<unat s. unat (raw_block_reward (word_of_nat t))) (unat MAX_SUPPLY)"
proof -
  have "unat (raw_block_reward (word_of_nat t)) = sched_reward (t div 100000)" if "t < unat s" for t
  proof -
    have "t < 2 ^ 64" using that unat_u64_bound [of s] by simp
    then have t: "unat (word_of_nat t :: u64) = t" by (intro unat_of_nat_small) simp
    have "t div 100000 < 2 ^ 32" using that assms by (simp add: less_mult_imp_div_less)
    then show ?thesis using unat_raw_block_reward [of "word_of_nat t"] by (simp add: t)
  qed
  then have "(\<Sum>t<unat s. unat (raw_block_reward (word_of_nat t))) = emitted_before (unat s)"
    unfolding emitted_before_def by (intro sum.cong) auto
  then show ?thesis by (simp only: unat_total_emitted)
qed

theorem total_emitted_sums_rewards_witness:
  "unat (total_emitted 250000) =
     min (\<Sum>t<unat (250000 :: u64). unat (raw_block_reward (word_of_nat t))) (unat MAX_SUPPLY)"
  by (rule total_emitted_sums_rewards) simp

text \<open>
  The cap holds at every score: what was emitted before plus the capped reward never
  exceeds the maximum supply, and the capped reward is the raw reward until the cap is near.
\<close>

theorem capped_reward_respects_cap:
  "unat (total_emitted s) + unat (capped_reward s) \<le> unat MAX_SUPPLY \<and>
   unat (capped_reward s) = min (unat (raw_block_reward s)) (unat MAX_SUPPLY - unat (total_emitted s))"
  using unat_capped_reward [of s] unat_total_emitted [of s] by linarith

text \<open>
  The supply cap is ten times the 600 million coins of \<open>10 ^ 8\<close> units that the comments
  name, and the schedule starts over at the full reward once the halving count passes 32 bits.
\<close>

theorem supply_constants_differ:
  "unat MAX_SUPPLY = 10 * (600000000 * unat UNIT) \<and>
   raw_block_reward (2 ^ 32 * 100000) = BASE_REWARD"
proof
  show "unat MAX_SUPPLY = 10 * (600000000 * unat UNIT)"
    by (simp add: unat_MAX_SUPPLY UNIT_def COIN_UNIT_def)
  have "(ucast ((2 ^ 32 * 100000 :: u64) div HALVING_INTERVAL) :: u32) = 0"
    by (simp add: HALVING_INTERVAL_def)
  then show "raw_block_reward (2 ^ 32 * 100000) = BASE_REWARD"
    by (simp add: raw_block_reward_def Let_def BASE_REWARD_def UNIT_def COIN_UNIT_def MIN_REWARD_def)
qed

text \<open>
  The split of a block reward is exact: miner and infrastructure shares add up to the capped
  reward, the miner gets the floor of 80 percent, or everything without active nodes, and the
  per-node shares never pay out more than the infrastructure share; the split always passes
  the program's own check.
\<close>

theorem block_reward_split:
  "unat (fst (block_reward s n)) + unat (fst (snd (block_reward s n))) = unat (capped_reward s) \<and>
   unat (fst (block_reward s n)) =
     (if n = 0 then unat (capped_reward s) else unat (capped_reward s) * 80 div 100) \<and>
   unat (snd (snd (block_reward s n))) * unat n \<le> unat (fst (snd (block_reward s n))) \<and>
   validate_reward_split s n"
proof (cases "n = 0")
  case True
  then show ?thesis
    using emission_split.split_sum [of "(s, n)"] validate_reward_split_holds
    by (simp add: block_reward_unat)
next
  case False
  then show ?thesis
    using emission_split.split_sum [of "(s, n)"] validate_reward_split_holds
    by (simp add: block_reward_unat block_reward_per_node)
qed

end
