(* ===== verification/Reward.thy ===== *)
theory Reward
  imports Utxo Emission Dag
begin

text \<open>
  Fees, block rewards and the coinbase (\<open>src/core/consensus/reward.rs\<close>). A panic of
  \<open>create_coinbase_tx\<close> is the \<open>Inl\<close> of its message, a panic in the validation of a transaction the
  \<open>None\<close> of an outer option; the trait object \<open>FullNodeValidator\<close> is
  a predicate on addresses. \<open>debug_assert!\<close> does not exist in a release build.
\<close>

section \<open>Fees\<close>

text \<open>The validator of the trait: the answer, the node list, and the default method.\<close>

record node_validator =
  is_valid_full_node :: "bytes32 \<Rightarrow> bool"
  get_valid_nodes :: "bytes32 list"

definition verify_data_availability :: "node_validator \<Rightarrow> bytes32 \<Rightarrow> bytes option \<Rightarrow> bool" where
  "verify_data_availability v address proof = is_valid_full_node v address"

definition default_node_validator :: node_validator where
  "default_node_validator = \<lparr>is_valid_full_node = (\<lambda>_. False), get_valid_nodes = []\<rparr>"

definition calculate_fees ::
    "('vk, 'sig) crypto \<Rightarrow> transaction \<Rightarrow> utxo_set \<Rightarrow> (core_error + u64) option" where
  "calculate_fees E tx u = validate_tx E u tx"

definition calculate_tx_total_fee ::
    "('vk, 'sig) crypto \<Rightarrow> transaction \<Rightarrow> utxo_set \<Rightarrow> (core_error + u128) option" where
  "calculate_tx_total_fee E tx u =
     bind_try (calculate_fees E tx u) (\<lambda>fee.
       let base_fee = (ucast fee :: u128);
           total_gas_fee = saturating_mul (ucast (gas_limit tx)) (max_fee_per_gas tx)
       in Some (Inr (saturating_add base_fee total_gas_fee)))"

fun accepted_fees_loop ::
    "('vk, 'sig) crypto \<Rightarrow> utxo_set \<Rightarrow> u128 \<Rightarrow> transaction list
       \<Rightarrow> (core_error + u64) option" where
  "accepted_fees_loop E u total_fees [] = Some (Inr (ucast total_fees))"
| "accepted_fees_loop E u total_fees (tx # txs) =
     (if is_coinbase tx then accepted_fees_loop E u total_fees txs
      else bind_try (calculate_tx_total_fee E tx u) (\<lambda>fee.
             case apply_tx E u tx of
               None \<Rightarrow> None
             | Some (Inl e, _) \<Rightarrow> Some (Inl e)
             | Some (Inr _, u') \<Rightarrow>
                 let total_fees' = saturating_add total_fees fee
                 in if (2 ^ 64 - 1 :: u128) < total_fees'
                    then Some (Inl (TransactionError ''Fee overflow in accepted fee calculation''))
                    else accepted_fees_loop E u' total_fees' txs))"

definition calculate_accepted_fees ::
    "('vk, 'sig) crypto \<Rightarrow> block_node \<Rightarrow> utxo_set \<Rightarrow> (core_error + u64) option" where
  "calculate_accepted_fees E block u = accepted_fees_loop E u 0 (transactions block)"

section \<open>Rewards\<close>

definition MINER_SHARE_PERCENT :: u128 where "MINER_SHARE_PERCENT = MINER_REWARD_PERCENT"
definition FULLNODE_SHARE_PERCENT :: u128 where "FULLNODE_SHARE_PERCENT = FULLNODE_REWARD_PERCENT"

definition calculate_block_reward :: "u64 \<Rightarrow> u64" where
  "calculate_block_reward height =
     (let halvings = height div HALVING_INTERVAL
      in if 64 \<le> halvings then 0
         else drop_bit (unat halvings) (cfg_block_reward config_default))"

definition block_total_reward ::
    "('vk, 'sig) crypto \<Rightarrow> block_node \<Rightarrow> u64 \<Rightarrow> bool \<Rightarrow> utxo_set \<Rightarrow> (core_error + u64) option" where
  "block_total_reward E block height is_blue u =
     (if \<not> is_blue then Some (Inr 0)
      else bind_try (calculate_accepted_fees E block u) (\<lambda>fees.
           bind_try (Some (ok_or (TransactionError ''Reward overflow: subsidy + fees exceed max limit'')
                      (checked_add (capped_reward height) (ucast fees)))) (\<lambda>tot.
           if unat tot < 2 ^ 64 then Some (Inr (ucast tot))
           else Some (Inl (TransactionError ''Total reward overflow u64'')))))"

section \<open>The coinbase\<close>

definition coinbase_shares :: "u32 \<Rightarrow> u128 \<Rightarrow> u128 \<times> u128" where
  "coinbase_shares active_node_count total_reward =
     (if active_node_count = 0 then (total_reward, 0)
      else let miner_share = total_reward * MINER_SHARE_PERCENT div 100
           in (miner_share, saturating_sub total_reward miner_share))"

definition create_coinbase_tx ::
    "blake3 \<Rightarrow> hash \<Rightarrow> hash option \<Rightarrow> u32 \<Rightarrow> u128 \<Rightarrow> string + transaction" where
  "create_coinbase_tx H miner_addr pool_addr active_node_count total_reward =
     (if as_bytes miner_addr = 0
      then Inl ''[ANTI-DEFLATIONARY] Miner address may not be zero address (burn address)''
      else
        case coinbase_shares active_node_count total_reward of
          (miner_reward, node_reward_pool) \<Rightarrow>
            let first = \<lparr>out_value = ucast miner_reward, pubkey_hash = miner_addr\<rparr>;
                build = (\<lambda>outs.
                  let tx = \<lparr>tx_id = hash_new H [], inputs = [], outputs = outs,
                            execution_payload = [], contract_address = None, gas_limit = 0,
                            max_fee_per_gas = 0, chain_id = 1, locktime = 0\<rparr>
                  in tx\<lparr>tx_id := calculate_id H tx\<rparr>)
            in if 0 < active_node_count \<and> 0 < node_reward_pool
               then case pool_addr of
                      Some addr \<Rightarrow>
                        if as_bytes addr = ECON_BURN_ADDRESS
                        then Inl ''[ANTI-DEFLATIONARY] Full node pool address cannot be zero address (burn address)''
                        else Inr (build [first, \<lparr>out_value = ucast node_reward_pool, pubkey_hash = addr\<rparr>])
                    | None \<Rightarrow>
                        Inr (build [first, \<lparr>out_value = ucast node_reward_pool, pubkey_hash = miner_addr\<rparr>])
               else Inr (build [first]))"

definition outputs_value :: "tx_output list \<Rightarrow> u128" where
  "outputs_value outs = sum_list (map (\<lambda>out. ucast (out_value out)) outs)"

definition check_split ::
    "node_validator option \<Rightarrow> u128 \<Rightarrow> tx_output \<Rightarrow> tx_output \<Rightarrow> core_error + unit" where
  "check_split validator actual_reward o1 o2 =
     (let first_value = (ucast (out_value o1) :: u128);
          second_value = (ucast (out_value o2) :: u128);
          expected_miner = actual_reward * MINER_SHARE_PERCENT div 100;
          expected_node = saturating_sub actual_reward expected_miner;
          split_valid = (first_value = expected_miner \<and> second_value = expected_node \<or>
                         first_value = expected_node \<and> second_value = expected_miner)
      in if \<not> split_valid then Inl (TransactionError ''Invalid 80/20 split: expected [miner: '')
         else case validator of
                None \<Rightarrow> Inr ()
              | Some v \<Rightarrow>
                  let node_address = (if first_value = expected_node then as_bytes (pubkey_hash o1)
                                      else as_bytes (pubkey_hash o2))
                  in if \<not> is_valid_full_node v node_address
                     then Inl (TransactionError ''Node reward address '')
                     else Inr ())"

definition check_coinbase_outputs ::
    "node_validator option \<Rightarrow> u128 \<Rightarrow> tx_output list \<Rightarrow> core_error + unit" where
  "check_coinbase_outputs validator actual_reward outs =
     (if outs = [] then Inl (TransactionError ''Coinbase transaction has no outputs'')
      else if outputs_value outs \<noteq> actual_reward
      then Inl (TransactionError ''Invalid coinbase reward: expected '')
      else if \<exists>out \<in> set outs. as_bytes (pubkey_hash out) = ECON_BURN_ADDRESS
      then Inl (TransactionError ''Coinbase output '')
      else case outs of
             [o1] \<Rightarrow>
               if ucast (out_value o1) \<noteq> actual_reward
               then Inl (TransactionError ''Single output coinbase must contain all reward value: expected '')
               else Inr ()
           | [o1, o2] \<Rightarrow> check_split validator actual_reward o1 o2
           | _ \<Rightarrow> Inl (TransactionError ''Coinbase must have 1 or 2 outputs, got ''))"

definition validate_coinbase_reward_internal ::
    "block_node \<Rightarrow> u128 \<Rightarrow> node_validator option \<Rightarrow> core_error + unit" where
  "validate_coinbase_reward_internal block actual_reward validator =
     (case find is_coinbase (transactions block) of
        None \<Rightarrow> Inl (TransactionError ''Block must contain a coinbase transaction'')
      | Some tx \<Rightarrow> check_coinbase_outputs validator actual_reward (outputs tx))"

definition validate_coinbase_reward :: "block_node \<Rightarrow> u128 \<Rightarrow> core_error + unit" where
  "validate_coinbase_reward block actual_reward =
     validate_coinbase_reward_internal block actual_reward None"

section \<open>The split of the coinbase\<close>

lemma shares_unat:
  "unat (fst (coinbase_shares n (ucast (t :: u64)))) = (if n = 0 then unat t else unat t * 80 div 100)"
  "unat (snd (coinbase_shares n (ucast (t :: u64)))) = (if n = 0 then 0 else unat t - unat t * 80 div 100)"
proof -
  have t: "unat t < 2 ^ 64" by (rule unat_u64_bound)
  have "unat ((ucast t :: u128) * 80 div 100) = unat t * 80 div 100"
    using t by (subst unat_share) simp_all
  then show "unat (fst (coinbase_shares n (ucast t))) = (if n = 0 then unat t else unat t * 80 div 100)"
    and "unat (snd (coinbase_shares n (ucast t))) = (if n = 0 then 0 else unat t - unat t * 80 div 100)"
    by (simp_all add: coinbase_shares_def Let_def MINER_SHARE_PERCENT_def MINER_REWARD_PERCENT_def
        unat_saturating_sub)
qed

interpretation coinbase_split: pool_split
  "\<lambda>(n, t). n \<noteq> (0 :: u32)" "\<lambda>(n, t). unat (t :: u64)"
  "\<lambda>(n, t). unat (fst (coinbase_shares n (ucast t)))" "\<lambda>(n, t). unat (snd (coinbase_shares n (ucast t)))"
  by unfold_locales (auto simp: shares_unat split: prod.splits)

text \<open>The outputs of the coinbase: their number, their values, and who is paid.\<close>

lemma create_coinbase_tx_Inr:
  assumes "create_coinbase_tx H miner_addr pool_addr n total_reward = Inr tx"
    and "coinbase_shares n total_reward = (m, p)"
  shows "inputs tx = []" "tx_id tx = calculate_id H tx" "as_bytes miner_addr \<noteq> 0"
    "outputs tx =
       \<lparr>out_value = ucast m, pubkey_hash = miner_addr\<rparr> #
       (if 0 < n \<and> 0 < p
        then [\<lparr>out_value = ucast p,
               pubkey_hash = (case pool_addr of Some a \<Rightarrow> a | None \<Rightarrow> miner_addr)\<rparr>]
        else [])"
    "0 < n \<and> 0 < p \<Longrightarrow> pool_addr = Some a \<Longrightarrow> as_bytes a \<noteq> 0"
  using assms
  by (auto simp: create_coinbase_tx_def Let_def ECON_BURN_ADDRESS_def calculate_id_def
      split: if_splits option.splits)

lemma outputs_value_unat:
  "outputs_total outs < 2 ^ 128 \<Longrightarrow> unat (outputs_value outs) = outputs_total outs"
proof (induction outs)
  case Nil
  show ?case by (simp add: outputs_value_def)
next
  case (Cons x outs)
  then have IH: "unat (outputs_value outs) = outputs_total outs" by simp
  with Cons.prems show ?case
    by (simp add: outputs_value_def unat_add_no_overflow)
qed

lemma coinbase_pays_total:
  assumes "create_coinbase_tx H miner_addr pool_addr n (ucast (t :: u64)) = Inr tx"
  shows "outputs_total (outputs tx) = unat t"
proof -
  obtain m p where mp: "coinbase_shares n (ucast t) = (m, p)" by fastforce
  have sum: "unat m + unat p = unat t"
    using coinbase_split.split_sum [of "(n, t)"] mp by simp
  then have "unat m < 2 ^ 64" "unat p < 2 ^ 64" using unat_u64_bound [of t] by linarith+
  then have "unat (ucast m :: u64) = unat m" "unat (ucast p :: u64) = unat p"
    by (simp_all add: unat_ucast_u128_u64)
  moreover have "unat p = 0" if "\<not> (0 < n \<and> 0 < p)"
  proof (cases "n = 0")
    case True
    then show ?thesis using coinbase_split.inactive [of "(n, t)"] mp by simp
  next
    case False
    with that show ?thesis by (simp add: word_gt_0)
  qed
  ultimately show ?thesis
    using create_coinbase_tx_Inr(4) [OF assms mp] sum by auto
qed

text \<open>What the program creates as a coinbase, its own validation accepts.\<close>

lemma coinbase_validates:
  assumes "create_coinbase_tx H miner_addr pool_addr n (ucast (t :: u64)) = Inr tx"
    and "find is_coinbase (transactions block) = Some tx"
  shows "validate_coinbase_reward block (ucast t) = Inr ()"
proof -
  obtain m p where mp: "coinbase_shares n (ucast t) = (m, p)" by fastforce
  note tx = create_coinbase_tx_Inr [OF assms(1) mp]
  have sum: "unat m + unat p = unat t" using coinbase_split.split_sum [of "(n, t)"] mp by simp
  then have mb: "unat m < 2 ^ 64" "unat p < 2 ^ 64" using unat_u64_bound [of t] by linarith+
  then have widen: "(ucast (ucast m :: u64) :: u128) = m" "(ucast (ucast p :: u64) :: u128) = p"
    by (simp_all add: word_unat_eq_iff unat_ucast_u128_u64)
  have "unat (outputs_value (outputs tx)) = unat t"
    using coinbase_pays_total [OF assms(1)] unat_u64_bound [of t] by (simp add: outputs_value_unat)
  then have pays: "outputs_value (outputs tx) = ucast t" by (simp add: word_unat_eq_iff)
  have nb: "\<not> (\<exists>out \<in> set (outputs tx). as_bytes (pubkey_hash out) = ECON_BURN_ADDRESS)"
    using tx(3,4,5) by (auto simp: ECON_BURN_ADDRESS_def split: option.splits)
  show ?thesis
  proof (cases "0 < n \<and> 0 < p")
    case True
    then have "m = ucast t * MINER_SHARE_PERCENT div 100" "p = saturating_sub (ucast t) m"
      using mp True by (auto simp: coinbase_shares_def Let_def word_gt_0 split: if_splits)
    then show ?thesis
      using True tx(4) pays nb assms(2) widen
      by (simp add: validate_coinbase_reward_def validate_coinbase_reward_internal_def
          check_coinbase_outputs_def check_split_def Let_def)
  next
    case False
    then have outs: "outputs tx = [\<lparr>out_value = ucast m, pubkey_hash = miner_addr\<rparr>]"
      using tx(4) by auto
    with pays have "m = ucast t" by (simp add: outputs_value_def widen)
    then show ?thesis
      using outs pays nb assms(2) widen
      by (simp add: validate_coinbase_reward_def validate_coinbase_reward_internal_def
          check_coinbase_outputs_def)
  qed
qed

text \<open>A single output that holds the whole reward is accepted whatever the number of nodes.\<close>

lemma single_output_validates:
  assumes "find is_coinbase (transactions block) = Some tx"
    and "outputs tx = [\<lparr>out_value = t, pubkey_hash = a\<rparr>]" "as_bytes a \<noteq> 0"
  shows "validate_coinbase_reward_internal block (ucast t) validator = Inr ()"
  using assms
  by (simp add: validate_coinbase_reward_internal_def check_coinbase_outputs_def outputs_value_def
      ECON_BURN_ADDRESS_def)

section \<open>What the fee pool collects\<close>

definition gas_fee :: "transaction \<Rightarrow> nat" where
  "gas_fee tx = (if is_coinbase tx then 0 else unat (gas_limit tx) * unat (max_fee_per_gas tx))"

text \<open>The UTXO set after the non-coinbase transactions.\<close>

fun utxo_after :: "('vk, 'sig) crypto \<Rightarrow> utxo_set \<Rightarrow> transaction list \<Rightarrow> utxo_set" where
  "utxo_after E u [] = u"
| "utxo_after E u (tx # txs) =
     (if is_coinbase tx then utxo_after E u txs else utxo_after E (snd (the (apply_tx E u tx))) txs)"

lemma accepted_fees_balance:
  assumes "accepted_fees_loop E u tot txs = Some (Inr fees)" "fresh_ids (utxos u) txs" "unat tot < 2 ^ 64"
  shows "unat fees + utxo_total (utxos (utxo_after E u txs))
       = unat tot + utxo_total (utxos u) + sum_list (map gas_fee txs)"
  using assms
proof (induction txs arbitrary: u tot)
  case Nil
  then show ?case by (auto simp: unat_ucast_u128_u64)
next
  case (Cons tx txs)
  show ?case
  proof (cases "is_coinbase tx")
    case True
    with Cons.prems Cons.IH [of u tot] show ?thesis
      by (simp add: fresh_ids_tl gas_fee_def)
  next
    case False
    let ?gas = "saturating_mul (ucast (gas_limit tx)) (max_fee_per_gas tx) :: u128"
    obtain fee where val: "validate_tx E u tx = Some (Inr fee)"
      using Cons.prems(1) False by (auto simp: calculate_tx_total_fee_def calculate_fees_def)
    obtain cs u' where app: "apply_tx E u tx = Some (Inr cs, u')"
      using val by (simp add: apply_tx_eq)
    have le: "\<not> (2 ^ 64 - 1 :: u128) < saturating_add tot (saturating_add (ucast fee) ?gas)"
      and rest: "accepted_fees_loop E u' (saturating_add tot (saturating_add (ucast fee) ?gas)) txs = Some (Inr fees)"
      using Cons.prems(1) False val app
      by (simp_all add: calculate_tx_total_fee_def calculate_fees_def Let_def split: if_splits)
    have "unat (saturating_add tot (saturating_add (ucast fee) ?gas)) < 2 ^ 64"
      using le by (simp add: word_less_nat_alt)
    then have tot': "unat (saturating_add tot (saturating_add (ucast fee) ?gas))
        = unat tot + unat fee + gas_fee tx" "unat (saturating_add tot (saturating_add (ucast fee) ?gas)) < 2 ^ 64"
      using False by (auto simp: unat_saturating_add unat_saturating_mul gas_fee_def min_def split: if_splits)
    have u': "utxos u' = applied (utxos u) tx" using app by (auto elim: apply_tx_Inr)
    have "unat fees + utxo_total (utxos (utxo_after E u' txs))
        = unat tot + unat fee + gas_fee tx + utxo_total (utxos u') + sum_list (map gas_fee txs)"
      using Cons.IH [OF rest _ tot'(2)] fresh_ids_applied [OF Cons.prems(2)] by (simp add: u' tot'(1))
    moreover have "utxo_total (utxos u') + unat fee = utxo_total (utxos u)"
      using apply_tx_conserves [OF app fresh_ids_outputs [OF Cons.prems(2)] val] False by simp
    ultimately show ?thesis using False app by simp
  qed
qed

lemma calculate_block_reward_unat:
  "unat (calculate_block_reward h) = 100 div 2 ^ (unat h div 100000)"
proof -
  have hv: "unat (h div HALVING_INTERVAL) = unat h div 100000"
    by (simp add: HALVING_INTERVAL_def unat_div)
  show ?thesis
  proof (cases "64 \<le> h div HALVING_INTERVAL")
    case True
    then have "64 \<le> unat h div 100000" by (simp add: word_le_nat_alt hv)
    then have "(2 :: nat) ^ 64 \<le> 2 ^ (unat h div 100000)" by (intro power_increasing) simp_all
    with True show ?thesis by (simp add: calculate_block_reward_def Let_def)
  next
    case False
    then show ?thesis
      by (simp add: calculate_block_reward_def Let_def hv config_default_def unat_drop_bit_eq)
        (simp add: drop_bit_eq_div)
  qed
qed

lemma block_total_reward_unat:
  assumes "block_total_reward E block height True u = Some (Inr r)"
  obtains fees where "calculate_accepted_fees E block u = Some (Inr fees)"
    "unat r = unat (capped_reward height) + unat fees"
  using assms
  by (auto simp: block_total_reward_def unat_checked_add unat_ucast_u128_u64 split: if_splits
      dest!: unat_checked_add)

section \<open>Properties\<close>

definition sample_coinbase :: transaction where
  "sample_coinbase =
     (case create_coinbase_tx (\<lambda>_. 7) (Hash 3) (Some (Hash 4)) 2 1001 of Inl _ \<Rightarrow> sample_spend | Inr tx \<Rightarrow> tx)"

lemma sample_coinbase_created:
  "create_coinbase_tx (\<lambda>_. 7) (Hash 3) (Some (Hash 4)) 2 (ucast (1001 :: u64)) = Inr sample_coinbase"
proof -
  have "is_ok (create_coinbase_tx (\<lambda>_. 7) (Hash 3) (Some (Hash 4)) 2 1001)"
    by (simp add: create_coinbase_tx_def coinbase_shares_def Let_def MINER_SHARE_PERCENT_def
        MINER_REWARD_PERCENT_def ECON_BURN_ADDRESS_def saturating_sub_def)
  then show ?thesis
    by (cases "create_coinbase_tx (\<lambda>_. 7) (Hash 3) (Some (Hash 4)) 2 1001")
      (simp_all add: sample_coinbase_def)
qed

text \<open>
  C36. A coinbase built by \<open>create_coinbase_tx\<close> pays out exactly the reward and passes
  \<open>validate_coinbase_reward\<close> for the same reward, for every 64-bit reward, any number of
  active nodes, and with or without a pool address.
\<close>

theorem created_coinbase_validates:
  assumes "create_coinbase_tx H miner_addr pool_addr n (ucast (t :: u64)) = Inr tx"
    and "find is_coinbase (transactions block) = Some tx"
  shows "outputs_total (outputs tx) = unat t \<and> validate_coinbase_reward block (ucast t) = Inr ()"
  using coinbase_pays_total [OF assms(1)] coinbase_validates [OF assms] by simp

theorem created_coinbase_validates_witness:
  "validate_coinbase_reward ((sample_block 1 {||})\<lparr>transactions := [sample_spend, sample_coinbase]\<rparr>) 1001
     = Inr ()"
proof -
  have "inputs sample_coinbase = []"
    using create_coinbase_tx_Inr(1) [OF sample_coinbase_created] by (metis surj_pair)
  then have "find is_coinbase (transactions ((sample_block 1 {||})\<lparr>transactions := [sample_spend, sample_coinbase]\<rparr>))
      = Some sample_coinbase"
    by (simp add: is_coinbase_def) (simp add: sample_spend_def)
  from created_coinbase_validates [OF sample_coinbase_created this] show ?thesis by simp
qed

text \<open>
  With active nodes, the node share of a coinbase is what the policy check
  \<open>validate_fullnode_share\<close> expects exactly when the reward is a multiple of five: otherwise
  the remainder goes to the nodes and the check, which a debug build asserts, is false.
\<close>

theorem fullnode_share_check:
  assumes "n \<noteq> 0"
  shows "validate_fullnode_share (ucast (t :: u64)) (snd (coinbase_shares n (ucast t))) \<longleftrightarrow> 5 dvd unat t"
proof -
  have t: "unat t < 2 ^ 64" by (rule unat_u64_bound)
  have "unat ((ucast t :: u128) * FULLNODE_REWARD_PERCENT) = unat t * 20"
    using t by (subst unat_mult_no_overflow) (simp_all add: FULLNODE_REWARD_PERCENT_def)
  then have "unat ((ucast t :: u128) * FULLNODE_REWARD_PERCENT div 100) = unat t * 20 div 100"
    by (simp add: unat_div)
  then show ?thesis
    using coinbase_split.node_exact [of "(n, t)"] assms
    by (simp add: validate_fullnode_share_def word_unat_eq_iff)
qed

theorem fullnode_share_check_witness:
  "\<not> validate_fullnode_share (ucast (1001 :: u64)) (snd (coinbase_shares 2 (ucast (1001 :: u64))))"
  using fullnode_share_check [of 2 1001] by simp

definition sample_gas_spend :: transaction where
  "sample_gas_spend = sample_spend\<lparr>gas_limit := 1000, max_fee_per_gas := 3\<rparr>"

lemma sample_gas_validate: "validate_tx sample_crypto sample_utxo sample_gas_spend = Some (Inr 30)"
  by (simp add: validate_tx_eq_Inr pays_burn_def is_coinbase_def spendable_def sample_gas_spend_def
      sample_spend_def sample_crypto_def hash_new_def outpoint_of_def sample_lookup
      check_signature_def compute_sighash_def schnorr_verify_def entry_value_def)

text \<open>
  The accepted fees of a block exceed the value its transactions leave unspent by the gas
  fees: no output pays for the gas, so a coinbase of subsidy plus accepted fees puts the gas
  fees into circulation on top of the subsidy.
\<close>

theorem accepted_fees_exceed_value:
  assumes "calculate_accepted_fees E block u = Some (Inr fees)" "fresh_ids (utxos u) (transactions block)"
  shows "unat fees + utxo_total (utxos (utxo_after E u (transactions block)))
       = utxo_total (utxos u) + sum_list (map gas_fee (transactions block))"
  using accepted_fees_balance [OF assms(1) [unfolded calculate_accepted_fees_def] assms(2)] by simp

theorem accepted_fees_exceed_value_witness:
  "3030 + utxo_total (utxos (utxo_after sample_crypto sample_utxo [sample_gas_spend])) =
     utxo_total (utxos sample_utxo) + 3000"
proof -
  let ?b = "(sample_block 1 {||})\<lparr>transactions := [sample_gas_spend]\<rparr>"
  have nc: "\<not> is_coinbase sample_gas_spend"
    by (simp add: is_coinbase_def sample_gas_spend_def sample_spend_def)
  have gas: "gas_limit sample_gas_spend = 1000" "max_fee_per_gas sample_gas_spend = 3"
    by (simp_all add: sample_gas_spend_def)
  have "calculate_accepted_fees sample_crypto ?b sample_utxo = Some (Inr 3030)"
    using nc
    by (simp add: calculate_accepted_fees_def calculate_tx_total_fee_def calculate_fees_def
        sample_gas_validate apply_tx_eq gas saturating_add_def saturating_mul_def Let_def)
  moreover have "fresh_ids (utxos sample_utxo) (transactions ?b)"
    by (auto simp: fresh_ids_def sample_gas_spend_def sample_spend_def sample_utxo_def)
  ultimately show ?thesis
    using accepted_fees_exceed_value [of sample_crypto ?b sample_utxo 3030] nc
    by (simp add: gas_fee_def gas)
qed

end
