(* ===== verification/Chain_State.thy ===== *)
theory Chain_State
  imports Utxo Dag
begin

text \<open>
  The state of the chain (\<open>src/core/state/mod.rs\<close>): the UTXO set with its pruning marks, the
  all-or-nothing application of a block, its undo, and snapshots.

  \<open>apply_block\<close> keeps the change sets of the transactions applied so far, the latest first,
  and rolls them back when a transaction fails. The contract behind the rollback is the
  locale \<open>reversible\<close>; the UTXO set provides it. A panic of the validation is \<open>None\<close>. The vector that \<open>prune_older_than\<close> returns
  is in hash-map order, so it is a finite set here.
\<close>

section \<open>Data and operations\<close>

record prune_marker =
  pm_epoch :: u64
  pm_timestamp :: u64

record blockchain_state =
  finalizing_block :: "hash option"
  virtual_score :: u64
  pruned :: "hash list"
  st_utxo_set :: utxo_set
  prune_markers :: "(outpoint, prune_marker) fmap"

definition state_new :: blockchain_state where
  "state_new = \<lparr>finalizing_block = None, virtual_score = 0, pruned = [], st_utxo_set = utxo_new,
                prune_markers = fmempty\<rparr>"

definition mark_leaf_for_pruning ::
    "blockchain_state \<Rightarrow> outpoint \<Rightarrow> u64 \<Rightarrow> u64 \<Rightarrow> blockchain_state" where
  "mark_leaf_for_pruning s out epoch time =
     s\<lparr>prune_markers := fmupd out \<lparr>pm_epoch = epoch, pm_timestamp = time\<rparr> (prune_markers s)\<rparr>"

definition is_leaf_marked_pruned :: "blockchain_state \<Rightarrow> outpoint \<Rightarrow> bool" where
  "is_leaf_marked_pruned s out \<longleftrightarrow> fmlookup (prune_markers s) out \<noteq> None"

definition prune_leaf :: "blockchain_state \<Rightarrow> outpoint \<Rightarrow> blockchain_state" where
  "prune_leaf s out =
     s\<lparr>st_utxo_set := (st_utxo_set s)\<lparr>utxos := fmdrop out (utxos (st_utxo_set s))\<rparr>,
       prune_markers := fmdrop out (prune_markers s)\<rparr>"

definition prune_older_than :: "blockchain_state \<Rightarrow> u64 \<Rightarrow> outpoint fset \<times> blockchain_state" where
  "prune_older_than s epoch_threshold =
     (let to_prune = ffilter (\<lambda>out. case fmlookup (prune_markers s) out of
                          None \<Rightarrow> False | Some marker \<Rightarrow> pm_epoch marker \<le> epoch_threshold)
                       (fmdom (prune_markers s))
      in (to_prune,
          s\<lparr>st_utxo_set := (st_utxo_set s)\<lparr>utxos := fmdrop_fset to_prune (utxos (st_utxo_set s))\<rparr>,
            prune_markers := fmdrop_fset to_prune (prune_markers s)\<rparr>))"

definition set_finalizing_block :: "blockchain_state \<Rightarrow> hash \<Rightarrow> blockchain_state" where
  "set_finalizing_block s h = s\<lparr>finalizing_block := Some h\<rparr>"

definition update_virtual_score :: "blockchain_state \<Rightarrow> u64 \<Rightarrow> blockchain_state" where
  "update_virtual_score s score = s\<lparr>virtual_score := score\<rparr>"

definition mark_pruned :: "blockchain_state \<Rightarrow> hash \<Rightarrow> blockchain_state" where
  "mark_pruned s h = s\<lparr>pruned := pruned s @ [h]\<rparr>"

definition get_virtual_score :: "blockchain_state \<Rightarrow> u64" where
  "get_virtual_score s = virtual_score s"

fun save_spent :: "(outpoint, tx_output) fmap \<Rightarrow> (outpoint, tx_output) fmap \<Rightarrow> tx_input list
    \<Rightarrow> (outpoint, tx_output) fmap" where
  "save_spent m so [] = so"
| "save_spent m so (input # rest) =
     (case fmlookup m (outpoint_of input) of
        None \<Rightarrow> save_spent m so rest
      | Some output \<Rightarrow> save_spent m (fmupd (outpoint_of input) output so) rest)"

text \<open>Undo a list of changes, stopping at the first undo that fails.\<close>

fun rollback :: "('c \<Rightarrow> 's \<Rightarrow> ('e + unit) \<times> 's) \<Rightarrow> 'c list \<Rightarrow> 's \<Rightarrow> 'e option \<times> 's" where
  "rollback undo [] s = (None, s)"
| "rollback undo (c # cs) s =
     (case undo c s of
        (Inl e, s') \<Rightarrow> (Some e, s')
      | (Inr _, s') \<Rightarrow> rollback undo cs s')"

fun apply_loop ::
    "('vk, 'sig) crypto \<Rightarrow> utxo_set \<Rightarrow> utxo_change_set list \<Rightarrow> (outpoint, tx_output) fmap
       \<Rightarrow> transaction list \<Rightarrow> ((core_error + unit) \<times> utxo_set) option" where
  "apply_loop E u changesets so [] = Some (Inr (), u)"
| "apply_loop E u changesets so (tx # txs) =
     (let so' = save_spent (utxos u) so (inputs tx)
      in case apply_tx E u tx of
           None \<Rightarrow> None
         | Some (Inr changeset, u') \<Rightarrow> apply_loop E u' (changeset # changesets) so' txs
         | Some (Inl e, u') \<Rightarrow>
             (case rollback (\<lambda>cs w. revert_tx w cs so') changesets u' of
                (Some revert_err, u'') \<Rightarrow>
                  Some (Inl (TransactionError ''Transaction apply failed and revert failed: ''), u'')
              | (None, u'') \<Rightarrow> Some (Inl e, u'')))"

definition apply_block ::
    "('vk, 'sig) crypto \<Rightarrow> blockchain_state \<Rightarrow> block_node
       \<Rightarrow> ((core_error + unit) \<times> blockchain_state) option" where
  "apply_block E s block =
     map_option (\<lambda>(r, u). (r, s\<lparr>st_utxo_set := u\<rparr>))
       (apply_loop E (st_utxo_set s) [] fmempty (transactions block))"

definition revert_block :: "blockchain_state \<Rightarrow> block_node \<Rightarrow> blockchain_state" where
  "revert_block s block =
     s\<lparr>st_utxo_set := (st_utxo_set s)\<lparr>utxos :=
         fold (\<lambda>tx m. fold (\<lambda>i. fmdrop (tx_id tx, word_of_nat i)) [0..<length (outputs tx)] m)
           (rev (transactions block)) (utxos (st_utxo_set s))\<rparr>\<rparr>"

definition snapshot :: "blockchain_state \<Rightarrow> blockchain_state" where
  "snapshot s = s"

definition restore :: "blockchain_state \<Rightarrow> blockchain_state \<Rightarrow> blockchain_state" where
  "restore s snap = snap"

section \<open>The contract of a rollback\<close>

text \<open>
  A store whose steps can be undone with the help of a memo (what the changes destroyed):
  \<open>covers m s t\<close> says the memo \<open>m\<close> holds what step \<open>t\<close> destroys in state \<open>s\<close>.
\<close>

locale reversible =
  fixes step :: "'t \<Rightarrow> 's \<Rightarrow> (('e + 'c) \<times> 's) option"
    and undo :: "'m \<Rightarrow> 'c \<Rightarrow> 's \<Rightarrow> ('e + unit) \<times> 's"
    and covers :: "'m \<Rightarrow> 's \<Rightarrow> 't \<Rightarrow> bool"
  assumes step_error: "step t s = Some (Inl e, s') \<Longrightarrow> s' = s"
    and undo_step: "covers m s t \<Longrightarrow> step t s = Some (Inr c, s') \<Longrightarrow> undo m c s' = (Inr (), s)"
begin

text \<open>The change sets, latest first, that led from one state to another.\<close>

fun history :: "'m \<Rightarrow> 's \<Rightarrow> 'c list \<Rightarrow> 's \<Rightarrow> bool" where
  "history m s0 [] s \<longleftrightarrow> s = s0"
| "history m s0 (c # cs) s \<longleftrightarrow> (\<exists>s1 t. history m s0 cs s1 \<and> step t s1 = Some (Inr c, s) \<and> covers m s1 t)"

lemma rollback_history: "history m s0 cs s \<Longrightarrow> rollback (undo m) cs s = (None, s0)"
proof (induction cs arbitrary: s)
  case Nil
  then show ?case by simp
next
  case (Cons c cs)
  then obtain s1 t where "history m s0 cs s1" "step t s1 = Some (Inr c, s)" "covers m s1 t" by auto
  with Cons.IH undo_step show ?case by simp
qed

lemma failed_step_rollback:
  "history m s0 cs s \<Longrightarrow> step t s = Some (Inl e, s') \<Longrightarrow> rollback (undo m) cs s' = (None, s0)"
  using rollback_history step_error by blast

end

definition covers_spent :: "(outpoint, tx_output) fmap \<Rightarrow> utxo_set \<Rightarrow> transaction \<Rightarrow> bool" where
  "covers_spent so u tx \<longleftrightarrow>
     fresh_outputs (utxos u) tx \<and>
     (\<forall>i \<in> set (inputs tx). fmlookup so (outpoint_of i) = fmlookup (utxos u) (outpoint_of i))"

interpretation utxo_ledger: reversible
  "\<lambda>tx u. apply_tx E u tx" "\<lambda>so cs u. revert_tx u cs so" covers_spent
  for E :: "('vk, 'sig) crypto"
proof
  fix t s e s' assume "apply_tx E s t = Some (Inl e, s')"
  then show "s' = s" by (simp add: apply_tx_Inl)
next
  fix m s t c s' assume "covers_spent m s t" "apply_tx E s t = Some (Inr c, s')"
  then show "revert_tx s' c m = (Inr (), s)"
    by (intro revert_apply) (auto simp: covers_spent_def)
qed

abbreviation utxo_history :: "('vk, 'sig) crypto \<Rightarrow> (outpoint, tx_output) fmap \<Rightarrow> utxo_set
    \<Rightarrow> utxo_change_set list \<Rightarrow> utxo_set \<Rightarrow> bool" where
  "utxo_history E \<equiv> reversible.history (\<lambda>tx u. apply_tx E u tx) covers_spent"

section \<open>A block is applied entirely or not at all\<close>

lemma lookup_save_spent:
  "fmlookup (save_spent m so ins) k =
     (if k \<in> outpoint_of ` set ins \<and> fmlookup m k \<noteq> None then fmlookup m k else fmlookup so k)"
  by (induction m so ins rule: save_spent.induct) (auto split: option.splits)

text \<open>A memo may change away from the keys the history spent.\<close>

lemma history_memo:
  "utxo_history E so u0 css u \<Longrightarrow>
   (\<And>cs k. cs \<in> set css \<Longrightarrow> k \<in> set (spent cs) \<Longrightarrow> fmlookup so' k = fmlookup so k) \<Longrightarrow>
   utxo_history E so' u0 css u"
proof (induction css arbitrary: u)
  case Nil
  then show ?case by simp
next
  case (Cons cs css)
  then obtain u1 tx where h: "utxo_history E so u0 css u1" and app: "apply_tx E u1 tx = Some (Inr cs, u)"
    and cov: "covers_spent so u1 tx" by auto
  have "set (spent cs) = outpoint_of ` set (inputs tx)" using app by (auto elim: apply_tx_Inr)
  then have "covers_spent so' u1 tx" using cov Cons.prems(2) [of cs] by (auto simp: covers_spent_def)
  with Cons.IH [OF h] Cons.prems(2) app show ?case by auto
qed

text \<open>Keys that were spent stay absent while the remaining ids are new.\<close>

definition gone :: "utxo_set \<Rightarrow> utxo_change_set list \<Rightarrow> transaction list \<Rightarrow> bool" where
  "gone u css txs \<longleftrightarrow>
     (\<forall>cs \<in> set css. \<forall>k \<in> set (spent cs). fmlookup (utxos u) k = None \<and> fst k \<notin> tx_id ` set txs)"

lemma gone_step:
  assumes "gone u css (tx # txs)" "fresh_ids (utxos u) (tx # txs)" "apply_tx E u tx = Some (Inr cs, u')"
  shows "gone u' (cs # css) txs"
proof -
  obtain fee where v: "validate_tx E u tx = Some (Inr fee)" and sp: "spent cs = map outpoint_of (inputs tx)"
    and u': "utxos u' = applied (utxos u) tx"
    using assms(3) by (auto elim: apply_tx_Inr)
  have len: "length (outputs tx) \<le> 2 ^ 32" using assms(2) by (simp add: fresh_ids_def)
  have other: "fmlookup (utxos u') k = None"
    if "fst k \<noteq> tx_id tx" "k \<in> outpoint_of ` set (inputs tx) \<or> fmlookup (utxos u) k = None" for k
  proof -
    have "k \<notin> set (created_keys tx)" using that(1) created_keys_txid by blast
    with that(2) show ?thesis by (auto simp: u' fmlookup_applied [OF len] map_of_keyed_None [THEN iffD2])
  qed
  have own: "fst k \<notin> tx_id ` set (tx # txs)" if "k \<in> set (spent cs)" for k
  proof
    assume "fst k \<in> tx_id ` set (tx # txs)"
    then have "fmlookup (utxos u) k = None" using assms(2) by (auto simp: fresh_ids_def simp del: split_paired_All)
    moreover have "fmlookup (utxos u) k \<noteq> None" using that validate_tx_present [OF v] by (auto simp: sp)
    ultimately show False by simp
  qed
  show ?thesis
    unfolding gone_def
  proof (intro ballI)
    fix c k assume c: "c \<in> set (cs # css)" and k: "k \<in> set (spent c)"
    show "fmlookup (utxos u') k = None \<and> fst k \<notin> tx_id ` set txs"
    proof (cases "c = cs")
      case True
      with own [of k] k other [of k] show ?thesis by (auto simp: sp)
    next
      case False
      with c k assms(1) other [of k] show ?thesis by (auto simp: gone_def)
    qed
  qed
qed

text \<open>
  What the loop must compute: the transactions are validated in turn, each against the set the
  earlier ones leave; the result is the first error, \<open>Some None\<close> when there is none.
\<close>

fun first_error :: "('vk, 'sig) crypto \<Rightarrow> utxo_set \<Rightarrow> transaction list \<Rightarrow> core_error option option" where
  "first_error E u [] = Some None"
| "first_error E u (tx # txs) =
     (case validate_tx E u tx of
        None \<Rightarrow> None
      | Some (Inl e) \<Rightarrow> Some (Some e)
      | Some (Inr _) \<Rightarrow> first_error E (u\<lparr>utxos := applied (utxos u) tx\<rparr>) txs)"

definition all_applied :: "transaction list \<Rightarrow> utxo_set \<Rightarrow> utxo_set" where
  "all_applied txs u = u\<lparr>utxos := fold (\<lambda>tx m. applied m tx) txs (utxos u)\<rparr>"

lemma apply_loop_exact:
  assumes "utxo_history E so u0 css u" "gone u css txs" "fresh_ids (utxos u) txs"
  shows "apply_loop E u css so txs =
     (case first_error E u txs of
        None \<Rightarrow> None | Some (Some e) \<Rightarrow> Some (Inl e, u0) | Some None \<Rightarrow> Some (Inr (), all_applied txs u))"
  using assms
proof (induction txs arbitrary: u css so)
  case Nil
  then show ?case by (simp add: all_applied_def)
next
  case (Cons tx txs)
  let ?so' = "save_spent (utxos u) so (inputs tx)"
  have hist: "utxo_history E ?so' u0 css u"
  proof (rule history_memo [OF Cons.prems(1)])
    fix cs k assume "cs \<in> set css" "k \<in> set (spent cs)"
    with Cons.prems(2) show "fmlookup ?so' k = fmlookup so k"
      by (auto simp: gone_def lookup_save_spent)
  qed
  consider (panic) "validate_tx E u tx = None" | (error) e where "validate_tx E u tx = Some (Inl e)"
    | (ok) fee where "validate_tx E u tx = Some (Inr fee)"
    by (cases "validate_tx E u tx") (auto, metis sumE)
  then show ?case
  proof cases
    case panic
    then show ?thesis by (simp add: apply_tx_eq Let_def)
  next
    case error
    then have "apply_tx E u tx = Some (Inl e, u)" by (simp add: apply_tx_eq)
    with utxo_ledger.failed_step_rollback [OF hist this] error show ?thesis by (simp add: Let_def)
  next
    case ok
    define u1 cs where "u1 = u\<lparr>utxos := applied (utxos u) tx\<rparr>"
      and "cs = \<lparr>spent = map outpoint_of (inputs tx), created = keyed (tx_id tx) 0 (outputs tx)\<rparr>"
    have app: "apply_tx E u tx = Some (Inr cs, u1)" using ok by (simp add: apply_tx_eq u1_def cs_def)
    have "covers_spent ?so' u tx"
      using fresh_ids_outputs [OF Cons.prems(3)] validate_tx_present [OF ok]
      by (auto simp: covers_spent_def lookup_save_spent)
    then have "utxo_history E ?so' u0 (cs # css) u1" using hist app by auto
    moreover have "gone u1 (cs # css) txs" by (rule gone_step [OF Cons.prems(2,3) app])
    moreover have "fresh_ids (utxos u1) txs" using fresh_ids_applied [OF Cons.prems(3)] by (simp add: u1_def)
    ultimately have "apply_loop E u1 (cs # css) ?so' txs =
       (case first_error E u1 txs of
          None \<Rightarrow> None | Some (Some e) \<Rightarrow> Some (Inl e, u0) | Some None \<Rightarrow> Some (Inr (), all_applied txs u1))"
      by (rule Cons.IH)
    moreover have "all_applied txs u1 = all_applied (tx # txs) u" by (simp add: all_applied_def u1_def)
    moreover have "first_error E u (tx # txs) = first_error E u1 txs" using ok by (simp add: u1_def)
    ultimately show ?thesis using app by (simp add: Let_def del: first_error.simps split: option.split)
  qed
qed

lemma apply_block_eq:
  assumes "fresh_ids (utxos (st_utxo_set s)) (transactions block)"
  shows "apply_block E s block =
     (case first_error E (st_utxo_set s) (transactions block) of
        None \<Rightarrow> None
      | Some (Some e) \<Rightarrow> Some (Inl e, s)
      | Some None \<Rightarrow> Some (Inr (), s\<lparr>st_utxo_set := all_applied (transactions block) (st_utxo_set s)\<rparr>))"
  using apply_loop_exact [of E fmempty "st_utxo_set s" "[]" "st_utxo_set s" "transactions block"] assms
  by (simp add: apply_block_def gone_def split: option.split)

section \<open>What an applied block does\<close>

fun spends :: "transaction list \<Rightarrow> outpoint set" where
  "spends [] = {}"
| "spends (tx # txs) = outpoint_of ` set (inputs tx) \<union> spends txs"

fun creates :: "transaction list \<Rightarrow> outpoint set" where
  "creates [] = {}"
| "creates (tx # txs) = set (created_keys tx) \<union> creates txs"

lemma apply_loop_Inr:
  "apply_loop E u css so txs = Some (Inr (), u') \<Longrightarrow> fresh_ids (utxos u) txs \<Longrightarrow> k \<notin> creates txs \<Longrightarrow>
     fmlookup (utxos u') k = (if k \<in> spends txs then None else fmlookup (utxos u) k)"
proof (induction txs arbitrary: u css so)
  case Nil
  then show ?case by simp
next
  case (Cons tx txs)
  obtain cs u1 where app: "apply_tx E u tx = Some (Inr cs, u1)"
    and rest: "apply_loop E u1 (cs # css) (save_spent (utxos u) so (inputs tx)) txs = Some (Inr (), u')"
    using Cons.prems(1) by (auto simp: Let_def split: prod.splits sum.splits option.splits)
  have u1: "utxos u1 = applied (utxos u) tx" using app by (auto elim: apply_tx_Inr)
  have "fmlookup (utxos u') k = (if k \<in> spends txs then None else fmlookup (utxos u1) k)"
    using Cons.IH [OF rest] fresh_ids_applied [OF Cons.prems(2)] Cons.prems(3) by (simp add: u1)
  moreover have "length (outputs tx) \<le> 2 ^ 32" using Cons.prems(2) by (simp add: fresh_ids_def)
  then have "fmlookup (utxos u1) k =
      (if k \<in> outpoint_of ` set (inputs tx) then None else fmlookup (utxos u) k)"
    using Cons.prems(3) by (simp add: u1 fmlookup_applied map_of_keyed_None [THEN iffD2])
  ultimately show ?case by auto
qed

text \<open>Value: what the fees take out, and what the coinbase outputs bring in.\<close>

fun block_fees :: "('vk, 'sig) crypto \<Rightarrow> utxo_set \<Rightarrow> transaction list \<Rightarrow> nat" where
  "block_fees E u [] = 0"
| "block_fees E u (tx # txs) =
     (case validate_tx E u tx of Some (Inr fee) \<Rightarrow> if is_coinbase tx then 0 else unat fee | _ \<Rightarrow> 0)
     + (case apply_tx E u tx of Some (_, u') \<Rightarrow> block_fees E u' txs | None \<Rightarrow> 0)"

definition minted :: "transaction list \<Rightarrow> nat" where
  "minted txs = sum_list (map (\<lambda>tx. if is_coinbase tx then outputs_total (outputs tx) else 0) txs)"

lemma apply_loop_value:
  "apply_loop E u css so txs = Some (Inr (), u') \<Longrightarrow> fresh_ids (utxos u) txs \<Longrightarrow>
     utxo_total (utxos u') + block_fees E u txs = utxo_total (utxos u) + minted txs"
proof (induction txs arbitrary: u css so)
  case Nil
  then show ?case by (simp add: minted_def)
next
  case (Cons tx txs)
  obtain cs u1 where app: "apply_tx E u tx = Some (Inr cs, u1)"
    and rest: "apply_loop E u1 (cs # css) (save_spent (utxos u) so (inputs tx)) txs = Some (Inr (), u')"
    using Cons.prems(1) by (auto simp: Let_def split: prod.splits sum.splits option.splits)
  obtain fee where v: "validate_tx E u tx = Some (Inr fee)" and u1: "utxos u1 = applied (utxos u) tx"
    using app by (auto elim: apply_tx_Inr)
  have "utxo_total (utxos u') + block_fees E u1 txs = utxo_total (utxos u1) + minted txs"
    using Cons.IH [OF rest] fresh_ids_applied [OF Cons.prems(2)] by (simp add: u1)
  moreover have "utxo_total (utxos u1) + (if is_coinbase tx then 0 else unat fee)
      = utxo_total (utxos u) + (if is_coinbase tx then outputs_total (outputs tx) else 0)"
    by (rule apply_tx_conserves [OF app fresh_ids_outputs [OF Cons.prems(2)] v])
  ultimately show ?case by (simp add: v app minted_def)
qed

lemma apply_block_Inr:
  assumes "apply_block E s block = Some (Inr (), s')"
  obtains u where "apply_loop E (st_utxo_set s) [] fmempty (transactions block) = Some (Inr (), u)"
    "s' = s\<lparr>st_utxo_set := u\<rparr>"
  using assms by (auto simp: apply_block_def split: prod.splits)

section \<open>Reverting and pruning\<close>

lemma lookup_revert_block:
  "fmlookup (utxos (st_utxo_set (revert_block s block))) k =
     (if k \<in> creates (transactions block) then None else fmlookup (utxos (st_utxo_set s)) k)"
proof -
  have inner: "fmlookup (fold (\<lambda>i. fmdrop (h, word_of_nat i)) is m) k =
      (if k \<in> (\<lambda>i. (h, word_of_nat i)) ` set is then None else fmlookup m k)"
    for h "is" and m :: "(outpoint, tx_output) fmap"
    by (induction "is" arbitrary: m) auto
  have keys: "set (created_keys tx) = (\<lambda>i. (tx_id tx, word_of_nat i)) ` set [0..<length (outputs tx)]" for tx
    by (simp add: created_keys_def)
  have "fmlookup (fold (\<lambda>tx m. fold (\<lambda>i. fmdrop (tx_id tx, word_of_nat i)) [0..<length (outputs tx)] m) txs m) k
      = (if k \<in> creates txs then None else fmlookup m k)" for txs and m :: "(outpoint, tx_output) fmap"
    by (induction txs arbitrary: m) (simp_all add: inner keys del: set_upt)
  moreover have "creates (rev txs) = creates txs" for txs
  proof -
    have "creates (xs @ ys) = creates xs \<union> creates ys" for xs ys by (induction xs) auto
    then show ?thesis by (induction txs) auto
  qed
  ultimately show ?thesis by (simp add: revert_block_def)
qed

lemma fresh_ids_creates: "fresh_ids m txs \<Longrightarrow> k \<in> creates txs \<Longrightarrow> fmlookup m k = None"
proof (induction txs)
  case Nil
  then show ?case by simp
next
  case (Cons tx txs)
  then show ?case
    using fresh_ids_outputs [OF Cons.prems(1)] fresh_ids_tl [OF Cons.prems(1)]
    by (auto simp: fresh_outputs_def simp del: split_paired_All)
qed

lemma revert_applied_block:
  assumes "apply_block E s block = Some (Inr (), s1)" "fresh_ids (utxos (st_utxo_set s)) (transactions block)"
  shows "fmlookup (utxos (st_utxo_set (revert_block s1 block))) k =
     (if k \<in> spends (transactions block) then None else fmlookup (utxos (st_utxo_set s)) k)"
proof -
  obtain u where "apply_loop E (st_utxo_set s) [] fmempty (transactions block) = Some (Inr (), u)"
    and s1: "s1 = s\<lparr>st_utxo_set := u\<rparr>" using assms(1) by (rule apply_block_Inr)
  from apply_loop_Inr [OF this(1) assms(2)] fresh_ids_creates [OF assms(2)] show ?thesis
    by (auto simp: lookup_revert_block s1)
qed

lemma prune_older_than_loop:
  assumes "fset_of_list outs = fst (prune_older_than s t)"
  shows "snd (prune_older_than s t) = fold (\<lambda>out s. prune_leaf s out) outs s"
proof -
  define P :: "outpoint fset \<Rightarrow> blockchain_state \<Rightarrow> blockchain_state" where
    "P A s = s\<lparr>st_utxo_set := (st_utxo_set s)\<lparr>utxos := fmdrop_fset A (utxos (st_utxo_set s))\<rparr>,
       prune_markers := fmdrop_fset A (prune_markers s)\<rparr>" for A s
  have drop: "fmdrop_fset (finsert k A) m = fmdrop_fset A (fmdrop k m)" for k A and m :: "(outpoint, 'b) fmap"
    by (rule fmap_ext) simp
  have P_step: "P (finsert out A) s = P A (prune_leaf s out)" for out A s
    unfolding P_def prune_leaf_def drop by simp
  have "fold (\<lambda>out s. prune_leaf s out) outs s = P (fset_of_list outs) s"
  proof (induction outs arbitrary: s)
    case Nil
    then show ?case by (simp add: P_def)
  next
    case (Cons out outs)
    then show ?case by (simp add: P_step)
  qed
  with assms show ?thesis by (simp add: prune_older_than_def Let_def P_def)
qed

section \<open>Properties\<close>

definition sample_state :: blockchain_state where
  "sample_state = state_new\<lparr>st_utxo_set := sample_utxo\<rparr>"

definition sample_double_spend :: block_node where
  "sample_double_spend =
     (sample_block 1 {||})\<lparr>transactions := [sample_spend, sample_spend\<lparr>tx_id := Hash 10\<rparr>]\<rparr>"

definition sample_good_block :: block_node where
  "sample_good_block = (sample_block 1 {||})\<lparr>transactions := [sample_spend]\<rparr>"

lemma sample_spend_inputs: "map outpoint_of (inputs sample_spend) = [(Hash 1, 0)]"
  "inputs sample_spend \<noteq> []" "tx_id sample_spend = Hash 9" "length (outputs sample_spend) = 1"
  by (simp_all add: sample_spend_def outpoint_of_def)

lemma sample_fresh_ids:
  "fresh_ids (utxos sample_utxo) (transactions sample_double_spend)"
  "fresh_ids (utxos sample_utxo) (transactions sample_good_block)"
  by (auto simp: fresh_ids_def sample_double_spend_def sample_good_block_def sample_spend_inputs
      sample_utxo_def)

lemma sample_second_spend:
  "validate_tx sample_crypto sample_utxo_after (sample_spend\<lparr>tx_id := Hash 10\<rparr>) =
     Some (Inl (TransactionError ''Input UTXO not found''))"
proof -
  have "fmlookup (utxos sample_utxo_after) (Hash 1, 0) = None"
    by (simp add: sample_utxo_after_def apply_tx_eq sample_apply(1) fmlookup_applied
        sample_spend_inputs) (simp add: sample_spend_def outpoint_of_def)
  then show ?thesis
    by (simp add: validate_tx_def sample_spend_def sample_crypto_def is_coinbase_def outpoint_of_def hash_new_def Let_def
        checked_add_def)
qed

text \<open>
  C17. The result of \<open>apply_block\<close>, for blocks whose transaction ids are new and distinct (and at
  most 2^32 outputs each): the transactions are validated in turn, each against the set the earlier
  ones leave. When one fails, its own error is returned, not a failure of the rollback, and the
  state is the one before the block; when none fails, the result is \<open>Ok\<close>, the set has every
  transaction applied in turn and the rest of the state is unchanged. The call panics only when a
  key or signature conversion panics in one of these validations.
\<close>

theorem apply_block_all_or_nothing:
  assumes "fresh_ids (utxos (st_utxo_set s)) (transactions block)"
  shows "apply_block E s block =
     (case first_error E (st_utxo_set s) (transactions block) of
        None \<Rightarrow> None
      | Some (Some e) \<Rightarrow> Some (Inl e, s)
      | Some None \<Rightarrow> Some (Inr (), s\<lparr>st_utxo_set := all_applied (transactions block) (st_utxo_set s)\<rparr>))"
  using assms by (rule apply_block_eq)

theorem apply_block_all_or_nothing_witness:
  "apply_block sample_crypto sample_state sample_double_spend =
     Some (Inl (TransactionError ''Input UTXO not found''), sample_state)"
proof -
  have "sample_utxo\<lparr>utxos := applied (utxos sample_utxo) sample_spend\<rparr> = sample_utxo_after"
    using sample_apply by (simp add: apply_tx_eq)
  then have "first_error sample_crypto (st_utxo_set sample_state) (transactions sample_double_spend) =
      Some (Some (TransactionError ''Input UTXO not found''))"
    by (simp add: sample_double_spend_def sample_state_def sample_apply(1) sample_second_spend)
  with apply_block_all_or_nothing [of sample_state sample_double_spend sample_crypto] sample_fresh_ids(1)
  show ?thesis by (simp add: sample_state_def)
qed

text \<open>
  Applying a block balances: the value of the set afterwards plus the fees equals the value
  before plus the outputs of the transactions without inputs.
\<close>

theorem apply_block_balance:
  assumes "apply_block E s block = Some (Inr (), s')"
    and "fresh_ids (utxos (st_utxo_set s)) (transactions block)"
  shows "utxo_total (utxos (st_utxo_set s')) + block_fees E (st_utxo_set s) (transactions block)
       = utxo_total (utxos (st_utxo_set s)) + minted (transactions block)"
proof -
  obtain u where "apply_loop E (st_utxo_set s) [] fmempty (transactions block) = Some (Inr (), u)"
    "s' = s\<lparr>st_utxo_set := u\<rparr>" using assms(1) by (rule apply_block_Inr)
  with apply_loop_value [OF _ assms(2)] show ?thesis by simp
qed

lemma sample_good_applies:
  "apply_block sample_crypto sample_state sample_good_block
     = Some (Inr (), sample_state\<lparr>st_utxo_set := sample_utxo_after\<rparr>)"
  by (simp add: apply_block_def sample_good_block_def sample_state_def sample_apply(2) Let_def)

theorem apply_block_balance_witness:
  "utxo_total (utxos sample_utxo_after) + 30 = utxo_total (utxos sample_utxo)"
proof -
  have "block_fees sample_crypto sample_utxo (transactions sample_good_block) = 30"
    "minted (transactions sample_good_block) = 0"
    by (simp_all add: sample_good_block_def sample_apply minted_def is_coinbase_def sample_spend_inputs)
  with apply_block_balance [OF sample_good_applies] sample_fresh_ids(2) show ?thesis
    by (simp add: sample_state_def)
qed

text \<open>
  \<open>revert_block\<close> does not undo \<open>apply_block\<close>: it removes what the block created, but every
  output the block spent stays lost, while all other entries are as before.
\<close>

theorem revert_block_loses_spent:
  assumes "apply_block E s block = Some (Inr (), s1)"
    and "fresh_ids (utxos (st_utxo_set s)) (transactions block)"
  shows "fmlookup (utxos (st_utxo_set (revert_block s1 block))) k =
     (if k \<in> spends (transactions block) then None else fmlookup (utxos (st_utxo_set s)) k)"
  using assms by (rule revert_applied_block)

theorem revert_block_loses_spent_witness:
  "fmlookup (utxos (st_utxo_set (revert_block (sample_state\<lparr>st_utxo_set := sample_utxo_after\<rparr>)
     sample_good_block))) (Hash 1, 0) = None \<and> fmlookup (utxos sample_utxo) (Hash 1, 0) \<noteq> None"
proof
  have "(Hash 1, 0) \<in> spends (transactions sample_good_block)"
    by (simp add: sample_good_block_def sample_spend_def outpoint_of_def)
  with revert_block_loses_spent [OF sample_good_applies, of "(Hash 1, 0)"] sample_fresh_ids(2)
  show "fmlookup (utxos (st_utxo_set (revert_block (sample_state\<lparr>st_utxo_set := sample_utxo_after\<rparr>)
     sample_good_block))) (Hash 1, 0) = None" by (simp add: sample_state_def)
  show "fmlookup (utxos sample_utxo) (Hash 1, 0) \<noteq> None" by (simp add: sample_lookup)
qed

end
