(* ===== verification/Pow.thy ===== *)
theory Pow
  imports Core_Types
begin

text \<open>
  Proof of work (\<open>src/core/pow/hash.rs\<close>): the hash of the header fields, the test against a
  target, and the search for a nonce. The search runs through all \<open>2 ^ 64\<close> nonces in order,
  so it is a terminating recursion on a natural number below \<open>2 ^ 64\<close>.
\<close>

definition pow_preimage :: "u64 \<Rightarrow> u64 \<Rightarrow> hash list \<Rightarrow> u64 \<Rightarrow> u64 \<Rightarrow> hash \<Rightarrow> bytes" where
  "pow_preimage time diff parent_hashes merit nonce_val tx_merkle_root =
     to_le_bytes time @ to_le_bytes diff @ concat (map hash_bytes (sort parent_hashes))
       @ to_le_bytes merit @ to_le_bytes nonce_val @ hash_bytes tx_merkle_root"

definition calculate_hash ::
    "blake3 \<Rightarrow> u64 \<Rightarrow> u64 \<Rightarrow> hash list \<Rightarrow> u64 \<Rightarrow> u64 \<Rightarrow> hash \<Rightarrow> hash" where
  "calculate_hash H time diff parent_hashes merit nonce_val tx_merkle_root =
     hash_new H (pow_preimage time diff parent_hashes merit nonce_val tx_merkle_root)"

definition calculate_hash_raw :: "blake3 \<Rightarrow> bytes \<Rightarrow> hash" where
  "calculate_hash_raw H hdr = hash_new H hdr"

definition hash_val :: "hash \<Rightarrow> u64" where
  "hash_val h = from_le_bytes (take 8 (hash_bytes h))"

definition is_valid_pow :: "hash \<Rightarrow> u64 \<Rightarrow> bool" where
  "is_valid_pow h target \<longleftrightarrow> \<not> length (hash_bytes h) < 8 \<and> hash_val h < target"

record block_mining_params =
  mp_header :: bytes
  mp_target :: u64
  mp_miner_address :: bytes
  mp_node_reward_address :: bytes
  mp_timestamp :: u64
  mp_difficulty :: u64
  mp_parent_hashes :: "hash list"
  mp_verkle_root :: bytes32

text \<open>The final hash of one round of the search.\<close>

definition mining_hash :: "blake3 \<Rightarrow> block_mining_params \<Rightarrow> u64 \<Rightarrow> hash" where
  "mining_hash H p nonce_val =
     hash_new H
       (hash_bytes (calculate_hash H (mp_timestamp p) (mp_difficulty p) (mp_parent_hashes p) 0
                      nonce_val (hash_new H (mp_header p)))
         @ array_bytes (mp_verkle_root p) @ mp_miner_address p @ mp_node_reward_address p)"

function mine_loop :: "blake3 \<Rightarrow> block_mining_params \<Rightarrow> nat \<Rightarrow> u64 option" where
  "mine_loop H p n =
     (if 2 ^ 64 \<le> n then None
      else if is_valid_pow (mining_hash H p (word_of_nat n)) (mp_target p) then Some (word_of_nat n)
      else mine_loop H p (Suc n))"
  by pat_completeness auto
termination
  by (relation "measure (\<lambda>(H, p, n). 2 ^ 64 - n)") auto

declare mine_loop.simps [simp del]

definition mine_block :: "blake3 \<Rightarrow> block_mining_params \<Rightarrow> u64 option" where
  "mine_block H p =
     (if mp_miner_address p = [] \<or> mp_node_reward_address p = [] then None else mine_loop H p 0)"

text \<open>The difficulty wrapper of \<open>src/core/pow/miner.rs\<close>, less its floating-point average.\<close>

record pow_state =
  pow_difficulty :: u64

definition TARGET_BLOCK_TIME :: u64 where "TARGET_BLOCK_TIME = 1"

definition pow_new :: "u64 \<Rightarrow> pow_state" where
  "pow_new d = \<lparr>pow_difficulty = max d 1\<rparr>"

definition pow_target :: "pow_state \<Rightarrow> u64" where
  "pow_target p = - 1 div max (pow_difficulty p) 1"

definition validate_pow :: "pow_state \<Rightarrow> hash \<Rightarrow> bool" where
  "validate_pow p h = is_valid_pow h (pow_target p)"

definition verify_pow :: "hash \<Rightarrow> u64 \<Rightarrow> bool" where
  "verify_pow h target = is_valid_pow h target"

section \<open>Lemmas\<close>

lemma is_valid_pow_iff: "is_valid_pow h t \<longleftrightarrow> hash_val h < t"
  by (simp add: is_valid_pow_def)

text \<open>The order of the parents is irrelevant, as a hash set requires.\<close>

lemma calculate_hash_perm:
  assumes "mset ps = mset qs"
  shows "calculate_hash H t d ps m n r = calculate_hash H t d qs m n r"
proof -
  have "sort ps = sort qs" using assms by (metis mset_sort properties_for_sort sorted_sort)
  then show ?thesis by (simp add: calculate_hash_def pow_preimage_def)
qed

text \<open>The preimage determines every field, given the number of parents.\<close>

lemma concat_hash_bytes_inject:
  "length xs = length ys \<Longrightarrow> concat (map hash_bytes xs) = concat (map hash_bytes ys) \<Longrightarrow> xs = ys"
  by (induction xs ys rule: list_induct2) simp_all

lemma pow_preimage_binds:
  assumes "pow_preimage t d ps m n r = pow_preimage t' d' ps' m' n' r'"
    and "length ps = length ps'"
  shows "t = t' \<and> d = d' \<and> mset ps = mset ps' \<and> m = m' \<and> n = n' \<and> r = r'"
proof -
  have eq: "to_le_bytes t @ to_le_bytes d @ concat (map hash_bytes (sort ps))
         @ to_le_bytes m @ to_le_bytes n @ hash_bytes r
      = to_le_bytes t' @ to_le_bytes d' @ concat (map hash_bytes (sort ps'))
         @ to_le_bytes m' @ to_le_bytes n' @ hash_bytes r'"
    using assms(1) by (simp add: pow_preimage_def)
  have len: "length (concat (map hash_bytes (sort ps))) = length (concat (map hash_bytes (sort ps')))"
    using assms(2) by (simp add: length_concat sum_list_triv comp_def)
  have parts: "to_le_bytes t = to_le_bytes t'" "to_le_bytes d = to_le_bytes d'"
    "concat (map hash_bytes (sort ps)) = concat (map hash_bytes (sort ps'))"
    "to_le_bytes m = to_le_bytes m'" "to_le_bytes n = to_le_bytes n'" "r = r'"
    using eq len by (simp_all add: append_eq_append_conv)
  from concat_hash_bytes_inject [OF _ parts(3)] assms(2) have "sort ps = sort ps'" by simp
  then have "mset ps = mset ps'" by (metis mset_sort)
  with parts show ?thesis by (simp add: to_le_bytes_inject)
qed

lemma mine_loop_Some:
  "mine_loop H p n = Some v \<longleftrightarrow>
     n \<le> unat v \<and> is_valid_pow (mining_hash H p v) (mp_target p) \<and>
     (\<forall>w. n \<le> unat w \<and> w < v \<longrightarrow> \<not> is_valid_pow (mining_hash H p w) (mp_target p))"
proof (induction H p n rule: mine_loop.induct)
  case (1 H p n)
  show ?case
  proof (cases "2 ^ 64 \<le> n")
    case True
    then have "\<not> n \<le> unat v" using unat_u64_bound [of v] by simp
    with True show ?thesis by (simp add: mine_loop.simps [of H p n])
  next
    case False
    then have n: "unat (word_of_nat n :: u64) = n" by (intro unat_of_nat_small) simp
    show ?thesis
    proof (cases "is_valid_pow (mining_hash H p (word_of_nat n)) (mp_target p)")
      case True
      then have "mine_loop H p n = Some v \<longleftrightarrow> v = word_of_nat n"
        using False by (auto simp: mine_loop.simps [of H p n])
      also have "\<dots> \<longleftrightarrow> n \<le> unat v \<and> is_valid_pow (mining_hash H p v) (mp_target p) \<and>
          (\<forall>w. n \<le> unat w \<and> w < v \<longrightarrow> \<not> is_valid_pow (mining_hash H p w) (mp_target p))"
      proof
        assume "v = word_of_nat n"
        with True n show "n \<le> unat v \<and> is_valid_pow (mining_hash H p v) (mp_target p) \<and>
          (\<forall>w. n \<le> unat w \<and> w < v \<longrightarrow> \<not> is_valid_pow (mining_hash H p w) (mp_target p))"
          by (auto simp: word_less_nat_alt)
      next
        assume r: "n \<le> unat v \<and> is_valid_pow (mining_hash H p v) (mp_target p) \<and>
          (\<forall>w. n \<le> unat w \<and> w < v \<longrightarrow> \<not> is_valid_pow (mining_hash H p w) (mp_target p))"
        then have "\<not> (word_of_nat n :: u64) < v" using True n by auto
        with r n show "v = word_of_nat n" by (simp add: word_less_nat_alt word_unat_eq_iff)
      qed
      finally show ?thesis .
    next
      case invalid: False
      have "n \<le> unat w \<longleftrightarrow> Suc n \<le> unat w \<or> w = word_of_nat n" for w :: u64
        using n by (auto simp: word_unat_eq_iff)
      then show ?thesis
        using "1.IH" [OF False invalid] False invalid
        by (auto simp: mine_loop.simps [of H p n])
    qed
  qed
qed

lemma mine_loop_None:
  "mine_loop H p n = None \<longleftrightarrow>
     (\<forall>w. n \<le> unat w \<longrightarrow> \<not> is_valid_pow (mining_hash H p w) (mp_target p))"
proof (induction H p n rule: mine_loop.induct)
  case (1 H p n)
  show ?case
  proof (cases "2 ^ 64 \<le> n")
    case True
    then have "\<not> n \<le> unat w" for w :: u64 using unat_u64_bound [of w] by simp
    with True show ?thesis by (simp add: mine_loop.simps [of H p n])
  next
    case False
    then have n: "unat (word_of_nat n :: u64) = n" by (intro unat_of_nat_small) simp
    then have "n \<le> unat w \<longleftrightarrow> Suc n \<le> unat w \<or> w = word_of_nat n" for w :: u64
      by (auto simp: word_unat_eq_iff)
    then show ?thesis
      using "1.IH" False n
      by (cases "is_valid_pow (mining_hash H p (word_of_nat n)) (mp_target p)")
        (auto simp: mine_loop.simps [of H p n])
  qed
qed

section \<open>Properties\<close>

text \<open>
  The search returns the least nonce whose final hash is below the target, and refuses
  when an address is missing.
\<close>

theorem mine_block_least:
  "mine_block H p = Some v \<longleftrightarrow>
     mp_miner_address p \<noteq> [] \<and> mp_node_reward_address p \<noteq> [] \<and>
     is_valid_pow (mining_hash H p v) (mp_target p) \<and>
     (\<forall>w. w < v \<longrightarrow> \<not> is_valid_pow (mining_hash H p w) (mp_target p))"
  by (auto simp: mine_block_def mine_loop_Some)

theorem mine_block_least_witness:
  "mine_block (\<lambda>_. 0) \<lparr>mp_header = [], mp_target = 1, mp_miner_address = [1],
     mp_node_reward_address = [2], mp_timestamp = 0, mp_difficulty = 1, mp_parent_hashes = [],
     mp_verkle_root = 0\<rparr> = Some 0"
proof -
  have "hash_val (Hash 0) = 0" by code_simp
  then show ?thesis
    by (subst mine_block_least) (simp add: is_valid_pow_iff mining_hash_def hash_new_def)
qed

text \<open>
  The bytes hashed for proof of work determine every header field they cover, the parents
  as a set with their number known, so no two different headers share a preimage.
\<close>

theorem pow_preimage_injective:
  assumes "pow_preimage t d ps m n r = pow_preimage t' d' ps' m' n' r'" "length ps = length ps'"
  shows "t = t' \<and> d = d' \<and> mset ps = mset ps' \<and> m = m' \<and> n = n' \<and> r = r'"
  using assms by (rule pow_preimage_binds)

theorem pow_preimage_injective_witness:
  "mset [Hash 1, Hash 2] = mset [Hash 2, Hash 1] \<and> (5 :: u64) = 5"
proof -
  have "sort [Hash 2, Hash 1] = sort [Hash 1, Hash 2]" by code_simp
  then have "pow_preimage 5 1 [Hash 1, Hash 2] 0 3 (Hash 0) = pow_preimage 5 1 [Hash 2, Hash 1] 0 3 (Hash 0)"
    by (simp only: pow_preimage_def)
  from pow_preimage_injective [OF this] show ?thesis by simp
qed

end
