(* ===== verification/Storage.thy ===== *)
theory Storage
  imports Core_Types
begin

text \<open>
  The key-value store (\<open>src/core/state/storage.rs\<close>). The trait \<open>Storage\<close> is the locale
  \<open>kv_store\<close>: four operations and the laws a client relies on. \<open>MemoryStorage\<close> provides them.
\<close>

section \<open>The trait\<close>

locale kv_store =
  fixes get :: "'s \<Rightarrow> bytes \<Rightarrow> bytes option"
    and put :: "bytes \<Rightarrow> bytes \<Rightarrow> 's \<Rightarrow> 's"
    and del :: "bytes \<Rightarrow> 's \<Rightarrow> 's"
    and clear :: "'s \<Rightarrow> 's"
  assumes get_put: "get (put k v s) k' = (if k' = k then Some v else get s k')"
    and get_del: "get (del k s) k' = (if k' = k then None else get s k')"
    and get_clear: "get (clear s) k = None"
begin

text \<open>A batch of writes: the last write of a key wins.\<close>

lemma get_puts:
  "get (fold (\<lambda>(k, v). put k v) kvs s) k' =
     (case map_of (rev kvs) k' of Some v \<Rightarrow> Some v | None \<Rightarrow> get s k')"
  by (induction kvs arbitrary: s) (auto simp: get_put map_add_Some_iff map_add_None split: option.splits)

lemma get_dels: "get (fold del ks s) k' = (if k' \<in> set ks then None else get s k')"
  by (induction ks arbitrary: s) (auto simp: get_del)

lemma put_then_del: "get (del k (put k v s)) k' = (if k' = k then None else get s k')"
  by (simp add: get_put get_del)

end

section \<open>The in-memory store\<close>

record memory_storage =
  ms_map :: "(bytes, bytes) fmap"

definition memory_storage_new :: memory_storage where
  "memory_storage_new = \<lparr>ms_map = fmempty\<rparr>"

definition storage_get :: "memory_storage \<Rightarrow> bytes \<Rightarrow> bytes option" where
  "storage_get s key = fmlookup (ms_map s) key"

definition storage_put :: "bytes \<Rightarrow> bytes \<Rightarrow> memory_storage \<Rightarrow> memory_storage" where
  "storage_put key value s = s\<lparr>ms_map := fmupd key value (ms_map s)\<rparr>"

definition storage_delete :: "bytes \<Rightarrow> memory_storage \<Rightarrow> memory_storage" where
  "storage_delete key s = s\<lparr>ms_map := fmdrop key (ms_map s)\<rparr>"

definition storage_clear :: "memory_storage \<Rightarrow> memory_storage" where
  "storage_clear s = s\<lparr>ms_map := fmempty\<rparr>"

interpretation memory: kv_store storage_get storage_put storage_delete storage_clear
  by unfold_locales
    (simp_all add: storage_get_def storage_put_def storage_delete_def storage_clear_def)

end
