(* ===== verification/Gas_Meter.thy ===== *)
theory Gas_Meter
  imports Core_Types "HOL-Library.Signed_Division"
begin

text \<open>
  The gas meter (\<open>src/core/vm/gas_meter.rs\<close>). The budget is a signed 128-bit counter that
  may go below zero; every charge is at most \<open>2 ^ 64 - 1\<close>, so it cannot wrap before
  \<open>2 ^ 62\<close> charges. A charge that fails has still been subtracted: the operations return
  the result with the new meter. WASM operators are the classes the cost table names.
\<close>

datatype vm_error =
    OutOfGas
  | RuntimeError string
  | StateError string
  | WasmError string

record gas_meter =
  initial :: i128
  remaining :: i128
  consumed_wasm :: u64
  consumed_host :: u64
  refund :: u64

definition INTRINSIC_GAS :: u64 where "INTRINSIC_GAS = 21000"
definition STATE_READ_COST :: u64 where "STATE_READ_COST = 2100"
definition STATE_WRITE_NEW_COST :: u64 where "STATE_WRITE_NEW_COST = 20000"
definition STATE_WRITE_UPDATE_COST :: u64 where "STATE_WRITE_UPDATE_COST = 5000"
definition SELF_DESTRUCT_REFUND :: u64 where "SELF_DESTRUCT_REFUND = 24000"

definition gas_meter_new :: "u64 \<Rightarrow> gas_meter" where
  "gas_meter_new gas_limit =
     \<lparr>initial = ucast gas_limit, remaining = ucast gas_limit, consumed_wasm = 0, consumed_host = 0,
      refund = 0\<rparr>"

definition consume_host :: "u64 \<Rightarrow> gas_meter \<Rightarrow> (vm_error + unit) \<times> gas_meter" where
  "consume_host cost g =
     (let g' = g\<lparr>remaining := remaining g - ucast cost,
                 consumed_host := saturating_add (consumed_host g) cost\<rparr>
      in (if remaining g' <s 0 then Inl OutOfGas else Inr (), g'))"

definition consume_opcode :: "u64 \<Rightarrow> gas_meter \<Rightarrow> (vm_error + unit) \<times> gas_meter" where
  "consume_opcode opcode_cost g =
     (let g' = g\<lparr>remaining := remaining g - ucast opcode_cost,
                 consumed_wasm := saturating_add (consumed_wasm g) opcode_cost\<rparr>
      in (if remaining g' <s 0 then Inl OutOfGas else Inr (), g'))"

definition charge_intrinsic :: "gas_meter \<Rightarrow> (vm_error + unit) \<times> gas_meter" where
  "charge_intrinsic g = consume_host INTRINSIC_GAS g"

definition payload_cost :: "bytes \<Rightarrow> u64" where
  "payload_cost payload =
     foldl (\<lambda>total_cost b. saturating_add total_cost (if b = 0 then 4 else 16)) 0 payload"

definition charge_payload :: "bytes \<Rightarrow> gas_meter \<Rightarrow> (vm_error + unit) \<times> gas_meter" where
  "charge_payload payload g = consume_host (payload_cost payload) g"

definition charge_state_read :: "gas_meter \<Rightarrow> (vm_error + unit) \<times> gas_meter" where
  "charge_state_read g = consume_host STATE_READ_COST g"

definition charge_state_write :: "bool \<Rightarrow> gas_meter \<Rightarrow> (vm_error + unit) \<times> gas_meter" where
  "charge_state_write is_new g =
     (let cost = (if is_new then STATE_WRITE_NEW_COST else STATE_WRITE_UPDATE_COST)
      in consume_host cost g)"

definition charge_wasm :: "u64 \<Rightarrow> gas_meter \<Rightarrow> (vm_error + unit) \<times> gas_meter" where
  "charge_wasm cost g =
     (case consume_host cost g of
        (Inl e, g') \<Rightarrow> (Inl e, g')
      | (Inr _, g') \<Rightarrow> (Inr (), g'\<lparr>consumed_wasm := saturating_add (consumed_wasm g') cost\<rparr>))"

definition refund_self_destruct :: "gas_meter \<Rightarrow> gas_meter" where
  "refund_self_destruct g = g\<lparr>refund := saturating_add (refund g) SELF_DESTRUCT_REFUND\<rparr>"

definition get_used :: "gas_meter \<Rightarrow> u64" where
  "get_used g = ucast (initial g - remaining g)"

definition finalize :: "gas_meter \<Rightarrow> u64 \<Rightarrow> u64 \<times> u64" where
  "finalize g total_used =
     (let max_refund = total_used div 5;
          actual_refund = min (refund g) max_refund;
          net_used = saturating_sub total_used actual_refund
      in (net_used, actual_refund))"

datatype wasm_operator =
    I32Add | I32Sub | I32Mul | I64Add | I64Sub | I64Mul
  | I32DivS | I32DivU | I64DivS | I64DivU | F32Sqrt | F64Sqrt
  | I32Load | I64Load | F32Load | F64Load
  | I32Store | I64Store | F32Store | F64Store
  | Call | CallIndirect | MemoryCopy | MemoryFill | OtherOperator

fun opcode_cost :: "wasm_operator \<Rightarrow> u64" where
  "opcode_cost operator =
     (if operator \<in> {I32Add, I32Sub, I32Mul, I64Add, I64Sub, I64Mul} then 3
      else if operator \<in> {I32DivS, I32DivU, I64DivS, I64DivU, F32Sqrt, F64Sqrt} then 10
      else if operator \<in> {I32Load, I64Load, F32Load, F64Load, I32Store, I64Store, F32Store, F64Store} then 3
      else if operator = Call then 20
      else if operator = CallIndirect then 40
      else if operator \<in> {MemoryCopy, MemoryFill} then 50
      else 1)"

section \<open>The meter as an integer\<close>

text \<open>The budget left, and how far from wrapping it is.\<close>

definition budget :: "gas_meter \<Rightarrow> int" where
  "budget g = sint (remaining g)"

lemma sint_word_of_int:
  "- (2 ^ 127) \<le> x \<Longrightarrow> x < 2 ^ 127 \<Longrightarrow> sint (word_of_int x :: i128) = x"
  by (simp add: signed_of_int signed_take_bit_int_eq_self)

lemma uint_u64_bound: "uint (c :: u64) < 2 ^ 64" "0 \<le> uint c"
  using unsigned_less [of c, where 'a = int] by simp_all

lemma sint_ucast_u64: "sint (ucast (c :: u64) :: i128) = uint c"
proof -
  have e: "(ucast c :: i128) = word_of_int (uint c)" by simp
  show ?thesis
    unfolding e
    by (rule sint_word_of_int, rule order.trans [of _ 0]) (use uint_u64_bound [of c] in simp_all)
qed

lemma sint_sub_small:
  fixes a b :: i128
  assumes "- (2 ^ 127) \<le> sint a - sint b" "sint a - sint b < 2 ^ 127"
  shows "sint (a - b) = sint a - sint b"
proof -
  have "a - b = word_of_int (sint a - sint b)" by simp
  then show ?thesis using sint_word_of_int [OF assms] by simp
qed

lemma budget_new: "budget (gas_meter_new limit) = uint limit"
  by (simp add: budget_def gas_meter_new_def sint_ucast_u64)

lemma consume_host_budget:
  assumes "0 \<le> budget g"
  shows "budget (snd (consume_host c g)) = budget g - uint c"
    "fst (consume_host c g) = (if budget g < uint c then Inl OutOfGas else Inr ())"
proof -
  note c = uint_u64_bound [of c]
  have "sint (remaining g) < 2 ^ 127" using sint_lt [of "remaining g"] by simp
  then have hi: "sint (remaining g) - uint c < 2 ^ 127"
    by (rule order.strict_trans1 [rotated]) simp
  have lo: "- (2 ^ 127) \<le> sint (remaining g) - uint c" using assms c(1) by (simp add: budget_def)
  have s: "sint (remaining g - ucast c) = budget g - uint c"
    using sint_sub_small [of "remaining g" "ucast c"] lo hi by (simp add: budget_def sint_ucast_u64)
  then show "budget (snd (consume_host c g)) = budget g - uint c"
    "fst (consume_host c g) = (if budget g < uint c then Inl OutOfGas else Inr ())"
    by (simp_all add: consume_host_def Let_def budget_def word_sless_alt)
qed

lemma consume_host_frame [frames]:
  "initial (snd (consume_host c g)) = initial g"
  "consumed_wasm (snd (consume_host c g)) = consumed_wasm g"
  "refund (snd (consume_host c g)) = refund g"
  by (simp_all add: consume_host_def Let_def)

lemma consume_opcode_budget:
  assumes "0 \<le> budget g"
  shows "budget (snd (consume_opcode c g)) = budget g - uint c"
    "fst (consume_opcode c g) = fst (consume_host c g)"
  using consume_host_budget(1) [OF assms, of c]
  by (simp_all add: consume_opcode_def consume_host_def Let_def budget_def)

text \<open>Charging a list of costs, stopping at the first failure, as the executor does.\<close>

fun charge_all :: "u64 list \<Rightarrow> gas_meter \<Rightarrow> (vm_error + unit) \<times> gas_meter" where
  "charge_all [] g = (Inr (), g)"
| "charge_all (c # cs) g =
     (case consume_host c g of
        (Inl e, g') \<Rightarrow> (Inl e, g')
      | (Inr _, g') \<Rightarrow> charge_all cs g')"

abbreviation total_cost :: "u64 list \<Rightarrow> nat" where
  "total_cost cs \<equiv> sum_list (map unat cs)"

lemma charge_all_result:
  "0 \<le> budget g \<Longrightarrow>
     (fst (charge_all cs g) = Inr () \<longleftrightarrow> int (total_cost cs) \<le> budget g) \<and>
     (fst (charge_all cs g) = Inr () \<longrightarrow>
        budget (snd (charge_all cs g)) = budget g - int (total_cost cs)) \<and>
     initial (snd (charge_all cs g)) = initial g"
proof (induction cs arbitrary: g)
  case Nil
  then show ?case by simp
next
  case (Cons c cs)
  obtain r g' where h: "consume_host c g = (r, g')" by fastforce
  note b = consume_host_budget [OF Cons.prems, of c, unfolded h]
  have i: "initial g' = initial g" using consume_host_frame(1) [of c g] h by simp
  show ?case
  proof (cases "budget g < uint c")
    case True
    with b h i show ?thesis by auto
  next
    case False
    with b have "0 \<le> budget g'" "r = Inr ()" by simp_all
    with Cons.IH [of g'] b h i show ?thesis by auto
  qed
qed

lemma get_used_eq:
  assumes "initial g = ucast (limit :: u64)" "budget g = uint limit - int used" "used \<le> unat limit"
  shows "get_used g = word_of_nat used"
proof -
  have r: "remaining g = word_of_int (uint limit - int used)"
    using arg_cong [OF assms(2), of "word_of_int :: int \<Rightarrow> i128"] by (simp add: budget_def scast_id)
  have "initial g - remaining g = word_of_int (int used)"
    unfolding r assms(1) by simp
  moreover have "used < 2 ^ 64" using assms(3) unat_u64_bound [of limit] by simp
  ultimately show ?thesis
    by (simp add: get_used_def word_unat_eq_iff unsigned_ucast_eq take_bit_nat_eq_self unat_of_nat)
qed

lemma payload_cost_unat:
  "unat (payload_cost payload) =
     min (sum_list (map (\<lambda>b. if b = 0 then 4 else 16) payload)) (2 ^ 64 - 1)"
proof -
  have "unat (foldl (\<lambda>t b. saturating_add t (if b = 0 then 4 else 16)) (t :: u64) payload) =
      min (unat t + sum_list (map (\<lambda>b. if b = 0 then 4 else 16) payload)) (2 ^ 64 - 1)" for t
  proof (induction payload arbitrary: t)
    case Nil
    then show ?case using unat_u64_bound [of t] by (simp add: min_def)
  next
    case (Cons b payload)
    have *: "min (min (a + c) m + b) m = min (a + (c + b)) m" for a b c m :: nat by linarith
    show ?case by (simp add: Cons.IH unat_saturating_add *)
  qed
  then show ?thesis by (simp add: payload_cost_def)
qed

lemma finalize_unat:
  assumes "finalize g used = (net, refunded)"
  shows "unat net + unat refunded = unat used" "unat refunded \<le> unat used div 5" "unat refunded \<le> unat (refund g)"
proof -
  from assms have b: "refunded = min (refund g) (used div 5)" and n: "net = saturating_sub used refunded"
    by (auto simp: finalize_def Let_def)
  have u: "unat refunded = min (unat (refund g)) (unat used div 5)"
    by (simp add: b min_def word_le_nat_alt unat_div)
  then show "unat refunded \<le> unat used div 5" "unat refunded \<le> unat (refund g)" by simp_all
  then show "unat net + unat refunded = unat used" by (simp add: n unat_saturating_sub)
qed

section \<open>Properties\<close>

text \<open>
  A meter created with a limit accepts a sequence of charges exactly when their sum, as
  natural numbers, is within the limit; then the gas reported as used is that sum. The signed
  128-bit counter does not wrap.
\<close>

theorem gas_limit_exact:
  "(fst (charge_all cs (gas_meter_new limit)) = Inr ()) = (total_cost cs \<le> unat limit) \<and>
   (total_cost cs > unat limit \<or> get_used (snd (charge_all cs (gas_meter_new limit))) = word_of_nat (total_cost cs))"
proof -
  let ?g = "gas_meter_new limit"
  have b: "budget ?g = int (unat limit)" by (simp add: budget_new)
  then have c: "fst (charge_all cs ?g) = Inr () \<longleftrightarrow> total_cost cs \<le> unat limit"
    using charge_all_result [of ?g cs] by (simp only: of_nat_le_iff)
  moreover have "get_used (snd (charge_all cs ?g)) = word_of_nat (total_cost cs)"
    if "total_cost cs \<le> unat limit"
  proof (rule get_used_eq)
    show "initial (snd (charge_all cs ?g)) = ucast limit"
      using charge_all_result [of ?g cs] b by (simp add: gas_meter_new_def)
    show "budget (snd (charge_all cs ?g)) = uint limit - int (total_cost cs)"
      using charge_all_result [of ?g cs] b c that by (simp add: budget_new)
  qed (rule that)
  ultimately show ?thesis by auto
qed

text \<open>
  Settlement: the refund is at most a fifth of the gas used and at most what was earned, and
  net gas plus refund is the gas used.
\<close>

theorem finalize_settles:
  assumes "finalize g used = (net, refunded)"
  shows "unat net + unat refunded = unat used \<and> unat refunded \<le> unat used div 5 \<and>
     unat refunded \<le> unat (refund g)"
  using finalize_unat [OF assms] by simp

theorem finalize_settles_witness:
  "unat (80 :: u64) + unat (20 :: u64) = unat (100 :: u64)"
proof -
  have "finalize (refund_self_destruct (gas_meter_new 100)) 100 = (80, 20)"
    by (simp add: finalize_def refund_self_destruct_def gas_meter_new_def saturating_add_def
        SELF_DESTRUCT_REFUND_def saturating_sub_def Let_def)
  from finalize_settles [OF this] show ?thesis by simp
qed

end
