(* ===== verification/Scheduler.thy ===== *)
theory Scheduler
  imports Transaction
begin

text \<open>
  Grouping of transactions (\<open>src/core/scheduler/parallel.rs\<close>): transactions are put in a
  canonical order, then taken greedily into groups whose members do not conflict, and the
  groups are checked against each other. The execution of the groups by the state
  manager is in \<open>Group_Execution\<close>.
\<close>

section \<open>Operations\<close>

record scheduled_transaction =
  s_tx :: transaction
  s_access :: access_set
  s_index :: nat

definition canonical_order_key :: "transaction \<Rightarrow> u64 \<Rightarrow> u64 \<times> hash" where
  "canonical_order_key tx timestamp = (timestamp, tx_id tx)"

definition key_le :: "u64 \<times> hash \<Rightarrow> u64 \<times> hash \<Rightarrow> bool" where
  "key_le = (\<lambda>(t1, h1) (t2, h2). t1 < t2 \<or> t1 = t2 \<and> h1 \<le> h2)"

definition sched_le :: "scheduled_transaction \<Rightarrow> scheduled_transaction \<Rightarrow> bool" where
  "sched_le a b = key_le (canonical_order_key (s_tx a) 0) (canonical_order_key (s_tx b) 0)"

definition to_scheduled :: "blake3 \<Rightarrow> transaction list \<Rightarrow> scheduled_transaction list" where
  "to_scheduled H txs =
     map (\<lambda>(i, tx). \<lparr>s_tx = tx, s_access = generate_access_set H tx, s_index = i\<rparr>)
       (List.enumerate 0 txs)"

text \<open>The scan: the group so far, and the positions that were taken.\<close>

fun select_group ::
    "scheduled_transaction list \<Rightarrow> nat list \<Rightarrow> nat \<Rightarrow> scheduled_transaction list
       \<Rightarrow> scheduled_transaction list \<times> nat list" where
  "select_group current_group to_remove i [] = (current_group, to_remove)"
| "select_group current_group to_remove i (candidate # rest) =
     (let conflicts = list_ex (\<lambda>existing. has_conflict (s_access existing) (s_access candidate))
                        current_group
      in if \<not> conflicts
         then select_group (current_group @ [candidate]) (to_remove @ [i]) (Suc i) rest
         else select_group current_group to_remove (Suc i) rest)"

text \<open>\<open>VecDeque::remove(idx)\<close>.\<close>

definition remove_at :: "nat \<Rightarrow> 'a list \<Rightarrow> 'a list" where
  "remove_at idx xs = take idx xs @ drop (Suc idx) xs"

definition next_group ::
    "scheduled_transaction list \<Rightarrow> scheduled_transaction list \<times> scheduled_transaction list" where
  "next_group queue =
     (case select_group [] [] 0 queue of
        (current_group, to_remove) \<Rightarrow>
          let remaining = fold remove_at (rev to_remove) queue
          in if current_group = [] then ([hd remaining], tl remaining)
             else (current_group, remaining))"

text \<open>The same selection without positions: what is taken, and what stays.\<close>

fun pick :: "scheduled_transaction list \<Rightarrow> scheduled_transaction list
    \<Rightarrow> scheduled_transaction list \<times> scheduled_transaction list" where
  "pick grp [] = (grp, [])"
| "pick grp (c # cs) =
     (if list_ex (\<lambda>e. has_conflict (s_access e) (s_access c)) grp
      then (case pick grp cs of (g, r) \<Rightarrow> (g, c # r))
      else pick (grp @ [c]) cs)"

lemma fold_remove_shift:
  "\<forall>i \<in> set is. length pre \<le> i \<Longrightarrow>
     fold remove_at is (pre @ xs) = pre @ fold remove_at (map (\<lambda>i. i - length pre) is) xs"
  by (induction "is" arbitrary: xs) (simp_all add: remove_at_def Suc_diff_le)

lemma select_group_pick:
  "select_group g taken i cs = (g', taken') \<Longrightarrow>
     (\<exists>new. taken' = taken @ new \<and> (\<forall>j \<in> set new. i \<le> j) \<and>
        pick g cs = (g', fold remove_at (map (\<lambda>j. j - i) (rev new)) cs))"
proof (induction g taken i cs rule: select_group.induct)
  case (1 g taken i)
  then show ?case by simp
next
  case (2 g taken i c cs)
  show ?case
  proof (cases "list_ex (\<lambda>e. has_conflict (s_access e) (s_access c)) g")
    case True
    with 2 obtain new where new: "taken' = taken @ new" "\<forall>j \<in> set new. Suc i \<le> j"
      "pick g cs = (g', fold remove_at (map (\<lambda>j. j - Suc i) (rev new)) cs)"
      by (auto simp: Let_def)
    have "fold remove_at (map (\<lambda>j. j - i) (rev new)) ([c] @ cs) =
        [c] @ fold remove_at (map (\<lambda>j. j - length [c]) (map (\<lambda>j. j - i) (rev new))) cs"
      using new(2) by (intro fold_remove_shift) auto
    moreover have "map (\<lambda>j. j - length [c]) (map (\<lambda>j. j - i) (rev new)) = map (\<lambda>j. j - Suc i) (rev new)"
      by (simp add: comp_def)
    ultimately have "pick g (c # cs) = (g', fold remove_at (map (\<lambda>j. j - i) (rev new)) (c # cs))"
      using True new(3) by (simp del: map_map)
    with new(1,2) show ?thesis by (intro exI [of _ new]) auto
  next
    case False
    with 2 obtain new where new: "taken' = (taken @ [i]) @ new" "\<forall>j \<in> set new. Suc i \<le> j"
      "pick (g @ [c]) cs = (g', fold remove_at (map (\<lambda>j. j - Suc i) (rev new)) cs)"
      by (auto simp: Let_def)
    have "fold remove_at (map (\<lambda>j. j - i) (rev new)) ([c] @ cs) =
        [c] @ fold remove_at (map (\<lambda>j. j - length [c]) (map (\<lambda>j. j - i) (rev new))) cs"
      using new(2) by (intro fold_remove_shift) auto
    moreover have "map (\<lambda>j. j - length [c]) (map (\<lambda>j. j - i) (rev new)) = map (\<lambda>j. j - Suc i) (rev new)"
      by (simp add: comp_def)
    ultimately have "fold remove_at (map (\<lambda>j. j - i) (rev (i # new))) (c # cs)
        = fold remove_at (map (\<lambda>j. j - Suc i) (rev new)) cs"
      by (simp add: remove_at_def del: map_map)
    with new False show ?thesis by (intro exI [of _ "i # new"]) auto
  qed
qed

lemma pick_mset: "pick g cs = (g', r) \<Longrightarrow> mset g' + mset r = mset g + mset cs"
  by (induction g cs arbitrary: g' r rule: pick.induct) (auto split: prod.splits if_splits)

lemma pick_extends: "pick g cs = (g', r) \<Longrightarrow> \<exists>new. g' = g @ new"
  by (induction g cs arbitrary: g' r rule: pick.induct) (auto split: prod.splits if_splits)

lemma next_group_pick:
  assumes "queue \<noteq> []"
  shows "next_group queue = pick [] queue" "fst (next_group queue) \<noteq> []"
proof -
  obtain g taken where s: "select_group [] [] 0 queue = (g, taken)" by fastforce
  from select_group_pick [OF s] have p: "pick [] queue = (g, fold remove_at (rev taken) queue)" by auto
  obtain c cs where q: "queue = c # cs" using assms by (cases queue) auto
  have "g \<noteq> []" using p pick_extends [of "[c]" cs] unfolding q by (fastforce split: if_splits)
  then show "next_group queue = pick [] queue" "fst (next_group queue) \<noteq> []"
    by (simp_all add: next_group_def s p)
qed

lemma next_group_shrinks:
  assumes "queue \<noteq> []"
  shows "length (snd (next_group queue)) < length queue"
proof -
  obtain g r where p: "pick [] queue = (g, r)" by fastforce
  have "size (mset g + mset r) = size (mset [] + mset queue)" by (simp only: pick_mset [OF p])
  moreover have "g \<noteq> []" using next_group_pick [OF assms] p by simp
  ultimately show ?thesis
    using next_group_pick(1) [OF assms] p by (cases g) auto
qed

function group_loop :: "scheduled_transaction list \<Rightarrow> scheduled_transaction list list" where
  "group_loop queue =
     (if queue = [] then []
      else case next_group queue of (current_group, remaining) \<Rightarrow>
             current_group # group_loop remaining)"
  by pat_completeness auto
termination
proof (relation "measure length", goal_cases)
  case 1
  show ?case by simp
next
  case (2 queue g r)
  then show ?case using next_group_shrinks [of queue] by (metis in_measure snd_conv)
qed

declare group_loop.simps [simp del]

definition schedule_transactions ::
    "blake3 \<Rightarrow> transaction list \<Rightarrow> scheduled_transaction list list" where
  "schedule_transactions H txs = group_loop (sort_by sched_le (to_scheduled H txs))"

definition combined_access :: "scheduled_transaction list \<Rightarrow> access_set" where
  "combined_access grp = foldl (\<lambda>acc s. access_merge acc (s_access s)) access_set_new grp"

definition detect_group_conflicts :: "scheduled_transaction list list \<Rightarrow> (nat \<times> nat) option" where
  "detect_group_conflicts groups =
     (let group_access_sets = map combined_access groups;
          n = length group_access_sets
      in find (\<lambda>(i, j). has_conflict (group_access_sets ! i) (group_access_sets ! j))
           (concat (map (\<lambda>i. map (\<lambda>j. (i, j)) [i + 1..<n]) [0..<n])))"

section \<open>The groups\<close>

interpretation sched_order: comparison sched_le
  by unfold_locales (auto simp: sched_le_def key_le_def canonical_order_key_def)

abbreviation conflicting :: "scheduled_transaction \<Rightarrow> scheduled_transaction \<Rightarrow> bool" where
  "conflicting a b \<equiv> has_conflict (s_access a) (s_access b)"

definition conflict_free :: "scheduled_transaction list \<Rightarrow> bool" where
  "conflict_free grp \<longleftrightarrow> sorted_wrt (\<lambda>a b. \<not> conflicting a b) grp"

lemma pick_conflict_free: "pick g cs = (g', r) \<Longrightarrow> conflict_free g \<Longrightarrow> conflict_free g'"
  by (induction g cs arbitrary: g' r rule: pick.induct)
    (auto simp: conflict_free_def sorted_wrt_append list_ex_iff split: prod.splits if_splits)

lemma pick_rest_conflicts:
  "pick g cs = (g', r) \<Longrightarrow> x \<in> set r \<Longrightarrow> \<exists>e \<in> set g'. conflicting e x"
proof (induction g cs arbitrary: g' r rule: pick.induct)
  case (1 g)
  then show ?case by simp
next
  case (2 g c cs)
  show ?case
  proof (cases "list_ex (\<lambda>e. conflicting e c) g")
    case True
    obtain g1 r1 where p: "pick g cs = (g1, r1)" by fastforce
    with 2 True have eqs: "g' = g1" "r = c # r1" by simp_all
    show ?thesis
    proof (cases "x = c")
      case x: True
      obtain new where "g1 = g @ new" using pick_extends [OF p] by blast
      with True x eqs show ?thesis by (auto simp: list_ex_iff)
    next
      case False
      with "2.IH"(1) [OF True p] "2.prems"(2) eqs show ?thesis by simp
    qed
  next
    case False
    with 2 show ?thesis by simp
  qed
qed

lemma group_loop_Cons:
  assumes "queue \<noteq> []"
  obtains g r where "pick [] queue = (g, r)" "group_loop queue = g # group_loop r" "g \<noteq> []"
    "length r < length queue"
proof -
  obtain g r where p: "pick [] queue = (g, r)" by fastforce
  with next_group_pick [OF assms] next_group_shrinks [OF assms] assms
  have "group_loop queue = g # group_loop r" "g \<noteq> []" "length r < length queue"
    by (simp_all add: group_loop.simps [of queue])
  with p that show ?thesis by blast
qed

lemma group_loop_mset: "mset (concat (group_loop queue)) = mset queue"
proof (induction queue rule: length_induct)
  case (1 queue)
  show ?case
  proof (cases "queue = []")
    case True
    then show ?thesis by (simp add: group_loop.simps)
  next
    case False
    then obtain g r where g: "pick [] queue = (g, r)" "group_loop queue = g # group_loop r"
      "length r < length queue" by (rule group_loop_Cons)
    with 1 pick_mset [OF g(1)] show ?thesis by simp
  qed
qed

lemma group_loop_groups: "g \<in> set (group_loop queue) \<Longrightarrow> g \<noteq> [] \<and> conflict_free g"
proof (induction queue rule: length_induct)
  case (1 queue)
  show ?case
  proof (cases "queue = []")
    case True
    with "1.prems" show ?thesis by (simp add: group_loop.simps)
  next
    case False
    then obtain g1 r where g: "pick [] queue = (g1, r)" "group_loop queue = g1 # group_loop r"
      "g1 \<noteq> []" "length r < length queue" by (rule group_loop_Cons)
    have "conflict_free g1" using pick_conflict_free [OF g(1)] by (simp add: conflict_free_def)
    with 1 g show ?thesis by auto
  qed
qed

text \<open>The greedy choice: whatever was left for a later group conflicts with every earlier one.\<close>

lemma group_loop_conflicts:
  "group_loop queue = pre @ g # post \<Longrightarrow> h \<in> set post \<Longrightarrow> x \<in> set h \<Longrightarrow> \<exists>e \<in> set g. conflicting e x"
proof (induction queue arbitrary: pre rule: length_induct)
  case (1 queue)
  have "queue \<noteq> []" using "1.prems"(1) by (auto simp: group_loop.simps)
  then obtain g1 r where g1: "pick [] queue = (g1, r)" "group_loop queue = g1 # group_loop r"
    "g1 \<noteq> []" "length r < length queue" by (rule group_loop_Cons)
  show ?case
  proof (cases pre)
    case Nil
    with "1.prems" g1(2) have "g = g1" "h \<in> set (group_loop r)" by simp_all
    then have "x \<in> set (concat (group_loop r))" using "1.prems"(3) by auto
    then have "x \<in> set r" by (metis group_loop_mset set_mset_mset)
    with pick_rest_conflicts [OF g1(1)] \<open>g = g1\<close> show ?thesis by blast
  next
    case (Cons p pre')
    with "1.prems" g1(2,4) "1.IH" show ?thesis by simp
  qed
qed

lemma has_conflict_combined:
  "has_conflict (combined_access g) a \<longleftrightarrow> (\<exists>s \<in> set g. has_conflict (s_access s) a)"
proof -
  have "has_conflict (foldl (\<lambda>acc s. access_merge acc (s_access s)) acc g) a \<longleftrightarrow>
      has_conflict acc a \<or> (\<exists>s \<in> set g. has_conflict (s_access s) a)" for acc
    by (induction g arbitrary: acc) (auto simp: has_conflict_merge)
  then show ?thesis by (simp add: combined_access_def)
qed

lemma conflicting_groups:
  "has_conflict (combined_access g) (combined_access h) \<longleftrightarrow>
     (\<exists>s \<in> set g. \<exists>t \<in> set h. conflicting s t)"
proof -
  have "has_conflict (combined_access g) (combined_access h) \<longleftrightarrow>
      (\<exists>s \<in> set g. has_conflict (combined_access h) (s_access s))"
    by (simp add: has_conflict_combined [of g] has_conflict_sym [of "combined_access h"])
  also have "\<dots> \<longleftrightarrow> (\<exists>s \<in> set g. \<exists>t \<in> set h. has_conflict (s_access t) (s_access s))"
    by (simp add: has_conflict_combined)
  finally show ?thesis using has_conflict_sym by metis
qed

lemma find_pairs_None:
  "find P (concat (map (\<lambda>i. map (\<lambda>j. (i, j)) (f i)) xs)) = None \<longleftrightarrow>
     (\<forall>i \<in> set xs. \<forall>j \<in> set (f i). \<not> P (i, j))"
  by (auto simp: find_None_iff)

lemma detect_None:
  "detect_group_conflicts groups = None \<longleftrightarrow>
     (\<forall>i j. i < j \<and> j < length groups \<longrightarrow>
        \<not> has_conflict (combined_access (groups ! i)) (combined_access (groups ! j)))"
proof -
  have "detect_group_conflicts groups = None \<longleftrightarrow>
      (\<forall>i \<in> {0..<length groups}. \<forall>j \<in> {i + 1..<length groups}.
         \<not> has_conflict (map combined_access groups ! i) (map combined_access groups ! j))"
    by (simp only: detect_group_conflicts_def Let_def find_pairs_None set_upt length_map prod.case)
  also have "\<dots> \<longleftrightarrow> (\<forall>i j. i < j \<and> j < length groups \<longrightarrow>
        \<not> has_conflict (combined_access (groups ! i)) (combined_access (groups ! j)))"
    by fastforce
  finally show ?thesis .
qed

lemma detect_schedule:
  "detect_group_conflicts (group_loop queue) = None \<longleftrightarrow> length (group_loop queue) \<le> 1"
proof
  assume none: "detect_group_conflicts (group_loop queue) = None"
  show "length (group_loop queue) \<le> 1"
  proof (rule ccontr)
    assume "\<not> length (group_loop queue) \<le> 1"
    then obtain g h post where gl: "group_loop queue = [] @ g # h # post"
      by (cases "group_loop queue"; cases "tl (group_loop queue)") auto
    have "h \<noteq> []" using group_loop_groups [of h queue] gl by simp
    then obtain x where "x \<in> set h" by (cases h) auto
    with group_loop_conflicts [OF gl, of h x] obtain e where "e \<in> set g" "conflicting e x" by auto
    then have "has_conflict (combined_access g) (combined_access h)"
      using \<open>x \<in> set h\<close> by (auto simp: conflicting_groups)
    moreover have "\<not> has_conflict (combined_access (group_loop queue ! 0)) (combined_access (group_loop queue ! 1))"
      using none [unfolded detect_None, rule_format, of 0 1] by (simp add: gl)
    ultimately show False by (simp add: gl)
  qed
next
  assume "length (group_loop queue) \<le> 1"
  then show "detect_group_conflicts (group_loop queue) = None" by (auto simp: detect_None)
qed

section \<open>Properties\<close>

definition sample_transfer :: "bytes32 \<Rightarrow> bytes32 \<Rightarrow> transaction" where
  "sample_transfer txid addr =
     \<lparr>tx_id = Hash txid, inputs = [], outputs = [], execution_payload = [],
      contract_address = Some addr, gas_limit = 0, max_fee_per_gas = 0, chain_id = 1, locktime = 0\<rparr>"

text \<open>
  C29. Scheduling loses and invents no transaction: the groups together are the scheduled
  transactions, no group is empty, and no transaction of a group conflicts with an earlier one
  of its group.
\<close>

theorem schedule_groups_correct:
  "mset (concat (schedule_transactions H txs)) = mset (to_scheduled H txs) \<and>
   list_all (\<lambda>g. g \<noteq> [] \<and> conflict_free g) (schedule_transactions H txs)"
  using group_loop_groups
  by (auto simp: schedule_transactions_def group_loop_mset list_all_iff)

text \<open>
  The groups the scheduler makes always conflict with each other: the check for conflicts
  between groups, which execution runs first and treats as an error, passes exactly when all
  transactions fit one group.
\<close>

theorem schedule_rejected_by_group_check:
  "detect_group_conflicts (schedule_transactions H txs) = None \<longleftrightarrow>
     length (schedule_transactions H txs) \<le> 1"
  by (simp add: schedule_transactions_def detect_schedule)

end
