(* ===== verification/Poly_Commit.thy ===== *)
theory Poly_Commit
  imports Core_Types "HOL-Library.More_List"
begin

text \<open>
  Polynomial commitments (\<open>src/core/crypto/verkle/polynomial_commitment.rs\<close>). The arkworks
  crates are a parameter: a scalar field \<open>'f\<close>, a group of points \<open>'g\<close> (the affine and the
  projective form of a point are the same element), dense polynomials \<open>'p\<close>, and a record of
  the library functions the code calls. \<open>dense_poly\<close> states what the library documents of
  dense polynomials. \<open>None\<close> is a panic, or a loop that does not end.
\<close>

section \<open>The library the code calls\<close>

record ('f, 'p, 'g) ark =
  from_le_mod :: "bytes32 \<Rightarrow> 'f"
  scalar_le :: "'f \<Rightarrow> bytes"
  basepoint :: 'g
  smul :: "'g \<Rightarrow> 'f \<Rightarrow> 'g"
  msm :: "'g list \<Rightarrow> 'f list \<Rightarrow> 'g"
  point_bytes :: "'g \<Rightarrow> string + bytes"
  p_from :: "'f list \<Rightarrow> 'p"
  p_coeffs :: "'p \<Rightarrow> 'f list"
  p_degree :: "'p \<Rightarrow> nat"
  p_eval :: "'p \<Rightarrow> 'f \<Rightarrow> 'f"
  p_sub :: "'p \<Rightarrow> 'p \<Rightarrow> 'p"
  p_is_zero :: "'p \<Rightarrow> bool"
  p_zero :: 'p

section \<open>The scheme\<close>

datatype pc_error =
    DegreeTooHigh
  | InvalidEvaluation
  | InvalidProof
  | PCSerializationError string

fun show_pc_error :: "pc_error \<Rightarrow> string" where
  "show_pc_error DegreeTooHigh = ''Polynomial degree too high for available generators''"
| "show_pc_error InvalidEvaluation = ''Polynomial evaluation mismatch''"
| "show_pc_error InvalidProof = ''Invalid IPA opening proof''"
| "show_pc_error (PCSerializationError msg) = ''Serialization error: '' @ msg"

record 'g polynomial_commitment =
  generators :: "'g list"
  random_point :: 'g

datatype 'g commitment = Commitment (point_of: 'g)

record ('f, 'g) ipa_proof =
  final_commitment :: "'g commitment"
  proof_scalars :: "'f list"

record ('f, 'g) opening_proof =
  quotient_commitment :: "'g commitment"
  ipa_of :: "('f, 'g) ipa_proof"
  op_point :: 'f
  op_value :: 'f

text \<open>The generators: hash a tag, an index and a counter until the scalar is not zero.\<close>

partial_function (option) hash_to_curve ::
    "('f::field, 'p, 'g) ark \<Rightarrow> blake3 \<Rightarrow> string \<Rightarrow> nat \<Rightarrow> u64 \<Rightarrow> 'g option" where
  "hash_to_curve A H tag index counter =
     (let scalar = from_le_mod A
            (H (str_bytes tag @ to_le_bytes (word_of_nat index :: u64) @ to_le_bytes counter))
      in if scalar \<noteq> 0 then Some (smul A (basepoint A) scalar)
         else hash_to_curve A H tag index (counter + 1))"

definition generate_generator_point ::
    "('f::field, 'p, 'g) ark \<Rightarrow> blake3 \<Rightarrow> nat \<Rightarrow> 'g option" where
  "generate_generator_point A H index = hash_to_curve A H ''KLOMANG_GENERATOR'' index 0"

fun generator_points :: "('f::field, 'p, 'g) ark \<Rightarrow> blake3 \<Rightarrow> nat list \<Rightarrow> 'g list option" where
  "generator_points A H [] = Some []"
| "generator_points A H (i # is) =
     Option.bind (generate_generator_point A H i) (\<lambda>point.
       map_option (\<lambda>points. point # points) (generator_points A H is))"

definition pc_new :: "('f::field, 'p, 'g) ark \<Rightarrow> blake3 \<Rightarrow> nat \<Rightarrow> 'g polynomial_commitment option" where
  "pc_new A H generator_count =
     Option.bind (generator_points A H [0..<generator_count]) (\<lambda>gens.
       map_option (\<lambda>point. \<lparr>generators = gens, random_point = point\<rparr>)
         (generate_generator_point A H generator_count))"

definition generate_blinding_factor :: "('f, 'p, 'g) ark \<Rightarrow> blake3 \<Rightarrow> 'f list \<Rightarrow> 'f" where
  "generate_blinding_factor A H cs =
     from_le_mod A (H (str_bytes ''KLOMANG_COMMITMENT_BLINDING'' @ concat (map (scalar_le A) cs)))"

definition commit ::
    "('f, 'p, 'g::ab_group_add) ark \<Rightarrow> blake3 \<Rightarrow> 'g polynomial_commitment \<Rightarrow> 'p
       \<Rightarrow> pc_error + 'g commitment" where
  "commit A H pc poly =
     (let cs = p_coeffs A poly
      in if length (generators pc) < length cs then Inl DegreeTooHigh
         else let base = (if cs = [] then 0 else msm A (take (length cs) (generators pc)) cs);
                  blinding_scalar = generate_blinding_factor A H cs
              in Inr (Commitment (base + smul A (random_point pc) blinding_scalar)))"

definition reconstruct_commitment_from_scalars ::
    "('f, 'p, 'g::ab_group_add) ark \<Rightarrow> blake3 \<Rightarrow> 'g polynomial_commitment \<Rightarrow> 'f list
       \<Rightarrow> pc_error + 'g commitment" where
  "reconstruct_commitment_from_scalars A H pc scalars =
     (if length (generators pc) < length scalars then Inl DegreeTooHigh
      else let base = (if scalars = [] then 0
                       else msm A (take (length scalars) (generators pc)) scalars);
               blinding = generate_blinding_factor A H scalars
           in Inr (Commitment (base + smul A (random_point pc) blinding)))"

subsection \<open>Polynomial division\<close>

text \<open>The two nested loops of the product; a zero coefficient is skipped.\<close>

definition multiply_row :: "nat \<Rightarrow> 'f::field \<Rightarrow> 'f list \<Rightarrow> 'f list \<Rightarrow> 'f list" where
  "multiply_row i a_coeff bs result_coeffs =
     fold (\<lambda>(j, b_coeff) res.
         if b_coeff = 0 then res else res[i + j := res ! (i + j) + a_coeff * b_coeff])
       (List.enumerate 0 bs) result_coeffs"

definition multiply_rows :: "'f::field list \<Rightarrow> 'f list \<Rightarrow> 'f list \<Rightarrow> 'f list" where
  "multiply_rows as bs result_coeffs =
     fold (\<lambda>(i, a_coeff) res. if a_coeff = 0 then res else multiply_row i a_coeff bs res)
       (List.enumerate 0 as) result_coeffs"

definition naive_polynomial_multiply :: "('f::field, 'p, 'g) ark \<Rightarrow> 'p \<Rightarrow> 'p \<Rightarrow> 'p" where
  "naive_polynomial_multiply A a b =
     (if p_is_zero A a \<or> p_is_zero A b then p_zero A
      else let result_len = length (p_coeffs A a) + length (p_coeffs A b) - 1
           in p_from A (multiply_rows (p_coeffs A a) (p_coeffs A b) (replicate result_len 0)))"

partial_function (option) division_loop ::
    "('f::field, 'p, 'g) ark \<Rightarrow> 'p \<Rightarrow> 'f \<Rightarrow> 'f list \<Rightarrow> 'p \<Rightarrow> 'f list option" where
  "division_loop A denominator den_leading_coeff quotient_coeffs remainder =
     (let den_deg = p_degree A denominator; rem_deg = p_degree A remainder
      in if rem_deg < den_deg then Some quotient_coeffs
         else if length (p_coeffs A remainder) \<le> rem_deg \<or> den_leading_coeff = 0 then None
         else
           let quotient_coeff = p_coeffs A remainder ! rem_deg * inverse den_leading_coeff;
               quotient_term = p_from A ((replicate (rem_deg - den_deg + 1) 0)
                 [rem_deg - den_deg := quotient_coeff]);
               subtract_term = naive_polynomial_multiply A quotient_term denominator
           in division_loop A denominator den_leading_coeff (quotient_coeffs @ [quotient_coeff])
                (p_sub A remainder subtract_term))"

definition polynomial_division :: "('f::field, 'p, 'g) ark \<Rightarrow> 'p \<Rightarrow> 'p \<Rightarrow> 'p option" where
  "polynomial_division A numerator denominator =
     (let num_deg = p_degree A numerator; den_deg = p_degree A denominator
      in if num_deg < den_deg then Some (p_from A [])
         else if length (p_coeffs A denominator) \<le> den_deg then None
         else map_option (\<lambda>quotient_coeffs. p_from A (rev quotient_coeffs))
                (division_loop A denominator (p_coeffs A denominator ! den_deg) [] numerator))"

definition compute_quotient_polynomial ::
    "('f::field, 'p, 'g) ark \<Rightarrow> 'p \<Rightarrow> 'f \<Rightarrow> 'f \<Rightarrow> 'p option" where
  "compute_quotient_polynomial A poly point value =
     (case p_coeffs A poly of
        [] \<Rightarrow> None
      | c # cs \<Rightarrow>
          polynomial_division A (p_from A ((c - value) # cs)) (p_from A [- point, 1]))"

subsection \<open>Opening and verification\<close>

definition generate_ipa_proof ::
    "('f, 'p, 'g::ab_group_add) ark \<Rightarrow> blake3 \<Rightarrow> 'g polynomial_commitment \<Rightarrow> 'p
       \<Rightarrow> pc_error + ('f, 'g) ipa_proof" where
  "generate_ipa_proof A H pc poly =
     bind_res (commit A H pc poly) (\<lambda>final.
       Inr \<lparr>final_commitment = final, proof_scalars = p_coeffs A poly\<rparr>)"

definition pc_open ::
    "('f::field, 'p, 'g::ab_group_add) ark \<Rightarrow> blake3 \<Rightarrow> 'g polynomial_commitment \<Rightarrow> 'p \<Rightarrow> 'f \<Rightarrow> 'f
       \<Rightarrow> (pc_error + ('f, 'g) opening_proof) option" where
  "pc_open A H pc poly point value =
     (if p_eval A poly point \<noteq> value then Some (Inl InvalidEvaluation)
      else map_option (\<lambda>quotient.
             bind_res (commit A H pc quotient) (\<lambda>qc.
             bind_res (generate_ipa_proof A H pc quotient) (\<lambda>ipa.
               Inr \<lparr>quotient_commitment = qc, ipa_of = ipa, op_point = point, op_value = value\<rparr>)))
             (compute_quotient_polynomial A poly point value))"

definition reconstruct_polynomial_from_quotient :: "'f::field list \<Rightarrow> 'f \<Rightarrow> 'f \<Rightarrow> 'f list" where
  "reconstruct_polynomial_from_quotient qs point value =
     (- point * (case qs of [] \<Rightarrow> 0 | q # _ \<Rightarrow> q) + value) #
     map (\<lambda>i. qs ! (i - 1) - point * (if i < length qs then qs ! i else 0)) [1..<length qs + 1]"

definition verify_ipa_proof ::
    "('f::field, 'p, 'g::ab_group_add) ark \<Rightarrow> blake3 \<Rightarrow> 'g polynomial_commitment \<Rightarrow> 'g commitment
       \<Rightarrow> ('f, 'g) opening_proof \<Rightarrow> pc_error + bool" where
  "verify_ipa_proof A H pc cm prf =
     bind_res (reconstruct_commitment_from_scalars A H pc (proof_scalars (ipa_of prf))) (\<lambda>reconstructed.
       if reconstructed \<noteq> final_commitment (ipa_of prf) then Inr False
       else if reconstructed \<noteq> quotient_commitment prf then Inr False
       else let p_cs = reconstruct_polynomial_from_quotient (proof_scalars (ipa_of prf))
                         (op_point prf) (op_value prf)
            in bind_res (commit A H pc (p_from A p_cs)) (\<lambda>expected. Inr (expected = cm)))"

definition pc_verify ::
    "('f::field, 'p, 'g::ab_group_add) ark \<Rightarrow> blake3 \<Rightarrow> 'g polynomial_commitment \<Rightarrow> 'g commitment
       \<Rightarrow> ('f, 'g) opening_proof \<Rightarrow> pc_error + bool" where
  "pc_verify A H pc cm prf = verify_ipa_proof A H pc cm prf"

section \<open>What dense polynomials promise\<close>

fun horner :: "'f::field list \<Rightarrow> 'f \<Rightarrow> 'f" where
  "horner [] x = 0"
| "horner (c # cs) x = c + x * horner cs x"

definition sub_coeffs :: "'f::field list \<Rightarrow> 'f list \<Rightarrow> 'f list" where
  "sub_coeffs ps qs =
     map (\<lambda>i. nth_default 0 ps i - nth_default 0 qs i) [0..<max (length ps) (length qs)]"

definition dense_poly :: "('f::field, 'p, 'g) ark \<Rightarrow> bool" where
  "dense_poly A \<longleftrightarrow>
     (\<forall>cs. p_coeffs A (p_from A cs) = strip_while ((=) 0) cs) \<and>
     (\<forall>p. strip_while ((=) 0) (p_coeffs A p) = p_coeffs A p) \<and>
     (\<forall>p. p_degree A p = length (p_coeffs A p) - 1) \<and>
     (\<forall>p x. p_eval A p x = horner (p_coeffs A p) x) \<and>
     (\<forall>p q. p_coeffs A (p_sub A p q) = strip_while ((=) 0) (sub_coeffs (p_coeffs A p) (p_coeffs A q))) \<and>
     (\<forall>p. p_is_zero A p \<longleftrightarrow> p_coeffs A p = []) \<and> p_coeffs A (p_zero A) = []"

lemma dense_polyD:
  assumes "dense_poly A"
  shows "p_coeffs A (p_from A cs) = strip_while ((=) 0) cs"
    "strip_while ((=) 0) (p_coeffs A p) = p_coeffs A p"
    "p_degree A p = length (p_coeffs A p) - 1"
    "p_eval A p x = horner (p_coeffs A p) x"
    "p_coeffs A (p_sub A p q) = strip_while ((=) 0) (sub_coeffs (p_coeffs A p) (p_coeffs A q))"
    "p_is_zero A p \<longleftrightarrow> p_coeffs A p = []" "p_coeffs A (p_zero A) = []"
  using assms by (simp_all add: dense_poly_def)

subsection \<open>Evaluation\<close>

lemma horner_append: "horner (cs @ ds) x = horner cs x + x ^ length cs * horner ds x"
  by (induction cs) (simp_all add: algebra_simps)

lemma horner_snoc: "horner (cs @ [c]) x = horner cs x + c * x ^ length cs"
  by (simp add: horner_append)

lemma horner_strip [simp]: "horner (strip_while ((=) 0) cs) x = horner cs x"
  by (induction cs rule: rev_induct) (simp_all add: horner_snoc)

subsection \<open>Synthetic division\<close>

text \<open>The quotient by \<open>x - z\<close>, on coefficients from the highest to the lowest.\<close>

fun synthetic :: "'f::field \<Rightarrow> 'f list \<Rightarrow> 'f list" where
  "synthetic z (c # d # cs) = c # synthetic z ((d + c * z) # cs)"
| "synthetic z [c] = []"
| "synthetic z [] = []"

definition synthetic_quotient :: "'f::field \<Rightarrow> 'f list \<Rightarrow> 'f list" where
  "synthetic_quotient z cs = rev (synthetic z (rev cs))"

lemma length_synthetic [simp]: "length (synthetic z hs) = length hs - 1"
  by (induction z hs rule: synthetic.induct) simp_all

lemma synthetic_const: "synthetic z (hs @ [c]) = synthetic z (hs @ [d])"
  by (induction z "hs @ [c]" arbitrary: hs rule: synthetic.induct)
    (auto simp: Cons_eq_append_conv append_eq_Cons_conv split: list.splits)

lemma synthetic_drop_zeros:
  "filter (\<lambda>q. q \<noteq> 0) (synthetic z (dropWhile ((=) 0) hs)) = filter (\<lambda>q. q \<noteq> 0) (synthetic z hs)"
proof (induction hs)
  case Nil
  then show ?case by simp
next
  case (Cons c hs)
  then show ?case by (cases hs) auto
qed

text \<open>The coefficients a quotient stands for: \<open>(x - z) * q + v\<close>.\<close>

fun shifted :: "'f::field \<Rightarrow> 'f list \<Rightarrow> 'f list" where
  "shifted z [] = []"
| "shifted z [q] = [q]"
| "shifted z (q # q' # qs) = (q - z * q') # shifted z (q' # qs)"

lemma length_shifted [simp]: "length (shifted z qs) = length qs"
  by (induction z qs rule: shifted.induct) simp_all

lemma shifted_nth:
  "i < length qs \<Longrightarrow> shifted z qs ! i = qs ! i - z * (if Suc i < length qs then qs ! Suc i else 0)"
  by (induction z qs arbitrary: i rule: shifted.induct) (auto simp: nth_Cons split: nat.splits)

lemma reconstruct_eq:
  "reconstruct_polynomial_from_quotient qs z v = (v - z * (case qs of [] \<Rightarrow> 0 | q # _ \<Rightarrow> q)) # shifted z qs"
proof -
  have "map (\<lambda>i. qs ! (i - 1) - z * (if i < length qs then qs ! i else 0)) [1..<length qs + 1] = shifted z qs"
  proof -
    have "[1..<length qs + 1] = map Suc [0..<length qs]" by (simp add: map_Suc_upt del: upt_Suc)
    then show ?thesis by (simp only: map_map) (rule nth_equalityI, simp_all add: shifted_nth)
  qed
  then show ?thesis by (simp add: reconstruct_polynomial_from_quotient_def split: list.split)
qed

lemma horner_shifted:
  "x * horner (shifted z qs) x - z * (case qs of [] \<Rightarrow> 0 | q # _ \<Rightarrow> q) = (x - z) * horner qs x"
proof (induction z qs rule: shifted.induct)
  case (3 z q q' qs)
  then have "x * horner (shifted z (q' # qs)) x = z * q' + (x - z) * horner (q' # qs) x"
    by (simp only: list.case diff_eq_eq add.commute)
  then have "x * horner (shifted z (q # q' # qs)) x = x * (q - z * q' + (z * q' + (x - z) * horner (q' # qs) x))"
    by (simp only: shifted.simps horner.simps)
  then show ?case by (simp add: algebra_simps)
qed (simp_all add: algebra_simps)

lemma horner_reconstruct:
  "horner (reconstruct_polynomial_from_quotient qs z v) x = (x - z) * horner qs x + v"
  using horner_shifted [of x z qs] by (simp add: reconstruct_eq algebra_simps)

lemma reconstruct_snoc:
  "reconstruct_polynomial_from_quotient (qs @ [c]) z v =
     butlast (reconstruct_polynomial_from_quotient qs z v)
       @ [last (reconstruct_polynomial_from_quotient qs z v) - z * c, c]"
proof (cases qs)
  case Nil
  then show ?thesis by (simp add: reconstruct_eq)
next
  case (Cons q qs')
  have "shifted z ((q # qs') @ [c]) = butlast (shifted z (q # qs')) @ [last (shifted z (q # qs')) - z * c, c]"
    for q qs'
    by (induction qs' arbitrary: q) (auto simp flip: length_0_conv)
  from this [of q qs'] Cons show ?thesis by (auto simp: reconstruct_eq simp flip: length_0_conv)
qed

lemma reconstruct_synthetic:
  "hs \<noteq> [] \<Longrightarrow>
     reconstruct_polynomial_from_quotient (rev (synthetic z hs)) z (horner (rev hs) z) = rev hs"
proof (induction z hs rule: synthetic.induct)
  case (1 z c d cs)
  have "horner (rev ((d + c * z) # cs)) z = horner (rev (c # d # cs)) z"
    by (simp add: horner_append algebra_simps)
  with 1 show ?case by (simp add: reconstruct_snoc)
qed (simp_all add: reconstruct_eq)

subsection \<open>The division by a linear polynomial\<close>

lemma strip_while_rev: "strip_while P (rev hs) = rev (dropWhile P hs)"
  by (simp add: strip_while_def)

lemma multiply_rows_zeros:
  "multiply_rows (replicate n 0 @ [c]) bs res = (if c = 0 then res else multiply_row n c bs res)"
proof -
  have skip: "fold (\<lambda>(i, a_coeff) res. if a_coeff = 0 then res else multiply_row i a_coeff bs res)
      (List.enumerate m (replicate n 0)) res = res" for m n
    by (induction n arbitrary: m) simp_all
  show ?thesis
    unfolding multiply_rows_def enumerate_append_eq fold_append o_apply skip by simp
qed

lemma multiply_linear:
  assumes "dense_poly A" "c \<noteq> 0"
  shows "p_coeffs A (naive_polynomial_multiply A (p_from A ((replicate (Suc n) 0)[n := c])) (p_from A [- z, 1]))
     = replicate n 0 @ [- (c * z), c]"
proof -
  have upd: "(replicate (Suc n) 0)[n := c] = replicate n 0 @ [c]"
    by (induction n) simp_all
  have a: "p_coeffs A (p_from A (replicate n 0 @ [c])) = replicate n 0 @ [c]"
    using assms by (simp add: dense_polyD(1))
  have b: "p_coeffs A (p_from A [- z, 1]) = [- z, 1]" using assms by (simp add: dense_polyD(1))
  have len: "length (replicate n 0 @ [c]) + length [- z, 1] - 1 = n + 2" by simp
  have row: "multiply_row n c [- z, 1] (replicate (n + 2) 0) = replicate n 0 @ [- (c * z), c]"
  proof -
    have "replicate (n + 2) (0::'a) = replicate n 0 @ [0, 0]" by (induction n) simp_all
    then show ?thesis by (simp only:) (simp add: multiply_row_def list_update_append nth_append)
  qed
  have "naive_polynomial_multiply A (p_from A (replicate n 0 @ [c])) (p_from A [- z, 1]) =
      p_from A (replicate n 0 @ [- (c * z), c])"
    unfolding naive_polynomial_multiply_def Let_def dense_polyD(6) [OF assms(1)] a b len multiply_rows_zeros row
    using assms(2) by simp
  then show ?thesis unfolding upd using assms by (simp add: dense_polyD(1))
qed

lemma sub_coeffs_snoc:
  assumes "length ps = length qs"
  shows "sub_coeffs (ps @ [c]) (qs @ [d]) = sub_coeffs ps qs @ [c - d]"
  using assms by (auto simp: sub_coeffs_def nth_default_append nth_default_nth)

lemma sub_coeffs_zeros: "sub_coeffs ps (replicate (length ps) 0) = ps"
  by (rule nth_equalityI) (simp_all add: sub_coeffs_def nth_default_def)

lemma division_loop_linear:
  assumes A: "dense_poly A"
    and r: "p_coeffs A r = rev (dropWhile ((=) 0) hs)"
  shows "division_loop A (p_from A [- z, 1]) 1 qs r = Some (qs @ filter (\<lambda>q. q \<noteq> 0) (synthetic z hs))"
proof -
  have deg: "p_degree A (p_from A [- z, 1]) = 1" using A by (simp add: dense_polyD)
  have "division_loop A (p_from A [- z, 1]) 1 qs r = Some (qs @ filter (\<lambda>q. q \<noteq> 0) (synthetic z gs))"
    if "p_coeffs A r = rev gs" "dropWhile ((=) 0) gs = gs" for gs qs r
    using that
  proof (induction gs arbitrary: qs r rule: length_induct)
    case (1 gs)
    consider "length gs \<le> 1" | c d cs where "gs = c # d # cs"
      by (cases gs; cases "tl gs") auto
    then show ?case
    proof cases
      case 1
      then have "synthetic z gs = []" by (cases gs) auto
      with 1 "1.prems"(1) show ?thesis
        by (subst division_loop.simps) (simp add: deg dense_polyD(3) [OF A, of r] Let_def)
    next
      case 2
      have c: "c \<noteq> 0"
      proof
        assume "c = 0"
        then have "dropWhile ((=) 0) (d # cs) = c # d # cs"
          using "1.prems"(2) unfolding 2 by (simp only: dropWhile.simps simp_thms if_True)
        then have "length (dropWhile ((=) 0) (d # cs)) = Suc (length (d # cs))" by (simp only: list.size)
        with length_dropWhile_le [of "(=) 0" "d # cs"] show False by simp
      qed
      let ?n = "length cs" and ?gs' = "dropWhile ((=) 0) ((d + c * z) # cs)"
      let ?t = "naive_polynomial_multiply A (p_from A ((replicate (Suc ?n) 0)[?n := c])) (p_from A [- z, 1])"
      have coeffs: "p_coeffs A r = rev cs @ [d, c]" using 2 "1.prems"(1) by simp
      have "p_coeffs A (p_sub A r ?t) = strip_while ((=) 0) (sub_coeffs (p_coeffs A r) (p_coeffs A ?t))"
        by (rule dense_polyD(5) [OF A])
      also have "sub_coeffs (p_coeffs A r) (p_coeffs A ?t) = rev ((d + c * z) # cs) @ [0]"
        unfolding coeffs multiply_linear [OF A c]
        using sub_coeffs_snoc [of "rev cs @ [d]" "replicate ?n 0 @ [- (c * z)]" c c]
          sub_coeffs_snoc [of "rev cs" "replicate ?n 0" d "- (c * z)"] sub_coeffs_zeros [of "rev cs"]
        by simp
      also have "strip_while ((=) 0) (rev ((d + c * z) # cs) @ [0]) = strip_while ((=) 0) (rev ((d + c * z) # cs))"
        by (subst strip_while_snoc) simp
      also have "\<dots> = rev ?gs'" by (rule strip_while_rev)
      finally have "p_coeffs A (p_sub A r ?t) = rev ?gs'" .
      moreover have "length ?gs' < length gs"
        using length_dropWhile_le [of "(=) 0" "(d + c * z) # cs"] unfolding 2 by (simp only: list.size)
      moreover have "dropWhile ((=) 0) ?gs' = ?gs'" by (rule dropWhile_idem)
      ultimately have "division_loop A (p_from A [- z, 1]) 1 (qs @ [c]) (p_sub A r ?t) =
          Some ((qs @ [c]) @ filter (\<lambda>q. q \<noteq> 0) (synthetic z ?gs'))"
        using "1.IH" by blast
      then have "division_loop A (p_from A [- z, 1]) 1 (qs @ [c]) (p_sub A r ?t) =
          Some (qs @ filter (\<lambda>q. q \<noteq> 0) (synthetic z gs))"
        using 2 c by (simp only: synthetic_drop_zeros) simp
      then show ?thesis
        by (subst division_loop.simps)
          (simp add: deg dense_polyD(3) [OF A, of r] coeffs Let_def nth_append del: replicate_Suc)
    qed
  qed
  from this [of r "dropWhile ((=) 0) hs" qs] r show ?thesis by (simp only: dropWhile_idem synthetic_drop_zeros)
qed

text \<open>The quotient the code computes: the quotient without its zero coefficients.\<close>

definition packed_quotient :: "'f::field \<Rightarrow> 'f list \<Rightarrow> 'f list" where
  "packed_quotient z cs = filter (\<lambda>q. q \<noteq> 0) (synthetic_quotient z cs)"

lemma compute_quotient_packed:
  assumes A: "dense_poly A" and p: "p_coeffs A p \<noteq> []"
  shows "compute_quotient_polynomial A p z v = Some (p_from A (packed_quotient z (p_coeffs A p)))"
proof -
  obtain c cs where cs: "p_coeffs A p = c # cs" using p by (cases "p_coeffs A p") auto
  let ?num = "p_from A ((c - v) # cs)" and ?den = "p_from A [- z, 1]" and ?hs = "rev cs @ [c - v]"
  let ?qs = "filter (\<lambda>q. q \<noteq> 0) (synthetic z (rev (c # cs)))"
  have den: "p_coeffs A ?den = [- z, 1]" "p_degree A ?den = 1" using A by (simp_all add: dense_polyD)
  have num: "p_coeffs A ?num = rev (dropWhile ((=) 0) ?hs)"
    using strip_while_rev [of "(=) 0" ?hs] by (simp add: dense_polyD(1) [OF A])
  have "synthetic z ?hs = synthetic z (rev (c # cs))" by (simp add: synthetic_const [of z _ "c - v" c])
  then have qs: "filter (\<lambda>q. q \<noteq> 0) (synthetic z (dropWhile ((=) 0) ?hs)) = ?qs"
    by (simp only: synthetic_drop_zeros)
  have "polynomial_division A ?num ?den = Some (p_from A (rev ?qs))"
  proof (cases "p_degree A ?num < 1")
    case True
    then have "length (synthetic z (dropWhile ((=) 0) ?hs)) = 0"
      by (simp add: dense_polyD(3) [OF A] num del: dropWhile_append)
    then have "synthetic z (dropWhile ((=) 0) ?hs) = []" by (simp only: length_0_conv)
    with qs have "?qs = []" by (simp only: filter.simps)
    with True show ?thesis by (simp add: polynomial_division_def Let_def den del: rev.simps(2))
  next
    case False
    with division_loop_linear [OF A num, of z "[]"] qs show ?thesis
      by (simp add: polynomial_division_def Let_def den synthetic_drop_zeros del: rev.simps dropWhile_append)
  qed
  then show ?thesis
    by (simp add: compute_quotient_polynomial_def cs packed_quotient_def synthetic_quotient_def
        del: rev.simps flip: rev_filter)
qed

lemma reconstruct_scalars_commit:
  "p_coeffs A p = cs \<Longrightarrow> reconstruct_commitment_from_scalars A H pc cs = commit A H pc p"
  by (simp add: reconstruct_commitment_from_scalars_def commit_def Let_def)

lemma packed_quotient_no_zero: "0 \<notin> set (packed_quotient z cs)"
  by (simp add: packed_quotient_def)

lemma strip_packed [simp]: "strip_while ((=) 0) (packed_quotient z cs) = packed_quotient z cs"
  using packed_quotient_no_zero [of z cs] by (cases "packed_quotient z cs" rule: rev_cases) auto

lemma commit_Inr: "(\<exists>cm. commit A H pc p = Inr cm) \<longleftrightarrow> length (p_coeffs A p) \<le> length (generators pc)"
  by (auto simp: commit_def Let_def)

text \<open>The opening of a polynomial at its value exists, and how it fares against any commitment.\<close>

lemma honest_opening:
  assumes "dense_poly A" "p_coeffs A p \<noteq> []" "p_eval A p z = v" "length (p_coeffs A p) \<le> length (generators pc)"
  shows "\<exists>prf. pc_open A H pc p z v = Some (Inr prf) \<and>
     proof_scalars (ipa_of prf) = packed_quotient z (p_coeffs A p) \<and>
     (\<forall>cm. pc_verify A H pc cm prf =
       Inr (commit A H pc (p_from A (reconstruct_polynomial_from_quotient
              (packed_quotient z (p_coeffs A p)) z v)) = Inr cm))"
proof -
  let ?cs = "p_coeffs A p" and ?qs = "packed_quotient z (p_coeffs A p)"
  let ?q = "p_from A ?qs" and ?r = "p_from A (reconstruct_polynomial_from_quotient ?qs z v)"
  have q: "p_coeffs A ?q = ?qs" by (simp add: dense_polyD(1) [OF assms(1)])
  have lenq: "Suc (length ?qs) \<le> length ?cs"
    using assms(2) length_filter_le [of "\<lambda>q. q \<noteq> 0" "synthetic_quotient z ?cs"]
    by (cases ?cs) (simp_all add: packed_quotient_def synthetic_quotient_def)
  then obtain qc where qc: "commit A H pc ?q = Inr qc" using assms(4) commit_Inr [of A H pc ?q] by (auto simp: q)
  have "length (p_coeffs A ?r) \<le> length (generators pc)"
    using lenq assms(4) length_strip_while_le [of "(=) 0" "reconstruct_polynomial_from_quotient ?qs z v"]
    by (simp add: dense_polyD(1) [OF assms(1)] reconstruct_eq)
  then obtain rc where rc: "commit A H pc ?r = Inr rc" using commit_Inr [of A H pc ?r] by blast
  let ?proof = "\<lparr>quotient_commitment = qc, ipa_of = \<lparr>final_commitment = qc, proof_scalars = ?qs\<rparr>,
    op_point = z, op_value = v\<rparr>"
  have "pc_open A H pc p z v = Some (Inr ?proof)"
    using assms(3) by (simp add: pc_open_def compute_quotient_packed [OF assms(1,2)] qc generate_ipa_proof_def q)
  moreover have "pc_verify A H pc cm ?proof = Inr (commit A H pc ?r = Inr cm)" for cm
    by (simp add: pc_verify_def verify_ipa_proof_def reconstruct_scalars_commit [OF q] qc rc)
  ultimately show ?thesis by (intro exI [of _ ?proof]) simp
qed

text \<open>A quotient without zero coefficients is packed as it is, and rebuilds its polynomial.\<close>

lemma rebuilt_coeffs:
  assumes "dense_poly A" "p_coeffs A p \<noteq> []" "p_eval A p z = v" "0 \<notin> set (synthetic_quotient z (p_coeffs A p))"
  shows "reconstruct_polynomial_from_quotient (packed_quotient z (p_coeffs A p)) z v = p_coeffs A p"
proof -
  have "packed_quotient z (p_coeffs A p) = rev (synthetic z (rev (p_coeffs A p)))"
    using assms(4) by (auto simp: packed_quotient_def synthetic_quotient_def filter_id_conv)
  then show ?thesis
    using reconstruct_synthetic [of "rev (p_coeffs A p)" z] assms(2,3) by (simp add: dense_polyD(4) [OF assms(1)])
qed

lemma rebuilt_commitment:
  assumes "dense_poly A" "p_coeffs A p \<noteq> []" "p_eval A p z = v" "0 \<notin> set (synthetic_quotient z (p_coeffs A p))"
  shows "commit A H pc (p_from A (reconstruct_polynomial_from_quotient
     (packed_quotient z (p_coeffs A p)) z v)) = commit A H pc p"
  by (simp add: rebuilt_coeffs [OF assms] commit_def Let_def dense_polyD(1,2) [OF assms(1)])

section \<open>Properties\<close>

text \<open>Rational numbers as the field and the group, with three generators.\<close>

definition sample_ark :: "(rat, rat list, rat) ark" where
  "sample_ark =
     \<lparr>from_le_mod = (\<lambda>_. 1), scalar_le = (\<lambda>_. []), basepoint = 1, smul = (*),
      msm = (\<lambda>bs ss. sum_list (map2 (*) bs ss)), point_bytes = (\<lambda>_. Inr []),
      p_from = strip_while ((=) 0), p_coeffs = strip_while ((=) 0),
      p_degree = (\<lambda>p. length (strip_while ((=) 0) p) - 1), p_eval = horner,
      p_sub = (\<lambda>p q. strip_while ((=) 0) (sub_coeffs (strip_while ((=) 0) p) (strip_while ((=) 0) q))),
      p_is_zero = (\<lambda>p. strip_while ((=) 0) p = []), p_zero = []\<rparr>"

definition sample_pc :: "rat polynomial_commitment" where
  "sample_pc = \<lparr>generators = [1, 10, 100], random_point = 1000\<rparr>"

lemma sample_ark_dense: "dense_poly sample_ark"
  by (simp add: dense_poly_def sample_ark_def)

text \<open>\<open>1 + 2 x + 3 x ^ 2\<close> at 1, and \<open>x ^ 2\<close> at 0, whose quotient is \<open>x\<close>.\<close>

lemma sample_commits:
  "commit sample_ark (\<lambda>_. 0) sample_pc [1, 2, 3] = Inr (Commitment 1321)"
  "commit sample_ark (\<lambda>_. 0) sample_pc [0, 0, 1] = Inr (Commitment 1100)"
  "commit sample_ark (\<lambda>_. 0) sample_pc [0, 1] = Inr (Commitment 1010)"
  by (simp_all add: commit_def generate_blinding_factor_def sample_ark_def sample_pc_def strip_while_def)

lemma sample_coeffs:
  "p_coeffs sample_ark [1, 2, 3] = [1, 2, 3]" "p_coeffs sample_ark [0, 0, 1] = [0, 0, 1]"
  "p_from sample_ark [0, 1] = [0, 1]"
  "p_eval sample_ark [1, 2, 3] 1 = 6" "p_eval sample_ark [0, 0, 1] 0 = 0"
  by (simp_all add: sample_ark_def strip_while_def)

text \<open>
  C31. An accepted opening is sound: when the verifier accepts, the commitment is the commitment of
  a polynomial that takes the claimed value at the claimed point and whose quotient by
  \<open>x - point\<close> has the scalars of the proof as coefficients, and the quotient commitment of the
  proof is the one of these scalars.
\<close>

theorem accepted_opening_sound:
  assumes "dense_poly A" "pc_verify A H pc cm prf = Inr True"
  shows "\<exists>p. commit A H pc p = Inr cm \<and> p_eval A p (op_point prf) = op_value prf \<and>
     (\<forall>x. p_eval A p x = (x - op_point prf) * horner (proof_scalars (ipa_of prf)) x + op_value prf) \<and>
     reconstruct_commitment_from_scalars A H pc (proof_scalars (ipa_of prf)) = Inr (quotient_commitment prf)"
proof -
  let ?qs = "proof_scalars (ipa_of prf)"
  let ?p = "p_from A (reconstruct_polynomial_from_quotient ?qs (op_point prf) (op_value prf))"
  have "commit A H pc ?p = Inr cm"
    "reconstruct_commitment_from_scalars A H pc ?qs = Inr (quotient_commitment prf)"
    using assms(2)
    by (auto simp: pc_verify_def verify_ipa_proof_def Let_def  split: if_splits)
  moreover have "p_eval A ?p x = (x - op_point prf) * horner ?qs x + op_value prf" for x
    by (simp add: dense_polyD(1,4) [OF assms(1)] horner_reconstruct)
  ultimately show ?thesis by (intro exI [of _ ?p]) simp
qed

text \<open>
  C32. What opening answers to the true value of a polynomial at a point, and what the verifier answers
  to the opening. For the zero polynomial \<open>open\<close> panics. For any other polynomial whose commitment
  exists, that is with at most as many coefficients as there are generators, the opening exists, its
  scalars are the coefficients of the quotient with the zero ones left out, and it is accepted exactly
  when the polynomial rebuilt from these has the same commitment. In particular it is accepted when no
  coefficient of the quotient is zero.
\<close>

theorem honest_opening_verdict:
  assumes "dense_poly A" "p_eval A p z = v"
  shows "(p_coeffs A p = [] \<longrightarrow> pc_open A H pc p z v = None) \<and>
     ((\<exists>cm. commit A H pc p = Inr cm) \<longleftrightarrow> length (p_coeffs A p) \<le> length (generators pc)) \<and>
     (p_coeffs A p \<noteq> [] \<and> commit A H pc p = Inr cm \<longrightarrow>
       (\<exists>prf. pc_open A H pc p z v = Some (Inr prf) \<and>
         proof_scalars (ipa_of prf) = packed_quotient z (p_coeffs A p) \<and>
         pc_verify A H pc cm prf =
           Inr (commit A H pc (p_from A (reconstruct_polynomial_from_quotient
                  (packed_quotient z (p_coeffs A p)) z v)) = Inr cm) \<and>
         (0 \<notin> set (synthetic_quotient z (p_coeffs A p)) \<longrightarrow> pc_verify A H pc cm prf = Inr True)))"
proof (intro conjI impI)
  show "pc_open A H pc p z v = None" if "p_coeffs A p = []"
    using that assms(2) by (simp add: pc_open_def compute_quotient_polynomial_def)
  show "(\<exists>cm. commit A H pc p = Inr cm) \<longleftrightarrow> length (p_coeffs A p) \<le> length (generators pc)"
    by (simp add: commit_def Let_def not_less)
  assume p: "p_coeffs A p \<noteq> [] \<and> commit A H pc p = Inr cm"
  let ?cs = "p_coeffs A p" and ?qs = "packed_quotient z (p_coeffs A p)"
  let ?r = "p_from A (reconstruct_polynomial_from_quotient ?qs z v)"
  have len: "length ?cs \<le> length (generators pc)" using p commit_Inr [of A H pc p] by blast
  obtain op where "pc_open A H pc p z v = Some (Inr op)" "proof_scalars (ipa_of op) = ?qs"
    and verdict: "pc_verify A H pc cm op = Inr (commit A H pc ?r = Inr cm)"
    using honest_opening [OF assms(1) conjunct1 [OF p] assms(2) len, of H] p by blast
  moreover have "commit A H pc ?r = Inr cm" if "0 \<notin> set (synthetic_quotient z ?cs)"
    using rebuilt_commitment [OF assms(1) conjunct1 [OF p] assms(2) that] p by simp
  ultimately show "\<exists>prf. pc_open A H pc p z v = Some (Inr prf) \<and> proof_scalars (ipa_of prf) = ?qs \<and>
      pc_verify A H pc cm prf = Inr (commit A H pc ?r = Inr cm) \<and>
      (0 \<notin> set (synthetic_quotient z ?cs) \<longrightarrow> pc_verify A H pc cm prf = Inr True)" by auto
qed

text \<open>The first opening is accepted; the second is honest too, and refused.\<close>

theorem honest_opening_verdict_witness:
  "(\<exists>prf. pc_open sample_ark (\<lambda>_. 0) sample_pc [1, 2, 3] 1 6 = Some (Inr prf) \<and>
      pc_verify sample_ark (\<lambda>_. 0) sample_pc (Commitment 1321) prf = Inr True) \<and>
   (\<exists>prf. pc_open sample_ark (\<lambda>_. 0) sample_pc [0, 0, 1] 0 0 = Some (Inr prf) \<and>
      pc_verify sample_ark (\<lambda>_. 0) sample_pc (Commitment 1100) prf = Inr False)"
proof
  have q: "0 \<notin> set (synthetic_quotient (1::rat) [1, 2, 3])" by (simp add: synthetic_quotient_def)
  from honest_opening_verdict [OF sample_ark_dense sample_coeffs(4), of "\<lambda>_. 0" sample_pc "Commitment 1321"] sample_commits(1) q
  show "\<exists>prf. pc_open sample_ark (\<lambda>_. 0) sample_pc [1, 2, 3] 1 6 = Some (Inr prf) \<and>
      pc_verify sample_ark (\<lambda>_. 0) sample_pc (Commitment 1321) prf = Inr True"
    by (auto simp: sample_coeffs)
  have "reconstruct_polynomial_from_quotient (packed_quotient (0::rat) [0, 0, 1]) 0 0 = [0, 1]"
    by (simp add: packed_quotient_def synthetic_quotient_def reconstruct_eq)
  with honest_opening_verdict [OF sample_ark_dense sample_coeffs(5), of "\<lambda>_. 0" sample_pc "Commitment 1100"] sample_commits(2)
  show "\<exists>prf. pc_open sample_ark (\<lambda>_. 0) sample_pc [0, 0, 1] 0 0 = Some (Inr prf) \<and>
      pc_verify sample_ark (\<lambda>_. 0) sample_pc (Commitment 1100) prf = Inr False"
    by (auto simp: sample_coeffs sample_commits)
qed

definition sample_opening :: "(rat, rat) opening_proof" where
  "sample_opening = \<lparr>quotient_commitment = Commitment 1035,
     ipa_of = \<lparr>final_commitment = Commitment 1035, proof_scalars = [5, 3]\<rparr>, op_point = 1, op_value = 6\<rparr>"

theorem accepted_opening_sound_witness:
  "\<exists>p. commit sample_ark (\<lambda>_. 0) sample_pc p = Inr (Commitment 1321) \<and> p_eval sample_ark p 1 = 6"
proof -
  have "pc_verify sample_ark (\<lambda>_. 0) sample_pc (Commitment 1321) sample_opening = Inr True"
    by (simp add: pc_verify_def verify_ipa_proof_def reconstruct_commitment_from_scalars_def sample_opening_def
        generate_blinding_factor_def commit_def reconstruct_eq sample_ark_def sample_pc_def strip_while_def Let_def)
  from accepted_opening_sound [OF sample_ark_dense this] show ?thesis
    by (auto simp: sample_opening_def)
qed

end
