(* ===== verification/V_Trie.thy ===== *)
theory V_Trie
  imports Storage Poly_Commit Transaction Emission
begin

text \<open>
  The storage-backed Verkle tree (\<open>src/core/state/v_trie.rs\<close>): a 256-ary tree of depth 32 whose
  nodes are entries of the key-value store, with a cache of node commitments. \<open>VerkleTree<S>\<close> is
  modelled at \<open>S = MemoryStorage\<close>, the crate's only storage. A path is the list of bytes from the
  root; a 32-byte key is a 256-bit word. \<open>compute_node_commitment\<close> takes the height of the node,
  \<open>32 - depth\<close>, so that its recursion is structural; the code calls it with depths up to 32 only.
\<close>

section \<open>Data\<close>

definition VERKLE_RADIX :: nat where "VERKLE_RADIX = 256"
definition KEY_SIZE :: nat where "KEY_SIZE = 32"
definition TOTAL_SUPPLY_KEY :: bytes32 where "TOTAL_SUPPLY_KEY = 0"

datatype proof_type = Membership | NonMembership

record gas_fee_witness =
  total_gas_fee :: u128
  miner_share :: u128
  fullnode_share :: u128

record verkle_proof =
  proof_type_of :: proof_type
  proof_path :: bytes
  siblings :: "bytes32 list"
  leaf_value :: "bytes option"
  proof_root :: bytes32
  gas_fee_distribution :: "gas_fee_witness option"

record 'g cached_node =
  cached_commitment :: "'g commitment option"

record ('f, 'g) verkle_tree =
  vt_storage :: memory_storage
  vt_pc :: "'g polynomial_commitment"
  commitment_cache :: "(bytes, 'g cached_node) fmap"
  empty_subtree_roots :: "bytes32 list"
  empty_subtree_scalars :: "'f list"
  root_cache :: "bytes32 option"
  dirty :: bool
  pruned_keys :: "bytes fset"

section \<open>Nodes in the store\<close>

definition key_for_path :: "bytes \<Rightarrow> bytes" where
  "key_for_path path = word_of_nat (length path) # path"

definition serialize_node :: "bytes option \<Rightarrow> bytes" where
  "serialize_node value =
     (case value of
        Some inner \<Rightarrow> 1 # to_be_bytes (word_of_nat (length inner) :: u32) @ inner
      | None \<Rightarrow> [0])"

definition deserialize_node :: "bytes \<Rightarrow> bytes option option" where
  "deserialize_node encoded =
     (case encoded of
        [] \<Rightarrow> None
      | tag # rest \<Rightarrow>
          if tag = 0 then Some None
          else if tag = 1 then
            if length encoded < 5 then None
            else let size = unat (from_be_bytes (take 4 rest) :: u32)
                 in if length encoded \<noteq> 5 + size then None else Some (Some (drop 4 rest))
          else None)"

definition node_exists :: "memory_storage \<Rightarrow> bytes \<Rightarrow> bool" where
  "node_exists s path \<longleftrightarrow> storage_get s (key_for_path path) \<noteq> None"

definition get_node_value :: "memory_storage \<Rightarrow> bytes \<Rightarrow> bytes option" where
  "get_node_value s path =
     Option.bind (Option.bind (storage_get s (key_for_path path)) deserialize_node) (\<lambda>v. v)"

definition ensure_node :: "bytes \<Rightarrow> ('f, 'g) verkle_tree \<Rightarrow> ('f, 'g) verkle_tree" where
  "ensure_node path t =
     (if storage_get (vt_storage t) (key_for_path path) = None
      then t\<lparr>vt_storage := storage_put (key_for_path path) (serialize_node None) (vt_storage t)\<rparr>
      else t)"

definition set_node_value :: "bytes \<Rightarrow> bytes option \<Rightarrow> ('f, 'g) verkle_tree \<Rightarrow> ('f, 'g) verkle_tree" where
  "set_node_value path value t =
     t\<lparr>vt_storage := storage_put (key_for_path path) (serialize_node value) (vt_storage t)\<rparr>"

definition invalidate_path_cache :: "bytes \<Rightarrow> ('f, 'g) verkle_tree \<Rightarrow> ('f, 'g) verkle_tree" where
  "invalidate_path_cache path t =
     t\<lparr>commitment_cache := fold (\<lambda>i. fmdrop (take i path)) [0..<length path + 1] (commitment_cache t),
       root_cache := None\<rparr>"

section \<open>Commitments\<close>

definition commitment_root_hash :: "('f, 'p, 'g) ark \<Rightarrow> blake3 \<Rightarrow> 'g commitment \<Rightarrow> core_error + bytes32" where
  "commitment_root_hash A H cm =
     bind_res (map_err (\<lambda>e. SerializationError (''Failed to serialize commitment: '' @ e))
                (point_bytes A (point_of cm)))
       (\<lambda>bytes. Inr (H bytes))"

definition value_to_scalar :: "('f, 'p, 'g) ark \<Rightarrow> blake3 \<Rightarrow> bytes \<Rightarrow> 'f" where
  "value_to_scalar A H value = from_le_mod A (H value)"

definition commit_coeffs ::
    "('f, 'p, 'g::ab_group_add) ark \<Rightarrow> blake3 \<Rightarrow> 'g polynomial_commitment \<Rightarrow> string \<Rightarrow> 'f list
       \<Rightarrow> core_error + 'g commitment" where
  "commit_coeffs A H pc msg cs =
     map_err (\<lambda>e. PolynomialCommitmentError (msg @ show_pc_error e)) (commit A H pc (p_from A cs))"

text \<open>The roots of empty subtrees, from the one at the given height down to the leaves.\<close>

fun empty_roots ::
    "('f, 'p, 'g::ab_group_add) ark \<Rightarrow> blake3 \<Rightarrow> 'g polynomial_commitment \<Rightarrow> nat
       \<Rightarrow> core_error + bytes32 list" where
  "empty_roots A H pc 0 =
     bind_res (commit_coeffs A H pc ''Failed to commit empty polynomial: '' []) (\<lambda>cm.
     bind_res (commitment_root_hash A H cm) (\<lambda>root. Inr [root]))"
| "empty_roots A H pc (Suc height) =
     bind_res (empty_roots A H pc height) (\<lambda>roots.
     bind_res (commit_coeffs A H pc ''Failed to commit subtree polynomial: ''
                 (replicate VERKLE_RADIX (from_le_mod A (hd roots)))) (\<lambda>cm.
     bind_res (commitment_root_hash A H cm) (\<lambda>root. Inr (root # roots))))"

definition compute_empty_subtree_constants ::
    "('f, 'p, 'g::ab_group_add) ark \<Rightarrow> blake3 \<Rightarrow> 'g polynomial_commitment
       \<Rightarrow> core_error + bytes32 list \<times> 'f list" where
  "compute_empty_subtree_constants A H pc =
     bind_res (empty_roots A H pc KEY_SIZE) (\<lambda>roots. Inr (roots, map (from_le_mod A) roots))"

definition empty_subtree_root_hash :: "('f, 'g) verkle_tree \<Rightarrow> nat \<Rightarrow> bytes32" where
  "empty_subtree_root_hash t depth = empty_subtree_roots t ! depth"

definition empty_subtree_scalar :: "('f, 'g) verkle_tree \<Rightarrow> nat \<Rightarrow> 'f" where
  "empty_subtree_scalar t depth = empty_subtree_scalars t ! depth"

definition leaf_coeffs :: "('f::field, 'p, 'g) ark \<Rightarrow> blake3 \<Rightarrow> memory_storage \<Rightarrow> bytes \<Rightarrow> 'f list" where
  "leaf_coeffs A H s path =
     [case get_node_value s path of Some v \<Rightarrow> value_to_scalar A H v | None \<Rightarrow> 0]"

text \<open>A child's scalar, given how to compute the root hash of an existing child.\<close>

definition child_scalar ::
    "('f, 'p, 'g) ark \<Rightarrow> (bytes \<Rightarrow> ('f, 'g) verkle_tree \<Rightarrow> (core_error + bytes32) \<times> ('f, 'g) verkle_tree)
       \<Rightarrow> bytes \<Rightarrow> nat \<Rightarrow> nat \<Rightarrow> ('f, 'g) verkle_tree \<Rightarrow> (core_error + 'f) \<times> ('f, 'g) verkle_tree" where
  "child_scalar A child_hash path depth child_index t =
     (let child_path = path @ [word_of_nat child_index]
      in if node_exists (vt_storage t) child_path
         then bind_st (child_hash child_path t) (\<lambda>child_root t'. (Inr (from_le_mod A child_root), t'))
         else (Inr (empty_subtree_scalar t (depth + 1)), t))"

definition cache_lookup :: "bytes \<Rightarrow> ('f, 'g) verkle_tree \<Rightarrow> 'g commitment option" where
  "cache_lookup path t = Option.bind (fmlookup (commitment_cache t) path) cached_commitment"

definition cache_store :: "bytes \<Rightarrow> 'g commitment \<Rightarrow> ('f, 'g) verkle_tree \<Rightarrow> ('f, 'g) verkle_tree" where
  "cache_store path cm t =
     t\<lparr>commitment_cache := fmupd path \<lparr>cached_commitment = Some cm\<rparr> (commitment_cache t)\<rparr>"

fun compute_node_commitment ::
    "('f::field, 'p, 'g::ab_group_add) ark \<Rightarrow> blake3 \<Rightarrow> nat \<Rightarrow> bytes \<Rightarrow> ('f, 'g) verkle_tree
       \<Rightarrow> (core_error + 'g commitment) \<times> ('f, 'g) verkle_tree" where
  "compute_node_commitment A H 0 path t =
     (case cache_lookup path t of
        Some cm \<Rightarrow> (Inr cm, t)
      | None \<Rightarrow>
          bind_st (commit_coeffs A H (vt_pc t) ''Failed to commit leaf: '' (leaf_coeffs A H (vt_storage t) path), t)
            (\<lambda>cm t'. (Inr cm, cache_store path cm t')))"
| "compute_node_commitment A H (Suc height) path t =
     (case cache_lookup path t of
        Some cm \<Rightarrow> (Inr cm, t)
      | None \<Rightarrow>
          bind_st (mapM_st (child_scalar A
                     (\<lambda>child_path t'. bind_st (compute_node_commitment A H height child_path t')
                        (\<lambda>cm t''. (commitment_root_hash A H cm, t'')))
                     path (KEY_SIZE - Suc height)) [0..<VERKLE_RADIX] t)
            (\<lambda>coeffs t'. bind_st
               (commit_coeffs A H (vt_pc t') ''Failed to commit node polynomial: '' coeffs, t')
               (\<lambda>cm t''. (Inr cm, cache_store path cm t''))))"

definition compute_node_root_hash ::
    "('f::field, 'p, 'g::ab_group_add) ark \<Rightarrow> blake3 \<Rightarrow> nat \<Rightarrow> bytes \<Rightarrow> ('f, 'g) verkle_tree
       \<Rightarrow> (core_error + bytes32) \<times> ('f, 'g) verkle_tree" where
  "compute_node_root_hash A H height path t =
     bind_st (compute_node_commitment A H height path t)
       (\<lambda>cm t'. (commitment_root_hash A H cm, t'))"

definition get_root ::
    "('f::field, 'p, 'g::ab_group_add) ark \<Rightarrow> blake3 \<Rightarrow> ('f, 'g) verkle_tree
       \<Rightarrow> (core_error + bytes32) \<times> ('f, 'g) verkle_tree" where
  "get_root A H t =
     (case (dirty t, root_cache t) of
        (False, Some cached_root) \<Rightarrow> (Inr cached_root, t)
      | _ \<Rightarrow> bind_st (compute_node_root_hash A H KEY_SIZE [] t)
               (\<lambda>root t'. (Inr root, t'\<lparr>root_cache := Some root, dirty := False\<rparr>)))"

section \<open>Operations\<close>

definition tree_new ::
    "('f::field, 'p, 'g::ab_group_add) ark \<Rightarrow> blake3 \<Rightarrow> memory_storage
       \<Rightarrow> (core_error + ('f, 'g) verkle_tree) option" where
  "tree_new A H s =
     map_option (\<lambda>pc.
       bind_res (compute_empty_subtree_constants A H pc) (\<lambda>(roots, scalars).
         Inr (ensure_node []
           \<lparr>vt_storage = s, vt_pc = pc, commitment_cache = fmempty, empty_subtree_roots = roots,
            empty_subtree_scalars = scalars, root_cache = None, dirty = True, pruned_keys = {||}\<rparr>)))
       (pc_new A H VERKLE_RADIX)"

fun ensure_path :: "bytes \<Rightarrow> bytes \<Rightarrow> ('f, 'g) verkle_tree \<Rightarrow> ('f, 'g) verkle_tree" where
  "ensure_path path [] t = t"
| "ensure_path path (byte # rest) t = ensure_path (path @ [byte]) rest (ensure_node (path @ [byte]) t)"

definition tree_insert :: "bytes32 \<Rightarrow> bytes \<Rightarrow> ('f, 'g) verkle_tree \<Rightarrow> ('f, 'g) verkle_tree" where
  "tree_insert key value t =
     (let path = take KEY_SIZE (array_bytes key);
          t1 = ensure_path [] path (ensure_node [] (t\<lparr>dirty := True\<rparr>))
      in invalidate_path_cache path (set_node_value path (Some value) t1))"

definition tree_get :: "bytes32 \<Rightarrow> ('f, 'g) verkle_tree \<Rightarrow> core_error + bytes option" where
  "tree_get key t =
     (if array_bytes key |\<in>| pruned_keys t then Inl (PrunedData ''Key has been pruned'')
      else Inr (get_node_value (vt_storage t) (take KEY_SIZE (array_bytes key))))"

text \<open>The loop over the parents of a path, from the deepest up, until one has a child.\<close>

definition has_children :: "bytes \<Rightarrow> ('f, 'g) verkle_tree \<Rightarrow> bool" where
  "has_children parent_path t \<longleftrightarrow>
     list_ex (\<lambda>child_idx.
        let child_path = parent_path @ [word_of_nat child_idx]
        in storage_get (vt_storage t) (key_for_path child_path) \<noteq> None \<and> child_path |\<notin>| pruned_keys t)
       [0..<VERKLE_RADIX]"

fun cleanup_loop :: "bytes \<Rightarrow> nat \<Rightarrow> ('f, 'g) verkle_tree \<Rightarrow> ('f, 'g) verkle_tree" where
  "cleanup_loop path 0 t = t"
| "cleanup_loop path (Suc depth) t =
     (let parent_path = take depth path
      in if \<not> has_children parent_path t \<and> 0 < depth
         then cleanup_loop path depth
                (invalidate_path_cache parent_path
                  (t\<lparr>vt_storage := storage_delete (key_for_path parent_path) (vt_storage t),
                     pruned_keys := finsert parent_path (pruned_keys t)\<rparr>))
         else t)"

definition recursive_cleanup_empty_nodes :: "bytes \<Rightarrow> ('f, 'g) verkle_tree \<Rightarrow> ('f, 'g) verkle_tree" where
  "recursive_cleanup_empty_nodes path t = cleanup_loop path (length path) t"

definition prune_key ::
    "bytes32 \<Rightarrow> ('f, 'g) verkle_tree \<Rightarrow> (core_error + unit) \<times> ('f, 'g) verkle_tree" where
  "prune_key key t =
     (let t1 = t\<lparr>dirty := True\<rparr>;
          path = take KEY_SIZE (array_bytes key);
          storage_key = key_for_path path
      in if storage_get (vt_storage t1) storage_key = None
         then (Inl (PrunedData ''Key does not exist or already absent''), t1)
         else
           let t2 = invalidate_path_cache path
                 (t1\<lparr>vt_storage := storage_delete storage_key (vt_storage t1),
                     pruned_keys := finsert path (pruned_keys t1)\<rparr>)
           in (Inr (), recursive_cleanup_empty_nodes path t2))"

definition pays_zero_hash :: "bytes \<Rightarrow> bool" where
  "pays_zero_hash value =
     (case output_deserialize value of
        Inl _ \<Rightarrow> False
      | Inr out \<Rightarrow> as_bytes (pubkey_hash out) = ECON_BURN_ADDRESS)"

definition apply_state_transition ::
    "(bytes32 \<times> bytes) list \<Rightarrow> u128 \<Rightarrow> ('f, 'g) verkle_tree \<Rightarrow> (core_error + unit) \<times> ('f, 'g) verkle_tree" where
  "apply_state_transition updates new_total_supply t =
     (let t1 = t\<lparr>dirty := True\<rparr>
      in if list_ex (\<lambda>(key, value). pays_zero_hash value) updates
         then (Inl (InvalidState ''State transition blocked: attempt to send to burn address in key ''), t1)
         else
           let t2 = fold (\<lambda>(key, value). tree_insert key value) updates t1;
               t3 = tree_insert TOTAL_SUPPLY_KEY (to_le_bytes new_total_supply) t2
           in if MAX_GLOBAL_SUPPLY_NANO_SLUG < new_total_supply
              then (Inl (InvalidState ''Total supply ''), t3)
              else (Inr (), t3))"

text \<open>\<open>Clone\<close>: \<open>None\<close> is the panic of \<open>expect\<close>.\<close>

definition tree_clone ::
    "('f::field, 'p, 'g::ab_group_add) ark \<Rightarrow> blake3 \<Rightarrow> ('f, 'g) verkle_tree \<Rightarrow> ('f, 'g) verkle_tree option" where
  "tree_clone A H t =
     (case tree_new A H (vt_storage t) of
        Some (Inr cloned) \<Rightarrow>
          Some (cloned\<lparr>pruned_keys := pruned_keys t, empty_subtree_roots := empty_subtree_roots t,
            empty_subtree_scalars := empty_subtree_scalars t, commitment_cache := fmempty,
            root_cache := None, dirty := True\<rparr>)
      | _ \<Rightarrow> None)"

section \<open>Proofs\<close>

text \<open>One row of siblings: the roots of the 256 children of the node at \<open>depth\<close>.\<close>

definition sibling_root ::
    "('f::field, 'p, 'g::ab_group_add) ark \<Rightarrow> blake3 \<Rightarrow> bool \<Rightarrow> bytes \<Rightarrow> nat \<Rightarrow> nat \<Rightarrow> ('f, 'g) verkle_tree
       \<Rightarrow> (core_error + bytes32) \<times> ('f, 'g) verkle_tree" where
  "sibling_root A H path_exists path depth child_index t =
     (let empty_child_root = empty_subtree_root_hash t (depth + 1);
          child_path = path @ [word_of_nat child_index]
      in if path_exists \<and> node_exists (vt_storage t) path
         then if node_exists (vt_storage t) child_path
              then compute_node_root_hash A H (KEY_SIZE - (depth + 1)) child_path t
              else (Inr empty_child_root, t)
         else (Inr empty_child_root, t))"

text \<open>The loop over the bytes of the key: the siblings, the path found, whether it is complete.\<close>

fun proof_loop ::
    "('f::field, 'p, 'g::ab_group_add) ark \<Rightarrow> blake3 \<Rightarrow> bool \<Rightarrow> bytes \<Rightarrow> nat \<Rightarrow> bytes \<Rightarrow> ('f, 'g) verkle_tree
       \<Rightarrow> (core_error + bytes32 list \<times> bytes \<times> bool) \<times> ('f, 'g) verkle_tree" where
  "proof_loop A H path_exists path depth [] t = (Inr ([], path, path_exists), t)"
| "proof_loop A H path_exists path depth (byte # rest) t =
     bind_st (mapM_st (sibling_root A H path_exists path depth) [0..<VERKLE_RADIX] t) (\<lambda>row t1.
       let path' = (if path_exists then path @ [byte] else path);
           path_exists' = (path_exists \<and> node_exists (vt_storage t1) path')
       in bind_st (proof_loop A H path_exists' path' (depth + 1) rest t1) (\<lambda>(rows, p, ex) t2.
            (Inr (row @ rows, p, ex), t2)))"

definition generate_proof_with_witness ::
    "('f::field, 'p, 'g::ab_group_add) ark \<Rightarrow> blake3 \<Rightarrow> bytes32 \<Rightarrow> gas_fee_witness option
       \<Rightarrow> ('f, 'g) verkle_tree \<Rightarrow> (core_error + verkle_proof) \<times> ('f, 'g) verkle_tree" where
  "generate_proof_with_witness A H key gas_witness t =
     bind_st (proof_loop A H True [] 0 (take KEY_SIZE (array_bytes key)) t) (\<lambda>(sibs, path, path_exists) t1.
       let leaf = (if path_exists then get_node_value (vt_storage t1) path else None)
       in bind_st (get_root A H t1) (\<lambda>root t2.
            (Inr \<lparr>proof_type_of = (if leaf \<noteq> None then Membership else NonMembership),
                  proof_path = array_bytes key, siblings = sibs, leaf_value = leaf, proof_root = root,
                  gas_fee_distribution = gas_witness\<rparr>, t2)))"

definition generate_proof ::
    "('f::field, 'p, 'g::ab_group_add) ark \<Rightarrow> blake3 \<Rightarrow> bytes32
       \<Rightarrow> ('f, 'g) verkle_tree \<Rightarrow> (core_error + verkle_proof) \<times> ('f, 'g) verkle_tree" where
  "generate_proof A H key t = generate_proof_with_witness A H key None t"

text \<open>The loop from the deepest node to the root: the root computed and its scalar.\<close>

definition row_coeffs :: "('f, 'p, 'g) ark \<Rightarrow> verkle_proof \<Rightarrow> nat \<Rightarrow> 'f \<Rightarrow> 'f list" where
  "row_coeffs A prf depth current_scalar =
     map (\<lambda>child_index.
        if child_index = unat (proof_path prf ! depth) then current_scalar
        else from_le_mod A (siblings prf ! (depth * VERKLE_RADIX + child_index)))
       [0..<VERKLE_RADIX]"

fun verify_loop ::
    "('f, 'p, 'g::ab_group_add) ark \<Rightarrow> blake3 \<Rightarrow> 'g polynomial_commitment \<Rightarrow> verkle_proof
       \<Rightarrow> nat \<Rightarrow> bytes32 \<Rightarrow> 'f \<Rightarrow> core_error + bytes32" where
  "verify_loop A H pc prf 0 computed_root current_scalar = Inr computed_root"
| "verify_loop A H pc prf (Suc depth) computed_root current_scalar =
     bind_res (commit_coeffs A H pc ''Failed to reconstruct commitment: ''
                 (row_coeffs A prf depth current_scalar)) (\<lambda>cm.
     bind_res (commitment_root_hash A H cm) (\<lambda>reconstructed_root.
       verify_loop A H pc prf depth reconstructed_root (from_le_mod A reconstructed_root)))"

definition witness_ok :: "gas_fee_witness option \<Rightarrow> bool" where
  "witness_ok gas_witness =
     (case gas_witness of
        None \<Rightarrow> True
      | Some w \<Rightarrow>
          let expected_miner = total_gas_fee w * MINER_REWARD_PERCENT div 100;
              expected_fullnode = saturating_sub (total_gas_fee w) expected_miner
          in \<not> (miner_share w \<noteq> expected_miner \<or> fullnode_share w \<noteq> expected_fullnode))"

definition starting_scalar ::
    "('f, 'p, 'g::ab_group_add) ark \<Rightarrow> blake3 \<Rightarrow> ('f, 'g) verkle_tree \<Rightarrow> verkle_proof \<Rightarrow> core_error + 'f" where
  "starting_scalar A H t prf =
     (case leaf_value prf of
        Some value \<Rightarrow>
          bind_res (commit_coeffs A H (vt_pc t) ''Failed to commit leaf: '' [value_to_scalar A H value]) (\<lambda>cm.
          bind_res (commitment_root_hash A H cm) (\<lambda>root. Inr (from_le_mod A root)))
      | None \<Rightarrow> Inr (from_le_mod A (empty_subtree_root_hash t KEY_SIZE)))"

definition verify_proof ::
    "('f, 'p, 'g::ab_group_add) ark \<Rightarrow> blake3 \<Rightarrow> ('f, 'g) verkle_tree \<Rightarrow> verkle_proof \<Rightarrow> core_error + bool" where
  "verify_proof A H t prf =
     (if length (proof_path prf) \<noteq> KEY_SIZE then Inr False
      else if length (siblings prf) \<noteq> KEY_SIZE * VERKLE_RADIX then Inr False
      else if proof_type_of prf = Membership \<and> leaf_value prf = None then Inr False
      else if proof_type_of prf = NonMembership \<and> leaf_value prf \<noteq> None then Inr False
      else bind_res (starting_scalar A H t prf) (\<lambda>current_scalar.
           bind_res (verify_loop A H (vt_pc t) prf KEY_SIZE 0 current_scalar) (\<lambda>computed_root.
             if computed_root \<noteq> proof_root prf then Inr False
             else if \<not> witness_ok (gas_fee_distribution prf) then Inr False
             else Inr True)))"

end
