(* ===== verification/V_Trie_Store.thy ===== *)
theory V_Trie_Store
  imports V_Trie "HOL-Library.Sublist"
begin

text \<open>
  The Verkle tree as a map: what a read returns after an insertion, a pruning or a state
  transition. Rests on the laws of the key-value store only.
\<close>

section \<open>Encoding of nodes\<close>

lemma key_for_path_inject [simp]: "key_for_path p = key_for_path q \<longleftrightarrow> p = q"
  by (auto simp: key_for_path_def)

lemma deserialize_serialize_None [simp]: "deserialize_node (serialize_node None) = Some None"
  by (simp add: deserialize_node_def serialize_node_def)

lemma deserialize_serialize_Some:
  assumes "length v < 2 ^ 32"
  shows "deserialize_node (serialize_node (Some v)) = Some (Some v)"
proof -
  have "unat (word_of_nat (length v) :: u32) = length v" using assms by (simp add: unat_of_nat_small)
  then show ?thesis
    by (simp add: deserialize_node_def serialize_node_def from_to_be_bytes)
qed

lemma length_array_bytes [simp]: "length (array_bytes key) = 32"
  by simp

lemma array_bytes_inject [simp]: "array_bytes k = array_bytes k' \<longleftrightarrow> k = k'"
  by (simp add: to_be_bytes_inject)

lemma take_key [simp]: "take KEY_SIZE (array_bytes key) = array_bytes key"
  by (simp add: KEY_SIZE_def)

section \<open>Fields each step changes\<close>

lemma ensure_node_frame [simp, frames]:
  "vt_pc (ensure_node p t) = vt_pc t" "commitment_cache (ensure_node p t) = commitment_cache t"
  "empty_subtree_roots (ensure_node p t) = empty_subtree_roots t"
  "empty_subtree_scalars (ensure_node p t) = empty_subtree_scalars t"
  "root_cache (ensure_node p t) = root_cache t" "dirty (ensure_node p t) = dirty t"
  "pruned_keys (ensure_node p t) = pruned_keys t"
  by (simp_all add: ensure_node_def)

lemma ensure_path_frame [simp, frames]:
  "vt_pc (ensure_path p bs t) = vt_pc t" "commitment_cache (ensure_path p bs t) = commitment_cache t"
  "empty_subtree_roots (ensure_path p bs t) = empty_subtree_roots t"
  "empty_subtree_scalars (ensure_path p bs t) = empty_subtree_scalars t"
  "root_cache (ensure_path p bs t) = root_cache t" "dirty (ensure_path p bs t) = dirty t"
  "pruned_keys (ensure_path p bs t) = pruned_keys t"
  by (induction p bs t rule: ensure_path.induct) simp_all

lemma set_node_value_frame [simp, frames]:
  "vt_pc (set_node_value p v t) = vt_pc t" "commitment_cache (set_node_value p v t) = commitment_cache t"
  "empty_subtree_roots (set_node_value p v t) = empty_subtree_roots t"
  "empty_subtree_scalars (set_node_value p v t) = empty_subtree_scalars t"
  "root_cache (set_node_value p v t) = root_cache t" "dirty (set_node_value p v t) = dirty t"
  "pruned_keys (set_node_value p v t) = pruned_keys t"
  by (simp_all add: set_node_value_def)

lemma invalidate_frame [simp, frames]:
  "vt_pc (invalidate_path_cache p t) = vt_pc t" "vt_storage (invalidate_path_cache p t) = vt_storage t"
  "empty_subtree_roots (invalidate_path_cache p t) = empty_subtree_roots t"
  "empty_subtree_scalars (invalidate_path_cache p t) = empty_subtree_scalars t"
  "root_cache (invalidate_path_cache p t) = None" "dirty (invalidate_path_cache p t) = dirty t"
  "pruned_keys (invalidate_path_cache p t) = pruned_keys t"
  by (simp_all add: invalidate_path_cache_def)

section \<open>The store after each step\<close>

lemma storage_ensure_node:
  "storage_get (vt_storage (ensure_node p t)) k =
     (if k = key_for_path p \<and> storage_get (vt_storage t) k = None then Some (serialize_node None)
      else storage_get (vt_storage t) k)"
  by (auto simp: ensure_node_def memory.get_put)

lemma storage_ensure_path:
  "storage_get (vt_storage (ensure_path p bs t)) k =
     (if storage_get (vt_storage t) k = None \<and> (\<exists>n. 0 < n \<and> n \<le> length bs \<and> k = key_for_path (p @ take n bs))
      then Some (serialize_node None) else storage_get (vt_storage t) k)"
proof (induction p bs t rule: ensure_path.induct)
  case (1 path t)
  then show ?case by simp
next
  case (2 path byte rest t)
  have "(\<exists>n. 0 < n \<and> n \<le> length (byte # rest) \<and> k = key_for_path (path @ take n (byte # rest))) \<longleftrightarrow>
      k = key_for_path (path @ [byte]) \<or>
      (\<exists>n. 0 < n \<and> n \<le> length rest \<and> k = key_for_path ((path @ [byte]) @ take n rest))" (is "?l \<longleftrightarrow> ?r")
  proof
    assume ?l
    then obtain n where n: "0 < n" "n \<le> length (byte # rest)" "k = key_for_path (path @ take n (byte # rest))" by blast
    then show ?r by (cases n; cases "n - 1") (auto intro: exI [of _ "n - 1"])
  next
    assume ?r
    then show ?l
    proof
      assume "k = key_for_path (path @ [byte])"
      then show ?l by (intro exI [of _ 1]) simp
    next
      assume "\<exists>n. 0 < n \<and> n \<le> length rest \<and> k = key_for_path ((path @ [byte]) @ take n rest)"
      then obtain n where "0 < n" "n \<le> length rest" "k = key_for_path ((path @ [byte]) @ take n rest)" by blast
      then show ?l by (intro exI [of _ "Suc n"]) simp
    qed
  qed
  then show ?case by (auto simp: 2 storage_ensure_node)
qed

text \<open>What an insertion leaves in the store.\<close>

lemma storage_tree_insert:
  "storage_get (vt_storage (tree_insert key v t)) (key_for_path p) =
     (if p = array_bytes key then Some (serialize_node (Some v))
      else if prefix p (array_bytes key) \<and> storage_get (vt_storage t) (key_for_path p) = None
      then Some (serialize_node None)
      else storage_get (vt_storage t) (key_for_path p))"
proof -
  have "prefix p (array_bytes key) \<longleftrightarrow> p = [] \<or> (\<exists>n. 0 < n \<and> n \<le> 32 \<and> p = take n (array_bytes key))"
    (is "?l \<longleftrightarrow> ?r")
  proof
    assume ?l
    then have "p = take (length p) (array_bytes key)" "length p \<le> 32"
      using prefix_length_le [of p "array_bytes key"] by (auto simp: prefix_def)
    then show ?r by (cases "length p") (auto intro!: exI [of _ "length p"])
  qed (auto simp: take_is_prefix)
  then show ?thesis
    by (auto simp: tree_insert_def Let_def set_node_value_def memory.get_put storage_ensure_path storage_ensure_node)
qed

lemma tree_insert_frame [simp, frames]:
  "pruned_keys (tree_insert key v t) = pruned_keys t" "vt_pc (tree_insert key v t) = vt_pc t"
  "empty_subtree_roots (tree_insert key v t) = empty_subtree_roots t"
  "empty_subtree_scalars (tree_insert key v t) = empty_subtree_scalars t"
  "dirty (tree_insert key v t)" "root_cache (tree_insert key v t) = None"
  by (simp_all add: tree_insert_def Let_def)

lemma same_length_prefix: "prefix p q \<Longrightarrow> length p = length q \<Longrightarrow> p = q"
  by (metis append_eq_append_conv append_Nil2 prefix_def)

lemma get_node_value_insert:
  assumes "length v < 2 ^ 32"
  shows "get_node_value (vt_storage (tree_insert key v t)) (array_bytes k) =
     (if k = key then Some v else get_node_value (vt_storage t) (array_bytes k))"
  using same_length_prefix [of "array_bytes k" "array_bytes key"] deserialize_serialize_Some [OF assms]
  by (auto simp: get_node_value_def storage_tree_insert)

text \<open>What the cleanup after a deletion leaves: only shorter paths go.\<close>

lemma cleanup_loop_frame [simp, frames]:
  "vt_pc (cleanup_loop path n t) = vt_pc t"
  "empty_subtree_roots (cleanup_loop path n t) = empty_subtree_roots t"
  "empty_subtree_scalars (cleanup_loop path n t) = empty_subtree_scalars t"
  "dirty (cleanup_loop path n t) = dirty t"
  by (induction path n t rule: cleanup_loop.induct) (simp_all add: Let_def)

lemma cleanup_loop_long:
  assumes "n \<le> length p"
  shows "storage_get (vt_storage (cleanup_loop path n t)) (key_for_path p) = storage_get (vt_storage t) (key_for_path p)"
    and "p |\<in>| pruned_keys (cleanup_loop path n t) \<longleftrightarrow> p |\<in>| pruned_keys t"
  using assms
proof (induction path n t rule: cleanup_loop.induct)
  case (2 path depth t)
  {
    case 1
    with 2 show ?case by (auto simp: Let_def memory.get_del)
  next
    case 2
    with "2.IH" show ?case by (auto simp: Let_def)
  }
qed simp_all

section \<open>Reads after each operation\<close>

lemma tree_get_insert:
  assumes "length v < 2 ^ 32"
  shows "tree_get k (tree_insert key v t) =
     (if array_bytes k |\<in>| pruned_keys t then Inl (PrunedData ''Key has been pruned'')
      else if k = key then Inr (Some v) else tree_get k t)"
  by (simp add: tree_get_def get_node_value_insert [OF assms])

lemma tree_get_dirty [simp]: "tree_get k (t\<lparr>dirty := b\<rparr>) = tree_get k t"
  by (simp add: tree_get_def)

text \<open>A batch of insertions: the last value of a key is read.\<close>

lemma tree_get_inserts:
  assumes "\<forall>(key, v) \<in> set kvs. length v < 2 ^ 32"
  shows "tree_get k (fold (\<lambda>(key, v). tree_insert key v) kvs t) =
     (if array_bytes k |\<in>| pruned_keys t then Inl (PrunedData ''Key has been pruned'')
      else case map_of (rev kvs) k of Some v \<Rightarrow> Inr (Some v) | None \<Rightarrow> tree_get k t)"
  using assms
proof (induction kvs arbitrary: t)
  case Nil
  then show ?case by (simp add: tree_get_def)
next
  case (Cons kv kvs)
  obtain key v where kv: "kv = (key, v)" by (cases kv)
  have v: "length v < 2 ^ 32" and rest: "\<forall>(key, v) \<in> set kvs. length v < 2 ^ 32"
    using Cons.prems by (simp_all add: kv)
  show ?case
    using Cons.IH [OF rest, of "tree_insert key v t"] tree_get_insert [OF v, of k key t]
    by (simp add: kv map_add_def split: option.split)
qed

lemma tree_get_prune:
  "fst (prune_key key t) = Inr () \<longleftrightarrow> node_exists (vt_storage t) (array_bytes key)"
  "fst (prune_key key t) = Inr () \<Longrightarrow> tree_get k (snd (prune_key key t)) =
     (if k = key then Inl (PrunedData ''Key has been pruned'') else tree_get k t)"
  "fst (prune_key key t) \<noteq> Inr () \<Longrightarrow> tree_get k (snd (prune_key key t)) = tree_get k t"
  by (auto simp: prune_key_def Let_def node_exists_def recursive_cleanup_empty_nodes_def tree_get_def
      get_node_value_def memory.get_del cleanup_loop_long split: if_splits)

section \<open>Properties\<close>

text \<open>A small tree over the store: no commitments are asked for here.\<close>

definition sample_tree :: "(rat, rat) verkle_tree" where
  "sample_tree =
     \<lparr>vt_storage = memory_storage_new, vt_pc = \<lparr>generators = replicate 256 1, random_point = 1\<rparr>,
      commitment_cache = fmempty, empty_subtree_roots = replicate 33 0,
      empty_subtree_scalars = replicate 33 1, root_cache = None, dirty = True, pruned_keys = {||}\<rparr>"

lemma sample_tree_get [simp]: "tree_get k sample_tree = Inr None"
  by (simp add: sample_tree_def tree_get_def get_node_value_def memory_storage_new_def storage_get_def)

text \<open>
  C9. The tree is a map with a memory of what was pruned, for values shorter than 4 GiB (the length
  is encoded in 32 bits): a read returns the last value inserted under the key, whatever other keys
  were inserted; a key that was pruned stays unreadable, even
  after it is inserted again; a pruning succeeds exactly when the key has a node, and changes
  the reading of no other key.
\<close>

theorem tree_is_map:
  assumes "length v < 2 ^ 32"
  shows "(tree_get k (tree_insert key v t) =
           (if array_bytes k |\<in>| pruned_keys t then Inl (PrunedData ''Key has been pruned'')
            else if k = key then Inr (Some v) else tree_get k t)) \<and>
     (case prune_key key t of
        (Inr _, t') \<Rightarrow> node_exists (vt_storage t) (array_bytes key) \<and>
          tree_get k t' = (if k = key then Inl (PrunedData ''Key has been pruned'') else tree_get k t)
      | (Inl e, t') \<Rightarrow> \<not> node_exists (vt_storage t) (array_bytes key) \<and>
          e = PrunedData ''Key does not exist or already absent'' \<and> tree_get k t' = tree_get k t)"
proof
  show "tree_get k (tree_insert key v t) =
      (if array_bytes k |\<in>| pruned_keys t then Inl (PrunedData ''Key has been pruned'')
       else if k = key then Inr (Some v) else tree_get k t)"
    by (rule tree_get_insert [OF assms])
  obtain r t' where p: "prune_key key t = (r, t')" by (cases "prune_key key t") auto
  show "case prune_key key t of
        (Inr _, t') \<Rightarrow> node_exists (vt_storage t) (array_bytes key) \<and>
          tree_get k t' = (if k = key then Inl (PrunedData ''Key has been pruned'') else tree_get k t)
      | (Inl e, t') \<Rightarrow> \<not> node_exists (vt_storage t) (array_bytes key) \<and>
          e = PrunedData ''Key does not exist or already absent'' \<and> tree_get k t' = tree_get k t"
  proof (cases r)
    case (Inl e)
    then have "e = PrunedData ''Key does not exist or already absent''"
      using p by (auto simp: prune_key_def Let_def split: if_splits)
    with Inl tree_get_prune(1,3) [of key t] p show ?thesis by simp
  next
    case (Inr u)
    with tree_get_prune(1,2) [of key t] p show ?thesis by (simp add: unit_eq)
  qed
qed

theorem tree_is_map_witness:
  "tree_get 7 (tree_insert 7 [1, 2] sample_tree) = Inr (Some [1, 2]) \<and>
   tree_get 8 (tree_insert 7 [1, 2] sample_tree) = Inr None"
proof -
  have none: "pruned_keys sample_tree = {||}" by (simp add: sample_tree_def)
  from tree_is_map [of "[1, 2]" 7 7 sample_tree] tree_is_map [of "[1, 2]" 8 7 sample_tree]
  show ?thesis by (simp add: none)
qed

lemma transition_effect:
  assumes "\<forall>(key, v) \<in> set updates. length v < 2 ^ 32" "apply_state_transition updates supply t = (r, t')"
  shows "if \<exists>(key, v) \<in> set updates. pays_zero_hash v
     then r \<noteq> Inr () \<and> tree_get k t' = tree_get k t
     else (r = Inr () \<longleftrightarrow> supply \<le> MAX_GLOBAL_SUPPLY_NANO_SLUG) \<and>
       (array_bytes k |\<notin>| pruned_keys t \<longrightarrow>
          tree_get k t' =
            (if k = TOTAL_SUPPLY_KEY then Inr (Some (to_le_bytes supply))
             else case map_of (rev updates) k of Some v \<Rightarrow> Inr (Some v) | None \<Rightarrow> tree_get k t))"
proof -
  have len: "length (to_le_bytes supply) < 2 ^ 32" by simp
  have ex: "list_ex (\<lambda>(key, value). pays_zero_hash value) updates \<longleftrightarrow> (\<exists>(key, v) \<in> set updates. pays_zero_hash v)"
    by (auto simp: list_ex_iff)
  have pk: "pruned_keys (fold (\<lambda>(key, value). tree_insert key value) updates s) = pruned_keys s"
    for s :: "('a, 'b) verkle_tree"
    by (induction updates arbitrary: s) (simp_all add: split_beta)
  have get: "tree_get k (tree_insert TOTAL_SUPPLY_KEY (to_le_bytes supply)
        (fold (\<lambda>(key, value). tree_insert key value) updates (t\<lparr>dirty := True\<rparr>))) =
      (if k = TOTAL_SUPPLY_KEY then Inr (Some (to_le_bytes supply))
       else case map_of (rev updates) k of Some v \<Rightarrow> Inr (Some v) | None \<Rightarrow> tree_get k t)"
    if "array_bytes k |\<notin>| pruned_keys t"
    using that by (simp add: tree_get_insert [OF len] pk tree_get_inserts [OF assms(1)] split: option.split)
  show ?thesis
    using assms(2) get by (auto simp: apply_state_transition_def Let_def ex not_less split: if_splits)
qed

text \<open>
  A state transition: it is refused before any write exactly when an update encodes an output
  to the zero hash; otherwise every update and the total supply are written, and every key that
  was never pruned reads its last update, the supply key the new supply; it then fails if the
  supply is above the cap, with the writes kept.
\<close>

theorem state_transition_effect:
  assumes "\<forall>(key, v) \<in> set updates. length v < 2 ^ 32" "apply_state_transition updates supply t = (r, t')"
  shows "if \<exists>(key, v) \<in> set updates. pays_zero_hash v
     then r \<noteq> Inr () \<and> tree_get k t' = tree_get k t
     else (r = Inr () \<longleftrightarrow> supply \<le> MAX_GLOBAL_SUPPLY_NANO_SLUG) \<and>
       (array_bytes k |\<notin>| pruned_keys t \<longrightarrow>
          tree_get k t' =
            (if k = TOTAL_SUPPLY_KEY then Inr (Some (to_le_bytes supply))
             else case map_of (rev updates) k of Some v \<Rightarrow> Inr (Some v) | None \<Rightarrow> tree_get k t))"
  using transition_effect [OF assms] .

theorem state_transition_effect_witness:
  "tree_get 7 (snd (apply_state_transition [(7, [5])] 1000000000000000000 sample_tree)) = Inr (Some [5]) \<and>
   fst (apply_state_transition [(7, [5])] 1000000000000000000 sample_tree) \<noteq> Inr ()"
proof -
  obtain r t' where rt: "apply_state_transition [(7, [5])] 1000000000000000000 sample_tree = (r, t')" by fastforce
  have nz: "\<not> pays_zero_hash [5]" by (simp add: pays_zero_hash_def output_deserialize_def)
  have sup: "\<not> (1000000000000000000 :: u128) \<le> MAX_GLOBAL_SUPPLY_NANO_SLUG" by (simp add: MAX_GLOBAL_SUPPLY_NANO_SLUG_def)
  have none: "pruned_keys sample_tree = {||}" by (simp add: sample_tree_def)
  from state_transition_effect [OF _ rt, of 7] show ?thesis
    by (simp add: rt nz sup none TOTAL_SUPPLY_KEY_def)
qed

end
