(* ===== verification/V_Trie_Cache.thy ===== *)
theory V_Trie_Cache
  imports V_Trie_Store
begin

text \<open>
  The commitment cache of the Verkle tree. The specification computes the commitment of a node
  from the store alone; the cache is coherent when every entry is what the specification
  computes. Reading commitments and roots keeps it coherent and answers like the specification,
  and every operation that changes the store invalidates enough of it.
\<close>

section \<open>The specification: commitments without a cache\<close>

definition spec_child ::
    "('f, 'p, 'g) ark \<Rightarrow> 'f list \<Rightarrow> memory_storage \<Rightarrow> (bytes \<Rightarrow> core_error + bytes32) \<Rightarrow> bytes \<Rightarrow> nat \<Rightarrow> nat
       \<Rightarrow> core_error + 'f" where
  "spec_child A es s child_hash path depth i =
     (if node_exists s (path @ [word_of_nat i])
      then bind_res (child_hash (path @ [word_of_nat i])) (\<lambda>root. Inr (from_le_mod A root))
      else Inr (es ! (depth + 1)))"

fun spec_commitment ::
    "('f::field, 'p, 'g::ab_group_add) ark \<Rightarrow> blake3 \<Rightarrow> 'g polynomial_commitment \<Rightarrow> 'f list \<Rightarrow> memory_storage
       \<Rightarrow> nat \<Rightarrow> bytes \<Rightarrow> core_error + 'g commitment" where
  "spec_commitment A H pc es s 0 path =
     commit_coeffs A H pc ''Failed to commit leaf: '' (leaf_coeffs A H s path)"
| "spec_commitment A H pc es s (Suc height) path =
     bind_res (mapM_res (spec_child A es s
                 (\<lambda>p. bind_res (spec_commitment A H pc es s height p) (commitment_root_hash A H))
                 path (KEY_SIZE - Suc height)) [0..<VERKLE_RADIX])
       (commit_coeffs A H pc ''Failed to commit node polynomial: '')"

definition spec_root ::
    "('f::field, 'p, 'g::ab_group_add) ark \<Rightarrow> blake3 \<Rightarrow> 'g polynomial_commitment \<Rightarrow> 'f list \<Rightarrow> memory_storage
       \<Rightarrow> nat \<Rightarrow> bytes \<Rightarrow> core_error + bytes32" where
  "spec_root A H pc es s height path =
     bind_res (spec_commitment A H pc es s height path) (commitment_root_hash A H)"

abbreviation tree_commitment where
  "tree_commitment A H t \<equiv> spec_commitment A H (vt_pc t) (empty_subtree_scalars t) (vt_storage t)"

abbreviation tree_root where
  "tree_root A H t \<equiv> spec_root A H (vt_pc t) (empty_subtree_scalars t) (vt_storage t)"

text \<open>A commitment depends on the nodes below its path only.\<close>

lemma spec_commitment_local:
  assumes "\<And>r. storage_get s (key_for_path (path @ r)) = storage_get s' (key_for_path (path @ r))"
  shows "spec_commitment A H pc es s height path = spec_commitment A H pc es s' height path"
  using assms
proof (induction height arbitrary: path)
  case 0
  from 0 [of "[]"] show ?case by (simp add: leaf_coeffs_def get_node_value_def)
next
  case (Suc height)
  have "spec_child A es s (\<lambda>p. bind_res (spec_commitment A H pc es s height p) (commitment_root_hash A H)) path d i =
      spec_child A es s' (\<lambda>p. bind_res (spec_commitment A H pc es s' height p) (commitment_root_hash A H)) path d i" for d i
    using Suc.IH [of "path @ [word_of_nat i]"] Suc.prems [of "word_of_nat i # r" for r]
    by (simp add: spec_child_def node_exists_def)
  then show ?case by (simp cong: mapM_res_cong)
qed

section \<open>Coherence\<close>

definition coherent :: "('f::field, 'p, 'g::ab_group_add) ark \<Rightarrow> blake3 \<Rightarrow> ('f, 'g) verkle_tree \<Rightarrow> bool" where
  "coherent A H t \<longleftrightarrow>
     (\<forall>path cm. cache_lookup path t = Some cm \<longrightarrow>
        length path \<le> KEY_SIZE \<and> tree_commitment A H t (KEY_SIZE - length path) path = Inr cm)"

lemma coherentD:
  assumes "coherent A H t" "cache_lookup path t = Some cm"
  shows "length path \<le> KEY_SIZE" "tree_commitment A H t (KEY_SIZE - length path) path = Inr cm"
  using assms by (simp_all add: coherent_def)

definition root_coherent :: "('f::field, 'p, 'g::ab_group_add) ark \<Rightarrow> blake3 \<Rightarrow> ('f, 'g) verkle_tree \<Rightarrow> bool" where
  "root_coherent A H t \<longleftrightarrow>
     (\<forall>root. \<not> dirty t \<and> root_cache t = Some root \<longrightarrow> tree_root A H t KEY_SIZE [] = Inr root)"

text \<open>All of a tree but its commitment cache.\<close>

definition same_tree :: "('f, 'g) verkle_tree \<Rightarrow> ('f, 'g) verkle_tree \<Rightarrow> bool" where
  "same_tree t t' \<longleftrightarrow> t'\<lparr>commitment_cache := fmempty\<rparr> = t\<lparr>commitment_cache := fmempty\<rparr>"

lemma same_treeD:
  assumes "same_tree t t'"
  shows "vt_storage t' = vt_storage t" "vt_pc t' = vt_pc t" "empty_subtree_scalars t' = empty_subtree_scalars t"
    "empty_subtree_roots t' = empty_subtree_roots t" "root_cache t' = root_cache t" "dirty t' = dirty t"
    "pruned_keys t' = pruned_keys t"
  using assms by (cases t; cases t'; simp add: same_tree_def)+

lemma same_tree_refl [simp]: "same_tree t t"
  by (simp add: same_tree_def)

lemma same_tree_trans: "same_tree t t' \<Longrightarrow> same_tree t' t'' \<Longrightarrow> same_tree t t''"
  by (simp add: same_tree_def)

lemma same_tree_store [simp]: "same_tree t (cache_store path cm t') \<longleftrightarrow> same_tree t t'"
  by (simp add: same_tree_def cache_store_def)

lemma cache_lookup_store [simp]:
  "cache_lookup p (cache_store path cm t) = (if p = path then Some cm else cache_lookup p t)"
  by (simp add: cache_lookup_def cache_store_def)

text \<open>The invariant of a read: the cache stays coherent and nothing else changes.\<close>

abbreviation reading ::
    "('f::field, 'p, 'g::ab_group_add) ark \<Rightarrow> blake3 \<Rightarrow> ('f, 'g) verkle_tree \<Rightarrow> ('f, 'g) verkle_tree \<Rightarrow> bool" where
  "reading A H t0 t \<equiv> coherent A H t \<and> same_tree t0 t"

lemma reading_commitment: "reading A H t0 t \<Longrightarrow> tree_commitment A H t = tree_commitment A H t0"
  using same_treeD(1-3) [of t0 t] by simp

lemma coherent_store:
  assumes "reading A H t0 t" "length path \<le> KEY_SIZE"
    and "tree_commitment A H t0 (KEY_SIZE - length path) path = Inr cm"
  shows "reading A H t0 (cache_store path cm t)"
proof
  show st: "same_tree t0 (cache_store path cm t)" using assms(1) by simp
  have "tree_commitment A H (cache_store path cm t) = tree_commitment A H t0"
    using same_treeD(1-3) [OF st] by simp
  moreover have "tree_commitment A H t = tree_commitment A H t0" using reading_commitment [OF assms(1)] .
  ultimately show "coherent A H (cache_store path cm t)"
    using assms unfolding coherent_def by (simp split: if_splits)
qed

lemma answers_commit:
  assumes "reading A H t0 t" "length path \<le> KEY_SIZE"
    and "tree_commitment A H t0 (KEY_SIZE - length path) path = commit_coeffs A H (vt_pc t0) msg cs"
  shows "answers (reading A H t0) (commit_coeffs A H (vt_pc t0) msg cs)
     (bind_st (commit_coeffs A H (vt_pc t) msg cs, t) (\<lambda>cm t'. (Inr cm, cache_store path cm t')))"
  using assms coherent_store [OF assms(1,2)]
    same_treeD(2) [of t0 t]
  by (cases "commit_coeffs A H (vt_pc t0) msg cs") (simp_all add: answers_def)

text \<open>The cached computation answers like the specification.\<close>

lemma answers_commitment:
  assumes "reading A H t0 t" "length path + height = KEY_SIZE"
  shows "answers (reading A H t0) (tree_commitment A H t0 height path) (compute_node_commitment A H height path t)"
  using assms
proof (induction height arbitrary: path t)
  case 0
  show ?case
  proof (cases "cache_lookup path t")
    case None
    have eq: "vt_storage t = vt_storage t0" using "0.prems"(1) same_treeD(1) [of t0 t] by simp
    from None answers_commit [OF "0.prems"(1), of path "''Failed to commit leaf: ''" "leaf_coeffs A H (vt_storage t0) path"] "0.prems"(2)
    show ?thesis by (simp add: eq)
  next
    case (Some cm)
    with "0.prems" have "tree_commitment A H t 0 path = Inr cm" using coherentD(2) [of A H t path cm] by simp
    with Some "0.prems"(1) show ?thesis
      by (simp only: compute_node_commitment.simps option.case answers_def fst_conv snd_conv reading_commitment [symmetric])
  qed
next
  case (Suc height)
  have d: "KEY_SIZE - Suc height = length path" "length path \<le> KEY_SIZE" "KEY_SIZE - length path = Suc height"
    using Suc.prems(2) by simp_all
  show ?case
  proof (cases "cache_lookup path t")
    case (Some cm)
    with Suc.prems(1) have "tree_commitment A H t (Suc height) path = Inr cm"
      using coherentD(2) [of A H t path cm] by (simp only: d(3))
    with Some Suc.prems(1) show ?thesis
      by (simp only: compute_node_commitment.simps option.case answers_def fst_conv snd_conv reading_commitment [symmetric])
  next
    case None
    let ?hash = "\<lambda>p. bind_res (tree_commitment A H t0 height p) (commitment_root_hash A H)"
    let ?child = "child_scalar A (\<lambda>child_path t'. bind_st (compute_node_commitment A H height child_path t')
        (\<lambda>cm t''. (commitment_root_hash A H cm, t''))) path (KEY_SIZE - Suc height)"
    let ?spec = "spec_child A (empty_subtree_scalars t0) (vt_storage t0) ?hash path (KEY_SIZE - Suc height)"
    have child: "answers (reading A H t0) (?spec i) (?child i s)" if s: "reading A H t0 s" for i s
    proof (cases "node_exists (vt_storage t0) (path @ [word_of_nat i])")
      case True
      have eq: "vt_storage s = vt_storage t0" using s same_treeD(1) [of t0 s] by simp
      have ih: "answers (reading A H t0) (tree_commitment A H t0 height (path @ [word_of_nat i]))
          (compute_node_commitment A H height (path @ [word_of_nat i]) s)"
        using Suc.IH [OF s, of "path @ [word_of_nat i]"] d by simp
      have "answers (reading A H t0) (?hash (path @ [word_of_nat i]))
          (bind_st (compute_node_commitment A H height (path @ [word_of_nat i]) s)
            (\<lambda>cm t''. (commitment_root_hash A H cm, t'')))"
        by (rule answers_bind [OF ih]) (simp_all add: answers_def)
      then have "answers (reading A H t0) (bind_res (?hash (path @ [word_of_nat i])) (\<lambda>root. Inr (from_le_mod A root)))
          (bind_st (bind_st (compute_node_commitment A H height (path @ [word_of_nat i]) s)
            (\<lambda>cm t''. (commitment_root_hash A H cm, t''))) (\<lambda>child_root t'. (Inr (from_le_mod A child_root), t')))"
        by (rule answers_bind) (simp_all add: answers_def)
      with True show ?thesis by (simp add: spec_child_def child_scalar_def Let_def eq)
    next
      case False
      with s same_treeD(1,3) [of t0 s] show ?thesis
        by (simp add: spec_child_def child_scalar_def Let_def answers_def empty_subtree_scalar_def)
    qed
    have rows: "answers (reading A H t0) (mapM_res ?spec [0..<VERKLE_RADIX]) (mapM_st ?child [0..<VERKLE_RADIX] t)"
      by (rule answers_mapM [OF child Suc.prems(1)])
    have "answers (reading A H t0) (tree_commitment A H t0 (Suc height) path)
        (bind_st (mapM_st ?child [0..<VERKLE_RADIX] t)
          (\<lambda>coeffs t'. bind_st (commit_coeffs A H (vt_pc t') ''Failed to commit node polynomial: '' coeffs, t')
             (\<lambda>cm t''. (Inr cm, cache_store path cm t''))))"
      unfolding spec_commitment.simps
    proof (rule answers_bind [OF rows])
      fix cs s assume cs: "mapM_res ?spec [0..<VERKLE_RADIX] = Inr cs" and s: "reading A H t0 s"
      show "answers (reading A H t0) (commit_coeffs A H (vt_pc t0) ''Failed to commit node polynomial: '' cs)
          (bind_st (commit_coeffs A H (vt_pc s) ''Failed to commit node polynomial: '' cs, s)
            (\<lambda>cm t''. (Inr cm, cache_store path cm t'')))"
        by (rule answers_commit [OF s d(2)]) (simp only: d(3) spec_commitment.simps cs bind_res.simps)
    qed
    with None show ?thesis by (simp only: compute_node_commitment.simps option.case)
  qed
qed

lemma answers_root_hash:
  assumes "reading A H t0 t" "length path + height = KEY_SIZE"
  shows "answers (reading A H t0) (tree_root A H t0 height path) (compute_node_root_hash A H height path t)"
  unfolding spec_root_def compute_node_root_hash_def
  by (rule answers_bind [OF answers_commitment [OF assms]]) (simp_all add: answers_def)

section \<open>Operations keep the caches coherent\<close>

definition caches_ok :: "('f::field, 'p, 'g::ab_group_add) ark \<Rightarrow> blake3 \<Rightarrow> ('f, 'g) verkle_tree \<Rightarrow> bool" where
  "caches_ok A H t \<longleftrightarrow> coherent A H t \<and> root_coherent A H t"

lemma coherent_read:
  assumes "caches_ok A H t0" "reading A H t0 t"
  shows "caches_ok A H t"
proof -
  have "tree_root A H t = tree_root A H t0" using same_treeD(1-3) [of t0 t] assms(2) by simp
  then show ?thesis
    using assms same_treeD(5,6) [of t0 t] by (simp add: caches_ok_def root_coherent_def)
qed

lemma get_root_result:
  assumes "caches_ok A H t"
  shows "fst (get_root A H t) = tree_root A H t KEY_SIZE [] \<and> caches_ok A H (snd (get_root A H t)) \<and>
    vt_storage (snd (get_root A H t)) = vt_storage t \<and> vt_pc (snd (get_root A H t)) = vt_pc t \<and>
    empty_subtree_roots (snd (get_root A H t)) = empty_subtree_roots t \<and>
    empty_subtree_scalars (snd (get_root A H t)) = empty_subtree_scalars t \<and>
    pruned_keys (snd (get_root A H t)) = pruned_keys t"
proof (cases "\<not> dirty t \<and> root_cache t \<noteq> None")
  case True
  then obtain root where "root_cache t = Some root" "\<not> dirty t" by auto
  with assms show ?thesis by (simp add: get_root_def caches_ok_def root_coherent_def)
next
  case False
  let ?c = "compute_node_root_hash A H KEY_SIZE [] t"
  have g: "get_root A H t = bind_st ?c (\<lambda>root t'. (Inr root, t'\<lparr>root_cache := Some root, dirty := False\<rparr>))"
    using False by (auto simp: get_root_def split: bool.split option.split)
  have "answers (reading A H t) (tree_root A H t KEY_SIZE []) ?c"
    by (rule answers_root_hash) (use assms in \<open>simp_all add: caches_ok_def\<close>)
  then have fst: "fst ?c = tree_root A H t KEY_SIZE []" and r: "reading A H t (snd ?c)"
    by (simp_all add: answers_def)
  note same = same_treeD [of t "snd ?c"]
  show ?thesis
  proof (cases "fst ?c")
    case (Inl e)
    then have "get_root A H t = (Inl e, snd ?c)" by (cases ?c) (simp add: g)
    with Inl fst r same coherent_read [OF assms r] show ?thesis by simp
  next
    case (Inr root)
    let ?t = "(snd ?c)\<lparr>root_cache := Some root, dirty := False\<rparr>"
    have gr: "get_root A H t = (Inr root, ?t)" using Inr by (cases ?c) (simp add: g)
    have "tree_root A H ?t KEY_SIZE [] = Inr root" using Inr fst same r by simp
    then have "root_coherent A H ?t" by (simp add: root_coherent_def)
    moreover have "coherent A H ?t" using r by (simp add: coherent_def cache_lookup_def)
    ultimately show ?thesis using Inr fst same r by (simp add: gr caches_ok_def)
  qed
qed

lemma fmlookup_drops:
  "fmlookup (fold (\<lambda>i. fmdrop (take i path)) [0..<n] c) q = (if \<exists>i<n. q = take i path then None else fmlookup c q)"
  by (induction n) (auto simp: less_Suc_eq)

lemma cache_lookup_invalidate:
  "cache_lookup q (invalidate_path_cache path t) = (if prefix q path then None else cache_lookup q t)"
proof -
  have "prefix q path \<longleftrightarrow> (\<exists>i < length path + 1. q = take i path)"
  proof
    assume "prefix q path"
    then have "q = take (length q) path" "length q < length path + 1"
      using prefix_length_le [of q path] by (auto simp: prefix_def)
    then show "\<exists>i < length path + 1. q = take i path" by blast
  qed (auto simp: take_is_prefix)
  then show ?thesis
    by (auto simp: cache_lookup_def invalidate_path_cache_def fmlookup_drops simp del: upt_Suc)
qed

text \<open>A change at prefixes of a path whose cache entries are dropped keeps the rest coherent.\<close>

lemma coherent_change:
  assumes "coherent A H t" "vt_pc t' = vt_pc t" "empty_subtree_scalars t' = empty_subtree_scalars t"
    and "\<And>q. cache_lookup q t' = (if prefix q path then None else cache_lookup q t)"
    and "\<And>q. \<not> prefix q path \<Longrightarrow> storage_get (vt_storage t') (key_for_path q) = storage_get (vt_storage t) (key_for_path q)"
  shows "coherent A H t'"
  unfolding coherent_def
proof (intro allI impI)
  fix q cm assume "cache_lookup q t' = Some cm"
  then have q: "\<not> prefix q path" "cache_lookup q t = Some cm" using assms(4) [of q] by (auto split: if_splits)
  have "tree_commitment A H t' (KEY_SIZE - length q) q = tree_commitment A H t (KEY_SIZE - length q) q"
    unfolding assms(2,3)
  proof (rule spec_commitment_local)
    fix r
    have "\<not> prefix (q @ r) path" using q(1) append_prefixD by blast
    then show "storage_get (vt_storage t') (key_for_path (q @ r)) = storage_get (vt_storage t) (key_for_path (q @ r))"
      by (rule assms(5))
  qed
  with coherentD [OF assms(1) q(2)] show "length q \<le> KEY_SIZE \<and> tree_commitment A H t' (KEY_SIZE - length q) q = Inr cm"
    by simp
qed

lemma coherent_dirty [simp]: "coherent A H (t\<lparr>dirty := b\<rparr>) \<longleftrightarrow> coherent A H t"
  by (simp add: coherent_def cache_lookup_def)

lemma tree_insert_caches:
  assumes "coherent A H t"
  shows "caches_ok A H (tree_insert key v t)"
proof -
  have "coherent A H (tree_insert key v t)"
  proof (rule coherent_change [OF assms, where path = "array_bytes key"])
    show "cache_lookup q (tree_insert key v t) = (if prefix q (array_bytes key) then None else cache_lookup q t)" for q
      by (simp add: tree_insert_def Let_def cache_lookup_invalidate) (simp add: cache_lookup_def)
    show "storage_get (vt_storage (tree_insert key v t)) (key_for_path q) = storage_get (vt_storage t) (key_for_path q)"
      if "\<not> prefix q (array_bytes key)" for q
      using that by (auto simp: storage_tree_insert)
  qed simp_all
  then show ?thesis by (simp add: caches_ok_def root_coherent_def)
qed

lemma coherent_delete:
  assumes "coherent A H t"
  shows "coherent A H (invalidate_path_cache path
     (t\<lparr>vt_storage := storage_delete (key_for_path path) (vt_storage t), pruned_keys := ks\<rparr>))"
proof (rule coherent_change [OF assms, where path = path])
  show "cache_lookup q (invalidate_path_cache path (t\<lparr>vt_storage := storage_delete (key_for_path path) (vt_storage t),
      pruned_keys := ks\<rparr>)) = (if prefix q path then None else cache_lookup q t)" for q
    by (simp add: cache_lookup_invalidate) (simp add: cache_lookup_def)
qed (auto simp: memory.get_del)

lemma coherent_cleanup: "coherent A H t \<Longrightarrow> coherent A H (cleanup_loop path n t)"
  by (induction path n t rule: cleanup_loop.induct) (simp_all add: Let_def coherent_delete)

lemma prune_key_caches:
  assumes "coherent A H t"
  shows "caches_ok A H (snd (prune_key key t))"
proof -
  have "coherent A H (snd (prune_key key t))"
    using assms coherent_delete [of A H "t\<lparr>dirty := True\<rparr>"]
    by (simp add: prune_key_def Let_def recursive_cleanup_empty_nodes_def coherent_cleanup)
  moreover have "dirty (snd (prune_key key t))"
    by (simp add: prune_key_def Let_def recursive_cleanup_empty_nodes_def)
  ultimately show ?thesis by (simp add: caches_ok_def root_coherent_def)
qed

lemma inserts_coherent:
  "coherent A H t \<Longrightarrow> coherent A H (fold (\<lambda>(key, value). tree_insert key value) updates t)"
proof (induction updates arbitrary: t)
  case (Cons u us)
  have "coherent A H (tree_insert (fst u) (snd u) t)"
    using tree_insert_caches [OF Cons.prems] by (simp add: caches_ok_def)
  then show ?case using Cons.IH by (simp add: split_beta)
qed simp

lemma apply_state_transition_caches:
  assumes "coherent A H t"
  shows "caches_ok A H (snd (apply_state_transition updates supply t))"
proof -
  have "coherent A H (t\<lparr>dirty := True\<rparr>)" using assms by simp
  then have "caches_ok A H (tree_insert TOTAL_SUPPLY_KEY (to_le_bytes supply)
      (fold (\<lambda>(key, value). tree_insert key value) updates (t\<lparr>dirty := True\<rparr>)))"
    by (intro tree_insert_caches inserts_coherent)
  then show ?thesis
    using assms by (simp add: apply_state_transition_def Let_def caches_ok_def root_coherent_def)
qed

end
