(* ===== verification/V_Trie_Proof.thy ===== *)
theory V_Trie_Proof
  imports V_Trie_Cache
begin

text \<open>
  Proofs of the Verkle tree: the proof the tree generates for a key, present or absent, is
  accepted by its verifier.
\<close>

section \<open>Commitments that do not fail\<close>

definition serializes :: "('f, 'p, 'g) ark \<Rightarrow> bool" where
  "serializes A \<longleftrightarrow> (\<forall>g. \<exists>bytes. point_bytes A g = Inr bytes)"

definition commits_ok :: "('f::field, 'p, 'g) ark \<Rightarrow> 'g polynomial_commitment \<Rightarrow> bool" where
  "commits_ok A pc \<longleftrightarrow> dense_poly A \<and> serializes A \<and> VERKLE_RADIX \<le> length (generators pc)"

definition coeffs_root :: "('f, 'p, 'g::ab_group_add) ark \<Rightarrow> blake3 \<Rightarrow> 'g polynomial_commitment \<Rightarrow> 'f list \<Rightarrow> bytes32" where
  "coeffs_root A H pc cs =
     (case bind_res (commit_coeffs A H pc [] cs) (commitment_root_hash A H) of Inr root \<Rightarrow> root | Inl _ \<Rightarrow> 0)"

lemma coeffs_root:
  assumes "commits_ok A pc" "length cs \<le> VERKLE_RADIX"
  shows "bind_res (commit_coeffs A H pc msg cs) (commitment_root_hash A H) = Inr (coeffs_root A H pc cs)"
proof -
  have "length (p_coeffs A (p_from A cs)) \<le> length (generators pc)"
    using assms length_strip_while_le [of "(=) 0" cs] by (simp add: commits_ok_def dense_polyD(1))
  then obtain cm where cm: "commit A H pc (p_from A cs) = Inr cm" using commit_Inr [of A H pc] by blast
  obtain bytes where "point_bytes A (point_of cm) = Inr bytes"
    using assms(1) by (auto simp: commits_ok_def serializes_def)
  with cm show ?thesis by (simp add: coeffs_root_def commit_coeffs_def commitment_root_hash_def)
qed

lemma coeffs_root_zero: "dense_poly A \<Longrightarrow> coeffs_root A H pc [0] = coeffs_root A H pc []"
  by (simp add: coeffs_root_def commit_coeffs_def commit_def dense_polyD(1) Let_def strip_while_def)

definition root_at ::
    "('f::field, 'p, 'g::ab_group_add) ark \<Rightarrow> blake3 \<Rightarrow> ('f, 'g) verkle_tree \<Rightarrow> nat \<Rightarrow> bytes \<Rightarrow> bytes32" where
  "root_at A H t height path = (case tree_root A H t height path of Inr root \<Rightarrow> root | Inl _ \<Rightarrow> 0)"

definition child_root ::
    "('f::field, 'p, 'g::ab_group_add) ark \<Rightarrow> blake3 \<Rightarrow> ('f, 'g) verkle_tree \<Rightarrow> nat \<Rightarrow> bytes \<Rightarrow> nat \<Rightarrow> bytes32" where
  "child_root A H t height path i =
     (if node_exists (vt_storage t) (path @ [word_of_nat i])
      then root_at A H t height (path @ [word_of_nat i])
      else empty_subtree_root_hash t (KEY_SIZE - height))"

text \<open>The constants of the empty subtrees, as \<open>new\<close> computes them.\<close>

definition empties_ok :: "('f::field, 'p, 'g::ab_group_add) ark \<Rightarrow> blake3 \<Rightarrow> ('f, 'g) verkle_tree \<Rightarrow> bool" where
  "empties_ok A H t \<longleftrightarrow>
     empty_roots A H (vt_pc t) KEY_SIZE = Inr (empty_subtree_roots t) \<and>
     empty_subtree_scalars t = map (from_le_mod A) (empty_subtree_roots t)"

lemma empty_roots_spec:
  assumes "commits_ok A pc" "empty_roots A H pc n = Inr roots"
  shows "length roots = Suc n \<and> roots ! n = coeffs_root A H pc [] \<and>
     (\<forall>i<n. roots ! i = coeffs_root A H pc (replicate VERKLE_RADIX (from_le_mod A (roots ! Suc i))))"
  using assms(2)
proof (induction n arbitrary: roots)
  case 0
  then show ?case
    using coeffs_root [OF assms(1), of "[]" H "''Failed to commit empty polynomial: ''"] by auto
next
  case (Suc n)
  then obtain rest where rest: "empty_roots A H pc n = Inr rest" by auto
  note ih = Suc.IH [OF rest]
  let ?cs = "replicate VERKLE_RADIX (from_le_mod A (hd rest))"
  have hd: "hd rest = rest ! 0" using ih by (cases rest) auto
  have "roots = coeffs_root A H pc ?cs # rest"
    using Suc.prems rest coeffs_root [OF assms(1), of ?cs H "''Failed to commit subtree polynomial: ''"] by auto
  then show ?case using ih hd by (auto simp: nth_Cons split: nat.split)
qed

lemma empties_okD:
  assumes "commits_ok A (vt_pc t)" "empties_ok A H t"
  shows "empty_subtree_root_hash t KEY_SIZE = coeffs_root A H (vt_pc t) []"
    "d < KEY_SIZE \<Longrightarrow> empty_subtree_root_hash t d =
       coeffs_root A H (vt_pc t) (replicate VERKLE_RADIX (from_le_mod A (empty_subtree_root_hash t (Suc d))))"
    "d \<le> KEY_SIZE \<Longrightarrow> empty_subtree_scalars t ! d = from_le_mod A (empty_subtree_root_hash t d)"
  using assms(2) empty_roots_spec [OF assms(1), of H KEY_SIZE "empty_subtree_roots t"]
  by (auto simp: empties_ok_def empty_subtree_root_hash_def)

lemma tree_root_leaf:
  assumes "commits_ok A (vt_pc t)"
  shows "tree_root A H t 0 path = Inr (coeffs_root A H (vt_pc t) (leaf_coeffs A H (vt_storage t) path))"
  using coeffs_root [OF assms, of "leaf_coeffs A H (vt_storage t) path"]
  by (simp add: spec_root_def leaf_coeffs_def VERKLE_RADIX_def)

lemma tree_root_total:
  assumes "commits_ok A (vt_pc t)" "empties_ok A H t" "height \<le> KEY_SIZE"
  shows "tree_root A H t height path = Inr (root_at A H t height path)"
    and "height = Suc h \<Longrightarrow> root_at A H t height path =
      coeffs_root A H (vt_pc t) (map (\<lambda>i. from_le_mod A (child_root A H t h path i)) [0..<VERKLE_RADIX])"
proof -
  have "\<exists>root. tree_root A H t height path = Inr root \<and> (\<forall>h. height = Suc h \<longrightarrow>
      root = coeffs_root A H (vt_pc t) (map (\<lambda>i. from_le_mod A (child_root A H t h path i)) [0..<VERKLE_RADIX]))"
    using assms(3)
  proof (induction height arbitrary: path)
    case 0
    then show ?case using tree_root_leaf [OF assms(1), of H path] by blast
  next
    case (Suc h)
    let ?hash = "\<lambda>p. bind_res (tree_commitment A H t h p) (commitment_root_hash A H)"
    let ?cs = "map (\<lambda>i. from_le_mod A (child_root A H t h path i)) [0..<VERKLE_RADIX]"
    have ih: "tree_root A H t h p = Inr (root_at A H t h p)" for p
      using Suc.IH [of p] Suc.prems by (auto simp: root_at_def)
    have "Suc (KEY_SIZE - Suc h) = KEY_SIZE - h" using Suc.prems by simp
    then have "spec_child A (empty_subtree_scalars t) (vt_storage t) ?hash path (KEY_SIZE - Suc h) i =
        Inr (from_le_mod A (child_root A H t h path i))" for i
      using ih [unfolded spec_root_def, of "path @ [word_of_nat i]"] empties_okD(3) [OF assms(1,2), of "KEY_SIZE - h"]
      by (auto simp: spec_child_def child_root_def)
    then have "mapM_res (spec_child A (empty_subtree_scalars t) (vt_storage t) ?hash path (KEY_SIZE - Suc h))
        [0..<VERKLE_RADIX] = Inr ?cs" by (intro mapM_res_Inr) simp
    then have "tree_root A H t (Suc h) path = Inr (coeffs_root A H (vt_pc t) ?cs)"
      using coeffs_root [OF assms(1), of ?cs] by (simp add: spec_root_def)
    then show ?case by auto
  qed
  then obtain root where root: "tree_root A H t height path = Inr root"
    "\<forall>h. height = Suc h \<longrightarrow> root = coeffs_root A H (vt_pc t) (map (\<lambda>i. from_le_mod A (child_root A H t h path i)) [0..<VERKLE_RADIX])"
    by blast
  then show "tree_root A H t height path = Inr (root_at A H t height path)" by (simp add: root_at_def)
  show "root_at A H t height path =
      coeffs_root A H (vt_pc t) (map (\<lambda>i. from_le_mod A (child_root A H t h path i)) [0..<VERKLE_RADIX])"
    if "height = Suc h" using root that by (simp add: root_at_def)
qed

section \<open>What the proof loop collects\<close>

definition sibling ::
    "('f::field, 'p, 'g::ab_group_add) ark \<Rightarrow> blake3 \<Rightarrow> ('f, 'g) verkle_tree \<Rightarrow> bool \<Rightarrow> bytes \<Rightarrow> nat \<Rightarrow> nat \<Rightarrow> bytes32" where
  "sibling A H t path_exists path depth i =
     (if path_exists then child_root A H t (KEY_SIZE - (depth + 1)) path i
      else empty_subtree_root_hash t (depth + 1))"

fun collected ::
    "('f::field, 'p, 'g::ab_group_add) ark \<Rightarrow> blake3 \<Rightarrow> ('f, 'g) verkle_tree \<Rightarrow> bool \<Rightarrow> bytes \<Rightarrow> nat \<Rightarrow> bytes
       \<Rightarrow> bytes32 list \<times> bytes \<times> bool" where
  "collected A H t path_exists path depth [] = ([], path, path_exists)"
| "collected A H t path_exists path depth (byte # rest) =
     (let path' = (if path_exists then path @ [byte] else path);
          path_exists' = (path_exists \<and> node_exists (vt_storage t) path')
      in case collected A H t path_exists' path' (depth + 1) rest of
           (rows, p, ex) \<Rightarrow> (map (sibling A H t path_exists path depth) [0..<VERKLE_RADIX] @ rows, p, ex))"

lemma answers_sibling:
  assumes "commits_ok A (vt_pc t0)" "empties_ok A H t0" "reading A H t0 t" "depth < KEY_SIZE"
    and "path_exists \<Longrightarrow> length path = depth \<and> node_exists (vt_storage t0) path"
  shows "answers (reading A H t0) (Inr (sibling A H t0 path_exists path depth i)) (sibling_root A H path_exists path depth i t)"
proof (cases "path_exists \<and> node_exists (vt_storage t0) (path @ [word_of_nat i])")
  case True
  let ?p = "path @ [word_of_nat i]" and ?h = "KEY_SIZE - (depth + 1)"
  have eq: "vt_storage t = vt_storage t0" using assms(3) same_treeD(1) [of t0 t] by simp
  have "answers (reading A H t0) (tree_root A H t0 ?h ?p) (compute_node_root_hash A H ?h ?p t)"
    using assms(4,5) True by (intro answers_root_hash [OF assms(3)]) simp
  with True assms(5) show ?thesis
    by (simp add: sibling_root_def sibling_def child_root_def eq Let_def tree_root_total(1) [OF assms(1,2)])
next
  case False
  have eq: "vt_storage t = vt_storage t0" "empty_subtree_roots t = empty_subtree_roots t0"
    using assms(3) same_treeD(1,4) [of t0 t] by simp_all
  have "KEY_SIZE - (KEY_SIZE - (depth + 1)) = depth + 1" using assms(4) by simp
  with False assms(3,5) show ?thesis
    by (auto simp: sibling_root_def sibling_def child_root_def eq Let_def answers_def empty_subtree_root_hash_def)
qed

lemma answers_proof_loop:
  assumes "commits_ok A (vt_pc t0)" "empties_ok A H t0"
    and "reading A H t0 t" "depth + length bs = KEY_SIZE"
    and "path_exists \<Longrightarrow> length path = depth \<and> node_exists (vt_storage t0) path"
  shows "answers (reading A H t0) (Inr (collected A H t0 path_exists path depth bs)) (proof_loop A H path_exists path depth bs t)"
  using assms(3-5)
proof (induction bs arbitrary: path_exists path depth t)
  case Nil
  then show ?case by (simp add: answers_def)
next
  case (Cons byte rest)
  let ?row = "map (sibling A H t0 path_exists path depth) [0..<VERKLE_RADIX]"
  let ?path' = "if path_exists then path @ [byte] else path"
  let ?ex' = "path_exists \<and> node_exists (vt_storage t0) ?path'"
  have row: "answers (reading A H t0) (mapM_res (\<lambda>i. Inr (sibling A H t0 path_exists path depth i)) [0..<VERKLE_RADIX])
      (mapM_st (sibling_root A H path_exists path depth) [0..<VERKLE_RADIX] t)"
    using Cons.prems by (intro answers_mapM answers_sibling [OF assms(1,2)]) simp_all
  have "answers (reading A H t0)
      (bind_res (mapM_res (\<lambda>i. Inr (sibling A H t0 path_exists path depth i)) [0..<VERKLE_RADIX])
        (\<lambda>row. bind_res (Inr (collected A H t0 ?ex' ?path' (depth + 1) rest))
          (\<lambda>(rows, p, ex). Inr (row @ rows, p, ex))))
      (proof_loop A H path_exists path depth (byte # rest) t)"
    unfolding proof_loop.simps Let_def
  proof (rule answers_bind [OF row])
    fix cs s assume s: "reading A H t0 s"
    have eq: "vt_storage s = vt_storage t0" using s same_treeD(1) [of t0 s] by simp
    have ih: "answers (reading A H t0) (Inr (collected A H t0 ?ex' ?path' (depth + 1) rest))
        (proof_loop A H ?ex' ?path' (depth + 1) rest s)"
      using Cons.prems by (intro Cons.IH [OF s]) (auto split: if_splits)
    show "answers (reading A H t0)
        (bind_res (Inr (collected A H t0 ?ex' ?path' (depth + 1) rest)) (\<lambda>(rows, p, ex). Inr (cs @ rows, p, ex)))
        (bind_st (proof_loop A H (path_exists \<and> node_exists (vt_storage s) ?path') ?path' (depth + 1) rest s)
          (\<lambda>(rows, p, ex) t2. (Inr (cs @ rows, p, ex), t2)))"
      unfolding eq by (rule answers_bind [OF ih]) (simp_all add: answers_def split_beta)
  qed
  then show ?case by (simp add: mapM_res_Inr [of _ _ "sibling A H t0 path_exists path depth"] split_beta Let_def)
qed

section \<open>The verifier recomputes the root\<close>

text \<open>The root the verifier has to reach at a depth: of the node on the path, or of an empty subtree.\<close>

definition expected ::
    "('f::field, 'p, 'g::ab_group_add) ark \<Rightarrow> blake3 \<Rightarrow> ('f, 'g) verkle_tree \<Rightarrow> bool \<Rightarrow> bytes \<Rightarrow> nat \<Rightarrow> bytes32" where
  "expected A H t path_exists path depth =
     (if path_exists then root_at A H t (KEY_SIZE - depth) path else empty_subtree_root_hash t depth)"

lemma expected_step:
  assumes "commits_ok A (vt_pc t)" "empties_ok A H t" "depth < KEY_SIZE"
  shows "expected A H t path_exists path depth = coeffs_root A H (vt_pc t)
     (map (\<lambda>i. from_le_mod A (sibling A H t path_exists path depth i)) [0..<VERKLE_RADIX])"
proof (cases path_exists)
  case True
  have "KEY_SIZE - depth = Suc (KEY_SIZE - (depth + 1))" using assms(3) by simp
  with True tree_root_total(2) [OF assms(1,2), of "KEY_SIZE - depth" "KEY_SIZE - (depth + 1)" path] show ?thesis
    by (simp add: expected_def sibling_def)
next
  case False
  have "map (\<lambda>i. from_le_mod A (empty_subtree_root_hash t (Suc depth))) [0..<VERKLE_RADIX] =
      replicate VERKLE_RADIX (from_le_mod A (empty_subtree_root_hash t (Suc depth)))"
    by (simp add: map_replicate_const)
  with False empties_okD(2) [OF assms] show ?thesis by (simp add: expected_def sibling_def)
qed

lemma expected_child:
  assumes "depth < KEY_SIZE" "path_exists \<Longrightarrow> length path = depth"
    and "path' = (if path_exists then path @ [byte] else path)"
    and "path_exists' = (path_exists \<and> node_exists (vt_storage t) path')"
  shows "expected A H t path_exists' path' (Suc depth) = sibling A H t path_exists path depth (unat byte)"
proof -
  have "KEY_SIZE - (KEY_SIZE - Suc depth) = Suc depth" using assms(1) by simp
  with assms(3,4) show ?thesis by (simp add: expected_def sibling_def child_root_def)
qed

lemma verify_collected:
  assumes "commits_ok A (vt_pc t)" "empties_ok A H t"
    and "depth + length bs = KEY_SIZE" "path_exists \<Longrightarrow> length path = depth"
    and "collected A H t path_exists path depth bs = (rows, p, ex)"
    and "length pre = depth * VERKLE_RADIX" "siblings prf = pre @ rows"
    and "proof_path prf = pb @ bs" "length pb = depth"
  shows "\<exists>root'. verify_loop A H (vt_pc t) prf KEY_SIZE root (from_le_mod A (expected A H t ex p KEY_SIZE)) =
     verify_loop A H (vt_pc t) prf depth root' (from_le_mod A (expected A H t path_exists path depth)) \<and>
     (bs \<noteq> [] \<longrightarrow> root' = expected A H t path_exists path depth)"
  using assms(3-9)
proof (induction bs arbitrary: path_exists path depth rows pre pb)
  case Nil
  then show ?case by (intro exI [of _ root]) simp
next
  case (Cons byte rest)
  let ?path' = "if path_exists then path @ [byte] else path"
  let ?ex' = "path_exists \<and> node_exists (vt_storage t) ?path'"
  let ?row = "map (sibling A H t path_exists path depth) [0..<VERKLE_RADIX]"
  have d: "depth < KEY_SIZE" using Cons.prems(1) by simp
  obtain rows' where rows': "collected A H t ?ex' ?path' (depth + 1) rest = (rows', p, ex)" "rows = ?row @ rows'"
    using Cons.prems(3) by (auto simp: Let_def split: prod.splits)
  have "\<exists>root'. verify_loop A H (vt_pc t) prf KEY_SIZE root (from_le_mod A (expected A H t ex p KEY_SIZE)) =
      verify_loop A H (vt_pc t) prf (depth + 1) root' (from_le_mod A (expected A H t ?ex' ?path' (depth + 1))) \<and>
      (rest \<noteq> [] \<longrightarrow> root' = expected A H t ?ex' ?path' (depth + 1))"
    using Cons.prems rows'
    by (intro Cons.IH [where pre = "pre @ ?row" and pb = "pb @ [byte]"]) (auto split: if_splits)
  then obtain root' where ih: "verify_loop A H (vt_pc t) prf KEY_SIZE root (from_le_mod A (expected A H t ex p KEY_SIZE)) =
      verify_loop A H (vt_pc t) prf (Suc depth) root' (from_le_mod A (sibling A H t path_exists path depth (unat byte)))"
    using expected_child [where byte = byte and path' = ?path' and path_exists' = ?ex' and t = t and A = A and H = H,
        OF d Cons.prems(2) refl refl] by auto
  have at: "proof_path prf ! depth = byte" using Cons.prems(6,7) by (simp add: nth_append)
  have coeffs: "row_coeffs A prf depth (from_le_mod A (sibling A H t path_exists path depth (unat byte))) =
      map (\<lambda>i. from_le_mod A (sibling A H t path_exists path depth i)) [0..<VERKLE_RADIX]"
  proof -
    have "siblings prf ! (depth * VERKLE_RADIX + i) = sibling A H t path_exists path depth i" if "i < VERKLE_RADIX" for i
      using that Cons.prems(4,5) rows'(2) by (simp add: nth_append)
    then show ?thesis by (auto simp: row_coeffs_def at)
  qed
  have "verify_loop A H (vt_pc t) prf (Suc depth) root' (from_le_mod A (sibling A H t path_exists path depth (unat byte))) =
      bind_res (bind_res (commit_coeffs A H (vt_pc t) ''Failed to reconstruct commitment: ''
        (map (\<lambda>i. from_le_mod A (sibling A H t path_exists path depth i)) [0..<VERKLE_RADIX])) (commitment_root_hash A H))
        (\<lambda>r. verify_loop A H (vt_pc t) prf depth r (from_le_mod A r))"
    unfolding verify_loop.simps coeffs
    by (cases "commit_coeffs A H (vt_pc t) ''Failed to reconstruct commitment: ''
        (map (\<lambda>i. from_le_mod A (sibling A H t path_exists path depth i)) [0..<VERKLE_RADIX])") simp_all
  also have "\<dots> = verify_loop A H (vt_pc t) prf depth (expected A H t path_exists path depth)
      (from_le_mod A (expected A H t path_exists path depth))"
    by (subst coeffs_root [OF assms(1)]) (simp_all add: expected_step [OF assms(1,2) d])
  finally show ?case using ih by auto
qed

lemma collected_result:
  "collected A H t path_exists path depth bs = (rows, p, ex) \<Longrightarrow>
     length rows = length bs * VERKLE_RADIX \<and>
     (ex \<longleftrightarrow> path_exists \<and> (\<forall>n. 0 < n \<and> n \<le> length bs \<longrightarrow> node_exists (vt_storage t) (path @ take n bs))) \<and>
     (ex \<longrightarrow> p = path @ bs)"
proof (induction bs arbitrary: path_exists path depth rows)
  case Nil
  then show ?case by simp
next
  case (Cons byte rest)
  let ?path' = "if path_exists then path @ [byte] else path"
  let ?ex' = "path_exists \<and> node_exists (vt_storage t) ?path'"
  obtain rows' where rows': "collected A H t ?ex' ?path' (depth + 1) rest = (rows', p, ex)"
    "length rows = VERKLE_RADIX + length rows'"
    using Cons.prems by (auto simp: Let_def split: prod.splits)
  have split: "(\<forall>n. 0 < n \<and> n \<le> length (byte # rest) \<longrightarrow> P (take n (byte # rest))) \<longleftrightarrow>
      P [byte] \<and> (\<forall>n. 0 < n \<and> n \<le> length rest \<longrightarrow> P (byte # take n rest))" for P
  proof (intro iffI conjI allI impI)
    fix n assume l: "\<forall>n. 0 < n \<and> n \<le> length (byte # rest) \<longrightarrow> P (take n (byte # rest))"
    show "P [byte]" using l [rule_format, of 1] by simp
    show "P (byte # take n rest)" if "0 < n \<and> n \<le> length rest" using l [rule_format, of "Suc n"] that by simp
  next
    fix n assume "P [byte] \<and> (\<forall>n. 0 < n \<and> n \<le> length rest \<longrightarrow> P (byte # take n rest))"
      and "0 < n \<and> n \<le> length (byte # rest)"
    then show "P (take n (byte # rest))" by (cases n; cases "n - 1") auto
  qed
  show ?case
    using Cons.IH [OF rows'(1)] rows'(2) split [of "\<lambda>bs. node_exists (vt_storage t) (path @ bs)"] by auto
qed

lemma generated_proof:
  assumes "commits_ok A (vt_pc t)" "empties_ok A H t" "caches_ok A H t" "node_exists (vt_storage t) []"
    and "collected A H t True [] 0 (array_bytes key) = (rows, p, ex)"
  shows "\<exists>t'. generate_proof_with_witness A H key w t =
     (Inr \<lparr>proof_type_of = (if ex \<and> get_node_value (vt_storage t) p \<noteq> None then Membership else NonMembership),
           proof_path = array_bytes key, siblings = rows,
           leaf_value = (if ex then get_node_value (vt_storage t) p else None),
           proof_root = root_at A H t KEY_SIZE [], gas_fee_distribution = w\<rparr>, t') \<and>
     caches_ok A H t' \<and> vt_storage t' = vt_storage t \<and> vt_pc t' = vt_pc t \<and>
     empty_subtree_roots t' = empty_subtree_roots t"
proof -
  let ?loop = "proof_loop A H True [] 0 (array_bytes key) t"
  have "answers (reading A H t) (Inr (rows, p, ex)) ?loop"
    using answers_proof_loop [OF assms(1,2), of t 0 "array_bytes key" True "[]"] assms(3,4)
    by (simp add: assms(5) caches_ok_def KEY_SIZE_def)
  then obtain t1 where loop: "?loop = (Inr (rows, p, ex), t1)" and r: "reading A H t t1"
    by (cases ?loop) (simp add: answers_def)
  note same = same_treeD [of t t1]
  have root: "tree_root A H t1 KEY_SIZE [] = Inr (root_at A H t KEY_SIZE [])"
    using tree_root_total(1) [OF assms(1,2), of KEY_SIZE "[]"] r same by simp
  obtain t2 where gr: "get_root A H t1 = (Inr (root_at A H t KEY_SIZE []), t2)"
    using get_root_result [OF coherent_read [OF assms(3) r]] root by (cases "get_root A H t1") auto
  have "generate_proof_with_witness A H key w t =
     (Inr \<lparr>proof_type_of = (if (if ex then get_node_value (vt_storage t1) p else None) \<noteq> None then Membership else NonMembership),
           proof_path = array_bytes key, siblings = rows,
           leaf_value = (if ex then get_node_value (vt_storage t1) p else None),
           proof_root = root_at A H t KEY_SIZE [], gas_fee_distribution = w\<rparr>, t2)"
    unfolding generate_proof_with_witness_def take_key loop by (simp add: Let_def gr)
  moreover have "caches_ok A H t2" "vt_storage t2 = vt_storage t" "vt_pc t2 = vt_pc t"
    "empty_subtree_roots t2 = empty_subtree_roots t"
    using get_root_result [OF coherent_read [OF assms(3) r]] r same by (simp_all add: gr)
  ultimately show ?thesis using r same(1) by (intro exI [of _ t2]) (simp add: if_bool_eq_conj)
qed

lemma verify_generated:
  assumes "commits_ok A (vt_pc t)" "empties_ok A H t"
    and "collected A H t True [] 0 (array_bytes key) = (rows, p, ex)"
    and "vt_pc t' = vt_pc t" "empty_subtree_roots t' = empty_subtree_roots t"
  shows "verify_proof A H t'
     \<lparr>proof_type_of = (if ex \<and> get_node_value (vt_storage t) p \<noteq> None then Membership else NonMembership),
      proof_path = array_bytes key, siblings = rows,
      leaf_value = (if ex then get_node_value (vt_storage t) p else None),
      proof_root = root_at A H t KEY_SIZE [], gas_fee_distribution = w\<rparr> = Inr (witness_ok w)"
    (is "verify_proof A H t' ?proof = _")
proof -
  have len: "length rows = KEY_SIZE * VERKLE_RADIX" and p: "ex \<Longrightarrow> p = array_bytes key"
    using collected_result [OF assms(3)] by (simp_all add: KEY_SIZE_def)
  have start: "starting_scalar A H t' ?proof = Inr (from_le_mod A (expected A H t ex p KEY_SIZE))"
  proof (cases "leaf_value ?proof")
    case None
    have "expected A H t ex p KEY_SIZE = empty_subtree_root_hash t KEY_SIZE"
    proof (cases ex)
      case True
      with None have "leaf_coeffs A H (vt_storage t) p = [0]" by (simp add: leaf_coeffs_def)
      then have "root_at A H t 0 p = coeffs_root A H (vt_pc t) []"
        using assms(1) tree_root_leaf [OF assms(1), of H p] by (simp add: root_at_def coeffs_root_zero commits_ok_def)
      with True empties_okD(1) [OF assms(1,2)] show ?thesis by (simp add: expected_def)
    qed (simp add: expected_def)
    with None show ?thesis by (simp add: starting_scalar_def empty_subtree_root_hash_def assms(5))
  next
    case (Some v)
    then have ex: "ex" "get_node_value (vt_storage t) p = Some v" by (simp_all split: if_splits)
    then have "leaf_coeffs A H (vt_storage t) p = [value_to_scalar A H v]" by (simp add: leaf_coeffs_def)
    then have "expected A H t ex p KEY_SIZE = coeffs_root A H (vt_pc t) [value_to_scalar A H v]"
      using ex(1) tree_root_leaf [OF assms(1), of H p] by (simp add: expected_def root_at_def)
    with ex coeffs_root [OF assms(1), of "[value_to_scalar A H v]" H "''Failed to commit leaf: ''"]
    show ?thesis
      by (cases "commit_coeffs A H (vt_pc t) ''Failed to commit leaf: '' [value_to_scalar A H v]")
        (simp_all add: starting_scalar_def assms(4) VERKLE_RADIX_def)
  qed
  have "array_bytes key \<noteq> []" by (metis length_array_bytes list.size(3) zero_neq_numeral)
  with verify_collected [OF assms(1,2), of 0 "array_bytes key" True "[]" rows p ex "[]" ?proof "[]" 0] assms(3)
  have loop: "verify_loop A H (vt_pc t) ?proof KEY_SIZE 0 (from_le_mod A (expected A H t ex p KEY_SIZE)) =
      Inr (root_at A H t KEY_SIZE [])"
    by (auto simp: KEY_SIZE_def expected_def)
  have len32: "KEY_SIZE = 32" by (simp add: KEY_SIZE_def)
  show ?thesis
    using loop start by (auto simp: verify_proof_def len assms(4)) (simp_all add: len32)
qed


section \<open>A new tree\<close>

lemma hash_to_curve_first:
  assumes "\<And>b. from_le_mod A b \<noteq> 0"
  shows "\<exists>g. hash_to_curve A H tag i 0 = Some g"
  by (subst hash_to_curve.simps) (simp add: assms)

lemma pc_new_first:
  assumes "\<And>b. from_le_mod A b \<noteq> 0"
  shows "\<exists>pc. pc_new A H n = Some pc \<and> length (generators pc) = n"
proof -
  have pts: "\<exists>gs. generator_points A H is = Some gs \<and> length gs = length is" for "is"
  proof (induction "is")
    case (Cons i "is")
    moreover obtain g where "generate_generator_point A H i = Some g"
      using hash_to_curve_first [OF assms, of H "''KLOMANG_GENERATOR''"] by (auto simp: generate_generator_point_def)
    ultimately show ?case by auto
  qed simp
  from pts [of "[0..<n]"] obtain gs where "generator_points A H [0..<n] = Some gs" "length gs = n" by auto
  moreover obtain g where "generate_generator_point A H n = Some g"
    using hash_to_curve_first [OF assms, of H "''KLOMANG_GENERATOR''"] by (auto simp: generate_generator_point_def)
  ultimately show ?thesis by (simp add: pc_new_def)
qed

lemma empty_roots_total:
  assumes "commits_ok A pc"
  shows "\<exists>roots. empty_roots A H pc n = Inr roots"
proof (induction n)
  case 0
  show ?case using coeffs_root [OF assms, of "[]" H "''Failed to commit empty polynomial: ''"] by auto
next
  case (Suc n)
  then obtain roots where "empty_roots A H pc n = Inr roots" by blast
  then show ?case
    using coeffs_root [OF assms, of "replicate VERKLE_RADIX (from_le_mod A (hd roots))" H
        "''Failed to commit subtree polynomial: ''"] by auto
qed

lemma tree_new_fields:
  assumes "tree_new A H s = Some (Inr t)"
  shows "empties_ok A H t" "caches_ok A H t" "node_exists (vt_storage t) []" "pruned_keys t = {||}"
    "pc_new A H VERKLE_RADIX = Some (vt_pc t)"
  using assms
  by (auto simp: tree_new_def compute_empty_subtree_constants_def empties_ok_def caches_ok_def coherent_def
      root_coherent_def cache_lookup_def node_exists_def storage_ensure_node)

lemma tree_new_ok:
  assumes "dense_poly A" "serializes A" "\<And>b. from_le_mod A b \<noteq> 0"
  shows "\<exists>t. tree_new A H s = Some (Inr t) \<and> commits_ok A (vt_pc t)"
proof -
  obtain pc where pc: "pc_new A H VERKLE_RADIX = Some pc" "length (generators pc) = VERKLE_RADIX"
    using pc_new_first [OF assms(3)] by blast
  then have ok: "commits_ok A pc" using assms(1,2) by (simp add: commits_ok_def)
  then obtain roots where "empty_roots A H pc KEY_SIZE = Inr roots" using empty_roots_total by blast
  then show ?thesis using ok by (simp add: tree_new_def pc compute_empty_subtree_constants_def)
qed

section \<open>Runs of operations\<close>

datatype tree_op =
    InsertOp bytes32 bytes
  | PruneOp bytes32
  | TransitionOp "(bytes32 \<times> bytes) list" u128
  | RootOp
  | ProofOp bytes32 "gas_fee_witness option"

fun run_op :: "('f::field, 'p, 'g::ab_group_add) ark \<Rightarrow> blake3 \<Rightarrow> tree_op \<Rightarrow> ('f, 'g) verkle_tree \<Rightarrow> ('f, 'g) verkle_tree" where
  "run_op A H (InsertOp key value) t = tree_insert key value t"
| "run_op A H (PruneOp key) t = snd (prune_key key t)"
| "run_op A H (TransitionOp updates supply) t = snd (apply_state_transition updates supply t)"
| "run_op A H RootOp t = snd (get_root A H t)"
| "run_op A H (ProofOp key w) t = snd (generate_proof_with_witness A H key w t)"

lemma proof_loop_reading:
  assumes "reading A H t0 t" "depth + length bs = KEY_SIZE" "path_exists \<Longrightarrow> length path = depth"
  shows "reading A H t0 (snd (proof_loop A H path_exists path depth bs t))"
  using assms
proof (induction bs arbitrary: path_exists path depth t)
  case Nil
  then show ?case by simp
next
  case (Cons byte rest)
  let ?I = "reading A H t0"
  have "?I (snd (sibling_root A H path_exists path depth i s))" if "?I s" for i s
  proof (cases "path_exists")
    case True
    then have "length (path @ [word_of_nat i]) + (KEY_SIZE - (depth + 1)) = KEY_SIZE" using Cons.prems(2,3) by simp
    from answersD(2) [OF answers_root_hash [OF that this]] that show ?thesis
      by (simp add: sibling_root_def Let_def)
  qed (use that in \<open>simp add: sibling_root_def Let_def\<close>)
  then have row: "?I (snd (mapM_st (sibling_root A H path_exists path depth) [0..<VERKLE_RADIX] t))"
    using Cons.prems(1) by (rule mapM_st_inv [where I = ?I])
  have "?I (snd (proof_loop A H (path_exists \<and> node_exists (vt_storage s) (path @ [byte])) (path @ [byte]) (depth + 1) rest s))"
    if "?I s" "path_exists" for s
    using Cons.prems that by (intro Cons.IH) simp_all
  moreover have "?I (snd (proof_loop A H False path (depth + 1) rest s))" if "?I s" for s
    using Cons.prems that by (intro Cons.IH) simp_all
  ultimately show ?case
    unfolding proof_loop.simps
    by (intro bind_st_inv [where I = ?I, OF row]) (auto simp: Let_def split_beta intro!: bind_st_inv [where I = ?I])
qed

lemma generate_proof_caches:
  assumes "caches_ok A H t"
  shows "caches_ok A H (snd (generate_proof_with_witness A H key w t))"
proof -
  let ?loop = "proof_loop A H True [] 0 (array_bytes key) t"
  have r: "reading A H t (snd ?loop)"
    using assms by (intro proof_loop_reading) (simp_all add: caches_ok_def KEY_SIZE_def)
  have "caches_ok A H (snd ?loop)" by (rule coherent_read [OF assms r])
  then show ?thesis
    unfolding generate_proof_with_witness_def take_key
    by (rule bind_st_inv [where I = "caches_ok A H"])
      (auto simp: Let_def split_beta intro!: bind_st_inv [where I = "caches_ok A H"] dest: get_root_result)
qed

lemma run_op_caches: "caches_ok A H t \<Longrightarrow> caches_ok A H (run_op A H op t)"
proof -
  assume ok: "caches_ok A H t"
  then have "coherent A H t" by (simp add: caches_ok_def)
  with ok get_root_result [OF ok] show ?thesis
    by (cases op) (simp_all add: tree_insert_caches prune_key_caches apply_state_transition_caches generate_proof_caches)
qed

lemma run_caches: "caches_ok A H t \<Longrightarrow> caches_ok A H (fold (run_op A H) ops t)"
  by (induction ops arbitrary: t) (simp_all add: run_op_caches)

section \<open>Properties\<close>

lemma sample_ark_serializes: "serializes sample_ark" "\<And>b. from_le_mod sample_ark b \<noteq> 0"
  by (simp_all add: serializes_def sample_ark_def)

text \<open>
  C6. The cached tree refines the tree without a cache: after any run of insertions, prunings,
  state transitions, root computations and proof generations on a new tree, failed ones
  included, \<open>get_root\<close> answers the root computed from the store alone.
\<close>

theorem cached_root_exact:
  assumes "tree_new A H s = Some (Inr t0)" "t = fold (run_op A H) ops t0"
  shows "fst (get_root A H t) =
     spec_root A H (vt_pc t) (empty_subtree_scalars t) (vt_storage t) KEY_SIZE []"
  using get_root_result [OF run_caches [OF tree_new_fields(2) [OF assms(1)], of ops]] by (simp only: assms(2))

theorem cached_root_exact_witness:
  "\<exists>t. fst (get_root sample_ark (\<lambda>_. 0) t) =
      spec_root sample_ark (\<lambda>_. 0) (vt_pc t) (empty_subtree_scalars t) (vt_storage t) KEY_SIZE [] \<and>
    tree_get 7 t = Inr (Some [1, 2])"
proof -
  obtain t0 where new: "tree_new sample_ark (\<lambda>_. 0) memory_storage_new = Some (Inr t0)"
    using tree_new_ok [OF sample_ark_dense sample_ark_serializes] by blast
  let ?t = "fold (run_op sample_ark (\<lambda>_. 0)) [InsertOp 7 [1, 2]] t0"
  have "tree_get 7 ?t = Inr (Some [1, 2])"
    using tree_get_insert [of "[1, 2]" 7 7 t0] tree_new_fields(4) [OF new] by simp
  with cached_root_exact [OF new refl, of "[InsertOp 7 [1, 2]]"] show ?thesis by (intro exI [of _ ?t]) simp
qed

text \<open>
  C20. Proofs are complete: for every key, present or absent, the tree generates a proof with its
  root, which carries the value under the key when every node on the way exists, and the
  verifier accepts it exactly when the gas witness asked for splits the fee as \<open>witness_ok\<close> says
  (80 percent for the miner, by a product of 128 bits that wraps for huge fees, and the rest for
  the full nodes).
\<close>

theorem generated_proof_verifies:
  assumes "commits_ok A (vt_pc t)" "empties_ok A H t" "caches_ok A H t" "node_exists (vt_storage t) []"
  shows "\<exists>prf t'. generate_proof_with_witness A H key w t = (Inr prf, t') \<and>
     spec_root A H (vt_pc t) (empty_subtree_scalars t) (vt_storage t) KEY_SIZE [] = Inr (proof_root prf) \<and>
     leaf_value prf =
       (if \<forall>n. 0 < n \<and> n \<le> 32 \<longrightarrow> node_exists (vt_storage t) (take n (array_bytes key))
        then get_node_value (vt_storage t) (array_bytes key) else None) \<and>
     verify_proof A H t' prf = Inr (witness_ok w)"
proof -
  obtain rows p ex where col: "collected A H t True [] 0 (array_bytes key) = (rows, p, ex)" by (metis prod_cases3)
  from collected_result [OF col] have ex: "ex \<longleftrightarrow> (\<forall>n. 0 < n \<and> n \<le> 32 \<longrightarrow> node_exists (vt_storage t) (take n (array_bytes key)))"
    and p: "ex \<Longrightarrow> p = array_bytes key" by simp_all
  obtain t' where gen: "generate_proof_with_witness A H key w t =
     (Inr \<lparr>proof_type_of = (if ex \<and> get_node_value (vt_storage t) p \<noteq> None then Membership else NonMembership),
           proof_path = array_bytes key, siblings = rows,
           leaf_value = (if ex then get_node_value (vt_storage t) p else None),
           proof_root = root_at A H t KEY_SIZE [], gas_fee_distribution = w\<rparr>, t')"
    and same: "vt_pc t' = vt_pc t" "empty_subtree_roots t' = empty_subtree_roots t"
    using generated_proof [OF assms col, of w] by blast
  have root: "spec_root A H (vt_pc t) (empty_subtree_scalars t) (vt_storage t) KEY_SIZE [] = Inr (root_at A H t KEY_SIZE [])"
    by (rule tree_root_total(1) [OF assms(1,2) order.refl])
  show ?thesis
    using gen verify_generated [OF assms(1,2) col same, of w] p root ex by (intro exI conjI) auto
qed

theorem generated_proof_verifies_witness:
  "\<exists>t prf t'. generate_proof sample_ark (\<lambda>_. 0) 7 t = (Inr prf, t') \<and> leaf_value prf = Some [1, 2] \<and>
     verify_proof sample_ark (\<lambda>_. 0) t' prf = Inr True"
proof -
  obtain t0 where new: "tree_new sample_ark (\<lambda>_. 0) memory_storage_new = Some (Inr t0)"
    and ok: "commits_ok sample_ark (vt_pc t0)"
    using tree_new_ok [OF sample_ark_dense sample_ark_serializes] by blast
  note fields = tree_new_fields [OF new]
  let ?t = "tree_insert 7 [1, 2] t0"
  have caches: "caches_ok sample_ark (\<lambda>_. 0) ?t"
    by (rule tree_insert_caches) (use fields(2) in \<open>simp add: caches_ok_def\<close>)
  have empties: "empties_ok sample_ark (\<lambda>_. 0) ?t" using fields(1) by (simp add: empties_ok_def)
  have nodes: "node_exists (vt_storage ?t) (take n (array_bytes 7))" for n
    by (auto simp: node_exists_def storage_tree_insert take_is_prefix)
  have val: "get_node_value (vt_storage ?t) (array_bytes 7) = Some [1, 2]"
    by (simp add: get_node_value_insert)
  from generated_proof_verifies [OF _ empties caches, of 7 None] ok nodes nodes [of 0] val show ?thesis
    by (auto simp: generate_proof_def witness_ok_def)
qed

end
