(* ===== verification/Block_Validation.thy ===== *)
theory Block_Validation
  imports Schnorr Pow V_Trie_Store Ghostdag
begin

text \<open>
  Acceptance of a block (\<open>GhostDag::validate_block\<close> and its helpers in
  \<open>src/core/consensus/ghostdag.rs\<close>), and the block signature and seeded keys of
  \<open>src/core/crypto/schnorr.rs\<close>. The text of an error is kept up to its first formatted value.
  The functions of k256 and bincode are parameters. \<open>None\<close> is a panic of a k256 conversion:
  \<open>collect_transaction_signatures\<close> passes keys and signatures on without looking at their lengths.
\<close>

section \<open>Transaction root\<close>

definition merkle_level :: "blake3 \<Rightarrow> hash list \<Rightarrow> hash list" where
  "merkle_level H hashes = map (\<lambda>chunk. hash_new H (concat (map hash_bytes chunk))) (chunks_of 2 hashes)"

lemma length_merkle_level [simp]: "length (merkle_level H hashes) = (length hashes + 1) div 2"
  by (simp add: merkle_level_def length_chunks_of)

function merkle_loop :: "blake3 \<Rightarrow> hash list \<Rightarrow> hash list" where
  "merkle_loop H hashes = (if 1 < length hashes then merkle_loop H (merkle_level H hashes) else hashes)"
  by pat_completeness auto
termination
  by (relation "measure (\<lambda>(H, hashes). length hashes)") auto

declare merkle_loop.simps [simp del]

definition compute_transaction_merkle_root :: "blake3 \<Rightarrow> transaction list \<Rightarrow> hash" where
  "compute_transaction_merkle_root H txs =
     (if txs = [] then hash_new H [] else merkle_loop H (map tx_id txs) ! 0)"

section \<open>Transactions of a block\<close>

fun collect_signatures ::
    "('vk, 'sig) crypto \<Rightarrow> transaction \<Rightarrow> nat \<Rightarrow> tx_input list \<Rightarrow> ('vk, 'sig) sig_item list
       \<Rightarrow> (core_error + ('vk, 'sig) sig_item list) option" where
  "collect_signatures E tx input_idx [] items = Some (Inr items)"
| "collect_signatures E tx input_idx (input # rest) items =
     (if in_signature input = [] then Some (Inl (ConsensusError ''Missing signature for input ''))
      else bind_try (Some (map_err (\<lambda>e. CryptographicError (''Sighash error: '' @ show_core_error e))
                       (compute_sighash (blake3_hash E) tx input_idx (in_sighash_type input)))) (\<lambda>sighash.
           bind_try (map_option (ok_or (CryptographicError ''Invalid pubkey: '')) (vk_from_bytes E (in_pubkey input))) (\<lambda>pubkey.
           bind_try (map_option (ok_or (CryptographicError ''Invalid signature: '')) (sig_try_from E (in_signature input))) (\<lambda>signature.
             collect_signatures E tx (input_idx + 1) rest (items @ [(pubkey, sighash, signature)])))))"

definition collect_transaction_signatures ::
    "('vk, 'sig) crypto \<Rightarrow> transaction \<Rightarrow> ('vk, 'sig) sig_item list
       \<Rightarrow> (core_error + ('vk, 'sig) sig_item list) option" where
  "collect_transaction_signatures E tx items = collect_signatures E tx 0 (inputs tx) items"

text \<open>The outpoints of a transaction are added to those spent in the block; \<open>None\<close> is a double spend.\<close>

fun spend_inputs :: "(hash \<times> u32) fset \<Rightarrow> tx_input list \<Rightarrow> (hash \<times> u32) fset option" where
  "spend_inputs spent [] = Some spent"
| "spend_inputs spent (input # rest) =
     (if (prev_tx input, in_index input) |\<in>| spent then None
      else spend_inputs (finsert (prev_tx input, in_index input) spent) rest)"

fun check_transactions ::
    "('vk, 'sig) crypto \<Rightarrow> (hash \<times> u32) fset \<Rightarrow> ('vk, 'sig) sig_item list \<Rightarrow> transaction list
       \<Rightarrow> (core_error + ('vk, 'sig) sig_item list) option" where
  "check_transactions E spent items [] = Some (Inr items)"
| "check_transactions E spent items (tx # txs) =
     (if tx_id tx \<noteq> calculate_id (blake3_hash E) tx
      then Some (Inl (ConsensusError ''Invalid transaction id: expected ''))
      else case spend_inputs spent (inputs tx) of
             None \<Rightarrow> Some (Inl (ConsensusError ''Double-spend across block detected for outpoint ''))
           | Some spent' \<Rightarrow>
               bind_try (collect_transaction_signatures E tx items) (\<lambda>items'.
                 check_transactions E spent' items' txs))"

definition validate_transactions ::
    "('vk, 'sig) crypto \<Rightarrow> (bool list \<Rightarrow> bool list) \<Rightarrow> block_node \<Rightarrow> (core_error + unit) option" where
  "validate_transactions E arrival block =
     bind_try (check_transactions E {||} [] (transactions block)) (\<lambda>signature_items.
     bind_try (Some (batch_verify E arrival signature_items)) (\<lambda>ok.
       if \<not> ok then Some (Inl (ConsensusError ''One or more invalid signatures in block'')) else Some (Inr ())))"

section \<open>State of a block\<close>

definition outpoint_key :: "blake3 \<Rightarrow> hash \<Rightarrow> u32 \<Rightarrow> bytes32" where
  "outpoint_key H prev i = as_bytes (hash_new H (hash_bytes prev @ to_be_bytes i))"

fun check_input_keys :: "blake3 \<Rightarrow> ('f, 'g) verkle_tree \<Rightarrow> tx_input list \<Rightarrow> core_error + unit" where
  "check_input_keys H tree [] = Inr ()"
| "check_input_keys H tree (input # rest) =
     (case tree_get (outpoint_key H (prev_tx input) (in_index input)) tree of
        Inr (Some _) \<Rightarrow> check_input_keys H tree rest
      | Inr None \<Rightarrow> Inl (ConsensusError ''Missing input UTXO in Verkle tree for outpoint ('')
      | Inl e \<Rightarrow> Inl (CryptographicError (''Verkle tree query failed: '' @ show_core_error e)))"

fun check_output_keys :: "blake3 \<Rightarrow> ('f, 'g) verkle_tree \<Rightarrow> transaction \<Rightarrow> nat list \<Rightarrow> core_error + unit" where
  "check_output_keys H tree tx [] = Inr ()"
| "check_output_keys H tree tx (idx # rest) =
     (case tree_get (hash_with_index H tx (word_of_nat idx)) tree of
        Inr (Some _) \<Rightarrow> Inl (ConsensusError ''Output key collision in Verkle tree for tx '')
      | _ \<Rightarrow> check_output_keys H tree tx rest)"

fun check_state :: "blake3 \<Rightarrow> ('f, 'g) verkle_tree \<Rightarrow> transaction list \<Rightarrow> core_error + unit" where
  "check_state H tree [] = Inr ()"
| "check_state H tree (tx # txs) =
     bind_res (check_input_keys H tree (inputs tx)) (\<lambda>_.
     bind_res (check_output_keys H tree tx [0..<length (outputs tx)]) (\<lambda>_.
       check_state H tree txs))"

definition validate_verkle_proof :: "blake3 \<Rightarrow> block_node \<Rightarrow> ('f, 'g) verkle_tree \<Rightarrow> core_error + unit" where
  "validate_verkle_proof H block tree = check_state H tree (transactions block)"

section \<open>Block acceptance\<close>

definition header_hash :: "blake3 \<Rightarrow> block_node \<Rightarrow> hash" where
  "header_hash H block =
     calculate_hash H (timestamp (header block)) (difficulty (header block))
       (sorted_list_of_fset (block_parents block)) (blue_score block) (nonce (header block))
       (compute_transaction_merkle_root H (transactions block))"

definition validate_block ::
    "('vk, 'sig) crypto \<Rightarrow> (bool list \<Rightarrow> bool list) \<Rightarrow> block_node \<Rightarrow> dag \<Rightarrow> ('f, 'g) verkle_tree \<Rightarrow> u64
       \<Rightarrow> (core_error + unit) option" where
  "validate_block E arrival block d tree current_time =
     (let max_future_time = 2 * 60 * 60; max_past_time = 24 * 60 * 60
      in if fBex (block_parents block) (\<lambda>p. get_block d p = None)
         then Some (Inl (ConsensusError ''Parent block ''))
         else if saturating_add current_time max_future_time < timestamp (header block)
         then Some (Inl (ConsensusError ''Block timestamp ''))
         else if timestamp (header block) < saturating_sub current_time max_past_time
         then Some (Inl (ConsensusError ''Block timestamp ''))
         else if difficulty (header block) = 0
         then Some (Inl (ConsensusError ''Block difficulty cannot be zero''))
         else if \<not> is_valid_pow (header_hash (blake3_hash E) block) (difficulty (header block))
         then Some (Inl (ConsensusError ''Invalid PoW: hash ''))
         else bind_try (validate_transactions E arrival block) (\<lambda>_.
              bind_try (Some (validate_verkle_proof (blake3_hash E) block tree)) (\<lambda>_. Some (Inr ()))))"

section \<open>Keys from a seed and block signatures\<close>

text \<open>\<open>signing_key_from_bytes\<close> and \<open>bincode\<close> stand for k256 and bincode.\<close>

fun seed_loop :: "blake3 \<Rightarrow> (bytes32 \<Rightarrow> 'sk option) \<Rightarrow> u64 \<Rightarrow> nat list \<Rightarrow> core_error + 'sk" where
  "seed_loop H signing_key_from_bytes seed [] =
     Inl (CryptographicError ''Failed to derive deterministic keypair from seed'')"
| "seed_loop H signing_key_from_bytes seed (counter # counters) =
     (case signing_key_from_bytes (H (to_le_bytes seed @ to_le_bytes (word_of_nat counter :: u64))) of
        Some signing_key \<Rightarrow> Inr signing_key
      | None \<Rightarrow> seed_loop H signing_key_from_bytes seed counters)"

definition from_seed :: "blake3 \<Rightarrow> (bytes32 \<Rightarrow> 'sk option) \<Rightarrow> u64 \<Rightarrow> core_error + 'sk" where
  "from_seed H signing_key_from_bytes seed = seed_loop H signing_key_from_bytes seed [0..<1024]"

definition verify_block_signature ::
    "('vk, 'sig) crypto \<Rightarrow> (block_header \<Rightarrow> bytes option) \<Rightarrow> block_node \<Rightarrow> bool option" where
  "verify_block_signature E bincode block =
     (case hdr_signature (header block) of
        None \<Rightarrow> Some False
      | Some sig_vec \<Rightarrow>
          if length sig_vec \<noteq> 64 then Some False
          else
            let serialized = (case bincode ((header block)\<lparr>hdr_signature := None\<rparr>) of Some bs \<Rightarrow> bs | None \<Rightarrow> []);
                msg_hash = tagged_hash (blake3_hash E) TAG_TX_SIGN serialized
            in case transactions block of
                 [] \<Rightarrow> Some False
               | coinbase_tx # _ \<Rightarrow>
                   (case outputs coinbase_tx of
                      [] \<Rightarrow> Some False
                    | out # _ \<Rightarrow>
                        map_option (\<lambda>r. case r of Inr b \<Rightarrow> b | Inl _ \<Rightarrow> False)
                          (verify_schnorr E (as_bytes (pubkey_hash out)) sig_vec (array_bytes msg_hash))))"

section \<open>What the checks accept\<close>

lemma spend_inputs_Some:
  "spend_inputs spent ins = Some spent' \<longleftrightarrow>
     distinct (map (\<lambda>i. (prev_tx i, in_index i)) ins) \<and>
     (\<forall>i \<in> set ins. (prev_tx i, in_index i) |\<notin>| spent) \<and>
     spent' = spent |\<union>| fset_of_list (map (\<lambda>i. (prev_tx i, in_index i)) ins)"
  by (induction ins arbitrary: spent) (auto simp: image_iff)

definition input_item :: "('vk, 'sig) crypto \<Rightarrow> transaction \<Rightarrow> nat \<times> tx_input \<Rightarrow> ('vk, 'sig) sig_item option" where
  "input_item E tx = (\<lambda>(idx, input).
     if in_signature input = [] then None
     else case (vk_from_bytes E (in_pubkey input), sig_try_from E (in_signature input)) of
            (Some (Some pubkey), Some (Some sig)) \<Rightarrow>
              Some (pubkey, tagged_hash (blake3_hash E) TAG_TX_SIGN
                              (serialize_tx_for_sighash tx idx (in_sighash_type input)), sig)
          | _ \<Rightarrow> None)"

definition tx_items :: "('vk, 'sig) crypto \<Rightarrow> transaction \<Rightarrow> ('vk, 'sig) sig_item option list" where
  "tx_items E tx = map (input_item E tx) (List.enumerate 0 (inputs tx))"

lemma collect_signatures_Inr:
  "collect_signatures E tx n ins items = Some (Inr items') \<longleftrightarrow>
     map Some items' = map Some items @ map (input_item E tx) (List.enumerate n ins)"
proof (induction ins arbitrary: n items)
  case Nil
  then show ?case by (auto dest: map_injective [OF _ inj_Some])
next
  case (Cons i ins)
  show ?case
  proof (cases "input_item E tx (n, i)")
    case None
    then have "collect_signatures E tx n (i # ins) items \<noteq> Some (Inr items')"
      by (auto simp: input_item_def compute_sighash_def split: if_splits option.splits)
    moreover have "None \<notin> set (map Some items')" by auto
    then have "map Some items' \<noteq> map Some items @ map (input_item E tx) (List.enumerate n (i # ins))"
      using None by (metis enumerate_simps(2) in_set_conv_decomp list.simps(9))
    ultimately show ?thesis by blast
  next
    case (Some item)
    then have "collect_signatures E tx n (i # ins) items = collect_signatures E tx (n + 1) ins (items @ [item])"
      by (auto simp: input_item_def compute_sighash_def split: if_splits option.splits)
    with Some Cons.IH [of "n + 1" "items @ [item]"] show ?thesis by simp
  qed
qed

definition spent_outpoints :: "transaction list \<Rightarrow> (hash \<times> u32) list" where
  "spent_outpoints txs = concat (map (\<lambda>tx. map (\<lambda>i. (prev_tx i, in_index i)) (inputs tx)) txs)"

lemma check_transactions_Inr:
  "check_transactions E spent items txs = Some (Inr items') \<longleftrightarrow>
     (\<forall>tx \<in> set txs. tx_id tx = calculate_id (blake3_hash E) tx) \<and>
     distinct (spent_outpoints txs) \<and> set (spent_outpoints txs) \<inter> fset spent = {} \<and>
     map Some items' = map Some items @ concat (map (tx_items E) txs)"
proof (induction txs arbitrary: spent items)
  case Nil
  then show ?case by (auto simp: spent_outpoints_def dest: map_injective [OF _ inj_Some])
next
  case (Cons tx txs)
  let ?ops = "map (\<lambda>i. (prev_tx i, in_index i)) (inputs tx)"
  have ops: "spent_outpoints (tx # txs) = ?ops @ spent_outpoints txs" by (simp add: spent_outpoints_def)
  show ?case
  proof (cases "tx_id tx = calculate_id (blake3_hash E) tx \<and> spend_inputs spent (inputs tx) \<noteq> None")
    case False
    then have "spend_inputs spent (inputs tx) \<noteq> Some (spent |\<union>| fset_of_list ?ops) \<or> tx_id tx \<noteq> calculate_id (blake3_hash E) tx"
      by auto
    with False show ?thesis
      by (auto simp: ops spend_inputs_Some split: option.split)
  next
    case True
    then obtain spent' where sp: "spend_inputs spent (inputs tx) = Some spent'" by auto
    then have sp': "distinct ?ops" "set ?ops \<inter> fset spent = {}" "fset spent' = fset spent \<union> set ?ops"
      by (auto simp: spend_inputs_Some fset_of_list.rep_eq)
    have "check_transactions E spent items (tx # txs) = Some (Inr items') \<longleftrightarrow>
        (\<exists>mid. map Some mid = map Some items @ tx_items E tx \<and> check_transactions E spent' mid txs = Some (Inr items'))"
      using True sp by (simp add: collect_transaction_signatures_def collect_signatures_Inr tx_items_def)
    also have "\<dots> \<longleftrightarrow> (\<forall>tx \<in> set txs. tx_id tx = calculate_id (blake3_hash E) tx) \<and>
        distinct (spent_outpoints txs) \<and> set (spent_outpoints txs) \<inter> fset spent' = {} \<and>
        map Some items' = map Some items @ concat (map (tx_items E) (tx # txs))" (is "?l \<longleftrightarrow> ?r")
    proof
      assume ?l
      then show ?r using Cons.IH by fastforce
    next
      assume r: ?r
      then have eq: "map Some items' = (map Some items @ tx_items E tx) @ concat (map (tx_items E) txs)" by simp
      then have "map Some items @ tx_items E tx = map Some (take (length (map Some items @ tx_items E tx)) items')"
        by (metis append_eq_conv_conj take_map)
      with r eq show ?l using Cons.IH by (metis (no_types, lifting))
    qed
    finally show ?thesis using True sp' unfolding ops by auto
  qed
qed

definition input_signed :: "('vk, 'sig) crypto \<Rightarrow> transaction \<Rightarrow> nat \<Rightarrow> bool" where
  "input_signed E tx idx \<longleftrightarrow>
     (case input_item E tx (idx, inputs tx ! idx) of None \<Rightarrow> False | Some item \<Rightarrow> item_valid E item)"

lemma tx_items_valid:
  "(\<forall>x \<in> set (tx_items E tx). \<exists>item. x = Some item \<and> item_valid E item) \<longleftrightarrow>
     (\<forall>idx < length (inputs tx). input_signed E tx idx)"
proof -
  have "set (tx_items E tx) = (\<lambda>idx. input_item E tx (idx, inputs tx ! idx)) ` {..<length (inputs tx)}"
    by (auto simp: tx_items_def set_conv_nth nth_enumerate_eq intro!: exI)
  moreover have "(\<exists>item. x = Some item \<and> item_valid E item) \<longleftrightarrow> (case x of None \<Rightarrow> False | Some item \<Rightarrow> item_valid E item)" for x
    by (cases x) auto
  ultimately show ?thesis by (auto simp: input_signed_def)
qed

lemma validate_transactions_Inr:
  assumes "\<And>vs. mset (arrival vs) = mset vs"
  shows "validate_transactions E arrival block = Some (Inr ()) \<longleftrightarrow>
     (\<forall>tx \<in> set (transactions block). tx_id tx = calculate_id (blake3_hash E) tx \<and>
        (\<forall>idx < length (inputs tx). input_signed E tx idx)) \<and>
     distinct (spent_outpoints (transactions block))"
proof -
  let ?txs = "transactions block"
  have "validate_transactions E arrival block = Some (Inr ()) \<longleftrightarrow>
      (\<exists>items. check_transactions E {||} [] ?txs = Some (Inr items) \<and> (\<forall>i \<in> set items. item_valid E i))"
    by (auto simp: validate_transactions_def batch_verify_all [of arrival E, OF assms])
  also have "\<dots> \<longleftrightarrow> (\<forall>tx \<in> set ?txs. tx_id tx = calculate_id (blake3_hash E) tx) \<and> distinct (spent_outpoints ?txs) \<and>
      (\<exists>items. map Some items = concat (map (tx_items E) ?txs) \<and> (\<forall>i \<in> set items. item_valid E i))"
    by (auto simp: check_transactions_Inr)
  also have "(\<exists>items. map Some items = concat (map (tx_items E) ?txs) \<and> (\<forall>i \<in> set items. item_valid E i)) \<longleftrightarrow>
      (\<forall>x \<in> set (concat (map (tx_items E) ?txs)). \<exists>item. x = Some item \<and> item_valid E item)" (is "?l \<longleftrightarrow> ?r")
  proof
    assume ?l
    then show ?r by (metis (no_types, lifting) image_iff list.set_map)
  next
    assume r: ?r
    let ?items = "map the (concat (map (tx_items E) ?txs))"
    have "map Some ?items = concat (map (tx_items E) ?txs)"
      unfolding map_map by (rule map_idI) (use r in force)
    moreover have "\<forall>i \<in> set ?items. item_valid E i" using r by force
    ultimately show ?l by blast
  qed
  finally show ?thesis using tx_items_valid [of E] by auto
qed

lemma check_input_keys_Inr:
  "check_input_keys H tree ins = Inr () \<longleftrightarrow>
     (\<forall>i \<in> set ins. \<exists>v. tree_get (outpoint_key H (prev_tx i) (in_index i)) tree = Inr (Some v))"
  by (induction ins) (auto split: sum.splits option.splits)

lemma check_output_keys_Inr:
  "check_output_keys H tree tx ns = Inr () \<longleftrightarrow>
     (\<forall>n \<in> set ns. \<forall>v. tree_get (hash_with_index H tx (word_of_nat n)) tree \<noteq> Inr (Some v))"
  by (induction ns) (auto split: sum.splits option.splits)

lemma check_state_Inr:
  "check_state H tree txs = Inr () \<longleftrightarrow>
     (\<forall>tx \<in> set txs.
        (\<forall>i \<in> set (inputs tx). \<exists>v. tree_get (outpoint_key H (prev_tx i) (in_index i)) tree = Inr (Some v)) \<and>
        (\<forall>n < length (outputs tx). \<forall>v. tree_get (hash_with_index H tx (word_of_nat n)) tree \<noteq> Inr (Some v)))"
  by (induction txs) (auto simp: check_input_keys_Inr check_output_keys_Inr)

text \<open>
  Keys of 32 bytes and signatures of at least 32 reach the conversions safely; an input without a
  signature is refused before them.
\<close>

definition well_sized :: "transaction list \<Rightarrow> bool" where
  "well_sized txs \<longleftrightarrow>
     (\<forall>tx \<in> set txs. \<forall>input \<in> set (inputs tx).
        in_signature input = [] \<or> length (in_pubkey input) = 32 \<and> 32 \<le> length (in_signature input))"

lemma collect_signatures_returns:
  assumes "conversions_return E"
    and "\<forall>input \<in> set ins.
        in_signature input = [] \<or> length (in_pubkey input) = 32 \<and> 32 \<le> length (in_signature input)"
  shows "returns (collect_signatures E tx n ins items)"
  using assms(2) by (induction ins arbitrary: n items) (auto simp: conversions_returnD [OF assms(1)])

lemma validate_block_returns:
  assumes "conversions_return E" "well_sized (transactions block)"
  shows "returns (validate_block E arrival block d tree current_time)"
proof -
  have "returns (check_transactions E spent items txs)" if "well_sized txs" for spent items txs
    using that
    by (induction txs arbitrary: spent items)
      (auto simp: well_sized_def collect_transaction_signatures_def split: option.split
        intro: collect_signatures_returns [OF assms(1)])
  with assms(2) show ?thesis by (auto simp: validate_block_def validate_transactions_def Let_def)
qed

text \<open>
  The lengths are not checked first: a block whose first transaction carries a key or a signature of
  a length at which the conversion panics makes the node panic, once the header passes.
\<close>

lemma validate_block_panics:
  assumes "fBall (block_parents block) (\<lambda>p. get_block d p \<noteq> None)"
    and "timestamp (header block) = current_time" "difficulty (header block) \<noteq> 0"
    and "is_valid_pow (header_hash (blake3_hash E) block) (difficulty (header block))"
    and "transactions block = tx # txs" "tx_id tx = calculate_id (blake3_hash E) tx"
    and "inputs tx = [input]" "in_signature input \<noteq> []" "vk_from_bytes E (in_pubkey input) = None"
  shows "validate_block E arrival block d tree current_time = None"
proof -
  have "current_time \<le> saturating_add current_time 7200" "saturating_sub current_time 86400 \<le> current_time"
    using unat_u64_bound [of current_time] by (simp_all add: word_le_nat_alt unat_saturating_add unat_saturating_sub)
  with assms show ?thesis
    by (auto simp: validate_block_def validate_transactions_def collect_transaction_signatures_def compute_sighash_def Let_def
        not_less [symmetric])
qed

section \<open>Properties\<close>

text \<open>
  C16. A block is accepted exactly when its parents are known, its time is within two hours after
  and a day before the given time, its difficulty is not zero and above its header hash, every
  transaction has the identifier of its body, no outpoint is spent twice in the block, every
  input carries a valid signature, every outpoint spent is in the tree and no output is.
\<close>

theorem validate_block_exact:
  assumes "\<And>vs. mset (arrival vs) = mset vs"
  shows "validate_block E arrival block d tree current_time = Some (Inr ()) \<longleftrightarrow>
     fBall (block_parents block) (\<lambda>p. get_block d p \<noteq> None) \<and>
     unat (timestamp (header block)) \<le> min (unat current_time + 7200) (2 ^ 64 - 1) \<and>
     unat current_time - 86400 \<le> unat (timestamp (header block)) \<and>
     difficulty (header block) \<noteq> 0 \<and>
     hash_val (header_hash (blake3_hash E) block) < difficulty (header block) \<and>
     (\<forall>tx \<in> set (transactions block). tx_id tx = calculate_id (blake3_hash E) tx \<and>
        (\<forall>idx < length (inputs tx). input_signed E tx idx)) \<and>
     distinct (spent_outpoints (transactions block)) \<and>
     (\<forall>tx \<in> set (transactions block).
        (\<forall>i \<in> set (inputs tx). \<exists>v. tree_get (outpoint_key (blake3_hash E) (prev_tx i) (in_index i)) tree = Inr (Some v)) \<and>
        (\<forall>n < length (outputs tx). \<forall>v.
           tree_get (hash_with_index (blake3_hash E) tx (word_of_nat n)) tree \<noteq> Inr (Some v)))"
proof -
  have "unat (saturating_add current_time 7200) = min (unat current_time + 7200) (2 ^ 64 - 1)"
    "unat (saturating_sub current_time 86400) = unat current_time - 86400"
    by (simp_all add: unat_saturating_add unat_saturating_sub)
  then have time: "saturating_add current_time 7200 < timestamp (header block) \<longleftrightarrow>
        min (unat current_time + 7200) (2 ^ 64 - 1) < unat (timestamp (header block))"
    "timestamp (header block) < saturating_sub current_time 86400 \<longleftrightarrow>
        unat (timestamp (header block)) < unat current_time - 86400"
    by (simp_all only: word_less_nat_alt)
  have "validate_block E arrival block d tree current_time = Some (Inr ()) \<longleftrightarrow>
      fBall (block_parents block) (\<lambda>p. get_block d p \<noteq> None) \<and>
      \<not> saturating_add current_time 7200 < timestamp (header block) \<and>
      \<not> timestamp (header block) < saturating_sub current_time 86400 \<and>
      difficulty (header block) \<noteq> 0 \<and> is_valid_pow (header_hash (blake3_hash E) block) (difficulty (header block)) \<and>
      validate_transactions E arrival block = Some (Inr ()) \<and>
      validate_verkle_proof (blake3_hash E) block tree = Inr ()"
    by (auto simp: validate_block_def Let_def)
  then show ?thesis
    by (simp only: time not_less validate_transactions_Inr [OF assms] validate_verkle_proof_def check_state_Inr is_valid_pow_iff conj_assoc)
qed

theorem validate_block_exact_witness:
  "validate_block (sample_crypto\<lparr>blake3_hash := \<lambda>_. 0\<rparr>) rev (sample_block 9 {|Hash 4|}) sample_dag sample_tree 100 = Some (Inr ())"
proof -
  have "get_block sample_dag (Hash 4) \<noteq> None" by code_simp
  moreover have "hash_val (Hash 0) = 0" by (simp add: hash_val_def) code_simp
  ultimately show ?thesis
    by (subst validate_block_exact)
      (simp_all add: sample_block_def spent_outpoints_def header_hash_def calculate_hash_def hash_new_def sample_crypto_def)
qed

end
