(* ===== verification/Manager_State.thy ===== *)
theory Manager_State
  imports V_Trie_Proof Chain_State Gas_Meter
begin

text \<open>
  The state of the state manager and its operations on the tree alone
  (\<open>src/core/state_manager.rs\<close>): what the contract executor calls. The manager's storage is
  \<open>MemoryStorage\<close>; its mutex \<open>apply_lock\<close> is never taken and is left out. The snapshot of a
  height and the store it was taken from are at the same index of two lists.
\<close>

section \<open>Data\<close>

record sm_gas_fee_witness =
  sm_total_gas_fee :: u128
  sm_miner_share :: u128
  sm_fullnode_share :: u128

record state_snapshot =
  snap_height :: u64
  snap_root :: bytes32
  snap_total_supply :: u128
  snap_gas_fees :: "sm_gas_fee_witness list"

datatype state_manager_error =
    InvalidRollback string
  | SnapshotNotFound u64
  | ApplyBlockFailed string
  | RestoreFailed string
  | Sm_CryptographicError string
  | SupplyCapExceeded string
  | BurnAddressViolation string

text \<open>The text of a message up to its first formatted number.\<close>

fun show_state_manager_error :: "state_manager_error \<Rightarrow> string" where
  "show_state_manager_error (InvalidRollback msg) = ''Invalid rollback: '' @ msg"
| "show_state_manager_error (SnapshotNotFound height) = ''Snapshot not found at height ''"
| "show_state_manager_error (ApplyBlockFailed msg) = ''Apply block failed: '' @ msg"
| "show_state_manager_error (RestoreFailed msg) = ''Restore failed: '' @ msg"
| "show_state_manager_error (Sm_CryptographicError msg) = ''Cryptographic error: '' @ msg"
| "show_state_manager_error (SupplyCapExceeded msg) = ''Supply cap exceeded: '' @ msg"
| "show_state_manager_error (BurnAddressViolation msg) = ''Burn address violation: '' @ msg"

definition from_core_error :: "core_error \<Rightarrow> state_manager_error" where
  "from_core_error err = Sm_CryptographicError (''CoreError: '' @ show_core_error err)"

record ('f, 'g) state_manager =
  sm_tree :: "('f, 'g) verkle_tree"
  current_height :: u64
  snapshots :: "state_snapshot list"
  snapshot_storages :: "memory_storage list"
  sm_prune_markers :: "(outpoint, prune_marker) fmap"
  outpoint_to_key :: "(outpoint, bytes32) fmap"
  current_total_supply :: u128
  block_gas_fees :: "sm_gas_fee_witness list"
  pending_updates :: "(bytes32 \<times> bytes) list"
  applying_block :: bool

section \<open>Operations on the tree\<close>

definition get_root_hash ::
    "('f::field, 'p, 'g::ab_group_add) ark \<Rightarrow> blake3 \<Rightarrow> ('f, 'g) state_manager
       \<Rightarrow> (state_manager_error + bytes32) \<times> ('f, 'g) state_manager" where
  "get_root_hash A H sm =
     (case get_root A H (sm_tree sm) of
        (r, t) \<Rightarrow> (map_err (\<lambda>e. Sm_CryptographicError (''Failed to get root: '' @ show_core_error e)) r,
                   sm\<lparr>sm_tree := t\<rparr>))"

definition manager_new ::
    "('f::field, 'p, 'g::ab_group_add) ark \<Rightarrow> blake3 \<Rightarrow> ('f, 'g) verkle_tree
       \<Rightarrow> state_manager_error + ('f, 'g) state_manager" where
  "manager_new A H t =
     (case get_root A H t of
        (Inl e, _) \<Rightarrow> Inl (Sm_CryptographicError (''Failed to get root: '' @ show_core_error e))
      | (Inr root, t') \<Rightarrow>
          Inr \<lparr>sm_tree = t', current_height = 0,
               snapshots = [\<lparr>snap_height = 0, snap_root = root, snap_total_supply = 0, snap_gas_fees = []\<rparr>],
               snapshot_storages = [vt_storage t'], sm_prune_markers = fmempty, outpoint_to_key = fmempty,
               current_total_supply = 0, block_gas_fees = [], pending_updates = [],
               applying_block = False\<rparr>)"

definition state_read :: "bytes32 \<Rightarrow> ('f, 'g) state_manager \<Rightarrow> string + bytes option" where
  "state_read key sm = map_err show_core_error (tree_get key (sm_tree sm))"

definition state_write :: "bytes32 \<Rightarrow> bytes \<Rightarrow> ('f, 'g) state_manager \<Rightarrow> (string + unit) \<times> ('f, 'g) state_manager" where
  "state_write key value sm = (Inr (), sm\<lparr>sm_tree := tree_insert key value (sm_tree sm)\<rparr>)"

definition mark_outpoint_for_pruning ::
    "outpoint \<Rightarrow> u64 \<Rightarrow> u64 \<Rightarrow> ('f, 'g) state_manager \<Rightarrow> ('f, 'g) state_manager" where
  "mark_outpoint_for_pruning out epoch time sm =
     sm\<lparr>sm_prune_markers := fmupd out \<lparr>pm_epoch = epoch, pm_timestamp = time\<rparr> (sm_prune_markers sm)\<rparr>"

section \<open>Gas fee witnesses\<close>

text \<open>The products are 128-bit and wrap.\<close>

definition create_gas_fee_witness :: "u128 \<Rightarrow> sm_gas_fee_witness" where
  "create_gas_fee_witness tot_fee =
     (let miner = tot_fee * MINER_REWARD_PERCENT div 100;
          fullnode = saturating_sub tot_fee miner
      in \<lparr>sm_total_gas_fee = tot_fee, sm_miner_share = miner, sm_fullnode_share = fullnode\<rparr>)"

definition verify_gas_fee_distribution :: "sm_gas_fee_witness \<Rightarrow> bool" where
  "verify_gas_fee_distribution w \<longleftrightarrow>
     (let expected_miner = sm_total_gas_fee w * MINER_REWARD_PERCENT div 100;
          expected_fullnode = saturating_sub (sm_total_gas_fee w) expected_miner
      in sm_miner_share w = expected_miner \<and> sm_fullnode_share w = expected_fullnode \<and>
         sm_miner_share w + sm_fullnode_share w = sm_total_gas_fee w)"

definition verify_global_supply :: "('f, 'g) state_manager \<Rightarrow> state_manager_error + unit" where
  "verify_global_supply sm =
     (if MAX_GLOBAL_SUPPLY_NANO_SLUG < current_total_supply sm
      then Inl (SupplyCapExceeded ''Total supply '') else Inr ())"

definition get_state_at :: "u64 \<Rightarrow> ('f, 'g) state_manager \<Rightarrow> state_snapshot option" where
  "get_state_at height sm = find (\<lambda>s. snap_height s = height) (snapshots sm)"

definition get_current_state ::
    "('f::field, 'p, 'g::ab_group_add) ark \<Rightarrow> blake3 \<Rightarrow> ('f, 'g) state_manager
       \<Rightarrow> (state_manager_error + state_snapshot) \<times> ('f, 'g) state_manager" where
  "get_current_state A H sm =
     bind_st (get_root_hash A H sm) (\<lambda>root sm'.
       (Inr \<lparr>snap_height = current_height sm', snap_root = root,
             snap_total_supply = current_total_supply sm', snap_gas_fees = block_gas_fees sm'\<rparr>, sm'))"

fun heights_match :: "nat \<Rightarrow> state_snapshot list \<Rightarrow> bool" where
  "heights_match i [] = True"
| "heights_match i (s # ss) = (snap_height s = word_of_nat i \<and> heights_match (Suc i) ss)"

definition validate_snapshots :: "('f, 'g) state_manager \<Rightarrow> state_manager_error + unit" where
  "validate_snapshots sm =
     (if \<not> heights_match 0 (snapshots sm)
      then Inl (ApplyBlockFailed ''Snapshot height mismatch at index '')
      else if length (snapshots sm) \<noteq> length (snapshot_storages sm)
      then Inl (ApplyBlockFailed ''Snapshot and storage length mismatch'')
      else Inr ())"

section \<open>Well-formed trees\<close>

text \<open>
  What every tree the manager holds satisfies: the commitment parameters and the constants of
  the empty subtrees are those \<open>new\<close> computes, the caches are right and the root node is stored.
\<close>

definition tree_ok :: "('f::field, 'p, 'g::ab_group_add) ark \<Rightarrow> blake3 \<Rightarrow> ('f, 'g) verkle_tree \<Rightarrow> bool" where
  "tree_ok A H t \<longleftrightarrow>
     pc_new A H VERKLE_RADIX = Some (vt_pc t) \<and> empties_ok A H t \<and> caches_ok A H t \<and> node_exists (vt_storage t) []"

lemma tree_new_wf: "tree_new A H s = Some (Inr t) \<Longrightarrow> tree_ok A H t"
  using tree_new_fields [of A H s t] by (simp add: tree_ok_def)

lemma tree_new_empty:
  assumes "tree_new A H memory_storage_new = Some (Inr t)"
  shows "tree_get k t = Inr None"
proof -
  have "vt_storage t = storage_put (key_for_path []) (serialize_node None) memory_storage_new" "pruned_keys t = {||}"
    using assms by (auto simp: tree_new_def ensure_node_def memory_storage_new_def storage_get_def split: if_splits)
  moreover have "array_bytes k \<noteq> []" using length_to_be_bytes [of k] by fastforce
  ultimately show ?thesis
    by (simp add: tree_get_def get_node_value_def memory.get_put) (simp add: memory_storage_new_def storage_get_def)
qed

lemma tree_ok_coherent: "tree_ok A H t \<Longrightarrow> coherent A H t"
  by (simp add: tree_ok_def caches_ok_def)

lemma empties_ok_frame:
  assumes "vt_pc t' = vt_pc t" "empty_subtree_roots t' = empty_subtree_roots t"
    "empty_subtree_scalars t' = empty_subtree_scalars t"
  shows "empties_ok A H t' = empties_ok A H t"
  by (simp add: empties_ok_def assms)

lemma tree_ok_insert: "tree_ok A H t \<Longrightarrow> tree_ok A H (tree_insert key v t)"
  using tree_insert_caches [of A H t key v] empties_ok_frame [of "tree_insert key v t" t A H]
  by (simp add: tree_ok_def caches_ok_def node_exists_def storage_tree_insert)

lemma cleanup_root:
  assumes "n \<le> length path"
  shows "storage_get (vt_storage (cleanup_loop path n t)) (key_for_path []) = storage_get (vt_storage t) (key_for_path [])"
  using assms
proof (induction path n t rule: cleanup_loop.induct)
  case (2 path depth t)
  have "take depth path \<noteq> []" if "0 < depth" using that 2 by (cases path) auto
  with 2 show ?case by (auto simp: Let_def memory.get_del)
qed simp

lemma tree_ok_prune:
  assumes "tree_ok A H t"
  shows "tree_ok A H (snd (prune_key key t))"
proof -
  have ne: "array_bytes key \<noteq> []" using length_to_be_bytes [of key] by fastforce
  have frame: "vt_pc (snd (prune_key key t)) = vt_pc t" "empty_subtree_roots (snd (prune_key key t)) = empty_subtree_roots t"
    "empty_subtree_scalars (snd (prune_key key t)) = empty_subtree_scalars t"
    by (simp_all add: prune_key_def Let_def recursive_cleanup_empty_nodes_def)
  have root: "node_exists (vt_storage (snd (prune_key key t))) [] = node_exists (vt_storage t) []"
    using ne by (simp add: prune_key_def Let_def recursive_cleanup_empty_nodes_def node_exists_def cleanup_root memory.get_del)
  show ?thesis
    using assms prune_key_caches [OF tree_ok_coherent [OF assms], of key] empties_ok_frame [OF frame, of A H] frame root
    by (simp add: tree_ok_def)
qed

lemma tree_ok_root:
  assumes "tree_ok A H t"
  shows "tree_ok A H (snd (get_root A H t))"
  using assms get_root_result [of A H t] empties_ok_frame [of "snd (get_root A H t)" t A H]
  by (simp add: tree_ok_def)

lemma tree_ok_inserts: "tree_ok A H t \<Longrightarrow> tree_ok A H (fold (\<lambda>(key, value). tree_insert key value) updates t)"
proof (induction updates arbitrary: t)
  case (Cons u us)
  then show ?case by (simp add: split_beta tree_ok_insert)
qed simp

lemma tree_ok_dirty: "tree_ok A H t \<Longrightarrow> tree_ok A H (t\<lparr>dirty := True\<rparr>)"
  by (simp add: tree_ok_def caches_ok_def root_coherent_def empties_ok_def)

lemma tree_ok_transition:
  "tree_ok A H t \<Longrightarrow> tree_ok A H (snd (apply_state_transition updates supply t))"
  by (simp add: apply_state_transition_def Let_def tree_ok_dirty tree_ok_inserts tree_ok_insert)

text \<open>On such a tree \<open>clone\<close> does not panic and loses nothing but the caches.\<close>

lemma tree_clone_eq:
  assumes "tree_ok A H t"
  shows "tree_clone A H t = Some (t\<lparr>commitment_cache := fmempty, root_cache := None, dirty := True\<rparr>)"
proof -
  have pc: "pc_new A H VERKLE_RADIX = Some (vt_pc t)" using assms by (simp add: tree_ok_def)
  have const: "compute_empty_subtree_constants A H (vt_pc t) = Inr (empty_subtree_roots t, empty_subtree_scalars t)"
    using assms by (simp add: tree_ok_def empties_ok_def compute_empty_subtree_constants_def)
  obtain node where "storage_get (vt_storage t) (key_for_path []) = Some node"
    using assms by (auto simp: tree_ok_def node_exists_def)
  then show ?thesis by (simp add: tree_clone_def tree_new_def pc const ensure_node_def)
qed

lemma tree_ok_clone:
  assumes "tree_ok A H t" "tree_clone A H t = Some t'"
  shows "tree_ok A H t'" "vt_storage t' = vt_storage t" "vt_pc t' = vt_pc t"
    "empty_subtree_scalars t' = empty_subtree_scalars t" "pruned_keys t' = pruned_keys t" "tree_get k t' = tree_get k t"
  using assms tree_clone_eq [OF assms(1)]
  by (auto simp: tree_ok_def caches_ok_def coherent_def root_coherent_def empties_ok_def cache_lookup_def tree_get_def)

text \<open>A tree loaded again from a store has the commitments of the tree the store came from.\<close>

lemma tree_new_reload:
  assumes "tree_ok A H t"
  shows "\<exists>t'. tree_new A H (vt_storage t) = Some (Inr t') \<and> tree_ok A H t' \<and> vt_storage t' = vt_storage t \<and>
    pruned_keys t' = {||} \<and> tree_root A H t' = tree_root A H t"
proof -
  have pc: "pc_new A H VERKLE_RADIX = Some (vt_pc t)" using assms by (simp add: tree_ok_def)
  have const: "compute_empty_subtree_constants A H (vt_pc t) = Inr (empty_subtree_roots t, empty_subtree_scalars t)"
    using assms by (simp add: tree_ok_def empties_ok_def compute_empty_subtree_constants_def)
  have root: "storage_get (vt_storage t) (key_for_path []) \<noteq> None"
    using assms by (simp add: tree_ok_def node_exists_def)
  obtain t' where t': "tree_new A H (vt_storage t) = Some (Inr t')" "vt_storage t' = vt_storage t" "vt_pc t' = vt_pc t"
      "empty_subtree_scalars t' = empty_subtree_scalars t" "pruned_keys t' = {||}"
    using root by (simp add: tree_new_def pc const ensure_node_def)
  with tree_new_wf [OF t'(1)] show ?thesis by (intro exI [of _ t']) simp
qed

section \<open>Facts on the state\<close>

lemma heights_match_iff:
  "heights_match i ss \<longleftrightarrow> (\<forall>j < length ss. snap_height (ss ! j) = word_of_nat (i + j))"
proof (induction ss arbitrary: i)
  case (Cons s ss)
  have "(\<forall>j < length (s # ss). snap_height ((s # ss) ! j) = word_of_nat (i + j)) \<longleftrightarrow>
      snap_height s = word_of_nat i \<and> (\<forall>j < length ss. snap_height (ss ! j) = word_of_nat (Suc i + j))"
    by (simp only: length_Cons All_less_Suc2 nth_Cons_0 nth_Cons_Suc add_0_right add_Suc_right add_Suc)
  with Cons.IH [of "Suc i"] show ?case by (simp only: heights_match.simps)
qed simp

lemma miner_share_le:
  fixes x :: u128
  shows "unat (x * 80 div 100) \<le> unat x"
    "unat (x * 80 div 100) = unat x * 80 div 100 \<longleftrightarrow> unat x * 80 < 2 ^ 128"
proof -
  have u: "unat (x * 80 div 100) = unat x * 80 mod 2 ^ 128 div 100"
    by (simp add: unat_div unat_word_ariths)
  have "unat x * 80 mod 2 ^ 128 \<le> unat x * 80" by simp
  then have "unat x * 80 mod 2 ^ 128 div 100 \<le> unat x * 80 div 100" by (rule div_le_mono)
  also have "\<dots> \<le> unat x" by simp
  finally show "unat (x * 80 div 100) \<le> unat x" by (simp add: u)
  show "unat (x * 80 div 100) = unat x * 80 div 100 \<longleftrightarrow> unat x * 80 < 2 ^ 128"
  proof
    assume eq: "unat (x * 80 div 100) = unat x * 80 div 100"
    show "unat x * 80 < 2 ^ 128"
    proof (rule ccontr)
      assume "\<not> unat x * 80 < 2 ^ 128"
      then have "unat x * 80 mod 2 ^ 128 + 2 ^ 128 \<le> unat x * 80"
        by (metis le_add_diff_inverse2 le_mod_geq mod_less_eq_dividend add_le_cancel_right not_less)
      then have "unat x * 80 mod 2 ^ 128 + 100 \<le> unat x * 80" by (rule order.trans [rotated]) simp
      then have "(unat x * 80 mod 2 ^ 128 + 100) div 100 \<le> unat x * 80 div 100" by (rule div_le_mono)
      then show False using eq u by simp
    qed
  next
    assume "unat x * 80 < 2 ^ 128"
    then show "unat (x * 80 div 100) = unat x * 80 div 100" by (simp add: u)
  qed
qed

section \<open>Properties\<close>

definition sample_manager :: "('f, 'g) verkle_tree \<Rightarrow> ('f, 'g) state_manager" where
  "sample_manager t =
     \<lparr>sm_tree = t, current_height = 0, snapshots = [], snapshot_storages = [], sm_prune_markers = fmempty,
      outpoint_to_key = fmempty, current_total_supply = 0, block_gas_fees = [], pending_updates = [],
      applying_block = False\<rparr>"

text \<open>
  Every gas fee witness the manager creates passes its own check, and its shares add up to
  the fee; but the miner's share is 80 percent of the fee only up to a fee of
  \<open>(2 ^ 128 - 1) / 80\<close>, where the product starts to wrap.
\<close>

theorem gas_fee_witness_verifies:
  "verify_gas_fee_distribution (create_gas_fee_witness x) \<and>
   unat (sm_miner_share (create_gas_fee_witness x)) + unat (sm_fullnode_share (create_gas_fee_witness x)) = unat x \<and>
   (unat (sm_miner_share (create_gas_fee_witness x)) = unat x * 80 div 100 \<longleftrightarrow> unat x * 80 < 2 ^ 128)"
proof -
  have le: "x * 80 div 100 \<le> x" using miner_share_le(1) [of x] by (simp add: word_le_nat_alt)
  then show ?thesis
    using miner_share_le [of x]
    by (simp add: verify_gas_fee_distribution_def create_gas_fee_witness_def Let_def MINER_REWARD_PERCENT_def
        saturating_sub_def unat_sub)
qed

end
