(* ===== verification/Vm_Executor.thy ===== *)
theory Vm_Executor
  imports Manager_State
begin

text \<open>
  The contract executor (\<open>src/core/vm/executor.rs\<close>): the host functions a contract calls and the
  metered run around them. The WebAssembly runtime is a parameter, a record of what the code
  asks of wasmer: a store holds the guest's memory and its metering points, and running the
  guest goes up to the next call of a host function, its return or its trap. A run that panics
  or never ends has no result.
\<close>

section \<open>The runtime\<close>

type_synonym i32 = "32 word"

datatype host_call =
    Call_State_Read i32 i32 i32 i32
  | Call_State_Write i32 i32 i32 i32
  | Call_Self_Destruct i32 i32

datatype 's guest_event =
    Calls host_call 's
  | Returned 's
  | Trapped string

text \<open>
  \<open>start_module\<close> is \<open>Instance::new\<close>, whose start function may call the host; \<open>call_run\<close> calls the
  export \<open>run\<close> and \<open>resume\<close> goes on after a host function has returned; \<open>error_text\<close> is the
  text of a runtime error a host function raises.
\<close>

record ('m, 's) wasmer =
  store_new :: "'s"
  module_new :: "bytes \<Rightarrow> string + 'm"
  start_module :: "u64 \<Rightarrow> 'm \<Rightarrow> 's guest_event"
  export_run :: "'s \<Rightarrow> string + unit"
  call_run :: "'s \<Rightarrow> 's guest_event"
  resume :: "'s \<Rightarrow> i32 \<Rightarrow> 's guest_event"
  remaining_points :: "'s \<Rightarrow> u64 option"
  set_remaining_points :: "u64 \<Rightarrow> 's \<Rightarrow> 's"
  has_memory :: "'s \<Rightarrow> bool"
  memory_read :: "'s \<Rightarrow> u64 \<Rightarrow> nat \<Rightarrow> bytes option"
  memory_write :: "'s \<Rightarrow> u64 \<Rightarrow> bytes \<Rightarrow> 's option"
  error_text :: "string \<Rightarrow> string"

text \<open>The environment of the host functions, with the store they run on.\<close>

record ('s, 'f, 'g) host_env =
  env_store :: "'s"
  env_gas :: gas_meter
  env_state :: "('f, 'g) state_manager"
  instance_backref :: bool

datatype host_failure =
    Runtime_Error string
  | Host_Panic

section \<open>Host functions\<close>

definition charge_metering_from_host :: "('m, 's) wasmer \<Rightarrow> u64 \<Rightarrow> 's \<Rightarrow> vm_error + 's" where
  "charge_metering_from_host W cost s =
     (case remaining_points W s of
        None \<Rightarrow> Inl OutOfGas
      | Some remaining_pts \<Rightarrow>
          if remaining_pts < cost then Inl OutOfGas
          else Inr (set_remaining_points W (remaining_pts - cost) s))"

text \<open>
  \<open>vec![0u8; len as usize]\<close> with a negative \<open>len\<close> asks for more than \<open>isize::MAX\<close> bytes and
  panics.
\<close>

definition buffer_len :: "i32 \<Rightarrow> host_failure + nat" where
  "buffer_len len = (if len <s 0 then Inl Host_Panic else Inr (unat len))"

definition guest_bytes :: "('m, 's) wasmer \<Rightarrow> 's \<Rightarrow> i32 \<Rightarrow> i32 \<Rightarrow> host_failure + bytes" where
  "guest_bytes W s ptr len =
     bind_res (buffer_len len) (\<lambda>n.
       ok_or (Runtime_Error ''Memory read failure'') (memory_read W s (scast ptr) n))"

definition state_key :: "blake3 \<Rightarrow> i32 \<Rightarrow> bytes \<Rightarrow> bytes32" where
  "state_key H key_len key = (if key_len = 32 then from_be_bytes key else H key)"

definition host_memory ::
    "('m, 's) wasmer \<Rightarrow> ('s, 'f, 'g) host_env \<Rightarrow> host_failure + unit" where
  "host_memory W env =
     (if \<not> instance_backref env then Inl (Runtime_Error ''Instance not initialized'')
      else if \<not> has_memory W (env_store env) then Inl (Runtime_Error ''Memory missing'')
      else Inr ())"

definition charge_gas ::
    "(gas_meter \<Rightarrow> (vm_error + unit) \<times> gas_meter) \<Rightarrow> ('s, 'f, 'g) host_env
       \<Rightarrow> (host_failure + unit) \<times> ('s, 'f, 'g) host_env" where
  "charge_gas charge env =
     (case charge (env_gas env) of
        (r, g) \<Rightarrow> (map_err (\<lambda>_. Runtime_Error ''OutOfGas'') r, env\<lparr>env_gas := g\<rparr>))"

definition charge_points ::
    "('m, 's) wasmer \<Rightarrow> u64 \<Rightarrow> ('s, 'f, 'g) host_env \<Rightarrow> (host_failure + unit) \<times> ('s, 'f, 'g) host_env" where
  "charge_points W cost env =
     (case charge_metering_from_host W cost (env_store env) of
        Inl _ \<Rightarrow> (Inl (Runtime_Error ''OutOfGas''), env)
      | Inr s \<Rightarrow> (Inr (), env\<lparr>env_store := s\<rparr>))"

definition klomang_state_read ::
    "('m, 's) wasmer \<Rightarrow> blake3 \<Rightarrow> i32 \<Rightarrow> i32 \<Rightarrow> i32 \<Rightarrow> i32 \<Rightarrow> ('s, 'f, 'g) host_env
       \<Rightarrow> (host_failure + i32) \<times> ('s, 'f, 'g) host_env" where
  "klomang_state_read W H key_ptr key_len out_ptr out_len env =
     bind_st (charge_gas charge_state_read env) (\<lambda>_ env.
     bind_st (if instance_backref env then Inr () else Inl (Runtime_Error ''Instance not initialized''), env) (\<lambda>_ env.
     bind_st (charge_points W STATE_READ_COST env) (\<lambda>_ env.
     bind_st (host_memory W env, env) (\<lambda>_ env.
     bind_st (guest_bytes W (env_store env) key_ptr key_len, env) (\<lambda>key env.
     bind_st (map_err (\<lambda>e. Runtime_Error (''State read error: '' @ e))
                (state_read (state_key H key_len key) (env_state env)), env) (\<lambda>value env.
       case value of
         None \<Rightarrow> (Inr 0, env)
       | Some v \<Rightarrow>
           if unat (scast out_len :: u64) < length v then (Inl (Runtime_Error ''Output buffer too small''), env)
           else case memory_write W (env_store env) (scast out_ptr) v of
                  None \<Rightarrow> (Inl (Runtime_Error ''Memory write failure''), env)
                | Some s \<Rightarrow> (Inr (word_of_nat (length v)), env\<lparr>env_store := s\<rparr>)))))))"

definition klomang_state_write ::
    "('m, 's) wasmer \<Rightarrow> blake3 \<Rightarrow> i32 \<Rightarrow> i32 \<Rightarrow> i32 \<Rightarrow> i32 \<Rightarrow> ('s, 'f, 'g) host_env
       \<Rightarrow> (host_failure + i32) \<times> ('s, 'f, 'g) host_env" where
  "klomang_state_write W H key_ptr key_len data_ptr data_len env =
     bind_st (host_memory W env, env) (\<lambda>_ env.
     bind_st (guest_bytes W (env_store env) key_ptr key_len, env) (\<lambda>key env.
     bind_st (guest_bytes W (env_store env) data_ptr data_len, env) (\<lambda>data env.
     bind_st (map_err (\<lambda>e. Runtime_Error (''State read for write failed: '' @ e))
                (state_read (state_key H key_len key) (env_state env)), env) (\<lambda>existing env.
     let is_new = (existing = None);
         state_write_cost = (if is_new then STATE_WRITE_NEW_COST else STATE_WRITE_UPDATE_COST)
     in
     bind_st (charge_gas (charge_state_write is_new) env) (\<lambda>_ env.
     bind_st (charge_points W state_write_cost env) (\<lambda>_ env.
       case state_write (state_key H key_len key) data (env_state env) of
         (Inl e, sm) \<Rightarrow> (Inl (Runtime_Error (''State write failed: '' @ e)), env\<lparr>env_state := sm\<rparr>)
       | (Inr _, sm) \<Rightarrow> (Inr 1, env\<lparr>env_state := sm\<rparr>)))))))"

definition klomang_self_destruct ::
    "('m, 's) wasmer \<Rightarrow> blake3 \<Rightarrow> i32 \<Rightarrow> i32 \<Rightarrow> ('s, 'f, 'g) host_env
       \<Rightarrow> (host_failure + i32) \<times> ('s, 'f, 'g) host_env" where
  "klomang_self_destruct W H key_ptr key_len env =
     bind_st (host_memory W env, env) (\<lambda>_ env.
     bind_st (guest_bytes W (env_store env) key_ptr key_len, env) (\<lambda>key env.
       (Inr 1, env\<lparr>env_gas := refund_self_destruct (env_gas env),
                   env_state := (env_state env)\<lparr>sm_tree :=
                     snd (prune_key (state_key H key_len key) (sm_tree (env_state env)))\<rparr>\<rparr>)))"

fun host_function ::
    "('m, 's) wasmer \<Rightarrow> blake3 \<Rightarrow> host_call \<Rightarrow> ('s, 'f, 'g) host_env
       \<Rightarrow> (host_failure + i32) \<times> ('s, 'f, 'g) host_env" where
  "host_function W H (Call_State_Read key_ptr key_len out_ptr out_len) env =
     klomang_state_read W H key_ptr key_len out_ptr out_len env"
| "host_function W H (Call_State_Write key_ptr key_len data_ptr data_len) env =
     klomang_state_write W H key_ptr key_len data_ptr data_len env"
| "host_function W H (Call_Self_Destruct key_ptr key_len) env =
     klomang_self_destruct W H key_ptr key_len env"

section \<open>The run of a contract\<close>

datatype guest_result =
    Guest_Done
  | Guest_Failed string
  | Guest_Panicked

partial_function (option) guest_loop ::
    "('m, 's) wasmer \<Rightarrow> blake3 \<Rightarrow> 's guest_event \<Rightarrow> ('s, 'f, 'g) host_env
       \<Rightarrow> (guest_result \<times> ('s, 'f, 'g) host_env) option" where
  "guest_loop W H ev env =
     (case ev of
        Returned s \<Rightarrow> Some (Guest_Done, env\<lparr>env_store := s\<rparr>)
      | Trapped msg \<Rightarrow> Some (Guest_Failed msg, env)
      | Calls call s \<Rightarrow>
          (case host_function W H call (env\<lparr>env_store := s\<rparr>) of
             (Inr r, env') \<Rightarrow> guest_loop W H (resume W (env_store env') r) env'
           | (Inl (Runtime_Error msg), env') \<Rightarrow> Some (Guest_Failed (error_text W msg), env')
           | (Inl Host_Panic, env') \<Rightarrow> Some (Guest_Panicked, env')))"

definition contains :: "string \<Rightarrow> string \<Rightarrow> bool" where
  "contains msg sub \<longleftrightarrow> list_ex (\<lambda>n. take (length sub) (drop n msg) = sub) [0..<length msg + 1]"

text \<open>A failure puts a snapshot of the tree back.\<close>

definition fail_restoring ::
    "vm_error \<Rightarrow> ('f, 'g) verkle_tree \<Rightarrow> ('f, 'g) state_manager \<Rightarrow> (vm_error + u64) \<times> ('f, 'g) state_manager" where
  "fail_restoring e saved sm = (Inl e, sm\<lparr>sm_tree := saved\<rparr>)"

definition run_contract ::
    "('m, 's) wasmer \<Rightarrow> blake3 \<Rightarrow> u64 \<Rightarrow> ('f, 'g) verkle_tree \<Rightarrow> ('s, 'f, 'g) host_env
       \<Rightarrow> ((vm_error + u64) \<times> ('f, 'g) state_manager) option" where
  "run_contract W H limit tree_snapshot env =
     Option.bind (guest_loop W H (call_run W (env_store env)) env) (\<lambda>(res, env').
       case res of
         Guest_Panicked \<Rightarrow> None
       | Guest_Failed msg \<Rightarrow>
           Some (fail_restoring
             (if contains msg ''OutOfGas'' \<or> contains msg ''out of gas'' then OutOfGas else RuntimeError msg)
             tree_snapshot (env_state env'))
       | Guest_Done \<Rightarrow>
           (case remaining_points W (env_store env') of
              None \<Rightarrow> Some (fail_restoring OutOfGas tree_snapshot (env_state env'))
            | Some remaining_pts \<Rightarrow>
                let total_used = saturating_sub limit remaining_pts;
                    (net_used, _) = finalize (env_gas env') total_used
                in Some (Inr net_used, env_state env')))"

definition vm_execute ::
    "('m, 's) wasmer \<Rightarrow> ('f::field, 'p, 'g::ab_group_add) ark \<Rightarrow> blake3 \<Rightarrow> bytes \<Rightarrow> u64 \<Rightarrow> ('f, 'g) state_manager
       \<Rightarrow> ((vm_error + u64) \<times> ('f, 'g) state_manager) option" where
  "vm_execute W A H wasm_bytes limit sm =
     Option.bind (tree_clone A H (sm_tree sm)) (\<lambda>tree_snapshot.
       case charge_intrinsic (gas_meter_new limit) of
         (Inl e, _) \<Rightarrow> Some (Inl e, sm)
       | (Inr _, gas1) \<Rightarrow>
       (case charge_payload wasm_bytes gas1 of
         (Inl e, _) \<Rightarrow> Some (Inl e, sm)
       | (Inr _, gas2) \<Rightarrow>
       (case module_new W wasm_bytes of
         Inl msg \<Rightarrow> Some (Inl (WasmError msg), sm)
       | Inr module \<Rightarrow>
       Option.bind (guest_loop W H (start_module W limit module)
           \<lparr>env_store = store_new W, env_gas = gas2, env_state = sm, instance_backref = False\<rparr>) (\<lambda>(started, env).
         case started of
           Guest_Panicked \<Rightarrow> None
         | Guest_Failed msg \<Rightarrow>
             map_option (\<lambda>t. fail_restoring (RuntimeError msg) t (env_state env)) (tree_clone A H tree_snapshot)
         | Guest_Done \<Rightarrow>
             let precharge = consumed_host (env_gas env);
                 remaining_for_wasm = saturating_sub limit precharge;
                 env' = env\<lparr>env_store := set_remaining_points W remaining_for_wasm (env_store env),
                            instance_backref := True\<rparr>
             in case export_run W (env_store env') of
                  Inl msg \<Rightarrow>
                    map_option (\<lambda>t. fail_restoring (RuntimeError msg) t (env_state env')) (tree_clone A H tree_snapshot)
                | Inr _ \<Rightarrow> run_contract W H limit tree_snapshot env'))))"

fun show_vm_error :: "vm_error \<Rightarrow> string" where
  "show_vm_error OutOfGas = ''Out of gas''"
| "show_vm_error (RuntimeError msg) = ''Runtime error: '' @ msg"
| "show_vm_error (StateError msg) = ''State access error: '' @ msg"
| "show_vm_error (WasmError msg) = ''WASM error: '' @ msg"

section \<open>Runs by induction\<close>

lemma guest_loop_induct [consumes 1, case_names finished trapped calls raised panicked]:
  assumes run: "guest_loop W H ev env = Some out"
    and "\<And>s env. P (Returned s) env (Guest_Done, env\<lparr>env_store := s\<rparr>)"
    and "\<And>msg env. P (Trapped msg) env (Guest_Failed msg, env)"
    and "\<And>call s env r env' out. host_function W H call (env\<lparr>env_store := s\<rparr>) = (Inr r, env') \<Longrightarrow>
          P (resume W (env_store env') r) env' out \<Longrightarrow> P (Calls call s) env out"
    and "\<And>call s env msg env'. host_function W H call (env\<lparr>env_store := s\<rparr>) = (Inl (Runtime_Error msg), env') \<Longrightarrow>
          P (Calls call s) env (Guest_Failed (error_text W msg), env')"
    and "\<And>call s env env'. host_function W H call (env\<lparr>env_store := s\<rparr>) = (Inl Host_Panic, env') \<Longrightarrow>
          P (Calls call s) env (Guest_Panicked, env')"
  shows "P ev env out"
proof -
  have "W = W \<longrightarrow> H = H \<longrightarrow> P ev env out"
  proof (rule guest_loop.raw_induct [where P = "\<lambda>V K ev env out. V = W \<longrightarrow> K = H \<longrightarrow> P ev env out", OF _ run], intro impI)
    fix loop V K ev env out
    assume ih: "\<And>V K ev env out. loop V K ev env = Some out \<Longrightarrow> V = W \<longrightarrow> K = H \<longrightarrow> P ev env out"
      and body: "(case ev of
          Calls call s \<Rightarrow>
            (case host_function V K call (env\<lparr>env_store := s\<rparr>) of
               (Inl (Runtime_Error msg), env') \<Rightarrow> Some (Guest_Failed (error_text V msg), env')
             | (Inl Host_Panic, env') \<Rightarrow> Some (Guest_Panicked, env')
             | (Inr r, env') \<Rightarrow> loop V K (resume V (env_store env') r) env')
        | Returned s \<Rightarrow> Some (Guest_Done, env\<lparr>env_store := s\<rparr>)
        | Trapped msg \<Rightarrow> Some (Guest_Failed msg, env)) = Some out"
      and eq: "V = W" "K = H"
    show "P ev env out"
    proof (cases ev)
      case (Calls call s)
      obtain r env' where host: "host_function W H call (env\<lparr>env_store := s\<rparr>) = (r, env')" by fastforce
      show ?thesis
      proof (cases r)
        case (Inl e)
        with host body assms(5,6) Calls show ?thesis by (cases e) (auto simp: eq)
      next
        case (Inr v)
        with body host Calls have "loop W H (resume W (env_store env') v) env' = Some out" by (simp add: eq)
        then have "P (resume W (env_store env') v) env' out" using ih by blast
        with host Inr assms(4) Calls show ?thesis by simp
      qed
    qed (use body assms(2,3) in auto)
  qed
  then show ?thesis by simp
qed

section \<open>What a contract can change\<close>

text \<open>
  Of the manager, a contract changes the tree alone, and by insertions and prunings only. The
  invariants that these keep hold of the tree when the contract ends, however it ends.
\<close>

locale tree_invariant =
  fixes I :: "('f, 'g) verkle_tree \<Rightarrow> bool"
  assumes inv_insert: "I t \<Longrightarrow> I (tree_insert key value t)"
    and inv_prune: "I t \<Longrightarrow> I (snd (prune_key key t))"
begin

definition ran_from :: "('f, 'g) state_manager \<Rightarrow> ('s, 'f, 'g) host_env \<Rightarrow> bool" where
  "ran_from sm env \<longleftrightarrow> (\<exists>t. env_state env = sm\<lparr>sm_tree := t\<rparr> \<and> I t)"

lemma ran_from_fields [simp]:
  "ran_from sm (env\<lparr>env_store := s\<rparr>) \<longleftrightarrow> ran_from sm env"
  "ran_from sm (env\<lparr>env_gas := g\<rparr>) \<longleftrightarrow> ran_from sm env"
  "ran_from sm (env\<lparr>instance_backref := b\<rparr>) \<longleftrightarrow> ran_from sm env"
  by (simp_all add: ran_from_def)

lemma ran_from_write:
  assumes "ran_from sm env"
  shows "ran_from sm (env\<lparr>env_state := (env_state env)\<lparr>sm_tree := tree_insert k v (sm_tree (env_state env))\<rparr>\<rparr>)"
    "ran_from sm (env\<lparr>env_state := (env_state env)\<lparr>sm_tree := snd (prune_key k (sm_tree (env_state env)))\<rparr>\<rparr>)"
  using assms by (auto simp: ran_from_def intro: inv_insert inv_prune)

lemma ran_from_host:
  assumes "ran_from sm env"
  shows "ran_from sm (snd (host_function W H call env))"
proof -
  have gas: "ran_from sm (snd (charge_gas c e))" if "ran_from sm e" for c and e :: "('s, 'f, 'g) host_env"
    using that by (simp add: charge_gas_def split_beta)
  have pts: "ran_from sm (snd (charge_points V c e))" if "ran_from sm e" for V c and e :: "('s, 'f, 'g) host_env"
    using that by (simp add: charge_points_def split: sum.split)
  have get: "ran_from sm (snd (klomang_state_read W H a b c d env))" for a b c d
    unfolding klomang_state_read_def
    by (intro bind_st_inv [where I = "ran_from sm"] gas pts) (simp_all add: assms split: option.split)
  have put: "ran_from sm (snd (klomang_state_write W H a b c d env))" for a b c d
    unfolding klomang_state_write_def Let_def
    by (intro bind_st_inv [where I = "ran_from sm"] gas pts)
      (simp_all add: assms state_write_def ran_from_write)
  have destruct: "ran_from sm (snd (klomang_self_destruct W H a b env))" for a b
    unfolding klomang_self_destruct_def
    using assms by (intro bind_st_inv [where I = "ran_from sm"]) (auto simp: ran_from_def intro: inv_prune)
  show ?thesis by (cases call) (simp_all add: get put destruct)
qed

lemma ran_from_loop:
  "guest_loop W H ev env = Some out \<Longrightarrow> ran_from sm env \<Longrightarrow> ran_from sm (snd out)"
proof (induction rule: guest_loop_induct)
  case (calls call s env r env' out)
  have "ran_from sm env'" using ran_from_host [of sm "env\<lparr>env_store := s\<rparr>" W H call] calls by simp
  then show ?case by (rule calls.IH)
next
  case (raised call s env msg env')
  then show ?case using ran_from_host [of sm "env\<lparr>env_store := s\<rparr>" W H call] by simp
next
  case (panicked call s env env')
  then show ?case using ran_from_host [of sm "env\<lparr>env_store := s\<rparr>" W H call] by simp
qed simp_all

end

interpretation wf_tree: tree_invariant "tree_ok A H" for A H
  by unfold_locales (simp_all add: tree_ok_insert tree_ok_prune)

abbreviation ran_wf ::
    "('f::field, 'p, 'g::ab_group_add) ark \<Rightarrow> blake3 \<Rightarrow> ('f, 'g) state_manager \<Rightarrow> ('s, 'f, 'g) host_env \<Rightarrow> bool" where
  "ran_wf A H \<equiv> tree_invariant.ran_from (tree_ok A H)"

text \<open>The store and the pruned keys: all that reads see of a tree.\<close>

definition same_contents :: "('f, 'g) verkle_tree \<Rightarrow> ('f, 'g) verkle_tree \<Rightarrow> bool" where
  "same_contents t t' \<longleftrightarrow> vt_storage t' = vt_storage t \<and> pruned_keys t' = pruned_keys t"

lemma same_contents_refl [simp]: "same_contents t t"
  by (simp add: same_contents_def)

lemma same_contents_get: "same_contents t t' \<Longrightarrow> tree_get k t' = tree_get k t"
  by (simp add: same_contents_def tree_get_def)

lemma same_contents_clone: "tree_ok A H t \<Longrightarrow> tree_clone A H t = Some t' \<Longrightarrow> same_contents t t' \<and> tree_ok A H t'"
  using tree_ok_clone [of A H t t'] by (simp add: same_contents_def)

definition contract_outcome ::
    "('f::field, 'p, 'g::ab_group_add) ark \<Rightarrow> blake3 \<Rightarrow> ('f, 'g) state_manager
       \<Rightarrow> (vm_error + u64) \<times> ('f, 'g) state_manager \<Rightarrow> bool" where
  "contract_outcome A H sm out \<longleftrightarrow>
     (\<exists>t. snd out = sm\<lparr>sm_tree := t\<rparr> \<and> tree_ok A H t \<and> (is_ok (fst out) \<or> same_contents (sm_tree sm) t))"

lemma contract_outcome_unchanged:
  assumes "tree_ok A H (sm_tree sm)"
  shows "contract_outcome A H sm (Inl e, sm)"
proof -
  have "sm = sm\<lparr>sm_tree := sm_tree sm\<rparr>" by simp
  with assms show ?thesis unfolding contract_outcome_def fst_conv snd_conv using same_contents_refl by blast
qed

lemma contract_outcome_restored:
  assumes "ran_wf A H sm env" "same_contents (sm_tree sm) t" "tree_ok A H t"
  shows "contract_outcome A H sm (fail_restoring e t (env_state env))"
proof -
  obtain t' where "env_state env = sm\<lparr>sm_tree := t'\<rparr>" using assms(1) unfolding wf_tree.ran_from_def by blast
  then show ?thesis
    using assms(2,3) unfolding contract_outcome_def fail_restoring_def by (intro exI [of _ t]) simp
qed

lemma run_contract_outcome:
  assumes "run_contract W H limit t env = Some out" "ran_wf A H sm env"
    "same_contents (sm_tree sm) t" "tree_ok A H t"
  shows "contract_outcome A H sm out"
proof -
  obtain res env' where run: "guest_loop W H (call_run W (env_store env)) env = Some (res, env')"
    using assms(1) by (auto simp: run_contract_def bind_eq_Some_conv)
  have env': "ran_wf A H sm env'" using wf_tree.ran_from_loop [OF run assms(2)] by simp
  note failed = contract_outcome_restored [OF env' assms(3,4)]
  show ?thesis
  proof (cases res)
    case Guest_Done
    with assms(1) run failed env' show ?thesis
      by (auto simp: run_contract_def Let_def split_beta contract_outcome_def wf_tree.ran_from_def split: option.splits)
  qed (use assms(1) run failed in \<open>auto simp: run_contract_def\<close>)
qed

lemma vm_execute_outcome:
  assumes "tree_ok A H (sm_tree sm)" "vm_execute W A H code limit sm = Some out"
  shows "contract_outcome A H sm out"
proof -
  obtain t where t: "tree_clone A H (sm_tree sm) = Some t" using assms(2) by (auto simp: vm_execute_def bind_eq_Some_conv)
  note clone = same_contents_clone [OF assms(1) t]
  obtain t2 where t2: "tree_clone A H t = Some t2" using tree_clone_eq clone by blast
  with clone same_contents_clone [of A H t t2] have clone2: "same_contents (sm_tree sm) t2" "tree_ok A H t2"
    by (simp_all add: same_contents_def)
  note same = contract_outcome_unchanged [OF assms(1)]
  note restored = contract_outcome_restored [OF _ clone2]
  obtain r1 gas1 where gas1: "charge_intrinsic (gas_meter_new limit) = (r1, gas1)" by fastforce
  obtain r2 gas2 where gas2: "charge_payload code gas1 = (r2, gas2)" by fastforce
  show ?thesis
  proof (cases "is_ok r1 \<and> is_ok r2 \<and> is_ok (module_new W code)")
    case False
    with assms(2) t gas1 gas2 same show ?thesis
      by (cases r1; cases r2; cases "module_new W code") (auto simp: vm_execute_def)
  next
    case True
    then obtain m where m: "module_new W code = Inr m" "r1 = Inr ()" "r2 = Inr ()"
      by (cases r1; cases r2; cases "module_new W code") auto
    let ?env0 = "\<lparr>env_store = store_new W, env_gas = gas2, env_state = sm, instance_backref = False\<rparr>"
    let ?run = "guest_loop W H (start_module W limit m) ?env0"
    obtain started env where st: "?run = Some (started, env)"
      using assms(2) t gas1 gas2 m by (auto simp: vm_execute_def bind_eq_Some_conv)
    have "ran_wf A H sm ?env0"
      using assms(1) unfolding wf_tree.ran_from_def by (intro exI [of _ "sm_tree sm"]) simp
    then have env: "ran_wf A H sm env" using wf_tree.ran_from_loop [OF st] by simp
    show ?thesis
    proof (cases started)
      case Guest_Done
      let ?env = "env\<lparr>env_store := set_remaining_points W (saturating_sub limit (consumed_host (env_gas env))) (env_store env),
          instance_backref := True\<rparr>"
      have env': "ran_wf A H sm ?env" using env by simp
      show ?thesis
      proof (cases "export_run W (env_store ?env)")
        case (Inl msg)
        with assms(2) t t2 gas1 gas2 m st Guest_Done restored [OF env'] show ?thesis
          by (auto simp: vm_execute_def Let_def)
      next
        case (Inr u)
        with assms(2) t gas1 gas2 m st Guest_Done have "run_contract W H limit t ?env = Some out"
          by (simp add: vm_execute_def Let_def)
        from run_contract_outcome [OF this env'] clone show ?thesis by simp
      qed
    qed (use assms(2) t t2 gas1 gas2 m st restored [OF env] in \<open>auto simp: vm_execute_def\<close>)
  qed
qed

section \<open>Metering\<close>

definition points :: "('m, 's) wasmer \<Rightarrow> 's \<Rightarrow> nat" where
  "points W s = (case remaining_points W s of None \<Rightarrow> 0 | Some p \<Rightarrow> unat p)"

text \<open>
  What the metering of wasmer does, given that \<open>opcode_cost\<close> is positive: running the guest never
  adds points and a call of a host function costs at least one; points can be set, and
  writing to the guest's memory leaves them.
\<close>

definition uses_points :: "('m, 's) wasmer \<Rightarrow> 's \<Rightarrow> 's guest_event \<Rightarrow> bool" where
  "uses_points W s ev \<longleftrightarrow>
     (case ev of
        Calls call s' \<Rightarrow> points W s' < points W s
      | Returned s' \<Rightarrow> points W s' \<le> points W s
      | Trapped msg \<Rightarrow> True)"

definition metered :: "('m, 's) wasmer \<Rightarrow> bool" where
  "metered W \<longleftrightarrow>
     (\<forall>p s. remaining_points W (set_remaining_points W p s) = Some p) \<and>
     (\<forall>s ptr bs s'. memory_write W s ptr bs = Some s' \<longrightarrow> remaining_points W s' = remaining_points W s) \<and>
     (\<forall>s. uses_points W s (call_run W s)) \<and> (\<forall>s r. uses_points W s (resume W s r))"

lemma opcode_cost_pos: "1 \<le> unat (opcode_cost operator)"
  by simp

lemma host_points:
  assumes "metered W"
  shows "points W (env_store (snd (host_function W H call env))) \<le> points W (env_store env)"
proof -
  let ?I = "\<lambda>e :: ('b, 'c, 'd) host_env. points W (env_store e) \<le> points W (env_store env)"
  have set_pts: "remaining_points W (set_remaining_points W p s) = Some p" for p s
    using assms by (simp add: metered_def)
  have write_pts: "remaining_points W s' = remaining_points W s" if "memory_write W s ptr bs = Some s'" for s ptr bs s'
    using assms that by (simp add: metered_def)
  have gas: "?I (snd (charge_gas c e))" if "?I e" for c e
    using that by (simp add: charge_gas_def split_beta)
  have pts: "?I (snd (charge_points W c e))" if "?I e" for c e
  proof (cases "remaining_points W (env_store e)")
    case (Some p)
    have "unat (p - c) \<le> unat p" if "\<not> p < c" using that by (simp add: unat_sub not_less)
    with \<open>?I e\<close> Some show ?thesis
      by (auto simp: charge_points_def charge_metering_from_host_def points_def set_pts)
  qed (use that in \<open>simp add: charge_points_def charge_metering_from_host_def\<close>)
  have mem: "points W s' = points W s" if "memory_write W s ptr bs = Some s'" for s ptr bs s'
    using write_pts [OF that] by (simp add: points_def)
  have get: "?I (snd (klomang_state_read W H a b c d env))" for a b c d
    unfolding klomang_state_read_def
    by (intro bind_st_inv [where I = ?I] gas pts) (auto split: option.split simp: mem)
  have put: "?I (snd (klomang_state_write W H a b c d env))" for a b c d
    unfolding klomang_state_write_def Let_def
    by (intro bind_st_inv [where I = ?I] gas pts) (auto simp: state_write_def)
  have destruct: "?I (snd (klomang_self_destruct W H a b env))" for a b
    unfolding klomang_self_destruct_def by (intro bind_st_inv [where I = ?I]) auto
  show ?thesis by (cases call) (simp_all add: get put destruct)
qed

fun event_points :: "('m, 's) wasmer \<Rightarrow> 's guest_event \<Rightarrow> nat" where
  "event_points W (Calls call s) = points W s"
| "event_points W (Returned s) = points W s"
| "event_points W (Trapped msg) = 0"

lemma event_points_le: "uses_points W s ev \<Longrightarrow> event_points W ev \<le> points W s"
  by (cases ev) (simp_all add: uses_points_def)

lemma guest_loop_points:
  assumes "guest_loop W H ev env = Some out" "metered W"
  shows "fst out = Guest_Done \<longrightarrow> points W (env_store (snd out)) \<le> event_points W ev"
  using assms(1)
proof (induction rule: guest_loop_induct)
  case (calls call s env r env' out)
  have "event_points W (resume W (env_store env') r) \<le> points W (env_store env')"
    using assms(2) by (intro event_points_le) (simp add: metered_def)
  also have "\<dots> \<le> points W s" using host_points [OF assms(2), of H call "env\<lparr>env_store := s\<rparr>"] calls by simp
  finally show ?case using calls by auto
qed simp_all

lemma guest_loop_total:
  assumes "metered W"
  shows "\<exists>out. guest_loop W H ev env = Some out"
proof (induction "event_points W ev" arbitrary: ev env rule: less_induct)
  case less
  show ?case
  proof (cases ev)
    case (Calls call s)
    obtain r env' where host: "host_function W H call (env\<lparr>env_store := s\<rparr>) = (r, env')" by fastforce
    show ?thesis
    proof (cases r)
      case (Inl e)
      with Calls host show ?thesis by (cases e) (simp_all add: guest_loop.simps)
    next
      case (Inr v)
      let ?ev = "resume W (env_store env') v"
      have le: "points W (env_store env') \<le> event_points W ev"
        using host_points [OF assms, of H call "env\<lparr>env_store := s\<rparr>"] host Calls by simp
      have uses: "uses_points W (env_store env') ?ev" using assms by (simp add: metered_def)
      have "\<exists>out. guest_loop W H ?ev env' = Some out"
      proof (cases ?ev)
        case (Calls call' s')
        with uses le have "event_points W ?ev < event_points W ev" by (simp add: uses_points_def)
        then show ?thesis by (rule less)
      qed (simp_all add: guest_loop.simps)
      with Calls host Inr show ?thesis by (simp add: guest_loop.simps [of W H "Calls call s"])
    qed
  qed (simp_all add: guest_loop.simps)
qed

text \<open>Until the back reference is set, every host function fails: a start function runs alone.\<close>

lemma host_needs_instance:
  "\<not> instance_backref env \<Longrightarrow> \<exists>e env'. host_function W H call env = (Inl e, env')"
proof (cases call)
  case (Call_State_Read a b c d)
  obtain r g where "charge_state_read (env_gas env) = (r, g)" by fastforce
  moreover assume "\<not> instance_backref env"
  ultimately show ?thesis
    using Call_State_Read by (cases r) (simp_all add: klomang_state_read_def charge_gas_def)
qed (simp_all add: klomang_state_write_def klomang_self_destruct_def host_memory_def)

lemma guest_loop_start:
  assumes "guest_loop W H ev env = Some (Guest_Done, env')" "\<not> instance_backref env"
  shows "\<exists>s. env' = env\<lparr>env_store := s\<rparr>"
proof (cases ev)
  case (Calls call s)
  obtain e env2 where "host_function W H call (env\<lparr>env_store := s\<rparr>) = (Inl e, env2)"
    using host_needs_instance [of "env\<lparr>env_store := s\<rparr>"] assms(2) by fastforce
  with assms(1) Calls show ?thesis by (cases e) (simp_all add: guest_loop.simps)
qed (use assms(1) in \<open>auto simp: guest_loop.simps\<close>)

text \<open>The gas charged before the guest runs.\<close>

lemma precharge_exact:
  assumes "charge_intrinsic (gas_meter_new limit) = (Inr (), gas1)" "charge_payload code gas1 = (Inr (), gas2)"
  shows "unat (consumed_host gas2) = 21000 + unat (payload_cost code)" "21000 + unat (payload_cost code) \<le> unat limit"
proof -
  have c1: "consume_host INTRINSIC_GAS (gas_meter_new limit) = (Inr (), gas1)"
    and c2: "consume_host (payload_cost code) gas1 = (Inr (), gas2)"
    using assms by (simp_all add: charge_intrinsic_def charge_payload_def)
  have "charge_all [INTRINSIC_GAS, payload_cost code] (gas_meter_new limit) = (Inr (), gas2)" by (simp add: c1 c2)
  with charge_all_result [of "gas_meter_new limit" "[INTRINSIC_GAS, payload_cost code]"]
  have "int (21000 + unat (payload_cost code)) \<le> int (unat limit)"
    by (simp add: budget_new INTRINSIC_GAS_def)
  then show le: "21000 + unat (payload_cost code) \<le> unat limit" by (simp only: of_nat_le_iff)
  have g1: "consumed_host gas1 = 21000" and g2: "consumed_host gas2 = saturating_add (consumed_host gas1) (payload_cost code)"
    using c1 c2 by (auto simp: consume_host_def Let_def gas_meter_new_def INTRINSIC_GAS_def saturating_add_def)
  then show "unat (consumed_host gas2) = 21000 + unat (payload_cost code)"
    using le unat_u64_bound [of limit] by (simp add: unat_saturating_add)
qed

lemma after_refund:
  fixes net :: nat
  shows "charged \<le> used \<Longrightarrow> net + refunded = used \<Longrightarrow> refunded \<le> used div 5 \<Longrightarrow> used \<le> limit \<Longrightarrow>
    net \<le> limit \<and> 4 * charged \<le> 5 * net"
  by linarith

text \<open>A run that succeeds went through these steps.\<close>

lemma run_contract_ok:
  assumes "run_contract W H limit t env = Some (Inr net, sm')"
  shows "\<exists>env' rp. guest_loop W H (call_run W (env_store env)) env = Some (Guest_Done, env') \<and>
     remaining_points W (env_store env') = Some rp \<and>
     net = fst (finalize (env_gas env') (saturating_sub limit rp)) \<and> sm' = env_state env'"
proof -
  obtain res env' where run: "guest_loop W H (call_run W (env_store env)) env = Some (res, env')"
    using assms by (auto simp: run_contract_def bind_eq_Some_conv)
  with assms show ?thesis
    by (cases res; cases "remaining_points W (env_store env')")
      (auto simp: run_contract_def fail_restoring_def Let_def split_beta)
qed

lemma vm_execute_ok:
  assumes "vm_execute W A H code limit sm = Some (Inr net, sm')"
  shows "\<exists>gas1 gas2 s t. charge_intrinsic (gas_meter_new limit) = (Inr (), gas1) \<and>
     charge_payload code gas1 = (Inr (), gas2) \<and>
     run_contract W H limit t
       \<lparr>env_store = set_remaining_points W (saturating_sub limit (consumed_host gas2)) s,
        env_gas = gas2, env_state = sm, instance_backref = True\<rparr> = Some (Inr net, sm')"
proof -
  obtain t where t: "tree_clone A H (sm_tree sm) = Some t" using assms by (auto simp: vm_execute_def bind_eq_Some_conv)
  obtain r1 gas1 where gas1: "charge_intrinsic (gas_meter_new limit) = (r1, gas1)" by fastforce
  obtain r2 gas2 where gas2: "charge_payload code gas1 = (r2, gas2)" by fastforce
  obtain m where m: "module_new W code = Inr m" "r1 = Inr ()" "r2 = Inr ()"
    using assms t gas1 gas2 by (cases r1; cases r2; cases "module_new W code") (auto simp: vm_execute_def)
  let ?env0 = "\<lparr>env_store = store_new W, env_gas = gas2, env_state = sm, instance_backref = False\<rparr>"
  obtain started env where st: "guest_loop W H (start_module W limit m) ?env0 = Some (started, env)"
    using assms t gas1 gas2 m by (auto simp: vm_execute_def bind_eq_Some_conv)
  have d: "started = Guest_Done"
    using assms t gas1 gas2 m st by (cases started) (auto simp: vm_execute_def fail_restoring_def)
  obtain s where env: "env = ?env0\<lparr>env_store := s\<rparr>" using guest_loop_start [of W H _ ?env0 env] st d by auto
  from assms t gas1 gas2 m st d show ?thesis
    by (intro exI [of _ gas1] exI [of _ gas2] exI [of _ s] exI [of _ t])
      (auto simp: vm_execute_def Let_def env fail_restoring_def split: sum.splits)
qed

section \<open>Properties\<close>

text \<open>A runtime that calls host functions from a script, twenty points each.\<close>

definition sample_next :: "host_call list \<times> u64 \<times> bytes \<Rightarrow> (host_call list \<times> u64 \<times> bytes) guest_event" where
  "sample_next = (\<lambda>(calls, p, mem). case calls of
     [] \<Rightarrow> Returned ([], p, mem)
   | c # cs \<Rightarrow> if p < 20 then Trapped ''unreachable'' else Calls c (cs, p - 20, mem))"

definition sample_wasmer :: "host_call list \<Rightarrow> bytes \<Rightarrow> (unit, host_call list \<times> u64 \<times> bytes) wasmer" where
  "sample_wasmer calls mem =
     \<lparr>store_new = ([], 0, []), module_new = (\<lambda>_. Inr ()), start_module = (\<lambda>limit _. Returned (calls, limit, mem)),
      export_run = (\<lambda>_. Inr ()), call_run = sample_next, resume = (\<lambda>s _. sample_next s),
      remaining_points = (\<lambda>(_, p, _). Some p), set_remaining_points = (\<lambda>p (cs, _, m). (cs, p, m)),
      has_memory = (\<lambda>_. True),
      memory_read = (\<lambda>(_, _, m) ptr n. if unat ptr + n \<le> length m then Some (take n (drop (unat ptr) m)) else None),
      memory_write = (\<lambda>(cs, p, m) ptr bs. if unat ptr + length bs \<le> length m
        then Some (cs, p, take (unat ptr) m @ bs @ drop (unat ptr + length bs) m) else None),
      error_text = (\<lambda>msg. ''RuntimeError: '' @ msg)\<rparr>"

lemma sample_uses: "uses_points (sample_wasmer calls mem) s (sample_next s)"
proof (cases s)
  case (fields cs p m)
  have "unat (p - 20) < unat p" if "\<not> p < 20"
  proof -
    have "20 \<le> unat p" using that by (simp add: word_less_nat_alt not_less)
    then show ?thesis using that by (simp add: unat_sub not_less)
  qed
  with fields show ?thesis
    by (cases cs) (simp_all add: sample_next_def uses_points_def points_def sample_wasmer_def)
qed

lemma sample_metered: "metered (sample_wasmer calls mem)"
  using sample_uses [of calls mem] by (auto simp: metered_def sample_wasmer_def split: if_splits)

text \<open>The script writes \<open>[1, 2]\<close> under the key zero.\<close>

definition sample_script :: "(unit, host_call list \<times> u64 \<times> bytes) wasmer" where
  "sample_script = sample_wasmer [Call_State_Write 0 32 32 2] (replicate 32 0 @ [1, 2])"

lemma sample_script_metered: "metered sample_script"
  unfolding sample_script_def by (rule sample_metered)

lemma sample_script_simps [simp]:
  "module_new sample_script code = Inr ()"
  "start_module sample_script limit u = Returned ([Call_State_Write 0 32 32 2], limit, replicate 32 0 @ [1, 2])"
  "export_run sample_script s = Inr ()" "call_run sample_script = sample_next"
  "resume sample_script s r = sample_next s" "has_memory sample_script s"
  "remaining_points sample_script (cs, p, m) = Some p"
  "set_remaining_points sample_script q (cs, p, m) = (cs, q, m)"
  "memory_read sample_script (cs, p, m) ptr n =
     (if unat ptr + n \<le> length m then Some (take n (drop (unat ptr) m)) else None)"
  by (simp_all add: sample_script_def sample_wasmer_def)

definition sample_gas :: "i128 \<Rightarrow> u64 \<Rightarrow> gas_meter" where
  "sample_gas left used = \<lparr>initial = 50000, remaining = left, consumed_wasm = 0, consumed_host = used, refund = 0\<rparr>"

lemma sample_charges:
  "charge_intrinsic (gas_meter_new 50000) = (Inr (), sample_gas 29000 21000)"
  "charge_payload [] (sample_gas 29000 21000) = (Inr (), sample_gas 29000 21000)"
  "charge_state_write True (sample_gas 29000 21000) = (Inr (), sample_gas 9000 41000)"
  by (simp_all add: charge_intrinsic_def charge_payload_def payload_cost_def charge_state_write_def consume_host_def
      gas_meter_new_def sample_gas_def INTRINSIC_GAS_def STATE_WRITE_NEW_COST_def saturating_add_def word_sless_alt)

lemma sample_write:
  assumes "tree_get 0 (sm_tree sm) = Inr None"
  shows "klomang_state_write sample_script H 0 32 32 2
      \<lparr>env_store = ([], 28980, replicate 32 0 @ [1, 2]), env_gas = sample_gas 29000 21000, env_state = sm, instance_backref = True\<rparr> =
    (Inr 1, \<lparr>env_store = ([], 8980, replicate 32 0 @ [1, 2]), env_gas = sample_gas 9000 41000,
      env_state = sm\<lparr>sm_tree := tree_insert 0 [1, 2] (sm_tree sm)\<rparr>, instance_backref = True\<rparr>)"
proof -
  have bytes: "guest_bytes sample_script ([], 28980, replicate 32 0 @ [1, 2]) 0 32 = Inr (replicate 32 0)"
    "guest_bytes sample_script ([], 28980, replicate 32 0 @ [1, 2]) 32 2 = Inr [1, 2]"
    by (simp_all add: guest_bytes_def buffer_len_def word_sless_alt ok_or_def)
  have key: "state_key H 32 (replicate 32 0) = 0" by (simp add: state_key_def) code_simp
  show ?thesis
    by (simp add: klomang_state_write_def host_memory_def bytes key state_read_def assms charge_gas_def sample_charges
        charge_points_def charge_metering_from_host_def state_write_def STATE_WRITE_NEW_COST_def)
qed

lemma sample_run:
  assumes "tree_clone A H (sm_tree sm) = Some t" "tree_get 0 (sm_tree sm) = Inr None"
  shows "vm_execute sample_script A H [] 50000 sm =
     Some (Inr 41020, sm\<lparr>sm_tree := tree_insert 0 [1, 2] (sm_tree sm)\<rparr>)"
proof -
  let ?env = "\<lparr>env_store = ([Call_State_Write 0 32 32 2], 29000, replicate 32 0 @ [1, 2]), env_gas = sample_gas 29000 21000,
      env_state = sm, instance_backref = True\<rparr>"
  have "guest_loop sample_script H (sample_next ([Call_State_Write 0 32 32 2], 29000, replicate 32 0 @ [1, 2])) ?env =
      Some (Guest_Done, \<lparr>env_store = ([], 8980, replicate 32 0 @ [1, 2]), env_gas = sample_gas 9000 41000,
        env_state = sm\<lparr>sm_tree := tree_insert 0 [1, 2] (sm_tree sm)\<rparr>, instance_backref = True\<rparr>)"
    by (simp add: guest_loop.simps [of _ _ "Calls c s" for c s] guest_loop.simps [of _ _ "Returned s" for s]
        sample_next_def sample_write [OF assms(2)])
  then have "run_contract sample_script H 50000 t ?env = Some (Inr 41020, sm\<lparr>sm_tree := tree_insert 0 [1, 2] (sm_tree sm)\<rparr>)"
    by (simp add: run_contract_def finalize_def sample_gas_def saturating_sub_def)
  moreover have "consumed_host (sample_gas 29000 21000) = 21000" by (simp add: sample_gas_def)
  ultimately show ?thesis
    by (simp add: vm_execute_def sample_charges assms(1) guest_loop.simps [of _ _ "Returned s" for s] saturating_sub_def)
qed

lemma sample_executes:
  "\<exists>sm. tree_ok sample_ark (\<lambda>_. 0) (sm_tree sm) \<and> vm_execute sample_script sample_ark (\<lambda>_. 0) [] 50000 sm =
     Some (Inr 41020, sm\<lparr>sm_tree := tree_insert 0 [1, 2] (sm_tree sm)\<rparr>)"
proof -
  obtain t0 where new: "tree_new sample_ark (\<lambda>_. 0) memory_storage_new = Some (Inr t0)"
    using tree_new_ok [OF sample_ark_dense sample_ark_serializes] by blast
  have ok: "tree_ok sample_ark (\<lambda>_. 0) t0" by (rule tree_new_wf [OF new])
  have sm: "sm_tree (sample_manager t0) = t0" by (simp add: sample_manager_def)
  have "tree_get 0 t0 = Inr None" by (rule tree_new_empty [OF new])
  with sample_run [of sample_ark "\<lambda>_. 0" "sample_manager t0"] ok sm tree_clone_eq [OF ok]
  show ?thesis by (intro exI [of _ "sample_manager t0"]) simp
qed

text \<open>
  C26. A contract is isolated: of the manager it changes the tree alone and leaves it well formed,
  and when it fails, in whatever way, the tree has the contents it had before.
\<close>

theorem contract_isolated:
  assumes "tree_ok A H (sm_tree sm)" "vm_execute W A H code limit sm = Some (r, sm')"
  shows "sm'\<lparr>sm_tree := sm_tree sm\<rparr> = sm \<and> tree_ok A H (sm_tree sm') \<and>
     (is_ok r \<or> (vt_storage (sm_tree sm') = vt_storage (sm_tree sm) \<and> pruned_keys (sm_tree sm') = pruned_keys (sm_tree sm)))"
proof -
  from vm_execute_outcome [OF assms] obtain t where t: "sm' = sm\<lparr>sm_tree := t\<rparr>" "tree_ok A H t"
    "is_ok r \<or> same_contents (sm_tree sm) t"
    unfolding contract_outcome_def fst_conv snd_conv by blast
  then show ?thesis by (simp add: same_contents_def)
qed

theorem contract_isolated_witness:
  "\<exists>sm sm'. vm_execute sample_script sample_ark (\<lambda>_. 0) [] 50000 sm = Some (Inr 41020, sm') \<and>
     sm'\<lparr>sm_tree := sm_tree sm\<rparr> = sm \<and> tree_ok sample_ark (\<lambda>_. 0) (sm_tree sm')"
proof -
  obtain sm where ok: "tree_ok sample_ark (\<lambda>_. 0) (sm_tree sm)" and
    run: "vm_execute sample_script sample_ark (\<lambda>_. 0) [] 50000 sm =
       Some (Inr 41020, sm\<lparr>sm_tree := tree_insert 0 [1, 2] (sm_tree sm)\<rparr>)"
    using sample_executes by blast
  from contract_isolated [OF ok run] run show ?thesis by blast
qed

text \<open>
  C28. Every run of a contract ends: under the metering, which charges each call of a host
  function, the loop between the guest and the host functions returns for every contract.
\<close>

theorem guest_loop_returns:
  assumes "metered W"
  shows "\<exists>res env'. guest_loop W H (call_run W (env_store env)) env = Some (res, env')"
  using guest_loop_total [OF assms, of H "call_run W (env_store env)" env] by auto

theorem guest_loop_returns_witness:
  "\<exists>res env'. guest_loop sample_script (\<lambda>_. 0) (call_run sample_script ([Call_State_Write 0 32 32 2], 100, []))
      \<lparr>env_store = ([Call_State_Write 0 32 32 2], 100, []), env_gas = gas_meter_new 100,
       env_state = sample_manager sample_tree, instance_backref = True\<rparr> = Some (res, env')"
  using guest_loop_returns [OF sample_script_metered, of "\<lambda>_. 0"
      "\<lparr>env_store = ([Call_State_Write 0 32 32 2], 100, []), env_gas = gas_meter_new 100,
        env_state = sample_manager sample_tree, instance_backref = True\<rparr>"]
  by simp

text \<open>
  C27. The gas a successful contract reports is at most its limit, and at least four fifths of the
  intrinsic and payload charge, refunds taken into account.
\<close>

theorem contract_gas_bounds:
  assumes "metered W" "vm_execute W A H code limit sm = Some (Inr net, sm')"
  shows "unat net \<le> unat limit \<and> 4 * (21000 + unat (payload_cost code)) \<le> 5 * unat net"
proof -
  from vm_execute_ok [OF assms(2)] obtain gas1 gas2 s t where
    gas: "charge_intrinsic (gas_meter_new limit) = (Inr (), gas1)" "charge_payload code gas1 = (Inr (), gas2)"
    and run: "run_contract W H limit t
       \<lparr>env_store = set_remaining_points W (saturating_sub limit (consumed_host gas2)) s,
        env_gas = gas2, env_state = sm, instance_backref = True\<rparr> = Some (Inr net, sm')" by blast
  let ?env = "\<lparr>env_store = set_remaining_points W (saturating_sub limit (consumed_host gas2)) s,
        env_gas = gas2, env_state = sm, instance_backref = True\<rparr>"
  from run_contract_ok [OF run] obtain env' rp where
    loop: "guest_loop W H (call_run W (env_store ?env)) ?env = Some (Guest_Done, env')"
    and rp: "remaining_points W (env_store env') = Some rp"
    and net: "net = fst (finalize (env_gas env') (saturating_sub limit rp))" by blast
  have "unat rp \<le> event_points W (call_run W (env_store ?env))"
    using guest_loop_points [OF loop assms(1)] rp by (simp add: points_def)
  also have "\<dots> \<le> points W (env_store ?env)" using assms(1) by (intro event_points_le) (simp add: metered_def)
  also have "\<dots> = unat limit - unat (consumed_host gas2)"
    using assms(1) by (simp add: points_def metered_def unat_saturating_sub)
  finally have "21000 + unat (payload_cost code) \<le> unat (saturating_sub limit rp)"
    using precharge_exact [OF gas] by (simp add: unat_saturating_sub)
  moreover obtain refunded where "finalize (env_gas env') (saturating_sub limit rp) = (net, refunded)"
    using net by (metis prod.collapse)
  note finalize_unat [OF this]
  moreover have "unat (saturating_sub limit rp) \<le> unat limit" by (simp add: unat_saturating_sub)
  ultimately show ?thesis using after_refund by blast
qed

theorem contract_gas_bounds_witness:
  "unat (41020 :: u64) \<le> unat (50000 :: u64) \<and> 4 * (21000 + unat (payload_cost [])) \<le> 5 * unat (41020 :: u64)"
proof -
  obtain sm sm' where "vm_execute sample_script sample_ark (\<lambda>_. 0) [] 50000 sm = Some (Inr 41020, sm')"
    using sample_executes by blast
  then show ?thesis by (rule contract_gas_bounds [OF sample_script_metered])
qed

text \<open>
  What a successful write by a contract does: the value is inserted under the key the guest
  named, any key of the tree; both meters are charged the cost of a new or an updated value.
\<close>

theorem state_write_effect:
  assumes "metered W" "0 \<le> budget (env_gas env)"
    and "klomang_state_write W H key_ptr key_len data_ptr data_len env = (Inr r, env')"
  shows "\<exists>key data existing cost. guest_bytes W (env_store env) key_ptr key_len = Inr key \<and>
     guest_bytes W (env_store env) data_ptr data_len = Inr data \<and>
     tree_get (state_key H key_len key) (sm_tree (env_state env)) = Inr existing \<and>
     cost = (if existing = None then 20000 else 5000) \<and>
     env_state env' = (env_state env)\<lparr>sm_tree := tree_insert (state_key H key_len key) data (sm_tree (env_state env))\<rparr> \<and>
     budget (env_gas env') + int cost = budget (env_gas env) \<and>
     points W (env_store env') + cost = points W (env_store env)"
proof -
  obtain key where key: "guest_bytes W (env_store env) key_ptr key_len = Inr key"
    using assms(3) by (cases "guest_bytes W (env_store env) key_ptr key_len"; cases "host_memory W env")
      (auto simp: klomang_state_write_def)
  obtain data where data: "guest_bytes W (env_store env) data_ptr data_len = Inr data"
    using assms(3) key by (cases "guest_bytes W (env_store env) data_ptr data_len"; cases "host_memory W env")
      (auto simp: klomang_state_write_def)
  obtain existing where ex: "tree_get (state_key H key_len key) (sm_tree (env_state env)) = Inr existing"
    using assms(3) key data by (cases "tree_get (state_key H key_len key) (sm_tree (env_state env))"; cases "host_memory W env")
      (auto simp: klomang_state_write_def state_read_def)
  let ?cost = "if existing = None then STATE_WRITE_NEW_COST else STATE_WRITE_UPDATE_COST"
  obtain c g where gas: "charge_state_write (existing = None) (env_gas env) = (c, g)" by fastforce
  have c: "c = Inr ()" and s: "charge_metering_from_host W ?cost (env_store env) = Inr (env_store env')"
    and g: "env_gas env' = g"
    and st: "env_state env' = (env_state env)\<lparr>sm_tree := tree_insert (state_key H key_len key) data (sm_tree (env_state env))\<rparr>"
    using assms(3) key data ex gas
    by (cases "host_memory W env"; cases c; cases "charge_metering_from_host W ?cost (env_store env)";
        auto simp: klomang_state_write_def state_read_def charge_gas_def charge_points_def state_write_def)+
  have consumed: "consume_host ?cost (env_gas env) = (Inr (), g)"
    using gas c by (simp add: charge_state_write_def Let_def)
  from consume_host_budget(1) [OF assms(2), of ?cost] have b: "budget g = budget (env_gas env) - uint ?cost"
    by (simp add: consumed)
  obtain p where p: "remaining_points W (env_store env) = Some p" "\<not> p < ?cost"
    "env_store env' = set_remaining_points W (p - ?cost) (env_store env)"
    using s by (auto simp: charge_metering_from_host_def split: option.splits if_splits)
  then have "points W (env_store env') + unat ?cost = points W (env_store env)"
    using assms(1) by (simp add: points_def metered_def unat_sub not_less word_le_nat_alt)
  with key data ex st b g show ?thesis
    by (intro exI [of _ key] exI [of _ data] exI [of _ existing] exI [of _ "unat ?cost"])
      (simp add: STATE_WRITE_NEW_COST_def STATE_WRITE_UPDATE_COST_def)
qed

theorem state_write_effect_witness:
  "points sample_script ([], 8980, replicate 32 0 @ [1, 2]) + 20000 = points sample_script ([], 28980, replicate 32 0 @ [1, 2])"
proof -
  have get: "tree_get 0 (sm_tree (sample_manager sample_tree)) = Inr None" by (simp add: sample_manager_def)
  have "guest_bytes sample_script ([], 28980, replicate 32 0 @ [1, 2]) 0 32 = Inr (replicate 32 0)"
    by (simp add: guest_bytes_def buffer_len_def word_sless_alt ok_or_def)
  moreover have "state_key (\<lambda>_. 0) 32 (replicate 32 0) = 0" by (simp add: state_key_def) code_simp
  ultimately show ?thesis
    using state_write_effect [OF sample_script_metered _ sample_write [OF get, of "\<lambda>_. 0"]] get
    by (auto simp: budget_def sample_gas_def)
qed

section \<open>Contracts that stop the node\<close>

text \<open>A host function is called with a length that is negative when the buffer is allocated.\<close>

fun allocates_negative :: "('m, 's) wasmer \<Rightarrow> host_call \<Rightarrow> ('s, 'f, 'g) host_env \<Rightarrow> bool" where
  "allocates_negative W (Call_State_Read key_ptr key_len out_ptr out_len) env \<longleftrightarrow>
     key_len <s 0 \<and> instance_backref env \<and>
     (case charge_state_read (env_gas env) of
        (Inl e, g) \<Rightarrow> False
      | (Inr u, g) \<Rightarrow>
          (case charge_metering_from_host W STATE_READ_COST (env_store env) of
             Inl e \<Rightarrow> False | Inr s \<Rightarrow> has_memory W s))"
| "allocates_negative W (Call_State_Write key_ptr key_len data_ptr data_len) env \<longleftrightarrow>
     (key_len <s 0 \<or> data_len <s 0 \<and> memory_read W (env_store env) (scast key_ptr) (unat key_len) \<noteq> None) \<and>
     instance_backref env \<and> has_memory W (env_store env)"
| "allocates_negative W (Call_Self_Destruct key_ptr key_len) env \<longleftrightarrow>
     key_len <s 0 \<and> instance_backref env \<and> has_memory W (env_store env)"

lemma fst_bind_st: "fst (bind_st (r, e) f) = (case r of Inl x \<Rightarrow> Inl x | Inr v \<Rightarrow> fst (f v e))"
  by (cases r) simp_all

lemma host_function_panics:
  "fst (host_function W H call env) = Inl Host_Panic \<longleftrightarrow> allocates_negative W call env"
proof (cases call)
  case (Call_State_Read key_ptr key_len out_ptr out_len)
  obtain r g where "charge_state_read (env_gas env) = (r, g)" by fastforce
  moreover have "fst (bind_st (map_err (\<lambda>e. Runtime_Error (''State read error: '' @ e)) x, e) (\<lambda>value env.
      case value of
        None \<Rightarrow> (Inr 0, env)
      | Some v \<Rightarrow>
          if unat (scast out_len :: u64) < length v then (Inl (Runtime_Error ''Output buffer too small''), env)
          else case memory_write W (env_store env) (scast out_ptr) v of
                 None \<Rightarrow> (Inl (Runtime_Error ''Memory write failure''), env)
               | Some s \<Rightarrow> (Inr (word_of_nat (length v)), env\<lparr>env_store := s\<rparr>))) \<noteq> Inl Host_Panic" for x e
    by (cases x) (simp_all add: fst_bind_st split: option.split)
  ultimately show ?thesis using Call_State_Read
    by (cases r; cases "charge_metering_from_host W STATE_READ_COST (env_store env)")
      (auto simp: klomang_state_read_def charge_gas_def charge_points_def host_memory_def guest_bytes_def buffer_len_def
        ok_or_def split: option.splits)
next
  case (Call_State_Write key_ptr key_len data_ptr data_len)
  have "fst (bind_st (map_err (\<lambda>e. Runtime_Error (''State read for write failed: '' @ e)) x, e) (\<lambda>existing env.
      let is_new = (existing = None);
          state_write_cost = (if is_new then STATE_WRITE_NEW_COST else STATE_WRITE_UPDATE_COST)
      in
      bind_st (charge_gas (charge_state_write is_new) env) (\<lambda>_ env.
      bind_st (charge_points W state_write_cost env) (\<lambda>_ env.
        case state_write k data (env_state env) of
          (Inl e, sm) \<Rightarrow> (Inl (Runtime_Error (''State write failed: '' @ e)), env\<lparr>env_state := sm\<rparr>)
        | (Inr _, sm) \<Rightarrow> (Inr 1, env\<lparr>env_state := sm\<rparr>))))) \<noteq> Inl Host_Panic" for x e k data
  proof (cases x)
    case (Inr existing)
    obtain r g where "charge_state_write (existing = None) (env_gas e) = (r, g)" by fastforce
    then show ?thesis using Inr
      by (cases r) (auto simp: charge_gas_def charge_points_def state_write_def Let_def fst_bind_st split: sum.split)
  qed (simp add: fst_bind_st)
  then show ?thesis
    using Call_State_Write
    by (auto simp: klomang_state_write_def host_memory_def guest_bytes_def buffer_len_def ok_or_def split: option.splits)
next
  case (Call_Self_Destruct key_ptr key_len)
  then show ?thesis
    by (auto simp: klomang_self_destruct_def host_memory_def guest_bytes_def buffer_len_def ok_or_def split: option.splits)
qed

text \<open>The calls the guest reaches: each call before them has returned a value to it.\<close>

inductive guest_reaches ::
    "('m, 's) wasmer \<Rightarrow> blake3 \<Rightarrow> 's guest_event \<Rightarrow> ('s, 'f, 'g) host_env \<Rightarrow> host_call \<Rightarrow> ('s, 'f, 'g) host_env \<Rightarrow> bool"
  for W H where
  reaches_now: "guest_reaches W H (Calls call s) env call (env\<lparr>env_store := s\<rparr>)"
| reaches_later: "host_function W H call (env\<lparr>env_store := s\<rparr>) = (Inr r, env1) \<Longrightarrow>
     guest_reaches W H (resume W (env_store env1) r) env1 call' env' \<Longrightarrow> guest_reaches W H (Calls call s) env call' env'"

lemma reached_panics:
  "guest_reaches W H ev env call env' \<Longrightarrow> allocates_negative W call env' \<Longrightarrow>
     \<exists>env''. guest_loop W H ev env = Some (Guest_Panicked, env'')"
proof (induction rule: guest_reaches.induct)
  case (reaches_now call s env)
  then obtain env'' where "host_function W H call (env\<lparr>env_store := s\<rparr>) = (Inl Host_Panic, env'')"
    by (metis host_function_panics prod.collapse)
  then show ?case by (simp add: guest_loop.simps)
next
  case (reaches_later call s env r env1 call' env')
  then show ?case by (simp add: guest_loop.simps [of W H "Calls call s"])
qed

lemma panicked_reached:
  "guest_loop W H ev env = Some out \<Longrightarrow> fst out = Guest_Panicked \<Longrightarrow>
     \<exists>call env'. guest_reaches W H ev env call env' \<and> allocates_negative W call env'"
proof (induction rule: guest_loop_induct)
  case (calls call s env r env1 out)
  then obtain call' env' where "guest_reaches W H (resume W (env_store env1) r) env1 call' env'"
    "allocates_negative W call' env'" by blast
  moreover from guest_reaches.reaches_later [OF calls.hyps(1) this(1)]
  have "guest_reaches W H (Calls call s) env call' env'" .
  ultimately show ?case by blast
next
  case (panicked call s env env')
  then have "allocates_negative W call (env\<lparr>env_store := s\<rparr>)" by (simp flip: host_function_panics [of W H])
  then show ?case by (intro exI conjI) (rule guest_reaches.reaches_now)
qed simp_all

text \<open>The environment in which \<open>run\<close> is called: the charges, the module and its start function went well.\<close>

definition contract_entry ::
    "('m, 's) wasmer \<Rightarrow> blake3 \<Rightarrow> bytes \<Rightarrow> u64 \<Rightarrow> ('f, 'g) state_manager \<Rightarrow> ('s, 'f, 'g) host_env option" where
  "contract_entry W H code limit sm =
     (case charge_intrinsic (gas_meter_new limit) of
        (Inl e, gas1) \<Rightarrow> None
      | (Inr u, gas1) \<Rightarrow>
      (case charge_payload code gas1 of
         (Inl e, gas2) \<Rightarrow> None
       | (Inr u, gas2) \<Rightarrow>
       (case module_new W code of
          Inl msg \<Rightarrow> None
        | Inr module \<Rightarrow>
        (case guest_loop W H (start_module W limit module)
            \<lparr>env_store = store_new W, env_gas = gas2, env_state = sm, instance_backref = False\<rparr> of
           Some (Guest_Done, env) \<Rightarrow>
             let env' = env\<lparr>env_store := set_remaining_points W
                              (saturating_sub limit (consumed_host (env_gas env))) (env_store env),
                            instance_backref := True\<rparr>
             in if is_ok (export_run W (env_store env')) then Some env' else None
         | _ \<Rightarrow> None))))"

text \<open>Before \<open>run\<close> no host function panics: each refuses to work without the instance.\<close>

lemma start_not_panicked:
  assumes "\<not> instance_backref env"
  shows "guest_loop W H ev env \<noteq> Some (Guest_Panicked, env')"
proof
  assume run: "guest_loop W H ev env = Some (Guest_Panicked, env')"
  show False
  proof (cases ev)
    case (Calls call s)
    obtain r e where host: "host_function W H call (env\<lparr>env_store := s\<rparr>) = (r, e)" by fastforce
    obtain r' g where gas: "charge_state_read (env_gas env) = (r', g)" by fastforce
    have "\<exists>msg. r = Inl (Runtime_Error msg)"
      using host assms gas
      by (cases call; cases r') (auto simp: klomang_state_read_def klomang_state_write_def klomang_self_destruct_def
          charge_gas_def host_memory_def)
    with run Calls host show False by (auto simp: guest_loop.simps)
  qed (use run in \<open>simp_all add: guest_loop.simps\<close>)
qed

lemma run_contract_None:
  assumes "metered W"
  shows "run_contract W H limit t env = None \<longleftrightarrow>
     (\<exists>call env'. guest_reaches W H (call_run W (env_store env)) env call env' \<and> allocates_negative W call env')"
proof -
  obtain res env' where run: "guest_loop W H (call_run W (env_store env)) env = Some (res, env')"
    using guest_loop_total [OF assms, of H "call_run W (env_store env)" env] by auto
  have "run_contract W H limit t env = None \<longleftrightarrow> res = Guest_Panicked"
    by (cases res) (simp_all add: run_contract_def run Let_def split: option.split prod.split)
  also have "\<dots> \<longleftrightarrow> (\<exists>call env'. guest_reaches W H (call_run W (env_store env)) env call env' \<and> allocates_negative W call env')"
    using reached_panics [of W H "call_run W (env_store env)" env] panicked_reached [OF run] run by auto
  finally show ?thesis .
qed

lemma vm_execute_None:
  assumes "metered W" "tree_ok A H (sm_tree sm)"
  shows "vm_execute W A H code limit sm = None \<longleftrightarrow>
     (\<exists>env call env'. contract_entry W H code limit sm = Some env \<and>
        guest_reaches W H (call_run W (env_store env)) env call env' \<and> allocates_negative W call env')"
proof -
  obtain t where t: "tree_clone A H (sm_tree sm) = Some t" using tree_clone_eq [OF assms(2)] by blast
  then obtain t2 where t2: "tree_clone A H t = Some t2" using same_contents_clone [OF assms(2) t] tree_clone_eq by blast
  obtain r1 gas1 where gas1: "charge_intrinsic (gas_meter_new limit) = (r1, gas1)" by fastforce
  obtain r2 gas2 where gas2: "charge_payload code gas1 = (r2, gas2)" by fastforce
  show ?thesis
  proof (cases "is_ok r1 \<and> is_ok r2 \<and> is_ok (module_new W code)")
    case False
    with t gas1 gas2 show ?thesis
      by (cases r1; cases r2; cases "module_new W code") (auto simp: vm_execute_def contract_entry_def)
  next
    case True
    then obtain m where m: "module_new W code = Inr m" "r1 = Inr ()" "r2 = Inr ()"
      by (cases r1; cases r2; cases "module_new W code") auto
    let ?start = "\<lparr>env_store = store_new W, env_gas = gas2, env_state = sm, instance_backref = False\<rparr>"
    obtain started env where st: "guest_loop W H (start_module W limit m) ?start = Some (started, env)"
      using guest_loop_total [OF assms(1), of H "start_module W limit m" ?start] by auto
    let ?env = "env\<lparr>env_store := set_remaining_points W (saturating_sub limit (consumed_host (env_gas env))) (env_store env),
          instance_backref := True\<rparr>"
    show ?thesis
    proof (cases "started = Guest_Done \<and> is_ok (export_run W (env_store ?env))")
      case False
      have "guest_loop W H (start_module W limit m) ?start \<noteq> Some (Guest_Panicked, env)"
        by (rule start_not_panicked) simp
      with st have "started \<noteq> Guest_Panicked" by blast
      with False t t2 gas1 gas2 m st show ?thesis
        by (cases started; cases "export_run W (env_store ?env)") (auto simp: vm_execute_def contract_entry_def Let_def)
    next
      case True
      then have "vm_execute W A H code limit sm = run_contract W H limit t ?env"
        using t gas1 gas2 m st
        by (cases "export_run W (env_store ?env)") (simp_all add: vm_execute_def Let_def)
      moreover have "contract_entry W H code limit sm = Some ?env"
        using True gas1 gas2 m st by (simp add: contract_entry_def Let_def)
      ultimately show ?thesis using run_contract_None [OF assms(1), of H limit t ?env] by simp
    qed
  qed
qed

text \<open>
  C39. Exactly which contracts stop the node. An execution returns no value, so the node panics, if
  and only if its charges, its module and its start function go well and its \<open>run\<close>, after any number
  of host calls that succeed, reaches one that allocates a buffer of negative length: a deletion or
  a write with a negative key length, a write with a negative data length whose key can be read, or
  a read with a negative key length that can pay for the read. In particular a contract cannot stop
  the node by running forever, given the metering.
\<close>

theorem contract_panics_exactly:
  assumes "metered W" "tree_ok A H (sm_tree sm)"
  shows "vm_execute W A H code limit sm = None \<longleftrightarrow>
     (\<exists>env call env'. contract_entry W H code limit sm = Some env \<and>
        guest_reaches W H (call_run W (env_store env)) env call env' \<and> allocates_negative W call env')"
  using assms by (rule vm_execute_None)

text \<open>A script that deletes a key and then writes under a key of length \<open>- 1\<close>.\<close>

definition sample_panic :: "(unit, host_call list \<times> u64 \<times> bytes) wasmer" where
  "sample_panic = sample_wasmer [Call_Self_Destruct 0 0, Call_State_Write 0 (- 1) 0 0] []"

theorem contract_panics_exactly_witness:
  "\<exists>sm. tree_ok sample_ark (\<lambda>_. 0) (sm_tree sm) \<and> vm_execute sample_panic sample_ark (\<lambda>_. 0) [] 50000 sm = None"
proof -
  let ?H = "\<lambda>_. 0 :: bytes32" and ?W = sample_panic
  obtain sm :: "(rat, rat) state_manager" where ok: "tree_ok sample_ark ?H (sm_tree sm)" using sample_executes by blast
  have W: "metered ?W" unfolding sample_panic_def by (rule sample_metered)
  note fields = sample_panic_def sample_wasmer_def
  let ?env = "\<lparr>env_store = ([Call_Self_Destruct 0 0, Call_State_Write 0 (- 1) 0 0], 29000, []),
      env_gas = sample_gas 29000 21000, env_state = sm, instance_backref = True\<rparr>"
  have "consumed_host (sample_gas 29000 21000) = 21000" by (simp add: sample_gas_def)
  then have entry: "contract_entry ?W ?H [] 50000 sm = Some ?env"
    by (simp add: contract_entry_def sample_charges guest_loop.simps [of _ _ "Returned s" for s] saturating_sub_def fields)
  obtain env1 where one: "host_function ?W ?H (Call_Self_Destruct 0 0)
      (?env\<lparr>env_store := ([Call_State_Write 0 (- 1) 0 0], 28980, [])\<rparr>) = (Inr 1, env1)"
    "env_store env1 = ([Call_State_Write 0 (- 1) 0 0], 28980, [])" "instance_backref env1"
    by (simp add: klomang_self_destruct_def host_memory_def guest_bytes_def buffer_len_def ok_or_def fields)
  have call: "call_run ?W (env_store ?env) = Calls (Call_Self_Destruct 0 0) ([Call_State_Write 0 (- 1) 0 0], 28980, [])"
    "resume ?W (env_store env1) 1 = Calls (Call_State_Write 0 (- 1) 0 0) ([], 28960, [])"
    by (simp_all add: fields sample_next_def one(2))
  have "guest_reaches ?W ?H (call_run ?W (env_store ?env)) ?env (Call_State_Write 0 (- 1) 0 0)
      (env1\<lparr>env_store := ([], 28960, [])\<rparr>)"
    unfolding call(1) using call(2)
    by (intro guest_reaches.reaches_later [OF one(1)]) (simp add: guest_reaches.reaches_now)
  moreover have "allocates_negative ?W (Call_State_Write 0 (- 1) 0 0) (env1\<lparr>env_store := ([], 28960, [])\<rparr>)"
    by (simp add: one(3) fields word_sless_alt)
  ultimately have "vm_execute ?W sample_ark ?H [] 50000 sm = None"
    using contract_panics_exactly [OF W ok, of "[]" 50000] entry by blast
  with ok show ?thesis by blast
qed

end
