(* ===== verification/State_Manager.thy ===== *)
theory State_Manager
  imports Vm_Executor Block_Validation
begin

text \<open>
  The state manager (\<open>src/core/state_manager.rs\<close>): application of blocks with snapshots,
  rollback, pruning of outputs and the checks on the supply. An operation that can panic is an
  option, \<open>None\<close> being the panic; the others return their result with the new state. The
  messages printed on errors are left out.
\<close>

section \<open>Transactions\<close>

type_synonym ('f, 'g) chain = "utxo_set \<times> ('f, 'g) state_manager"

fun sm_inputs :: "tx_input list \<Rightarrow> ('f, 'g) chain \<Rightarrow> (state_manager_error + unit) \<times> ('f, 'g) chain" where
  "sm_inputs [] c = (Inr (), c)"
| "sm_inputs (input # rest) (u, sm) =
     (case fmlookup (utxos u) (outpoint_of input) of
        None \<Rightarrow> (Inl (ApplyBlockFailed ''Missing UTXO input in transaction ''), (u, sm))
      | Some output \<Rightarrow>
          sm_inputs rest
            (u\<lparr>utxos := fmdrop (outpoint_of input) (utxos u)\<rparr>,
             sm\<lparr>current_total_supply := saturating_sub (current_total_supply sm) (ucast (out_value output)),
                outpoint_to_key := fmdrop (outpoint_of input) (outpoint_to_key sm),
                sm_prune_markers := fmdrop (outpoint_of input) (sm_prune_markers sm)\<rparr>))"

fun sm_outputs :: "blake3 \<Rightarrow> transaction \<Rightarrow> nat \<Rightarrow> tx_output list \<Rightarrow> ('f, 'g) chain \<Rightarrow> ('f, 'g) chain" where
  "sm_outputs H tx i [] c = c"
| "sm_outputs H tx i (output # rest) (u, sm) =
     (let key = hash_with_index H tx (word_of_nat i);
          out = (tx_id tx, word_of_nat i)
      in sm_outputs H tx (i + 1) rest
           (u\<lparr>utxos := fmupd out output (utxos u)\<rparr>,
            sm\<lparr>pending_updates := pending_updates sm @ [(key, output_serialize output)],
               outpoint_to_key := fmupd out key (outpoint_to_key sm),
               current_total_supply := saturating_add (current_total_supply sm) (ucast (out_value output))\<rparr>))"

definition apply_utxo_transaction ::
    "blake3 \<Rightarrow> transaction \<Rightarrow> ('f, 'g) chain \<Rightarrow> (state_manager_error + unit) \<times> ('f, 'g) chain" where
  "apply_utxo_transaction H tx c =
     bind_st (sm_inputs (inputs tx) c) (\<lambda>_ c'. (Inr (), sm_outputs H tx 0 (outputs tx) c'))"

text \<open>The gas a contract transaction must allow for; the plain sum wraps.\<close>

definition payload_data_cost :: "bytes \<Rightarrow> u64" where
  "payload_data_cost payload = foldl (\<lambda>acc b. acc + (if b = 0 then 4 else 16)) 0 payload"

definition required_gas :: "transaction \<Rightarrow> u64" where
  "required_gas tx = saturating_add 21000 (payload_data_cost (execution_payload tx))"

definition apply_contract_transition ::
    "('m, 's) wasmer \<Rightarrow> ('f::field, 'p, 'g::ab_group_add) ark \<Rightarrow> blake3 \<Rightarrow> transaction \<Rightarrow> ('f, 'g) chain
       \<Rightarrow> ((state_manager_error + unit) \<times> ('f, 'g) chain) option" where
  "apply_contract_transition W A H tx = (\<lambda>(u, sm).
     if gas_limit tx < required_gas tx
     then Some (Inl (ApplyBlockFailed ''Insufficient gas limit (''), (u, sm))
     else
       Option.bind (tree_clone A H (sm_tree sm)) (\<lambda>tree_snapshot.
       Option.bind (vm_execute W A H (execution_payload tx) (gas_limit tx) sm) (\<lambda>(exec_res, sm').
         case exec_res of
           Inr gas_used \<Rightarrow>
             let total_fee = saturating_mul (ucast gas_used) (max_fee_per_gas tx)
             in Some (apply_utxo_transaction H tx
                  (u, sm'\<lparr>block_gas_fees := block_gas_fees sm' @ [create_gas_fee_witness total_fee]\<rparr>))
         | Inl err \<Rightarrow>
             Some (Inl (ApplyBlockFailed (''VM execution failed: '' @ show_vm_error err)),
                   (u, sm'\<lparr>sm_tree := tree_snapshot\<rparr>)))))"

definition apply_transaction ::
    "('m, 's) wasmer \<Rightarrow> ('f::field, 'p, 'g::ab_group_add) ark \<Rightarrow> blake3 \<Rightarrow> transaction \<Rightarrow> ('f, 'g) chain
       \<Rightarrow> ((state_manager_error + unit) \<times> ('f, 'g) chain) option" where
  "apply_transaction W A H tx c =
     (if execution_payload tx = [] \<and> contract_address tx = None
      then Some (apply_utxo_transaction H tx c)
      else apply_contract_transition W A H tx c)"

fun apply_transactions ::
    "('m, 's) wasmer \<Rightarrow> ('f::field, 'p, 'g::ab_group_add) ark \<Rightarrow> blake3 \<Rightarrow> transaction list \<Rightarrow> ('f, 'g) chain
       \<Rightarrow> ((state_manager_error + unit) \<times> ('f, 'g) chain) option" where
  "apply_transactions W A H [] c = Some (Inr (), c)"
| "apply_transactions W A H (tx # txs) c =
     Option.bind (apply_transaction W A H tx c) (\<lambda>(r, c').
       case r of Inl e \<Rightarrow> Some (Inl e, c') | Inr _ \<Rightarrow> apply_transactions W A H txs c')"

section \<open>Blocks\<close>

text \<open>The rollback of a failed block: everything but the snapshots, which have not changed yet.\<close>

definition roll_back_block ::
    "('f, 'g) verkle_tree \<Rightarrow> ('f, 'g) state_manager \<Rightarrow> ('f, 'g) state_manager \<Rightarrow> ('f, 'g) state_manager" where
  "roll_back_block saved_tree saved sm =
     sm\<lparr>sm_tree := saved_tree, current_height := current_height saved,
        current_total_supply := current_total_supply saved, block_gas_fees := block_gas_fees saved,
        pending_updates := pending_updates saved, sm_prune_markers := sm_prune_markers saved,
        outpoint_to_key := outpoint_to_key saved\<rparr>"

text \<open>The end of a block: the new root, which is compared with the old one, and the snapshot.\<close>

definition commit_block ::
    "('f::field, 'p, 'g::ab_group_add) ark \<Rightarrow> blake3 \<Rightarrow> u64 \<Rightarrow> ('f, 'g) state_manager
       \<Rightarrow> ((state_manager_error + unit) \<times> ('f, 'g) state_manager) option" where
  "commit_block A H saved_height sm =
     (case get_root_hash A H (sm\<lparr>current_height := current_height sm + 1\<rparr>) of
        (Inl e, sm') \<Rightarrow> Some (Inl e, sm')
      | (Inr new_root, sm') \<Rightarrow>
          if unat saved_height < length (snapshots sm')
          then Some (Inr (),
            sm'\<lparr>snapshots := snapshots sm' @ [\<lparr>snap_height = current_height sm', snap_root = new_root,
                  snap_total_supply = current_total_supply sm', snap_gas_fees = block_gas_fees sm'\<rparr>],
                snapshot_storages := snapshot_storages sm' @ [vt_storage (sm_tree sm')]\<rparr>)
          else None)"

definition apply_block_body ::
    "('m, 's) wasmer \<Rightarrow> ('f::field, 'p, 'g::ab_group_add) ark \<Rightarrow> blake3 \<Rightarrow> block_node \<Rightarrow> ('f, 'g) chain
       \<Rightarrow> ((state_manager_error + unit) \<times> ('f, 'g) chain) option" where
  "apply_block_body W A H block = (\<lambda>(u, sm).
     Option.bind (tree_clone A H (sm_tree sm)) (\<lambda>saved_tree.
     Option.bind (apply_transactions W A H (transactions block)
         (u, sm\<lparr>pending_updates := [], block_gas_fees := []\<rparr>)) (\<lambda>(r, (u', sm')).
       case r of
         Inl e \<Rightarrow> Some (Inl e, (u, roll_back_block saved_tree sm sm'))
       | Inr _ \<Rightarrow>
           (case apply_state_transition (pending_updates sm') (current_total_supply sm') (sm_tree sm') of
              (Inl e, t) \<Rightarrow>
                Some (Inl (ApplyBlockFailed (''State transition failed: '' @ show_core_error e)),
                      (u, roll_back_block saved_tree sm (sm'\<lparr>sm_tree := t\<rparr>)))
            | (Inr _, t) \<Rightarrow>
                map_option (\<lambda>(r', sm''). (r', (u', sm'')))
                  (commit_block A H (current_height sm) (sm'\<lparr>sm_tree := t\<rparr>))))))"

definition sm_apply_block ::
    "('m, 's) wasmer \<Rightarrow> ('f::field, 'p, 'g::ab_group_add) ark \<Rightarrow> blake3 \<Rightarrow> block_node \<Rightarrow> ('f, 'g) chain
       \<Rightarrow> ((state_manager_error + unit) \<times> ('f, 'g) chain) option" where
  "sm_apply_block W A H block = (\<lambda>(u, sm).
     if applying_block sm
     then Some (Inl (ApplyBlockFailed ''Concurrent block application not allowed''), (u, sm))
     else map_option (\<lambda>(r, (u', sm')). (r, (u', sm'\<lparr>applying_block := False\<rparr>)))
            (apply_block_body W A H block (u, sm\<lparr>applying_block := True\<rparr>)))"

text \<open>\<open>current_time\<close> is the system clock's answer.\<close>

definition validate_and_apply_block ::
    "('vk, 'sig) crypto \<Rightarrow> (bool list \<Rightarrow> bool list) \<Rightarrow> ('m, 's) wasmer
       \<Rightarrow> ('f::field, 'p, 'g::ab_group_add) ark \<Rightarrow> string + u64 \<Rightarrow> ghost_dag \<Rightarrow> dag \<Rightarrow> block_node \<Rightarrow> ('f, 'g) chain
       \<Rightarrow> ((state_manager_error + unit) \<times> ('f, 'g) chain) option" where
  "validate_and_apply_block E arrival W A current_time gd d block = (\<lambda>(u, sm).
     case current_time of
       Inl e \<Rightarrow> Some (Inl (Sm_CryptographicError (''Time error: '' @ e)), (u, sm))
     | Inr now \<Rightarrow>
     (case validate_block E arrival block d (sm_tree sm) now of
       None \<Rightarrow> None
     | Some (Inl e) \<Rightarrow> Some (Inl (from_core_error e), (u, sm))
     | Some (Inr _) \<Rightarrow>
     (case can_reorganize gd d (hdr_id (header block)) of
       Inl e \<Rightarrow> Some (Inl (from_core_error e), (u, sm))
     | Inr ok \<Rightarrow>
         if \<not> ok
         then Some (Inl (ApplyBlockFailed ''Block reorganization would violate finality constraints''), (u, sm))
         else sm_apply_block W A (blake3_hash E) block (u, sm))))"

section \<open>Rollback\<close>

text \<open>The result of an operation that can also panic.\<close>

fun bind_run ::
    "(('e + 'a) \<times> 's) option \<Rightarrow> ('a \<Rightarrow> 's \<Rightarrow> (('e + 'b) \<times> 's) option) \<Rightarrow> (('e + 'b) \<times> 's) option" where
  "bind_run None f = None"
| "bind_run (Some (Inl e, s)) f = Some (Inl e, s)"
| "bind_run (Some (Inr a, s)) f = f a s"

definition restore_tree ::
    "('f::field, 'p, 'g::ab_group_add) ark \<Rightarrow> blake3 \<Rightarrow> memory_storage \<Rightarrow> ('f, 'g) state_manager
       \<Rightarrow> ((state_manager_error + unit) \<times> ('f, 'g) state_manager) option" where
  "restore_tree A H storage sm =
     map_option (\<lambda>r. case r of
         Inl e \<Rightarrow> (Inl (RestoreFailed (''Failed to restore tree: '' @ show_core_error e)), sm)
       | Inr t \<Rightarrow> (Inr (), sm\<lparr>sm_tree := t\<rparr>))
       (tree_new A H storage)"

definition rollback_state ::
    "('f::field, 'p, 'g::ab_group_add) ark \<Rightarrow> blake3 \<Rightarrow> u64 \<Rightarrow> ('f, 'g) state_manager
       \<Rightarrow> ((state_manager_error + unit) \<times> ('f, 'g) state_manager) option" where
  "rollback_state A H height sm =
     (if current_height sm < height
      then Some (Inl (InvalidRollback ''Cannot rollback to height ''), sm)
      else if get_state_at height sm = None then Some (Inl (SnapshotNotFound height), sm)
      else
        let keep = unat (height + 1);
            sm1 = sm\<lparr>snapshots := take keep (snapshots sm), snapshot_storages := take keep (snapshot_storages sm),
                     current_height := height\<rparr>
        in if length (snapshot_storages sm1) \<le> unat height
           then Some (Inl (RestoreFailed ''Snapshot storage missing after truncation''), sm1)
           else
             bind_run (restore_tree A H (snapshot_storages sm1 ! unat height) sm1) (\<lambda>_ sm2.
               if length (snapshots sm2) \<le> unat height then None
               else
                 let snap = snapshots sm2 ! unat height;
                     sm3 = sm2\<lparr>current_total_supply := snap_total_supply snap, block_gas_fees := snap_gas_fees snap\<rparr>
                 in bind_run (Some (get_root_hash A H sm3)) (\<lambda>restored_root sm4.
                      if restored_root \<noteq> snap_root snap
                      then Some (Inl (RestoreFailed ''Root mismatch after rollback: expected ''), sm4)
                      else Some (Inr (), sm4))))"

text \<open>What \<open>rollback\<close> puts back when the rollback failed.\<close>

definition restore_backup ::
    "('f, 'g) verkle_tree \<Rightarrow> ('f, 'g) state_manager \<Rightarrow> ('f, 'g) state_manager \<Rightarrow> ('f, 'g) state_manager" where
  "restore_backup backup_tree backup sm =
     sm\<lparr>sm_tree := backup_tree, current_height := current_height backup, snapshots := snapshots backup,
        snapshot_storages := snapshot_storages backup, current_total_supply := current_total_supply backup,
        block_gas_fees := block_gas_fees backup\<rparr>"

definition sm_rollback ::
    "('f::field, 'p, 'g::ab_group_add) ark \<Rightarrow> blake3 \<Rightarrow> u64 \<Rightarrow> ('f, 'g) state_manager
       \<Rightarrow> ((state_manager_error + unit) \<times> ('f, 'g) state_manager) option" where
  "sm_rollback A H height sm =
     (if current_height sm < height
      then Some (Inl (InvalidRollback ''Requested rollback to ''), sm)
      else
        Option.bind (tree_clone A H (sm_tree sm)) (\<lambda>backup_tree.
        Option.bind (rollback_state A H height sm) (\<lambda>(r, sm').
          case r of
            Inl err \<Rightarrow> Some (Inl err, restore_backup backup_tree sm sm')
          | Inr _ \<Rightarrow>
              (case get_root_hash A H sm' of
                 (Inl _, sm'') \<Rightarrow> Some (Inr (), sm'')
               | (Inr current_root, sm'') \<Rightarrow>
                   if length (snapshots sm'') \<le> unat height then None
                   else if current_root \<noteq> snap_root (snapshots sm'' ! unat height)
                   then Some (Inl (RestoreFailed ''Silent corruption detected: root hash mismatch after rollback to height ''),
                              restore_backup backup_tree sm sm'')
                   else Some (Inr (), sm'')))))"

fun snapshot_position :: "(state_snapshot \<Rightarrow> bool) \<Rightarrow> state_snapshot list \<Rightarrow> nat option" where
  "snapshot_position P [] = None"
| "snapshot_position P (s # ss) = (if P s then Some 0 else map_option Suc (snapshot_position P ss))"

definition restore_from_snapshot ::
    "('f::field, 'p, 'g::ab_group_add) ark \<Rightarrow> blake3 \<Rightarrow> bytes32 \<Rightarrow> u64 \<Rightarrow> ('f, 'g) state_manager
       \<Rightarrow> ((state_manager_error + unit) \<times> ('f, 'g) state_manager) option" where
  "restore_from_snapshot A H wanted_root height sm =
     (case snapshot_position (\<lambda>s. snap_height s = height \<and> snap_root s = wanted_root) (snapshots sm) of
        None \<Rightarrow> Some (Inl (SnapshotNotFound height), sm)
      | Some idx \<Rightarrow>
          if length (snapshot_storages sm) \<le> idx then Some (Inl (RestoreFailed ''Storage missing''), sm)
          else
            bind_run (restore_tree A H (snapshot_storages sm ! idx) sm) (\<lambda>_ sm1.
              Some (Inr (), sm1\<lparr>current_height := height, snapshots := take (idx + 1) (snapshots sm1),
                                snapshot_storages := take (idx + 1) (snapshot_storages sm1)\<rparr>)))"

section \<open>Pruning\<close>

text \<open>\<open>iteration\<close> is the order in which the hash map of markers is iterated.\<close>

fun prune_outpoints ::
    "outpoint list \<Rightarrow> outpoint list \<Rightarrow> ('f, 'g) chain \<Rightarrow> (state_manager_error + outpoint list) \<times> ('f, 'g) chain" where
  "prune_outpoints acc [] c = (Inr acc, c)"
| "prune_outpoints acc (out # rest) (u, sm) =
     (case fmlookup (outpoint_to_key sm) out of
        None \<Rightarrow> prune_outpoints acc rest (u, sm)
      | Some key \<Rightarrow>
          (case prune_key key (sm_tree sm) of
             (Inl e, t) \<Rightarrow> (Inl (Sm_CryptographicError (''Prune failed: '' @ show_core_error e)), (u, sm\<lparr>sm_tree := t\<rparr>))
           | (Inr _, t) \<Rightarrow>
               prune_outpoints (acc @ [out]) rest
                 (u\<lparr>utxos := fmdrop out (utxos u)\<rparr>,
                  sm\<lparr>sm_tree := t, outpoint_to_key := fmdrop out (outpoint_to_key sm),
                     sm_prune_markers := fmdrop out (sm_prune_markers sm)\<rparr>)))"

definition expired_outpoints :: "u64 \<Rightarrow> ('f, 'g) state_manager \<Rightarrow> outpoint fset" where
  "expired_outpoints epoch_threshold sm =
     ffilter (\<lambda>out. case fmlookup (sm_prune_markers sm) out of
                None \<Rightarrow> False | Some marker \<Rightarrow> pm_epoch marker \<le> epoch_threshold)
       (fmdom (sm_prune_markers sm))"

definition execute_pruning_cycle ::
    "(outpoint fset \<Rightarrow> outpoint list) \<Rightarrow> u64 \<Rightarrow> ('f, 'g) chain
       \<Rightarrow> (state_manager_error + outpoint list) \<times> ('f, 'g) chain" where
  "execute_pruning_cycle iteration epoch_threshold c =
     prune_outpoints [] (iteration (expired_outpoints epoch_threshold (snd c))) c"

section \<open>The supply\<close>

fun checked_sum :: "u128 \<Rightarrow> u64 list \<Rightarrow> u128 option" where
  "checked_sum acc [] = Some acc"
| "checked_sum acc (v # vs) = Option.bind (checked_add acc (ucast v)) (\<lambda>acc'. checked_sum acc' vs)"

text \<open>\<open>iteration\<close> is the order in which the hash map of outputs is iterated.\<close>

definition cross_check_supply_consistency ::
    "('f::field, 'p, 'g::ab_group_add) ark \<Rightarrow> blake3 \<Rightarrow> (outpoint fset \<Rightarrow> outpoint list) \<Rightarrow> utxo_set
       \<Rightarrow> ('f, 'g) state_manager \<Rightarrow> (state_manager_error + unit) \<times> ('f, 'g) state_manager" where
  "cross_check_supply_consistency A H iteration u sm =
     (case checked_sum 0 (map (\<lambda>k. case fmlookup (utxos u) k of Some out \<Rightarrow> out_value out | None \<Rightarrow> 0)
                            (iteration (fmdom (utxos u)))) of
        None \<Rightarrow> (Inl (SupplyCapExceeded ''UTXO sum overflow during supply check''), sm)
      | Some calculated \<Rightarrow>
          if calculated \<noteq> current_total_supply sm
          then (Inl (ApplyBlockFailed ''Supply mismatch: UTXO sum ''), sm)
          else bind_st (get_root_hash A H sm) (\<lambda>root sm'.
            if snapshots sm' \<noteq> [] \<and> snap_root (last (snapshots sm')) \<noteq> root
            then (Inl (ApplyBlockFailed ''Root hash mismatch between snapshot and current tree''), sm')
            else (Inr (), sm')))"

end
