(* ===== verification/Manager_Blocks.thy ===== *)
theory Manager_Blocks
  imports State_Manager
begin

text \<open>
  What the application of a block by the state manager does: blocks are applied entirely or not
  at all, the tree reads the outputs of an applied block, the tracked supply is the value of
  the outputs, and no transaction is checked to spend at least what it creates.
\<close>

section \<open>Roots of well-formed trees\<close>

lemma generator_points_length: "generator_points A H is = Some gs \<Longrightarrow> length gs = length is"
  by (induction "is" arbitrary: gs) (auto simp: bind_eq_Some_conv)

lemma tree_ok_commits:
  assumes "dense_poly A" "serializes A" "tree_ok A H t"
  shows "commits_ok A (vt_pc t)"
proof -
  obtain gs g where "generator_points A H [0..<VERKLE_RADIX] = Some gs" "vt_pc t = \<lparr>generators = gs, random_point = g\<rparr>"
    using assms(3) by (auto simp: tree_ok_def pc_new_def bind_eq_Some_conv intro: sym)
  with generator_points_length [of A H "[0..<VERKLE_RADIX]" gs] assms(1,2) show ?thesis by (simp add: commits_ok_def)
qed

lemma get_root_hash_ok:
  assumes "dense_poly A" "serializes A" "tree_ok A H (sm_tree sm)"
  shows "\<exists>rt t. get_root_hash A H sm = (Inr rt, sm\<lparr>sm_tree := t\<rparr>) \<and> tree_root A H (sm_tree sm) KEY_SIZE [] = Inr rt \<and>
    same_contents (sm_tree sm) t \<and> tree_ok A H t \<and> tree_root A H t = tree_root A H (sm_tree sm)"
proof -
  let ?t = "sm_tree sm"
  have empties: "empties_ok A H ?t" and caches: "caches_ok A H ?t" using assms(3) by (simp_all add: tree_ok_def)
  have "tree_root A H ?t KEY_SIZE [] = Inr (root_at A H ?t KEY_SIZE [])"
    by (rule tree_root_total(1) [OF tree_ok_commits [OF assms] empties order.refl])
  moreover note get_root_result [OF caches] tree_ok_root [OF assms(3)]
  ultimately show ?thesis
    by (intro exI [of _ "root_at A H ?t KEY_SIZE []"] exI [of _ "snd (get_root A H ?t)"])
      (simp add: get_root_hash_def split_beta same_contents_def)
qed

section \<open>What a transaction leaves alone\<close>

text \<open>The chain of snapshots, which only the end of a block extends.\<close>

definition same_history :: "('f, 'g) state_manager \<Rightarrow> ('f, 'g) state_manager \<Rightarrow> bool" where
  "same_history sm sm' \<longleftrightarrow>
     snapshots sm' = snapshots sm \<and> snapshot_storages sm' = snapshot_storages sm \<and>
     current_height sm' = current_height sm \<and> applying_block sm' = applying_block sm"

lemma same_history_refl [simp]: "same_history sm sm"
  by (simp add: same_history_def)

lemma same_history_trans: "same_history sm sm' \<Longrightarrow> same_history sm' sm'' \<Longrightarrow> same_history sm sm''"
  by (simp add: same_history_def)

lemma sm_inputs_frame:
  "sm_inputs ins (u, sm) = (r, (u', sm')) \<Longrightarrow>
     same_history sm sm' \<and> sm_tree sm' = sm_tree sm \<and> pending_updates sm' = pending_updates sm \<and>
     block_gas_fees sm' = block_gas_fees sm"
proof (induction ins arbitrary: u sm)
  case (Cons i ins)
  then show ?case
    by (cases "fmlookup (utxos u) (outpoint_of i)") (auto simp: same_history_def dest!: Cons.IH)
qed simp

lemma sm_outputs_frame:
  "sm_outputs H tx n outs (u, sm) = (u', sm') \<Longrightarrow>
     same_history sm sm' \<and> sm_tree sm' = sm_tree sm \<and> block_gas_fees sm' = block_gas_fees sm"
proof (induction outs arbitrary: n u sm)
  case (Cons out outs)
  then show ?case by (auto simp: same_history_def Let_def dest!: Cons.IH)
qed simp

lemma apply_utxo_frame:
  assumes "apply_utxo_transaction H tx (u, sm) = (r, (u', sm'))"
  shows "same_history sm sm' \<and> sm_tree sm' = sm_tree sm \<and> block_gas_fees sm' = block_gas_fees sm"
proof -
  obtain r1 u1 sm1 where ins: "sm_inputs (inputs tx) (u, sm) = (r1, (u1, sm1))" by (metis prod_cases3)
  obtain u2 sm2 where outs: "sm_outputs H tx 0 (outputs tx) (u1, sm1) = (u2, sm2)" by fastforce
  show ?thesis
    using assms ins outs sm_inputs_frame [OF ins] sm_outputs_frame [OF outs]
    by (cases r1) (auto simp: apply_utxo_transaction_def same_history_def)
qed

lemma apply_contract_frame:
  assumes "apply_contract_transition W A H tx (u, sm) = Some (r, (u', sm'))" "tree_ok A H (sm_tree sm)"
  shows "same_history sm sm' \<and> tree_ok A H (sm_tree sm')"
proof (cases "gas_limit tx < required_gas tx")
  case True
  with assms show ?thesis by (auto simp: apply_contract_transition_def)
next
  case False
  then obtain t res sm1 where t: "tree_clone A H (sm_tree sm) = Some t"
    and ex: "vm_execute W A H (execution_payload tx) (gas_limit tx) sm = Some (res, sm1)"
    using assms(1) by (auto simp: apply_contract_transition_def bind_eq_Some_conv)
  obtain t1 where sm1: "sm1 = sm\<lparr>sm_tree := t1\<rparr>" "tree_ok A H t1"
    using vm_execute_outcome [OF assms(2) ex] unfolding contract_outcome_def snd_conv by blast
  show ?thesis
  proof (cases res)
    case (Inl e)
    with assms False t ex sm1 tree_ok_clone(1) [OF assms(2) t] show ?thesis
      by (auto simp: apply_contract_transition_def same_history_def)
  next
    case (Inr gas)
    let ?w = "create_gas_fee_witness (saturating_mul (ucast gas) (max_fee_per_gas tx))"
    have "apply_utxo_transaction H tx (u, sm1\<lparr>block_gas_fees := block_gas_fees sm1 @ [?w]\<rparr>) = (r, (u', sm'))"
      using assms(1) False t ex Inr by (auto simp: apply_contract_transition_def Let_def)
    from apply_utxo_frame [OF this] sm1 show ?thesis by (simp add: same_history_def)
  qed
qed

lemma apply_transaction_frame:
  assumes "apply_transaction W A H tx (u, sm) = Some (r, (u', sm'))" "tree_ok A H (sm_tree sm)"
  shows "same_history sm sm' \<and> tree_ok A H (sm_tree sm')"
proof (cases "execution_payload tx = [] \<and> contract_address tx = None")
  case True
  with assms(1) have "apply_utxo_transaction H tx (u, sm) = (r, (u', sm'))" by (simp add: apply_transaction_def)
  from apply_utxo_frame [OF this] assms(2) show ?thesis by simp
next
  case False
  with assms show ?thesis by (intro apply_contract_frame [of W A H tx u sm r u']) (auto simp: apply_transaction_def)
qed

lemma apply_transactions_frame:
  "apply_transactions W A H txs (u, sm) = Some (r, (u', sm')) \<Longrightarrow> tree_ok A H (sm_tree sm) \<Longrightarrow>
     same_history sm sm' \<and> tree_ok A H (sm_tree sm')"
proof (induction txs arbitrary: u sm)
  case (Cons tx txs)
  obtain r1 u1 sm1 where tx: "apply_transaction W A H tx (u, sm) = Some (r1, (u1, sm1))"
    using Cons.prems(1) by (auto simp: bind_eq_Some_conv)
  note frame = apply_transaction_frame [OF tx Cons.prems(2)]
  show ?case
  proof (cases r1)
    case (Inl e)
    with Cons.prems(1) tx frame show ?thesis by simp
  next
    case (Inr v)
    with Cons.prems(1) tx have "apply_transactions W A H txs (u1, sm1) = Some (r, (u', sm'))" by simp
    from Cons.IH [OF this] frame show ?thesis by (auto intro: same_history_trans)
  qed
qed simp

section \<open>Blocks: all or nothing\<close>

lemma commit_block_ok:
  assumes "dense_poly A" "serializes A" "tree_ok A H (sm_tree sm)" "unat h < length (snapshots sm)"
  shows "\<exists>rt t. commit_block A H h sm = Some (Inr (), sm\<lparr>sm_tree := t, current_height := current_height sm + 1,
      snapshots := snapshots sm @ [\<lparr>snap_height = current_height sm + 1, snap_root = rt,
        snap_total_supply = current_total_supply sm, snap_gas_fees = block_gas_fees sm\<rparr>],
      snapshot_storages := snapshot_storages sm @ [vt_storage (sm_tree sm)]\<rparr>) \<and>
    tree_root A H t KEY_SIZE [] = Inr rt \<and> same_contents (sm_tree sm) t \<and> tree_ok A H t"
proof -
  let ?sm = "sm\<lparr>current_height := current_height sm + 1\<rparr>"
  have "tree_ok A H (sm_tree ?sm)" using assms(3) by simp
  from get_root_hash_ok [OF assms(1,2) this] obtain rt t where
    "get_root_hash A H ?sm = (Inr rt, ?sm\<lparr>sm_tree := t\<rparr>)" "tree_root A H t KEY_SIZE [] = Inr rt"
    "same_contents (sm_tree sm) t" "tree_ok A H t" by auto
  with assms(4) show ?thesis
    by (intro exI [of _ rt] exI [of _ t]) (simp add: commit_block_def same_contents_def)
qed

text \<open>Everything of a state but the caches of the tree.\<close>

definition same_state :: "('f, 'g) state_manager \<Rightarrow> ('f, 'g) state_manager \<Rightarrow> bool" where
  "same_state sm sm' \<longleftrightarrow> sm'\<lparr>sm_tree := sm_tree sm\<rparr> = sm \<and> same_contents (sm_tree sm) (sm_tree sm')"

lemma same_state_rolled_back:
  assumes "same_history (sm\<lparr>applying_block := True\<rparr>) sm'" "same_contents (sm_tree sm) t" "\<not> applying_block sm"
  shows "same_state sm ((roll_back_block t (sm\<lparr>applying_block := True\<rparr>) sm')\<lparr>applying_block := False\<rparr>)"
  using assms by (cases sm) (simp add: same_state_def roll_back_block_def same_history_def)

lemma sm_apply_block_cases:
  assumes "dense_poly A" "serializes A" "tree_ok A H (sm_tree sm)" "unat (current_height sm) < length (snapshots sm)"
    and "\<not> applying_block sm" "sm_apply_block W A H block (u, sm) = Some (r, (u', sm'))"
  shows "(\<exists>e. r = Inl e \<and> u' = u \<and> same_state sm sm' \<and> tree_ok A H (sm_tree sm')) \<or>
    (\<exists>sm1 t rt. r = Inr () \<and>
       apply_transactions W A H (transactions block)
         (u, sm\<lparr>applying_block := True, pending_updates := [], block_gas_fees := []\<rparr>) = Some (Inr (), (u', sm1)) \<and>
       fst (apply_state_transition (pending_updates sm1) (current_total_supply sm1) (sm_tree sm1)) = Inr () \<and>
       same_contents (snd (apply_state_transition (pending_updates sm1) (current_total_supply sm1) (sm_tree sm1))) t \<and>
       tree_ok A H t \<and> tree_root A H t KEY_SIZE [] = Inr rt \<and>
       sm' = sm1\<lparr>sm_tree := t, current_height := current_height sm + 1,
         snapshots := snapshots sm @ [\<lparr>snap_height = current_height sm + 1, snap_root = rt,
           snap_total_supply = current_total_supply sm1, snap_gas_fees = block_gas_fees sm1\<rparr>],
         snapshot_storages := snapshot_storages sm @ [vt_storage t], applying_block := False\<rparr>)"
proof -
  let ?sm = "sm\<lparr>applying_block := True\<rparr>"
  let ?start = "(u, ?sm\<lparr>pending_updates := [], block_gas_fees := []\<rparr>)"
  obtain t where t: "tree_clone A H (sm_tree ?sm) = Some t" "same_contents (sm_tree sm) t" "tree_ok A H t"
    using tree_clone_eq [OF assms(3)] same_contents_clone [OF assms(3)] by auto
  obtain r1 u1 sm1 where run: "apply_transactions W A H (transactions block) ?start = Some (r1, (u1, sm1))"
    using assms(5,6) t(1) by (auto simp: sm_apply_block_def apply_block_body_def bind_eq_Some_conv)
  have frame: "same_history ?sm sm1" "tree_ok A H (sm_tree sm1)"
    using apply_transactions_frame [OF run] assms(3) by (simp_all add: same_history_def)
  note rolled = same_state_rolled_back [OF _ t(2) assms(5)]
  obtain r2 t2 where tr: "apply_state_transition (pending_updates sm1) (current_total_supply sm1) (sm_tree sm1) = (r2, t2)"
    by fastforce
  have t2: "tree_ok A H t2" using tree_ok_transition [OF frame(2), of "pending_updates sm1" "current_total_supply sm1"] tr by simp
  show ?thesis
  proof (cases "r1 = Inr () \<and> r2 = Inr ()")
    case False
    have h: "same_history ?sm (sm1\<lparr>sm_tree := t2\<rparr>)" using frame(1) by (simp add: same_history_def)
    have tree: "sm_tree ((roll_back_block t ?sm x)\<lparr>applying_block := False\<rparr>) = t" for x by (simp add: roll_back_block_def)
    from False assms(5,6) t run tr rolled [OF frame(1)] rolled [OF h] tree show ?thesis
      by (cases r1; cases r2) (auto simp: sm_apply_block_def apply_block_body_def)
  next
    case True
    let ?sm2 = "sm1\<lparr>sm_tree := t2\<rparr>"
    have h: "snapshots sm1 = snapshots sm" "snapshot_storages sm1 = snapshot_storages sm"
      "current_height sm1 = current_height sm" using frame(1) by (simp_all add: same_history_def)
    have "tree_ok A H (sm_tree ?sm2)" "unat (current_height ?sm) < length (snapshots ?sm2)" using t2 assms(4) h by simp_all
    from commit_block_ok [OF assms(1,2) this] obtain rt t3 where
      com: "commit_block A H (current_height ?sm) ?sm2 = Some (Inr (), ?sm2\<lparr>sm_tree := t3, current_height := current_height ?sm2 + 1,
        snapshots := snapshots ?sm2 @ [\<lparr>snap_height = current_height ?sm2 + 1, snap_root = rt,
          snap_total_supply = current_total_supply ?sm2, snap_gas_fees = block_gas_fees ?sm2\<rparr>],
        snapshot_storages := snapshot_storages ?sm2 @ [vt_storage (sm_tree ?sm2)]\<rparr>)"
      and t3: "tree_root A H t3 KEY_SIZE [] = Inr rt" "same_contents t2 t3" "tree_ok A H t3" by auto
    have "vt_storage t3 = vt_storage t2" using t3(2) by (simp add: same_contents_def)
    with True assms(5,6) t run tr com h t3 show ?thesis
      by (intro disjI2 exI [of _ sm1] exI [of _ t3] exI [of _ rt]) (auto simp: sm_apply_block_def apply_block_body_def)
  qed
qed

section \<open>The ledger after a transaction\<close>

definition spendable_inputs :: "(outpoint, tx_output) fmap \<Rightarrow> tx_input list \<Rightarrow> bool" where
  "spendable_inputs m ins \<longleftrightarrow>
     distinct (map outpoint_of ins) \<and> (\<forall>i \<in> set ins. fmlookup m (outpoint_of i) \<noteq> None)"

lemma spendable_inputs_Nil [simp]: "spendable_inputs m []"
  by (simp add: spendable_inputs_def)

lemma spendable_inputs_Cons:
  "spendable_inputs m (i # ins) \<longleftrightarrow>
     fmlookup m (outpoint_of i) \<noteq> None \<and> spendable_inputs (fmdrop (outpoint_of i) m) ins"
  by (auto simp: spendable_inputs_def image_iff)

lemma inputs_total_drop:
  assumes "spendable_inputs m (i # ins)"
  shows "inputs_total (fmdrop (outpoint_of i) m) ins = inputs_total m ins"
proof -
  have "entry_value (fmdrop (outpoint_of i) m) (outpoint_of j) = entry_value m (outpoint_of j)" if "j \<in> set ins" for j
    using assms that by (auto simp: spendable_inputs_def entry_value_def image_iff)
  then show ?thesis by (simp add: inputs_total_def cong: map_cong)
qed

lemma unat_ucast_u128 [simp]: "unat (ucast (v :: u64) :: u128) = unat v"
  using unat_u64_bound [of v] by (simp add: unsigned_ucast_eq take_bit_nat_eq_self)

lemma sm_inputs_ok: "is_ok (fst (sm_inputs ins (u, sm))) \<longleftrightarrow> spendable_inputs (utxos u) ins"
proof (induction ins arbitrary: u sm)
  case (Cons i ins)
  then show ?case
    by (cases "fmlookup (utxos u) (outpoint_of i)") (simp_all add: spendable_inputs_Cons)
qed simp

lemma sm_inputs_Inr:
  "sm_inputs ins (u, sm) = (Inr (), (u', sm')) \<Longrightarrow>
     utxos u' = fmdrop_set (outpoint_of ` set ins) (utxos u) \<and>
     (inputs_total (utxos u) ins \<le> unat (current_total_supply sm) \<longrightarrow>
        unat (current_total_supply sm') + inputs_total (utxos u) ins = unat (current_total_supply sm))"
proof (induction ins arbitrary: u sm)
  case Nil
  then show ?case by (simp add: inputs_total_def)
next
  case (Cons i ins)
  have sp: "spendable_inputs (utxos u) (i # ins)" using sm_inputs_ok [of "i # ins" u sm] Cons.prems by simp
  then obtain out where out: "fmlookup (utxos u) (outpoint_of i) = Some out" by (auto simp: spendable_inputs_def)
  let ?u = "u\<lparr>utxos := fmdrop (outpoint_of i) (utxos u)\<rparr>"
  let ?sm = "sm\<lparr>current_total_supply := saturating_sub (current_total_supply sm) (ucast (out_value out)),
      outpoint_to_key := fmdrop (outpoint_of i) (outpoint_to_key sm),
      sm_prune_markers := fmdrop (outpoint_of i) (sm_prune_markers sm)\<rparr>"
  have "sm_inputs ins (?u, ?sm) = (Inr (), (u', sm'))" using Cons.prems out by simp
  note ih = Cons.IH [OF this]
  have "fmdrop_set (outpoint_of ` set ins) (fmdrop (outpoint_of i) (utxos u)) = fmdrop_set (outpoint_of ` set (i # ins)) (utxos u)"
    by (rule fmap_ext) simp
  moreover have "inputs_total (utxos u) (i # ins) = unat (out_value out) + inputs_total (utxos u) ins"
    by (simp add: inputs_total_def entry_value_def out)
  ultimately show ?case
    using ih inputs_total_drop [OF sp] by (auto simp: unat_saturating_sub)
qed

lemma sm_outputs_result:
  "sm_outputs H tx n outs (u, sm) = (u', sm') \<Longrightarrow>
     utxos u' = fold (\<lambda>(k, out). fmupd k out) (keyed (tx_id tx) n outs) (utxos u) \<and>
     pending_updates sm' = pending_updates sm @
       map (\<lambda>(i, out). (hash_with_index H tx (word_of_nat i), output_serialize out)) (List.enumerate n outs) \<and>
     (unat (current_total_supply sm) + outputs_total outs < 2 ^ 128 \<longrightarrow>
        unat (current_total_supply sm') = unat (current_total_supply sm) + outputs_total outs)"
proof (induction outs arbitrary: n u sm)
  case Nil
  then show ?case by (auto simp: outputs_total_def)
next
  case (Cons out outs)
  let ?k = "(tx_id tx, word_of_nat n :: u32)"
  let ?u = "u\<lparr>utxos := fmupd ?k out (utxos u)\<rparr>"
  let ?sm = "sm\<lparr>pending_updates := pending_updates sm @ [(hash_with_index H tx (word_of_nat n), output_serialize out)],
      outpoint_to_key := fmupd ?k (hash_with_index H tx (word_of_nat n)) (outpoint_to_key sm),
      current_total_supply := saturating_add (current_total_supply sm) (ucast (out_value out))\<rparr>"
  have "sm_outputs H tx (n + 1) outs (?u, ?sm) = (u', sm')" using Cons.prems by (simp add: Let_def)
  note ih = Cons.IH [OF this]
  have "unat (saturating_add (current_total_supply sm) (ucast (out_value out))) =
      unat (current_total_supply sm) + unat (out_value out)"
    if "unat (current_total_supply sm) + outputs_total (out # outs) < 2 ^ 128"
    using that by (simp add: unat_saturating_add)
  with ih show ?case by (simp add: add.assoc)
qed

text \<open>The updates of the tree that a transaction and a block leave pending.\<close>

definition tx_updates :: "blake3 \<Rightarrow> transaction \<Rightarrow> (bytes32 \<times> bytes) list" where
  "tx_updates H tx =
     map (\<lambda>(i, out). (hash_with_index H tx (word_of_nat i), output_serialize out)) (List.enumerate 0 (outputs tx))"

lemma apply_utxo_ok:
  "is_ok (fst (apply_utxo_transaction H tx (u, sm))) \<longleftrightarrow> spendable_inputs (utxos u) (inputs tx)"
proof -
  obtain r c where "sm_inputs (inputs tx) (u, sm) = (r, c)" by (metis prod.collapse)
  with sm_inputs_ok [of "inputs tx" u sm] show ?thesis by (cases r) (simp_all add: apply_utxo_transaction_def)
qed

lemma apply_utxo_Inr:
  assumes "apply_utxo_transaction H tx (u, sm) = (Inr (), (u', sm'))"
  shows "utxos u' = applied (utxos u) tx" "pending_updates sm' = pending_updates sm @ tx_updates H tx"
    "inputs_total (utxos u) (inputs tx) \<le> unat (current_total_supply sm) \<Longrightarrow>
     unat (current_total_supply sm) + outputs_total (outputs tx) < 2 ^ 128 \<Longrightarrow>
       unat (current_total_supply sm') + inputs_total (utxos u) (inputs tx) =
       unat (current_total_supply sm) + outputs_total (outputs tx)"
proof -
  obtain r u1 sm1 where ins: "sm_inputs (inputs tx) (u, sm) = (r, (u1, sm1))" by (metis prod_cases3)
  obtain u2 sm2 where outs: "sm_outputs H tx 0 (outputs tx) (u1, sm1) = (u2, sm2)" by fastforce
  have eq: "r = Inr ()" "u2 = u'" "sm2 = sm'"
    using assms ins outs by (cases r; auto simp: apply_utxo_transaction_def)+
  note i = sm_inputs_Inr [OF ins [unfolded eq(1)]] and o = sm_outputs_result [OF outs] and f = sm_inputs_frame [OF ins]
  from i o f eq show "utxos u' = applied (utxos u) tx" by (simp add: applied_def)
  from o f eq show "pending_updates sm' = pending_updates sm @ tx_updates H tx" by (simp add: tx_updates_def)
  show "unat (current_total_supply sm') + inputs_total (utxos u) (inputs tx) =
      unat (current_total_supply sm) + outputs_total (outputs tx)"
    if "inputs_total (utxos u) (inputs tx) \<le> unat (current_total_supply sm)"
      "unat (current_total_supply sm) + outputs_total (outputs tx) < 2 ^ 128"
  proof -
    from i that(1) have s: "unat (current_total_supply sm1) + inputs_total (utxos u) (inputs tx) = unat (current_total_supply sm)" by simp
    then have "unat (current_total_supply sm1) + outputs_total (outputs tx) < 2 ^ 128" using that(2) by linarith
    with o eq have "unat (current_total_supply sm') = unat (current_total_supply sm1) + outputs_total (outputs tx)" by simp
    with s show ?thesis by linarith
  qed
qed

text \<open>A contract adds its outputs like a plain transaction, after a run that changes the tree.\<close>

lemma apply_transaction_ledger:
  assumes "apply_transaction W A H tx (u, sm) = Some (Inr (), (u', sm'))" "tree_ok A H (sm_tree sm)"
  shows "\<exists>t fees. apply_utxo_transaction H tx (u, sm\<lparr>sm_tree := t, block_gas_fees := fees\<rparr>) = (Inr (), (u', sm'))"
proof (cases "execution_payload tx = [] \<and> contract_address tx = None")
  case True
  with assms(1) show ?thesis
    by (intro exI [of _ "sm_tree sm"] exI [of _ "block_gas_fees sm"]) (simp add: apply_transaction_def)
next
  case False
  with assms(1) have con: "apply_contract_transition W A H tx (u, sm) = Some (Inr (), (u', sm'))"
    by (auto simp: apply_transaction_def split: if_splits)
  then obtain t0 res sm1 where t0: "tree_clone A H (sm_tree sm) = Some t0"
    and ex: "vm_execute W A H (execution_payload tx) (gas_limit tx) sm = Some (res, sm1)"
    by (auto simp: apply_contract_transition_def bind_eq_Some_conv split: if_splits)
  obtain t where sm1: "sm1 = sm\<lparr>sm_tree := t\<rparr>"
    using vm_execute_outcome [OF assms(2) ex] unfolding contract_outcome_def snd_conv by blast
  from con t0 ex obtain gas where "res = Inr gas"
    by (cases res) (auto simp: apply_contract_transition_def split: if_splits)
  with con t0 ex have "apply_utxo_transaction H tx (u, sm1\<lparr>block_gas_fees := block_gas_fees sm1 @
      [create_gas_fee_witness (saturating_mul (ucast gas) (max_fee_per_gas tx))]\<rparr>) = (Inr (), (u', sm'))"
    by (auto simp: apply_contract_transition_def Let_def split: if_splits)
  then show ?thesis unfolding sm1 by auto
qed

lemma apply_transaction_Inr:
  assumes "apply_transaction W A H tx (u, sm) = Some (Inr (), (u', sm'))" "tree_ok A H (sm_tree sm)"
  shows "spendable_inputs (utxos u) (inputs tx)" "utxos u' = applied (utxos u) tx"
    "pending_updates sm' = pending_updates sm @ tx_updates H tx"
    "inputs_total (utxos u) (inputs tx) \<le> unat (current_total_supply sm) \<Longrightarrow>
     unat (current_total_supply sm) + outputs_total (outputs tx) < 2 ^ 128 \<Longrightarrow>
       unat (current_total_supply sm') + inputs_total (utxos u) (inputs tx) =
       unat (current_total_supply sm) + outputs_total (outputs tx)"
proof -
  obtain t fees where ap: "apply_utxo_transaction H tx (u, sm\<lparr>sm_tree := t, block_gas_fees := fees\<rparr>) = (Inr (), (u', sm'))"
    using apply_transaction_ledger [OF assms] by blast
  show "spendable_inputs (utxos u) (inputs tx)"
    using apply_utxo_ok [of H tx u "sm\<lparr>sm_tree := t, block_gas_fees := fees\<rparr>"] ap by simp
  from apply_utxo_Inr [OF ap] show "utxos u' = applied (utxos u) tx"
    "pending_updates sm' = pending_updates sm @ tx_updates H tx"
    "inputs_total (utxos u) (inputs tx) \<le> unat (current_total_supply sm) \<Longrightarrow>
     unat (current_total_supply sm) + outputs_total (outputs tx) < 2 ^ 128 \<Longrightarrow>
       unat (current_total_supply sm') + inputs_total (utxos u) (inputs tx) =
       unat (current_total_supply sm) + outputs_total (outputs tx)" by simp_all
qed

definition block_outputs :: "transaction list \<Rightarrow> nat" where
  "block_outputs txs = sum_list (map (\<lambda>tx. outputs_total (outputs tx)) txs)"

lemma apply_transactions_Inr:
  "apply_transactions W A H txs (u, sm) = Some (Inr (), (u', sm')) \<Longrightarrow> tree_ok A H (sm_tree sm) \<Longrightarrow>
     utxos u' = fold (\<lambda>tx m. applied m tx) txs (utxos u) \<and>
     pending_updates sm' = pending_updates sm @ concat (map (tx_updates H) txs) \<and>
     (unat (current_total_supply sm) = utxo_total (utxos u) \<and> fresh_ids (utxos u) txs \<and>
        utxo_total (utxos u) + block_outputs txs < 2 ^ 128 \<longrightarrow>
      unat (current_total_supply sm') = utxo_total (utxos u'))"
proof (induction txs arbitrary: u sm)
  case (Cons tx txs)
  obtain r1 u1 sm1 where "apply_transaction W A H tx (u, sm) = Some (r1, (u1, sm1))"
    using Cons.prems(1) by (auto simp: bind_eq_Some_conv)
  with Cons.prems(1) have tx: "apply_transaction W A H tx (u, sm) = Some (Inr (), (u1, sm1))"
    and rest: "apply_transactions W A H txs (u1, sm1) = Some (Inr (), (u', sm'))" by (cases r1; auto)+
  note step = apply_transaction_Inr [OF tx Cons.prems(2)]
  have ok: "tree_ok A H (sm_tree sm1)" using apply_transaction_frame [OF tx Cons.prems(2)] by simp
  note ih = Cons.IH [OF rest ok]
  have "unat (current_total_supply sm') = utxo_total (utxos u')"
    if sup: "unat (current_total_supply sm) = utxo_total (utxos u)" and fresh: "fresh_ids (utxos u) (tx # txs)"
      and lt: "utxo_total (utxos u) + block_outputs (tx # txs) < 2 ^ 128"
  proof -
    have sp: "distinct (map outpoint_of (inputs tx))" "\<forall>i \<in> set (inputs tx). fmlookup (utxos u) (outpoint_of i) \<noteq> None"
      using step(1) by (simp_all add: spendable_inputs_def)
    have tot: "utxo_total (utxos u1) + inputs_total (utxos u) (inputs tx) = utxo_total (utxos u) + outputs_total (outputs tx)"
      using applied_total [OF sp fresh_ids_outputs [OF fresh]] step(2) by simp
    have le: "inputs_total (utxos u) (inputs tx) \<le> unat (current_total_supply sm)"
      using utxo_total_fmdrop_set [of "outpoint_of ` set (inputs tx)" "utxos u"] sp inputs_total_sum [OF sp(1), of "utxos u"]
      by (simp add: sup)
    have b: "block_outputs (tx # txs) = outputs_total (outputs tx) + block_outputs txs" by (simp add: block_outputs_def)
    have "unat (current_total_supply sm1) + inputs_total (utxos u) (inputs tx) =
        unat (current_total_supply sm) + outputs_total (outputs tx)"
      using le lt sup b by (intro step(4)) simp_all
    then have "unat (current_total_supply sm1) = utxo_total (utxos u1)" using tot sup by linarith
    moreover have "fresh_ids (utxos u1) txs" using fresh_ids_applied [OF fresh] step(2) by simp
    moreover have "utxo_total (utxos u1) + block_outputs txs < 2 ^ 128" using tot lt b by linarith
    ultimately show ?thesis using ih by blast
  qed
  with ih step(2,3) show ?case by simp
qed simp

text \<open>Plain transactions do not touch the tree before the end of the block.\<close>

definition plain :: "transaction \<Rightarrow> bool" where
  "plain tx \<longleftrightarrow> execution_payload tx = [] \<and> contract_address tx = None"

lemma apply_transactions_plain:
  "list_all plain txs \<Longrightarrow> \<exists>r u' sm'. apply_transactions W A H txs (u, sm) = Some (r, (u', sm')) \<and>
     sm_tree sm' = sm_tree sm \<and> same_history sm sm' \<and> block_gas_fees sm' = block_gas_fees sm"
proof (induction txs arbitrary: u sm)
  case (Cons tx txs)
  obtain r1 u1 sm1 where tx: "apply_utxo_transaction H tx (u, sm) = (r1, (u1, sm1))" by (metis prod_cases3)
  note frame = apply_utxo_frame [OF tx]
  have run: "apply_transaction W A H tx (u, sm) = Some (r1, (u1, sm1))"
    using Cons.prems tx by (simp add: plain_def apply_transaction_def)
  show ?case
  proof (cases r1)
    case (Inl e)
    with run frame show ?thesis by simp
  next
    case (Inr v)
    have "list_all plain txs" using Cons.prems by simp
    from Cons.IH [OF this, of u1 sm1] run Inr frame show ?thesis by (auto intro: same_history_trans)
  qed
qed simp

section \<open>The invariant of the manager\<close>

definition stored_root :: "('f::field, 'p, 'g::ab_group_add) ark \<Rightarrow> blake3 \<Rightarrow> memory_storage \<Rightarrow> bytes32 \<Rightarrow> bool" where
  "stored_root A H s rt \<longleftrightarrow> (\<exists>t. tree_ok A H t \<and> vt_storage t = s \<and> tree_root A H t KEY_SIZE [] = Inr rt)"

text \<open>
  The tree is well formed, no block is being applied, and the snapshots are those of the heights
  from zero to the current one, each with the store it was taken from, whose root it records.
\<close>

definition manager_ok :: "('f::field, 'p, 'g::ab_group_add) ark \<Rightarrow> blake3 \<Rightarrow> ('f, 'g) state_manager \<Rightarrow> bool" where
  "manager_ok A H sm \<longleftrightarrow>
     tree_ok A H (sm_tree sm) \<and> \<not> applying_block sm \<and> snapshots sm \<noteq> [] \<and>
     length (snapshot_storages sm) = length (snapshots sm) \<and>
     current_height sm = word_of_nat (length (snapshots sm) - 1) \<and> heights_match 0 (snapshots sm) \<and>
     (\<forall>i < length (snapshots sm). stored_root A H (snapshot_storages sm ! i) (snap_root (snapshots sm ! i)))"

lemma manager_okD:
  assumes "manager_ok A H sm"
  shows "tree_ok A H (sm_tree sm)" "unat (current_height sm) < length (snapshots sm)" "\<not> applying_block sm"
    "current_height sm = word_of_nat (length (snapshots sm) - 1)"
    "length (snapshot_storages sm) = length (snapshots sm)" "heights_match 0 (snapshots sm)"
proof -
  show "tree_ok A H (sm_tree sm)" "\<not> applying_block sm" "current_height sm = word_of_nat (length (snapshots sm) - 1)"
    "length (snapshot_storages sm) = length (snapshots sm)" "heights_match 0 (snapshots sm)"
    using assms by (simp_all add: manager_ok_def)
  have "unat (word_of_nat n :: u64) \<le> n" for n by (simp add: unat_of_nat)
  then have "unat (current_height sm) \<le> length (snapshots sm) - 1" using assms by (simp only: manager_ok_def)
  moreover have "0 < length (snapshots sm)" using assms by (simp add: manager_ok_def)
  ultimately show "unat (current_height sm) < length (snapshots sm)" by linarith
qed

text \<open>A block of plain transactions that apply is committed.\<close>

lemma plain_block_ok:
  assumes "dense_poly A" "serializes A" "manager_ok A H sm" "list_all plain (transactions block)"
    and "apply_transactions W A H (transactions block)
      (u, sm\<lparr>applying_block := True, pending_updates := [], block_gas_fees := []\<rparr>) = Some (Inr (), (u1, sm1))"
    and "fst (apply_state_transition (pending_updates sm1) (current_total_supply sm1) (sm_tree sm1)) = Inr ()"
  shows "\<exists>sm'. sm_apply_block W A H block (u, sm) = Some (Inr (), (u1, sm'))"
proof -
  let ?start = "sm\<lparr>applying_block := True, pending_updates := [], block_gas_fees := []\<rparr>"
  note ok = manager_okD [OF assms(3)]
  obtain t where t: "tree_clone A H (sm_tree sm) = Some t" using tree_clone_eq [OF ok(1)] by blast
  from apply_transactions_plain [OF assms(4), of W A H u ?start] assms(5)
  have same: "sm_tree sm1 = sm_tree sm" "same_history ?start sm1" by auto
  obtain t2 where tr: "apply_state_transition (pending_updates sm1) (current_total_supply sm1) (sm_tree sm1) = (Inr (), t2)"
    using assms(6) by (metis prod.collapse)
  have "tree_ok A H t2" using tree_ok_transition [OF ok(1), of "pending_updates sm1" "current_total_supply sm1"] tr same(1) by simp
  then have "tree_ok A H (sm_tree (sm1\<lparr>sm_tree := t2\<rparr>))"
    "unat (current_height sm) < length (snapshots (sm1\<lparr>sm_tree := t2\<rparr>))"
    using same(2) ok(2) by (simp_all add: same_history_def)
  from commit_block_ok [OF assms(1,2) this] obtain x where
    "commit_block A H (current_height sm) (sm1\<lparr>sm_tree := t2\<rparr>) = Some (Inr (), x)" by blast
  with assms(5) t tr ok(3) show ?thesis by (simp add: sm_apply_block_def apply_block_body_def)
qed

text \<open>A new manager.\<close>

lemma manager_new_ok:
  assumes "dense_poly A" "serializes A" "tree_ok A H t"
  shows "\<exists>sm. manager_new A H t = Inr sm \<and> manager_ok A H sm \<and> current_total_supply sm = 0 \<and>
    pruned_keys (sm_tree sm) = pruned_keys t \<and> vt_storage (sm_tree sm) = vt_storage t"
proof -
  have "tree_ok A H (sm_tree (sample_manager t))" using assms(3) by (simp add: sample_manager_def)
  from get_root_hash_ok [OF assms(1,2) this] obtain rt t' where
    "get_root_hash A H (sample_manager t) = (Inr rt, (sample_manager t)\<lparr>sm_tree := t'\<rparr>)"
    and t': "tree_root A H t KEY_SIZE [] = Inr rt" "same_contents t t'" "tree_ok A H t'" "tree_root A H t' = tree_root A H t"
    by (auto simp: sample_manager_def)
  then have "get_root A H t = (Inr rt, t')"
    by (cases "get_root A H t"; cases "fst (get_root A H t)") (auto simp: get_root_hash_def sample_manager_def)
  moreover have "stored_root A H (vt_storage t') rt" using t' unfolding stored_root_def by auto
  ultimately show ?thesis using t' by (auto simp: manager_new_def manager_ok_def same_contents_def)
qed

section \<open>Properties\<close>

definition sample_mint :: transaction where
  "sample_mint =
     \<lparr>tx_id = Hash 9, inputs = [], outputs = [\<lparr>out_value = 50, pubkey_hash = Hash 3\<rparr>], execution_payload = [],
      contract_address = None, gas_limit = 0, max_fee_per_gas = 0, chain_id = 1, locktime = 0\<rparr>"

definition sample_mint_block :: block_node where
  "sample_mint_block = (sample_block 1 {||})\<lparr>transactions := [sample_mint]\<rparr>"

lemma sample_mint_applies:
  "\<exists>sm sm'. manager_ok sample_ark (\<lambda>_. 7) sm \<and> current_total_supply sm = 0 \<and> pruned_keys (sm_tree sm) = {||} \<and>
     sm_apply_block sample_script sample_ark (\<lambda>_. 7) sample_mint_block (utxo_new, sm) =
       Some (Inr (), (\<lparr>utxos = fmupd (Hash 9, 0) \<lparr>out_value = 50, pubkey_hash = Hash 3\<rparr> fmempty\<rparr>, sm'))"
proof -
  obtain t0 where new: "tree_new sample_ark (\<lambda>_. 7) memory_storage_new = Some (Inr t0)"
    using tree_new_ok [OF sample_ark_dense sample_ark_serializes] by blast
  obtain sm where sm: "manager_ok sample_ark (\<lambda>_. 7) sm" "current_total_supply sm = 0" "pruned_keys (sm_tree sm) = {||}"
    using manager_new_ok [OF sample_ark_dense sample_ark_serializes(1) tree_new_wf [OF new]] tree_new_fields(4) [OF new]
    by auto
  let ?out = "\<lparr>out_value = 50, pubkey_hash = Hash 3\<rparr>"
  have zero: "\<not> pays_zero_hash (output_serialize ?out)"
    by (simp add: pays_zero_hash_def output_deserialize_serialize ECON_BURN_ADDRESS_def)
  have txs: "transactions sample_mint_block = [sample_mint]" by (simp add: sample_mint_block_def)
  let ?sm1 = "sm\<lparr>applying_block := True, pending_updates := [(7, output_serialize ?out)], block_gas_fees := [],
      outpoint_to_key := fmupd (Hash 9, 0) 7 (outpoint_to_key sm), current_total_supply := 50\<rparr>"
  have run: "apply_transactions sample_script sample_ark (\<lambda>_. 7) (transactions sample_mint_block)
      (utxo_new, sm\<lparr>applying_block := True, pending_updates := [], block_gas_fees := []\<rparr>) =
      Some (Inr (), (\<lparr>utxos = fmupd (Hash 9, 0) ?out fmempty\<rparr>, ?sm1))"
    by (simp add: txs apply_transaction_def sample_mint_def apply_utxo_transaction_def Let_def hash_with_index_def
        hash_new_def utxo_new_def sm(2) saturating_add_def)
  have "fst (apply_state_transition (pending_updates ?sm1) (current_total_supply ?sm1) (sm_tree ?sm1)) = Inr ()"
    using zero by (simp add: apply_state_transition_def Let_def MAX_GLOBAL_SUPPLY_NANO_SLUG_def)
  from plain_block_ok [OF sample_ark_dense sample_ark_serializes(1) sm(1) _ run this] sm show ?thesis
    by (auto simp: txs plain_def sample_mint_def)
qed

text \<open>
  C3. A block is applied entirely or not at all: after a failure the outputs and the manager are
  as before, up to the caches of the tree; after a success the height is one more and a
  snapshot with the root of the new tree, the supply and the gas fees is appended.
\<close>

theorem manager_block_atomic:
  assumes "dense_poly A" "serializes A" "manager_ok A H sm" "sm_apply_block W A H block (u, sm) = Some (r, (u', sm'))"
  shows "if is_ok r
     then current_height sm' = current_height sm + 1 \<and>
       (\<exists>rt. snapshots sm' = snapshots sm @ [\<lparr>snap_height = current_height sm', snap_root = rt,
           snap_total_supply = current_total_supply sm', snap_gas_fees = block_gas_fees sm'\<rparr>] \<and>
         spec_root A H (vt_pc (sm_tree sm')) (empty_subtree_scalars (sm_tree sm')) (vt_storage (sm_tree sm')) KEY_SIZE [] = Inr rt) \<and>
       snapshot_storages sm' = snapshot_storages sm @ [vt_storage (sm_tree sm')]
     else u' = u \<and> sm'\<lparr>sm_tree := sm_tree sm\<rparr> = sm \<and>
       vt_storage (sm_tree sm') = vt_storage (sm_tree sm) \<and> pruned_keys (sm_tree sm') = pruned_keys (sm_tree sm)"
  using sm_apply_block_cases [OF assms(1,2) manager_okD(1-3) [OF assms(3)] assms(4)]
proof
  assume "\<exists>e. r = Inl e \<and> u' = u \<and> same_state sm sm' \<and> tree_ok A H (sm_tree sm')"
  then show ?thesis by (auto simp: same_state_def same_contents_def)
next
  assume "\<exists>sm1 t rt. r = Inr () \<and>
       apply_transactions W A H (transactions block)
         (u, sm\<lparr>applying_block := True, pending_updates := [], block_gas_fees := []\<rparr>) = Some (Inr (), (u', sm1)) \<and>
       fst (apply_state_transition (pending_updates sm1) (current_total_supply sm1) (sm_tree sm1)) = Inr () \<and>
       same_contents (snd (apply_state_transition (pending_updates sm1) (current_total_supply sm1) (sm_tree sm1))) t \<and>
       tree_ok A H t \<and> tree_root A H t KEY_SIZE [] = Inr rt \<and>
       sm' = sm1\<lparr>sm_tree := t, current_height := current_height sm + 1,
         snapshots := snapshots sm @ [\<lparr>snap_height = current_height sm + 1, snap_root = rt,
           snap_total_supply = current_total_supply sm1, snap_gas_fees = block_gas_fees sm1\<rparr>],
         snapshot_storages := snapshot_storages sm @ [vt_storage t], applying_block := False\<rparr>"
  then obtain sm1 t rt where "r = Inr ()" "tree_root A H t KEY_SIZE [] = Inr rt"
    "sm' = sm1\<lparr>sm_tree := t, current_height := current_height sm + 1,
         snapshots := snapshots sm @ [\<lparr>snap_height = current_height sm + 1, snap_root = rt,
           snap_total_supply = current_total_supply sm1, snap_gas_fees = block_gas_fees sm1\<rparr>],
         snapshot_storages := snapshot_storages sm @ [vt_storage t], applying_block := False\<rparr>" by blast
  then show ?thesis by simp
qed

theorem manager_block_atomic_witness:
  "\<exists>sm u' sm'. sm_apply_block sample_script sample_ark (\<lambda>_. 7) sample_mint_block (utxo_new, sm) = Some (Inr (), (u', sm')) \<and>
     current_height sm' = current_height sm + 1 \<and> length (snapshots sm') = length (snapshots sm) + 1"
proof -
  obtain sm u' sm' where ok: "manager_ok sample_ark (\<lambda>_. 7) sm" and
    run: "sm_apply_block sample_script sample_ark (\<lambda>_. 7) sample_mint_block (utxo_new, sm) = Some (Inr (), (u', sm'))"
    using sample_mint_applies by blast
  from manager_block_atomic [OF sample_ark_dense sample_ark_serializes(1) ok run] run show ?thesis
    by (intro exI [of _ sm] exI [of _ u'] exI [of _ sm']) auto
qed

text \<open>
  A plain transaction is applied exactly when its inputs are distinct and all among the
  outputs of the set; nothing else is asked of it, not that it spends what it creates. The
  outputs spent are removed and those created are added.
\<close>

theorem manager_checks_inputs_only:
  "case apply_utxo_transaction H tx (u, sm) of
     (Inl e, _) \<Rightarrow> \<not> spendable_inputs (utxos u) (inputs tx)
   | (Inr _, (u', sm')) \<Rightarrow> spendable_inputs (utxos u) (inputs tx) \<and> utxos u' = applied (utxos u) tx"
proof -
  obtain r u' sm' where ap: "apply_utxo_transaction H tx (u, sm) = (r, (u', sm'))" by (metis prod_cases3)
  with apply_utxo_ok [of H tx u sm] show ?thesis
    by (cases r) (auto dest: apply_utxo_Inr(1))
qed

text \<open>
  C25. The tracked supply is the value of the outputs: if it was before a block whose transactions
  have new and distinct identifiers, it is after the block, as long as the total fits 128 bits.
  Contracts are included.
\<close>

theorem supply_tracked:
  assumes "dense_poly A" "serializes A" "manager_ok A H sm" "sm_apply_block W A H block (u, sm) = Some (Inr (), (u', sm'))"
    and "unat (current_total_supply sm) = utxo_total (utxos u)" "fresh_ids (utxos u) (transactions block)"
    and "utxo_total (utxos u) + block_outputs (transactions block) < 2 ^ 128"
  shows "unat (current_total_supply sm') = utxo_total (utxos u')"
proof -
  note ok = manager_okD [OF assms(3)]
  obtain sm1 t where
    run: "apply_transactions W A H (transactions block)
         (u, sm\<lparr>applying_block := True, pending_updates := [], block_gas_fees := []\<rparr>) = Some (Inr (), (u', sm1))"
    and sm': "current_total_supply sm' = current_total_supply sm1"
    using sm_apply_block_cases [OF assms(1,2) ok(1-3) assms(4)] by auto
  from apply_transactions_Inr [OF run] ok(1) assms(5-7) sm' show ?thesis by simp
qed

theorem supply_tracked_witness:
  "\<exists>sm'. unat (current_total_supply (sm' :: (rat, rat) state_manager)) =
     utxo_total (fmupd (Hash 9, 0) \<lparr>out_value = 50, pubkey_hash = Hash 3\<rparr> fmempty)"
proof -
  obtain sm sm' where ok: "manager_ok sample_ark (\<lambda>_. 7) sm" "current_total_supply sm = 0" and
    run: "sm_apply_block sample_script sample_ark (\<lambda>_. 7) sample_mint_block (utxo_new, sm) =
       Some (Inr (), (\<lparr>utxos = fmupd (Hash 9, 0) \<lparr>out_value = 50, pubkey_hash = Hash 3\<rparr> fmempty\<rparr>, sm'))"
    using sample_mint_applies by blast
  have "fresh_ids (utxos utxo_new) (transactions sample_mint_block)"
    "utxo_total (utxos utxo_new) + block_outputs (transactions sample_mint_block) < 2 ^ 128"
    by (simp_all add: fresh_ids_def utxo_new_def sample_mint_block_def sample_mint_def block_outputs_def outputs_total_def)
  from supply_tracked [OF sample_ark_dense sample_ark_serializes(1) ok(1) run _ this] ok(2) show ?thesis
    by (auto simp: utxo_new_def)
qed

text \<open>
  C35. After a block of plain transactions the tree reads, under every key never pruned, the last
  output created under it by the block, and the supply under the supply key; every other key
  reads what it did before, the outputs the block has spent included.
\<close>

theorem applied_block_readable:
  assumes "dense_poly A" "serializes A" "manager_ok A H sm" "sm_apply_block W A H block (u, sm) = Some (Inr (), (u', sm'))"
    and "list_all plain (transactions block)" "array_bytes x |\<notin>| pruned_keys (sm_tree sm)"
  shows "tree_get x (sm_tree sm') =
     (if x = TOTAL_SUPPLY_KEY then Inr (Some (to_le_bytes (current_total_supply sm')))
      else case map_of (rev (concat (map (tx_updates H) (transactions block)))) x of
             Some v \<Rightarrow> Inr (Some v)
           | None \<Rightarrow> tree_get x (sm_tree sm))"
proof -
  let ?start = "sm\<lparr>applying_block := True, pending_updates := [], block_gas_fees := []\<rparr>"
  let ?upd = "concat (map (tx_updates H) (transactions block))"
  note ok = manager_okD [OF assms(3)]
  obtain sm1 t where
    run: "apply_transactions W A H (transactions block) (u, ?start) = Some (Inr (), (u', sm1))"
    and tr: "fst (apply_state_transition (pending_updates sm1) (current_total_supply sm1) (sm_tree sm1)) = Inr ()"
      "same_contents (snd (apply_state_transition (pending_updates sm1) (current_total_supply sm1) (sm_tree sm1))) t"
    and sm': "sm_tree sm' = t" "current_total_supply sm' = current_total_supply sm1"
    using sm_apply_block_cases [OF assms(1,2) ok(1-3) assms(4)] by auto
  have upd: "pending_updates sm1 = ?upd" using apply_transactions_Inr [OF run] ok(1) by simp
  have tree: "sm_tree sm1 = sm_tree sm" using apply_transactions_plain [OF assms(5), of W A H u ?start] run by auto
  have len: "\<forall>(key, v) \<in> set ?upd. length v < 2 ^ 32"
    by (auto simp: tx_updates_def output_serialize_def)
  obtain t2 where t2: "apply_state_transition ?upd (current_total_supply sm1) (sm_tree sm) = (Inr (), t2)"
    using tr(1) upd tree by (metis prod.collapse)
  have "tree_get x t = tree_get x t2" using same_contents_get [of t2 t x] tr(2) t2 upd tree by simp
  with transition_effect [OF len t2, of x] assms(6) sm' show ?thesis by (simp split: if_splits)
qed

theorem applied_block_readable_witness:
  "\<exists>sm' :: (rat, rat) state_manager.
     tree_get 7 (sm_tree sm') = Inr (Some (output_serialize \<lparr>out_value = 50, pubkey_hash = Hash 3\<rparr>))"
proof -
  obtain sm u' sm' where ok: "manager_ok sample_ark (\<lambda>_. 7) sm" "pruned_keys (sm_tree sm) = {||}" and
    run: "sm_apply_block sample_script sample_ark (\<lambda>_. 7) sample_mint_block (utxo_new, sm) = Some (Inr (), (u', sm'))"
    using sample_mint_applies by blast
  have "list_all plain (transactions sample_mint_block)"
    "map_of (rev (concat (map (tx_updates (\<lambda>_. 7)) (transactions sample_mint_block)))) 7 =
       Some (output_serialize \<lparr>out_value = 50, pubkey_hash = Hash 3\<rparr>)"
    by (simp_all add: sample_mint_block_def sample_mint_def plain_def tx_updates_def hash_with_index_def hash_new_def)
  with applied_block_readable [OF sample_ark_dense sample_ark_serializes(1) ok(1) run, of 7] ok(2) show ?thesis
    by (auto simp: TOTAL_SUPPLY_KEY_def)
qed

end
