(* ===== verification/Manager_History.thy ===== *)
theory Manager_History
  imports Manager_Blocks "HOL-Library.Product_Lexorder"
begin

text \<open>
  The history the state manager keeps: its operations keep the snapshots consistent, a rollback
  within the history succeeds and gives the recorded state back, and the check of the supply
  compares the tracked supply with the outputs.
\<close>

section \<open>Operations that touch the tree only\<close>

lemma manager_ok_tree:
  assumes "manager_ok A H sm" "tree_ok A H t"
  shows "manager_ok A H (sm\<lparr>sm_tree := t\<rparr>)"
  using assms by (simp add: manager_ok_def)

lemma manager_ok_same:
  assumes "manager_ok A H sm" "same_history sm sm'" "tree_ok A H (sm_tree sm')"
  shows "manager_ok A H sm'"
  using assms by (simp add: manager_ok_def same_history_def)

lemma manager_ok_write:
  assumes "manager_ok A H sm" "state_write key v sm = (r, sm')"
  shows "manager_ok A H sm'"
  using assms manager_ok_tree [OF assms(1) tree_ok_insert [OF manager_okD(1) [OF assms(1)]]]
  by (auto simp: state_write_def)

lemma manager_ok_root_hash:
  assumes "manager_ok A H sm" "get_root_hash A H sm = (r, sm')"
  shows "manager_ok A H sm'"
  using assms manager_ok_tree [OF assms(1) tree_ok_root [OF manager_okD(1) [OF assms(1)]]]
  by (auto simp: get_root_hash_def split_beta)

lemma manager_ok_mark: "manager_ok A H sm \<Longrightarrow> manager_ok A H (mark_outpoint_for_pruning out epoch time sm)"
  by (simp add: manager_ok_def mark_outpoint_for_pruning_def)

lemma prune_outpoints_frame:
  "prune_outpoints acc outs (u, sm) = (r, (u', sm')) \<Longrightarrow> tree_ok A H (sm_tree sm) \<Longrightarrow>
     same_history sm sm' \<and> tree_ok A H (sm_tree sm') \<and> current_total_supply sm' = current_total_supply sm"
proof (induction outs arbitrary: acc u sm)
  case (Cons out outs)
  show ?case
  proof (cases "fmlookup (outpoint_to_key sm) out")
    case None
    with Cons.prems have "prune_outpoints acc outs (u, sm) = (r, (u', sm'))" by simp
    from Cons.IH [OF this Cons.prems(2)] show ?thesis .
  next
    case (Some key)
    obtain p t where p: "prune_key key (sm_tree sm) = (p, t)" by fastforce
    have t: "tree_ok A H t" using tree_ok_prune [OF Cons.prems(2), of key] p by simp
    show ?thesis
    proof (cases p)
      case (Inl e)
      with Cons.prems Some p t show ?thesis by (auto simp: same_history_def)
    next
      case (Inr v)
      with Cons.prems Some p have run: "prune_outpoints (acc @ [out]) outs (u\<lparr>utxos := fmdrop out (utxos u)\<rparr>,
          sm\<lparr>sm_tree := t, outpoint_to_key := fmdrop out (outpoint_to_key sm),
             sm_prune_markers := fmdrop out (sm_prune_markers sm)\<rparr>) = (r, (u', sm'))" by simp
      have "tree_ok A H (sm_tree (sm\<lparr>sm_tree := t, outpoint_to_key := fmdrop out (outpoint_to_key sm),
             sm_prune_markers := fmdrop out (sm_prune_markers sm)\<rparr>))" using t by simp
      from Cons.IH [OF run this] show ?thesis by (simp add: same_history_def)
    qed
  qed
qed simp

lemma manager_ok_prune:
  assumes "manager_ok A H sm" "execute_pruning_cycle it epoch (u, sm) = (r, (u', sm'))"
  shows "manager_ok A H sm'"
  using prune_outpoints_frame [of "[]" "it (expired_outpoints epoch sm)" u sm r u' sm' A H] manager_okD(1) [OF assms(1)]
    assms manager_ok_same [OF assms(1)]
  by (simp add: execute_pruning_cycle_def)

section \<open>Blocks\<close>

lemma stored_root_tree: "tree_ok A H t \<Longrightarrow> tree_root A H t KEY_SIZE [] = Inr rt \<Longrightarrow> stored_root A H (vt_storage t) rt"
  unfolding stored_root_def by blast

lemma manager_ok_apply:
  assumes "dense_poly A" "serializes A" "manager_ok A H sm" "sm_apply_block W A H block (u, sm) = Some (r, (u', sm'))"
  shows "manager_ok A H sm' \<and> length (snapshots sm') \<le> length (snapshots sm) + 1"
  using sm_apply_block_cases [OF assms(1,2) manager_okD(1-3) [OF assms(3)] assms(4)]
proof
  assume "\<exists>e. r = Inl e \<and> u' = u \<and> same_state sm sm' \<and> tree_ok A H (sm_tree sm')"
  then have eq: "sm = sm'\<lparr>sm_tree := sm_tree sm\<rparr>" and "tree_ok A H (sm_tree sm')" by (auto simp: same_state_def)
  have "same_history sm sm'" unfolding same_history_def by (subst (1 2 3 4) eq) simp
  moreover have "length (snapshots sm') = length (snapshots sm)" by (subst eq) simp
  ultimately show ?thesis using manager_ok_same [OF assms(3)] \<open>tree_ok A H (sm_tree sm')\<close> by simp
next
  let ?start = "sm\<lparr>applying_block := True, pending_updates := [], block_gas_fees := []\<rparr>"
  note ok = manager_okD [OF assms(3)]
  assume "\<exists>sm1 t rt. r = Inr () \<and>
       apply_transactions W A H (transactions block) (u, ?start) = Some (Inr (), (u', sm1)) \<and>
       fst (apply_state_transition (pending_updates sm1) (current_total_supply sm1) (sm_tree sm1)) = Inr () \<and>
       same_contents (snd (apply_state_transition (pending_updates sm1) (current_total_supply sm1) (sm_tree sm1))) t \<and>
       tree_ok A H t \<and> tree_root A H t KEY_SIZE [] = Inr rt \<and>
       sm' = sm1\<lparr>sm_tree := t, current_height := current_height sm + 1,
         snapshots := snapshots sm @ [\<lparr>snap_height = current_height sm + 1, snap_root = rt,
           snap_total_supply = current_total_supply sm1, snap_gas_fees = block_gas_fees sm1\<rparr>],
         snapshot_storages := snapshot_storages sm @ [vt_storage t], applying_block := False\<rparr>"
  then obtain sm1 t rt where t: "tree_ok A H t" "tree_root A H t KEY_SIZE [] = Inr rt"
    and sm': "sm' = sm1\<lparr>sm_tree := t, current_height := current_height sm + 1,
         snapshots := snapshots sm @ [\<lparr>snap_height = current_height sm + 1, snap_root = rt,
           snap_total_supply = current_total_supply sm1, snap_gas_fees = block_gas_fees sm1\<rparr>],
         snapshot_storages := snapshot_storages sm @ [vt_storage t], applying_block := False\<rparr>" by blast
  let ?n = "length (snapshots sm)"
  have ne: "0 < ?n" using assms(3) by (simp add: manager_ok_def)
  have h: "current_height sm + 1 = word_of_nat ?n"
  proof -
    have "word_of_nat ?n = (word_of_nat (?n - 1) :: u64) + 1" using ne by (cases ?n) simp_all
    then show ?thesis using ok(4) by simp
  qed
  have "heights_match 0 (snapshots sm')"
    using ok(6) h unfolding heights_match_iff sm' by (auto simp: nth_append less_Suc_eq)
  moreover have "stored_root A H (snapshot_storages sm' ! i) (snap_root (snapshots sm' ! i))" if "i < length (snapshots sm')" for i
    using that assms(3) ok(5) stored_root_tree [OF t] by (auto simp: sm' manager_ok_def nth_append less_Suc_eq)
  ultimately show ?thesis using t ok(5) h ne by (simp add: manager_ok_def sm')
qed

section \<open>Rollback\<close>

lemma restore_tree_ok:
  assumes "stored_root A H s rt"
  shows "\<exists>t. restore_tree A H s sm = Some (Inr (), sm\<lparr>sm_tree := t\<rparr>) \<and> tree_ok A H t \<and> vt_storage t = s \<and>
    pruned_keys t = {||} \<and> tree_root A H t KEY_SIZE [] = Inr rt"
proof -
  obtain t0 where t0: "tree_ok A H t0" "vt_storage t0 = s" "tree_root A H t0 KEY_SIZE [] = Inr rt"
    using assms unfolding stored_root_def by blast
  from tree_new_reload [OF t0(1)] obtain t where t: "tree_new A H s = Some (Inr t)" "tree_ok A H t"
    "vt_storage t = s" "pruned_keys t = {||}" "tree_root A H t = tree_root A H t0" unfolding t0(2) by blast
  have "tree_root A H t KEY_SIZE [] = Inr rt" by (simp only: t(5) t0(3))
  with t(1-4) show ?thesis by (intro exI [of _ t]) (simp add: restore_tree_def)
qed

lemma manager_ok_truncate:
  assumes "manager_ok A H sm" "n < length (snapshots sm)" "tree_ok A H t"
    and "snapshots sm' = take (n + 1) (snapshots sm)" "snapshot_storages sm' = take (n + 1) (snapshot_storages sm)"
    "current_height sm' = word_of_nat n" "sm_tree sm' = t" "applying_block sm' = applying_block sm"
  shows "manager_ok A H sm'"
proof -
  have "heights_match 0 (take (n + 1) (snapshots sm))"
    using manager_okD(6) [OF assms(1)] unfolding heights_match_iff by simp
  then show ?thesis using assms manager_okD(5) [OF assms(1)] by (auto simp: manager_ok_def)
qed

text \<open>The state a rollback to a height leaves.\<close>

definition rolled_back :: "u64 \<Rightarrow> ('f, 'g) verkle_tree \<Rightarrow> ('f, 'g) state_manager \<Rightarrow> ('f, 'g) state_manager" where
  "rolled_back h t sm =
     sm\<lparr>sm_tree := t, current_height := h, snapshots := take (unat h + 1) (snapshots sm),
        snapshot_storages := take (unat h + 1) (snapshot_storages sm),
        current_total_supply := snap_total_supply (snapshots sm ! unat h),
        block_gas_fees := snap_gas_fees (snapshots sm ! unat h)\<rparr>"

lemma rollback_state_ok:
  assumes "dense_poly A" "serializes A" "manager_ok A H sm" "length (snapshots sm) < 2 ^ 64" "h \<le> current_height sm"
  shows "\<exists>t. rollback_state A H h sm = Some (Inr (), rolled_back h t sm) \<and> manager_ok A H (rolled_back h t sm) \<and>
    vt_storage t = snapshot_storages sm ! unat h \<and> pruned_keys t = {||} \<and>
    tree_root A H t KEY_SIZE [] = Inr (snap_root (snapshots sm ! unat h))"
proof -
  note ok = manager_okD [OF assms(3)]
  let ?n = "unat h" and ?snap = "snapshots sm ! unat h"
  have n: "?n < length (snapshots sm)" using assms(5) ok(2) by (simp add: word_le_nat_alt)
  then have keep: "unat (h + 1) = ?n + 1" using assms(4) by (simp add: unat_add_no_overflow)
  have "snap_height ?snap = h" using ok(6) n by (simp add: heights_match_iff)
  then have found: "get_state_at h sm \<noteq> None"
    using nth_mem [OF n] by (auto simp: get_state_at_def find_None_iff)
  have "stored_root A H (snapshot_storages sm ! ?n) (snap_root ?snap)" using assms(3) n by (simp add: manager_ok_def)
  let ?sm1 = "sm\<lparr>snapshots := take (?n + 1) (snapshots sm), snapshot_storages := take (?n + 1) (snapshot_storages sm),
      current_height := h\<rparr>"
  from restore_tree_ok [OF \<open>stored_root A H _ _\<close>, of ?sm1] obtain t where
    t: "restore_tree A H (snapshot_storages sm ! ?n) ?sm1 = Some (Inr (), ?sm1\<lparr>sm_tree := t\<rparr>)" "tree_ok A H t"
    "vt_storage t = snapshot_storages sm ! ?n" "pruned_keys t = {||}" "tree_root A H t KEY_SIZE [] = Inr (snap_root ?snap)" by blast
  let ?sm3 = "?sm1\<lparr>sm_tree := t, current_total_supply := snap_total_supply ?snap, block_gas_fees := snap_gas_fees ?snap\<rparr>"
  have "tree_ok A H (sm_tree ?sm3)" using t(2) by simp
  from get_root_hash_ok [OF assms(1,2) this] obtain rt t' where
    root: "get_root_hash A H ?sm3 = (Inr rt, ?sm3\<lparr>sm_tree := t'\<rparr>)" "tree_root A H t KEY_SIZE [] = Inr rt"
    and t': "same_contents t t'" "tree_ok A H t'" "tree_root A H t' = tree_root A H t" by auto
  have rt: "rt = snap_root ?snap" using root(2) t(5) by simp
  have "rollback_state A H h sm = Some (Inr (), ?sm3\<lparr>sm_tree := t'\<rparr>)"
    using assms(5) found keep n ok(5) t(1) root(1) rt by (simp add: rollback_state_def not_less Let_def)
  moreover have "?sm3\<lparr>sm_tree := t'\<rparr> = rolled_back h t' sm" by (simp add: rolled_back_def)
  moreover have "manager_ok A H (rolled_back h t' sm)"
    by (rule manager_ok_truncate [OF assms(3) n t'(2)]) (simp_all add: rolled_back_def)
  ultimately show ?thesis using t t' by (intro exI [of _ t']) (simp add: same_contents_def)
qed

lemma rollback_state_beyond:
  "current_height sm < h \<Longrightarrow> rollback_state A H h sm = Some (Inl (InvalidRollback ''Cannot rollback to height ''), sm)"
  by (simp add: rollback_state_def)

text \<open>The outer \<open>rollback\<close> takes the same path: its second check of the root never fails.\<close>

lemma sm_rollback_ok:
  assumes "dense_poly A" "serializes A" "manager_ok A H sm" "length (snapshots sm) < 2 ^ 64" "h \<le> current_height sm"
  shows "\<exists>t. sm_rollback A H h sm = Some (Inr (), rolled_back h t sm) \<and> manager_ok A H (rolled_back h t sm) \<and>
    vt_storage t = snapshot_storages sm ! unat h"
proof -
  obtain t where t: "rollback_state A H h sm = Some (Inr (), rolled_back h t sm)" "manager_ok A H (rolled_back h t sm)"
    "vt_storage t = snapshot_storages sm ! unat h" "tree_root A H t KEY_SIZE [] = Inr (snap_root (snapshots sm ! unat h))"
    using rollback_state_ok [OF assms] by blast
  obtain b where b: "tree_clone A H (sm_tree sm) = Some b" using tree_clone_eq [OF manager_okD(1) [OF assms(3)]] by blast
  have tree: "sm_tree (rolled_back h t sm) = t" by (simp add: rolled_back_def)
  from get_root_hash_ok [OF assms(1,2) manager_okD(1) [OF t(2)]] obtain rt t' where
    root: "get_root_hash A H (rolled_back h t sm) = (Inr rt, (rolled_back h t sm)\<lparr>sm_tree := t'\<rparr>)"
    "tree_root A H t KEY_SIZE [] = Inr rt" and t': "same_contents t t'" "tree_ok A H t'" unfolding tree by blast
  have eq: "(rolled_back h t sm)\<lparr>sm_tree := t'\<rparr> = rolled_back h t' sm" by (simp add: rolled_back_def)
  have n: "unat h < length (snapshots sm)" using assms(5) manager_okD(2) [OF assms(3)] by (simp add: word_le_nat_alt)
  have snap: "unat h < length (snapshots (rolled_back h t' sm))" "snapshots (rolled_back h t' sm) ! unat h = snapshots sm ! unat h"
    using n by (simp_all add: rolled_back_def)
  have rt: "rt = snap_root (snapshots sm ! unat h)" using root(2) t(4) by simp
  have "sm_rollback A H h sm = Some (Inr (), rolled_back h t' sm)"
    using assms(5) b t(1) root(1) snap rt unfolding eq by (simp add: sm_rollback_def not_less)
  moreover have "manager_ok A H (rolled_back h t' sm)" using manager_ok_tree [OF t(2) t'(2)] unfolding eq .
  moreover have "vt_storage t' = snapshot_storages sm ! unat h" using t(3) t'(1) by (simp add: same_contents_def)
  ultimately show ?thesis by blast
qed

lemma snapshot_position_Some: "snapshot_position P ss = Some i \<Longrightarrow> i < length ss \<and> P (ss ! i)"
  by (induction ss arbitrary: i) (auto split: if_splits)

lemma restore_from_snapshot_ok:
  assumes "manager_ok A H sm" "restore_from_snapshot A H rt h sm = Some (r, sm')"
  shows "manager_ok A H sm' \<and> length (snapshots sm') \<le> length (snapshots sm)"
proof (cases "snapshot_position (\<lambda>s. snap_height s = h \<and> snap_root s = rt) (snapshots sm)")
  case None
  with assms show ?thesis by (simp add: restore_from_snapshot_def)
next
  case (Some i)
  note pos = snapshot_position_Some [OF Some]
  have h: "h = word_of_nat i" using pos manager_okD(6) [OF assms(1)] by (auto simp: heights_match_iff)
  have "stored_root A H (snapshot_storages sm ! i) (snap_root (snapshots sm ! i))" using assms(1) pos by (auto simp: manager_ok_def)
  from restore_tree_ok [OF this, of sm] obtain t where
    t: "restore_tree A H (snapshot_storages sm ! i) sm = Some (Inr (), sm\<lparr>sm_tree := t\<rparr>)" "tree_ok A H t" by blast
  have sm': "sm' = sm\<lparr>sm_tree := t, current_height := h, snapshots := take (i + 1) (snapshots sm),
      snapshot_storages := take (i + 1) (snapshot_storages sm)\<rparr>"
    using assms Some t(1) pos manager_okD(5) [OF assms(1)] by (simp add: restore_from_snapshot_def split: if_splits)
  have "manager_ok A H sm'"
    by (rule manager_ok_truncate [OF assms(1) _ t(2), of i]) (use pos h sm' in simp_all)
  then show ?thesis by (simp add: sm')
qed

section \<open>The check of the supply\<close>

lemma checked_sum_exact:
  "unat acc + sum_list (map unat vs) < 2 ^ 128 \<Longrightarrow>
     \<exists>total. checked_sum acc vs = Some total \<and> unat total = unat acc + sum_list (map unat vs)"
proof (induction vs arbitrary: acc)
  case (Cons v vs)
  have "unat acc + unat v < 2 ^ 128" using Cons.prems by simp
  then have "checked_add acc (ucast v) = Some (acc + ucast v)" "unat (acc + ucast v) = unat acc + unat v"
    by (simp_all add: checked_add_def unat_add_no_overflow)
  with Cons.IH [of "acc + ucast v"] Cons.prems show ?case by (simp add: add.assoc)
qed simp

lemma sum_of_outputs:
  assumes "enumerates it"
  shows "sum_list (map unat (map (\<lambda>k. case fmlookup m k of Some out \<Rightarrow> out_value out | None \<Rightarrow> 0) (it (fmdom m)))) = utxo_total m"
proof -
  have it: "set (it (fmdom m)) = fset (fmdom m)" "distinct (it (fmdom m))" using assms by (simp_all add: enumerates_def)
  have "sum_list (map unat (map (\<lambda>k. case fmlookup m k of Some out \<Rightarrow> out_value out | None \<Rightarrow> 0) (it (fmdom m)))) =
      sum_list (map (entry_value m) (it (fmdom m)))"
    by (auto simp: entry_value_def intro!: arg_cong [where f = sum_list] split: option.split)
  also have "\<dots> = utxo_total m" using it by (simp add: utxo_total_def sum_list_distinct_conv_sum_set)
  finally show ?thesis .
qed

lemma cross_check_eq:
  assumes "enumerates it" "utxo_total (utxos u) < 2 ^ 128"
  shows "cross_check_supply_consistency A H it u sm =
     (if unat (current_total_supply sm) \<noteq> utxo_total (utxos u)
      then (Inl (ApplyBlockFailed ''Supply mismatch: UTXO sum ''), sm)
      else bind_st (get_root_hash A H sm) (\<lambda>root sm'.
        if snapshots sm' \<noteq> [] \<and> snap_root (last (snapshots sm')) \<noteq> root
        then (Inl (ApplyBlockFailed ''Root hash mismatch between snapshot and current tree''), sm')
        else (Inr (), sm')))"
proof -
  let ?vs = "map (\<lambda>k. case fmlookup (utxos u) k of Some out \<Rightarrow> out_value out | None \<Rightarrow> 0) (it (fmdom (utxos u)))"
  note tot = sum_of_outputs [OF assms(1), of "utxos u"]
  from checked_sum_exact [of 0 ?vs] assms(2) obtain calc where
    "checked_sum 0 ?vs = Some calc" "unat calc = utxo_total (utxos u)" unfolding tot by auto
  then show ?thesis by (auto simp: cross_check_supply_consistency_def word_unat_eq_iff)
qed

text \<open>What a pruning cycle removes.\<close>

lemma prune_outpoints_utxos:
  "prune_outpoints acc outs (u, sm) = (Inr pruned_outs, (u', sm')) \<Longrightarrow>
     \<exists>gone. pruned_outs = acc @ gone \<and> set gone \<subseteq> set outs \<and> utxos u' = fmdrop_set (set gone) (utxos u)"
proof (induction outs arbitrary: acc u sm)
  case (Cons out outs)
  show ?case
  proof (cases "fmlookup (outpoint_to_key sm) out")
    case None
    with Cons.prems have "prune_outpoints acc outs (u, sm) = (Inr pruned_outs, (u', sm'))" by simp
    from Cons.IH [OF this] show ?thesis by auto
  next
    case (Some key)
    obtain p t where p: "prune_key key (sm_tree sm) = (p, t)" by fastforce
    with Cons.prems Some obtain sm1 where
      "prune_outpoints (acc @ [out]) outs (u\<lparr>utxos := fmdrop out (utxos u)\<rparr>, sm1) = (Inr pruned_outs, (u', sm'))"
      by (cases p) auto
    from Cons.IH [OF this] obtain gone where gone: "pruned_outs = (acc @ [out]) @ gone" "set gone \<subseteq> set outs"
      "utxos u' = fmdrop_set (set gone) (fmdrop out (utxos u))" by auto
    moreover have "fmdrop_set (set gone) (fmdrop out (utxos u)) = fmdrop_set (set (out # gone)) (utxos u)"
      by (rule fmap_ext) simp
    ultimately show ?thesis by (intro exI [of _ "out # gone"]) auto
  qed
qed simp

lemma utxo_total_drop_less:
  assumes "finite S" "x \<in> S" "fmlookup m x = Some out" "0 < out_value out"
  shows "utxo_total (fmdrop_set S m) < utxo_total m"
proof -
  let ?S = "S \<inter> fset (fmdom m)"
  have same: "fmdrop_set S m = fmdrop_set ?S m" by (rule fmap_ext) (auto dest: fmdom_notD)
  have x: "x \<in> ?S" using assms(2,3) by (auto intro: fmdomI)
  have pos: "0 < entry_value m x" using assms(3,4) by (simp add: entry_value_def word_less_nat_alt)
  have "0 < (\<Sum>k \<in> ?S. entry_value m k)"
    using sum_pos2 [of ?S x "entry_value m"] assms(1) x pos by simp
  moreover have "utxo_total m = utxo_total (fmdrop_set ?S m) + (\<Sum>k \<in> ?S. entry_value m k)"
    using assms(1) by (intro utxo_total_fmdrop_set) (auto simp: fmlookup_dom_iff)
  ultimately show ?thesis by (simp add: same)
qed

section \<open>Runs of the manager\<close>

datatype manager_op =
    Do_Apply block_node
  | Do_Rollback u64
  | Do_Rollback_State u64
  | Do_Restore bytes32 u64
  | Do_Write bytes32 bytes
  | Do_Mark outpoint u64 u64
  | Do_Prune u64
  | Do_Root

fun run_manager ::
    "('m, 's) wasmer \<Rightarrow> ('f::field, 'p, 'g::ab_group_add) ark \<Rightarrow> blake3 \<Rightarrow> (outpoint fset \<Rightarrow> outpoint list)
       \<Rightarrow> manager_op \<Rightarrow> ('f, 'g) chain \<Rightarrow> ('f, 'g) chain option" where
  "run_manager W A H it (Do_Apply block) c = map_option snd (sm_apply_block W A H block c)"
| "run_manager W A H it (Do_Rollback h) (u, sm) = map_option (\<lambda>(r, sm'). (u, sm')) (sm_rollback A H h sm)"
| "run_manager W A H it (Do_Rollback_State h) (u, sm) = map_option (\<lambda>(r, sm'). (u, sm')) (rollback_state A H h sm)"
| "run_manager W A H it (Do_Restore rt h) (u, sm) = map_option (\<lambda>(r, sm'). (u, sm')) (restore_from_snapshot A H rt h sm)"
| "run_manager W A H it (Do_Write key v) (u, sm) = Some (u, snd (state_write key v sm))"
| "run_manager W A H it (Do_Mark out epoch time) (u, sm) = Some (u, mark_outpoint_for_pruning out epoch time sm)"
| "run_manager W A H it (Do_Prune epoch) c = Some (snd (execute_pruning_cycle it epoch c))"
| "run_manager W A H it Do_Root (u, sm) = Some (u, snd (get_root_hash A H sm))"

fun run_manager_ops ::
    "('m, 's) wasmer \<Rightarrow> ('f::field, 'p, 'g::ab_group_add) ark \<Rightarrow> blake3 \<Rightarrow> (outpoint fset \<Rightarrow> outpoint list)
       \<Rightarrow> manager_op list \<Rightarrow> ('f, 'g) chain \<Rightarrow> ('f, 'g) chain option" where
  "run_manager_ops W A H it [] c = Some c"
| "run_manager_ops W A H it (op # ops) c = Option.bind (run_manager W A H it op c) (run_manager_ops W A H it ops)"

lemma run_manager_ok:
  assumes "dense_poly A" "serializes A" "manager_ok A H sm" "length (snapshots sm) < 2 ^ 64"
    and "run_manager W A H it op (u, sm) = Some (u', sm')"
  shows "manager_ok A H sm' \<and> length (snapshots sm') \<le> length (snapshots sm) + 1"
proof (cases op)
  case (Do_Apply block)
  then obtain r where "sm_apply_block W A H block (u, sm) = Some (r, (u', sm'))" using assms(5) by auto
  then show ?thesis by (rule manager_ok_apply [OF assms(1-3)])
next
  case (Do_Rollback h)
  with assms(5) sm_rollback_ok [OF assms(1-4), of h] show ?thesis
    by (cases "h \<le> current_height sm") (use assms(3) in \<open>auto simp: sm_rollback_def not_le rolled_back_def\<close>)
next
  case (Do_Rollback_State h)
  with assms(5) rollback_state_ok [OF assms(1-4), of h] rollback_state_beyond [of sm h A H] show ?thesis
    by (cases "h \<le> current_height sm") (use assms(3) in \<open>auto simp: not_le rolled_back_def\<close>)
next
  case (Do_Restore rt h)
  then obtain r where "restore_from_snapshot A H rt h sm = Some (r, sm')" using assms(5) by auto
  from restore_from_snapshot_ok [OF assms(3) this] show ?thesis by simp
next
  case (Do_Write key v)
  with assms(5) manager_ok_write [OF assms(3), of key v "Inr ()"] show ?thesis by (auto simp: state_write_def)
next
  case (Do_Mark out epoch time)
  with assms(5) manager_ok_mark [OF assms(3), of out epoch time] show ?thesis by (auto simp: mark_outpoint_for_pruning_def)
next
  case (Do_Prune epoch)
  then obtain r where run: "execute_pruning_cycle it epoch (u, sm) = (r, (u', sm'))"
    using assms(5) by (cases "execute_pruning_cycle it epoch (u, sm)") auto
  have "same_history sm sm'"
    using prune_outpoints_frame [of "[]" "it (expired_outpoints epoch sm)" u sm r u' sm' A H] run manager_okD(1) [OF assms(3)]
    by (simp add: execute_pruning_cycle_def)
  then show ?thesis using manager_ok_prune [OF assms(3) run] by (simp add: same_history_def)
next
  case Do_Root
  with assms(5) have "get_root_hash A H sm = (fst (get_root_hash A H sm), sm')" by auto
  from manager_ok_root_hash [OF assms(3) this] get_root_hash_ok [OF assms(1,2) manager_okD(1) [OF assms(3)]] Do_Root assms(5)
  show ?thesis by auto
qed

lemma run_manager_ops_ok:
  assumes "dense_poly A" "serializes A"
  shows "manager_ok A H sm \<Longrightarrow> length (snapshots sm) + length ops \<le> 2 ^ 64 \<Longrightarrow>
    run_manager_ops W A H it ops (u, sm) = Some (u', sm') \<Longrightarrow>
    manager_ok A H sm' \<and> length (snapshots sm') \<le> length (snapshots sm) + length ops"
proof (induction ops arbitrary: u sm)
  case (Cons op ops)
  obtain u1 sm1 where op: "run_manager W A H it op (u, sm) = Some (u1, sm1)"
    and rest: "run_manager_ops W A H it ops (u1, sm1) = Some (u', sm')"
    using Cons.prems(3) by (auto simp: bind_eq_Some_conv)
  have "length (snapshots sm) < 2 ^ 64" using Cons.prems(2) by simp
  note step = run_manager_ok [OF assms Cons.prems(1) this op]
  then have "length (snapshots sm1) + length ops \<le> 2 ^ 64" using Cons.prems(2) by simp
  with step Cons.IH [OF _ _ rest] show ?case by fastforce
qed simp

section \<open>Properties\<close>

text \<open>
  C4. Every run of the manager, of blocks, rollbacks, restorations, writes, prunings and root
  computations, failed ones included, keeps its history consistent: the snapshots pass
  \<open>validate_snapshots\<close>, there is one for each height up to the current one, and each root
  recorded is the root of the store kept with it.
\<close>

theorem manager_history_consistent:
  assumes "dense_poly A" "serializes A" "tree_ok A H t" "manager_new A H t = Inr sm0"
    and "run_manager_ops W A H it ops (u0, sm0) = Some (u, sm)" "length ops < 2 ^ 64 - 1"
  shows "validate_snapshots sm = Inr () \<and> length (snapshots sm) = unat (current_height sm) + 1 \<and>
     (\<forall>i < length (snapshots sm). stored_root A H (snapshot_storages sm ! i) (snap_root (snapshots sm ! i)))"
proof -
  have sm0: "manager_ok A H sm0" "length (snapshots sm0) = 1"
    using manager_new_ok [OF assms(1-3)] assms(4) by (auto simp: manager_new_def split: prod.splits sum.splits)
  then have "length (snapshots sm0) + length ops \<le> 2 ^ 64" using assms(6) by simp
  from run_manager_ops_ok [OF assms(1,2) sm0(1) this assms(5)]
  have ok: "manager_ok A H sm" and len: "length (snapshots sm) < 2 ^ 64 + 1" using sm0(2) assms(6) by simp_all
  have "length (snapshots sm) = unat (current_height sm) + 1"
  proof -
    have ne: "0 < length (snapshots sm)" using ok by (simp add: manager_ok_def)
    then have "unat (word_of_nat (length (snapshots sm) - 1) :: u64) = length (snapshots sm) - 1"
      using len by (intro unat_of_nat_small) simp
    with ne manager_okD(4) [OF ok] show ?thesis by simp
  qed
  with ok show ?thesis by (simp add: validate_snapshots_def manager_ok_def)
qed

lemma sample_history:
  obtains t sm0 sm where "tree_ok sample_ark (\<lambda>_. 7) t" "manager_new sample_ark (\<lambda>_. 7) t = Inr sm0"
    "run_manager_ops sample_script sample_ark (\<lambda>_. 7) sorted_list_of_fset [Do_Write 5 [1]] (utxo_new, sm0) = Some (utxo_new, sm)"
    "tree_get 5 (sm_tree sm) = Inr (Some [1])" "manager_ok sample_ark (\<lambda>_. 7) sm" "length (snapshots sm) = 1"
    "current_height sm = 0" "snapshot_storages sm = [vt_storage t]" "current_total_supply sm = 0"
    "tree_get 5 t = Inr None" "pruned_keys t = {||}"
proof -
  obtain t0 where new: "tree_new sample_ark (\<lambda>_. 7) memory_storage_new = Some (Inr t0)"
    using tree_new_ok [OF sample_ark_dense sample_ark_serializes] by blast
  obtain sm0 where sm0: "manager_new sample_ark (\<lambda>_. 7) t0 = Inr sm0" "manager_ok sample_ark (\<lambda>_. 7) sm0"
    "pruned_keys (sm_tree sm0) = {||}" "vt_storage (sm_tree sm0) = vt_storage t0"
    using manager_new_ok [OF sample_ark_dense sample_ark_serializes(1) tree_new_wf [OF new]] tree_new_fields(4) [OF new]
    by auto
  then have one: "length (snapshots sm0) = 1" "current_height sm0 = 0" "snapshot_storages sm0 = [vt_storage t0]"
    "current_total_supply sm0 = 0"
    by (auto simp: manager_new_def split: prod.splits sum.splits)
  let ?sm = "sm0\<lparr>sm_tree := tree_insert 5 [1] (sm_tree sm0)\<rparr>"
  have "manager_ok sample_ark (\<lambda>_. 7) ?sm" using manager_ok_write [OF sm0(2), of 5 "[1]"] by (simp add: state_write_def)
  then show ?thesis
    using tree_new_wf [OF new] sm0 one tree_new_empty [OF new, of 5] tree_new_fields(4) [OF new]
    by (intro that [of t0 sm0 ?sm]) (simp_all add: state_write_def tree_get_insert)
qed

theorem manager_history_consistent_witness:
  "\<exists>sm :: (rat, rat) state_manager. tree_get 5 (sm_tree sm) = Inr (Some [1]) \<and> validate_snapshots sm = Inr () \<and>
     length (snapshots sm) = unat (current_height sm) + 1"
proof -
  obtain t sm0 sm where s: "tree_ok sample_ark (\<lambda>_. 7) t" "manager_new sample_ark (\<lambda>_. 7) t = Inr sm0"
    "run_manager_ops sample_script sample_ark (\<lambda>_. 7) sorted_list_of_fset [Do_Write 5 [1]] (utxo_new, sm0) = Some (utxo_new, sm)"
    and get: "tree_get 5 (sm_tree sm) = Inr (Some [1])"
    by (rule sample_history)
  from manager_history_consistent [OF sample_ark_dense sample_ark_serializes(1) s] get show ?thesis by auto
qed

text \<open>
  C24. A rollback to a height of the history succeeds: the store, the root, the supply and the gas
  fees are those recorded at that height and the later snapshots are gone; but the memory of
  pruned keys is lost, and the outputs' keys and pruning marks stay as they were. Beyond the
  current height it is refused and nothing changes.
\<close>

theorem rollback_restores:
  assumes "dense_poly A" "serializes A" "manager_ok A H sm" "length (snapshots sm) < 2 ^ 64"
  shows "if h \<le> current_height sm
     then \<exists>sm'. rollback_state A H h sm = Some (Inr (), sm') \<and> current_height sm' = h \<and>
       snapshots sm' = take (unat h + 1) (snapshots sm) \<and>
       vt_storage (sm_tree sm') = snapshot_storages sm ! unat h \<and> pruned_keys (sm_tree sm') = {||} \<and>
       spec_root A H (vt_pc (sm_tree sm')) (empty_subtree_scalars (sm_tree sm')) (vt_storage (sm_tree sm')) KEY_SIZE [] =
         Inr (snap_root (snapshots sm ! unat h)) \<and>
       current_total_supply sm' = snap_total_supply (snapshots sm ! unat h) \<and>
       block_gas_fees sm' = snap_gas_fees (snapshots sm ! unat h) \<and>
       outpoint_to_key sm' = outpoint_to_key sm \<and> sm_prune_markers sm' = sm_prune_markers sm
     else rollback_state A H h sm = Some (Inl (InvalidRollback ''Cannot rollback to height ''), sm)"
proof (cases "h \<le> current_height sm")
  case True
  from rollback_state_ok [OF assms True] obtain t where t: "rollback_state A H h sm = Some (Inr (), rolled_back h t sm)"
    "vt_storage t = snapshot_storages sm ! unat h" "pruned_keys t = {||}"
    "tree_root A H t KEY_SIZE [] = Inr (snap_root (snapshots sm ! unat h))" by blast
  have "sm_tree (rolled_back h t sm) = t" by (simp add: rolled_back_def)
  then have "spec_root A H (vt_pc (sm_tree (rolled_back h t sm))) (empty_subtree_scalars (sm_tree (rolled_back h t sm)))
      (vt_storage (sm_tree (rolled_back h t sm))) KEY_SIZE [] = Inr (snap_root (snapshots sm ! unat h))"
    by (simp only: t(4))
  then show ?thesis
    unfolding if_P [OF True] using t(1-3) by (intro exI [of _ "rolled_back h t sm"] conjI) (simp_all add: rolled_back_def)
next
  case False
  with rollback_state_beyond [of sm h A H] show ?thesis by simp
qed

theorem rollback_restores_witness:
  "\<exists>sm sm'. tree_get 5 (sm_tree sm) = Inr (Some [1]) \<and>
     rollback_state sample_ark (\<lambda>_. 7) 0 sm = Some (Inr (), sm') \<and> tree_get 5 (sm_tree sm') = Inr None"
proof -
  obtain t sm where get: "tree_get 5 (sm_tree sm) = Inr (Some [1])" and ok: "manager_ok sample_ark (\<lambda>_. 7) sm"
    and one: "length (snapshots sm) = 1" "current_height sm = 0" "snapshot_storages sm = [vt_storage t]"
    and t: "tree_ok sample_ark (\<lambda>_. 7) t" "tree_get 5 t = Inr None" "pruned_keys t = {||}"
    by (rule sample_history) blast
  have h: "0 \<le> current_height sm" "length (snapshots sm) < 2 ^ 64" using one by simp_all
  from rollback_restores [OF sample_ark_dense sample_ark_serializes(1) ok h(2), of 0, unfolded if_P [OF h(1)]] obtain sm' where
    "rollback_state sample_ark (\<lambda>_. 7) 0 sm = Some (Inr (), sm')" "vt_storage (sm_tree sm') = snapshot_storages sm ! unat (0 :: u64)"
    "pruned_keys (sm_tree sm') = {||}" by (elim exE conjE) (rule that; assumption)
  moreover from this(2) have "vt_storage (sm_tree sm') = vt_storage t" by (simp add: one)
  ultimately show ?thesis using get t by (intro exI [of _ sm] exI [of _ sm']) (simp add: tree_get_def)
qed

lemma sample_enumerates: "enumerates (sorted_list_of_fset :: outpoint fset \<Rightarrow> outpoint list)"
  by (simp add: enumerates_def)

text \<open>
  The supply check answers exactly whether the tracked supply is the value of the outputs and
  the last snapshot has the root of the tree, whatever the order the outputs are visited in.
\<close>

theorem cross_check_exact:
  assumes "dense_poly A" "serializes A" "tree_ok A H (sm_tree sm)" "enumerates it" "utxo_total (utxos u) < 2 ^ 128"
  shows "fst (cross_check_supply_consistency A H it u sm) = Inr () \<longleftrightarrow>
     unat (current_total_supply sm) = utxo_total (utxos u) \<and>
     (snapshots sm = [] \<or>
      spec_root A H (vt_pc (sm_tree sm)) (empty_subtree_scalars (sm_tree sm)) (vt_storage (sm_tree sm)) KEY_SIZE [] =
        Inr (snap_root (last (snapshots sm))))"
proof -
  from get_root_hash_ok [OF assms(1-3)] obtain rt t where
    "get_root_hash A H sm = (Inr rt, sm\<lparr>sm_tree := t\<rparr>)" "tree_root A H (sm_tree sm) KEY_SIZE [] = Inr rt" by blast
  then show ?thesis by (auto simp: cross_check_eq [OF assms(4,5)] split: if_splits)
qed

theorem cross_check_exact_witness:
  "\<exists>sm :: (rat, rat) state_manager. unat (current_total_supply sm) = utxo_total (utxos utxo_new) \<and>
     (fst (cross_check_supply_consistency sample_ark (\<lambda>_. 7) sorted_list_of_fset utxo_new sm) = Inr () \<longleftrightarrow>
      spec_root sample_ark (\<lambda>_. 7) (vt_pc (sm_tree sm)) (empty_subtree_scalars (sm_tree sm)) (vt_storage (sm_tree sm)) KEY_SIZE [] =
        Inr (snap_root (last (snapshots sm))))"
proof -
  obtain sm where ok: "manager_ok sample_ark (\<lambda>_. 7) sm" and one: "length (snapshots sm) = 1" "current_total_supply sm = 0"
    by (rule sample_history) blast
  then have "snapshots sm \<noteq> []" "utxo_total (utxos utxo_new) = 0" by (auto simp: utxo_new_def)
  with cross_check_exact [OF sample_ark_dense sample_ark_serializes(1) manager_okD(1) [OF ok] sample_enumerates, of utxo_new] one
  show ?thesis by (intro exI [of _ sm]) simp
qed

text \<open>
  Pruning an output of positive value breaks the supply: the output is removed but still
  counted, and the supply check fails from then on.
\<close>

theorem pruning_breaks_supply:
  assumes "unat (current_total_supply sm) = utxo_total (utxos u)" "tree_ok A H (sm_tree sm)" "enumerates it"
    and "execute_pruning_cycle it epoch (u, sm) = (Inr pruned_outs, (u', sm'))"
    and "out \<in> set pruned_outs" "fmlookup (utxos u) out = Some output" "0 < out_value output"
  shows "fmlookup (utxos u') out = None \<and>
     fst (cross_check_supply_consistency A H it u' sm') = Inl (ApplyBlockFailed ''Supply mismatch: UTXO sum '')"
proof -
  from prune_outpoints_utxos [of "[]" _ u sm pruned_outs u' sm'] assms(4)
  have u': "utxos u' = fmdrop_set (set pruned_outs) (utxos u)" by (auto simp: execute_pruning_cycle_def)
  have sup: "current_total_supply sm' = current_total_supply sm"
    using prune_outpoints_frame [OF _ assms(2), of "[]" _ u "Inr pruned_outs" u' sm'] assms(4)
    by (simp add: execute_pruning_cycle_def)
  have less: "utxo_total (utxos u') < utxo_total (utxos u)"
    unfolding u' using assms(5-7) by (intro utxo_total_drop_less) simp_all
  have "unat (current_total_supply sm) < 2 ^ 128" using unsigned_less [of "current_total_supply sm"] by simp
  then have "utxo_total (utxos u') < 2 ^ 128" using less assms(1) by linarith
  from cross_check_eq [OF assms(3) this, of A H sm'] less assms(1,5) sup u' show ?thesis by simp
qed

theorem pruning_breaks_supply_witness:
  "\<exists>u' sm'. fst (cross_check_supply_consistency sample_ark (\<lambda>_. 7) sorted_list_of_fset u' sm') =
     Inl (ApplyBlockFailed ''Supply mismatch: UTXO sum '')"
proof -
  let ?out = "\<lparr>out_value = 50, pubkey_hash = Hash 3\<rparr>" and ?k = "(Hash 9, 0 :: u32)"
  obtain t0 where new: "tree_new sample_ark (\<lambda>_. 7) memory_storage_new = Some (Inr t0)"
    using tree_new_ok [OF sample_ark_dense sample_ark_serializes] by blast
  let ?t = "tree_insert 5 [1] t0"
  let ?sm = "(sample_manager ?t)\<lparr>outpoint_to_key := fmupd ?k 5 fmempty,
      sm_prune_markers := fmupd ?k \<lparr>pm_epoch = 1, pm_timestamp = 0\<rparr> fmempty, current_total_supply := 50\<rparr>"
  let ?u = "\<lparr>utxos = fmupd ?k ?out fmempty\<rparr>"
  have ok: "tree_ok sample_ark (\<lambda>_. 7) (sm_tree ?sm)"
    using tree_ok_insert [OF tree_new_wf [OF new]] by (simp add: sample_manager_def)
  have total: "unat (current_total_supply ?sm) = utxo_total (utxos ?u)"
    by (simp add: utxo_total_def entry_value_def)
  have "expired_outpoints 1 ?sm = {|?k|}" by (auto simp: expired_outpoints_def)
  moreover have "fst (prune_key 5 ?t) = Inr ()"
    by (simp add: tree_get_prune(1) node_exists_def storage_tree_insert)
  then obtain t' where "prune_key 5 ?t = (Inr (), t')" by (metis prod.collapse)
  ultimately obtain u' sm' where
    cyc: "execute_pruning_cycle sorted_list_of_fset 1 (?u, ?sm) = (Inr [?k], (u', sm'))"
    by (simp add: execute_pruning_cycle_def sample_manager_def sorted_list_of_fset.rep_eq)
  from pruning_breaks_supply [OF total ok sample_enumerates cyc, of ?k ?out] show ?thesis by auto
qed

end
