(* ===== verification/Group_Execution.thy ===== *)
theory Group_Execution
  imports Scheduler Manager_Blocks
begin

text \<open>
  Execution of the groups of the scheduler by the state manager (\<open>ParallelScheduler::execute_groups\<close>
  and \<open>restore_from_checkpoint\<close> in \<open>src/core/scheduler/parallel.rs\<close>). A panic is \<open>None\<close>.
\<close>

section \<open>Operations\<close>

record execution_checkpoint =
  ck_height :: u64
  ck_total_supply :: u128
  ck_gas_fees_len :: nat
  ck_pending_updates_len :: nat
  ck_utxo_snapshot :: utxo_set
  ck_tree_root_hash :: "bytes32 option"

text \<open>A checkpoint asks for the root, which fills the caches of the tree.\<close>

definition take_checkpoint ::
    "('f::field, 'p, 'g::ab_group_add) ark \<Rightarrow> blake3 \<Rightarrow> ('f, 'g) chain \<Rightarrow> execution_checkpoint \<times> ('f, 'g) state_manager" where
  "take_checkpoint A H = (\<lambda>(u, sm).
     case get_root_hash A H sm of
       (r, sm') \<Rightarrow>
         (\<lparr>ck_height = current_height sm, ck_total_supply = current_total_supply sm,
           ck_gas_fees_len = length (block_gas_fees sm), ck_pending_updates_len = length (pending_updates sm),
           ck_utxo_snapshot = u, ck_tree_root_hash = (case r of Inl _ \<Rightarrow> None | Inr rt \<Rightarrow> Some rt)\<rparr>, sm'))"

definition restore_from_checkpoint ::
    "execution_checkpoint \<Rightarrow> ('f, 'g) chain \<Rightarrow> (state_manager_error + unit) \<times> ('f, 'g) chain" where
  "restore_from_checkpoint ck = (\<lambda>(u, sm).
     (Inr (), (ck_utxo_snapshot ck,
       sm\<lparr>current_height := ck_height ck, current_total_supply := ck_total_supply ck,
          block_gas_fees := take (ck_gas_fees_len ck) (block_gas_fees sm),
          pending_updates := take (ck_pending_updates_len ck) (pending_updates sm)\<rparr>)))"

text \<open>One group: its transactions in order, then the check that the root has changed.\<close>

definition execute_group ::
    "('m, 's) wasmer \<Rightarrow> ('f::field, 'p, 'g::ab_group_add) ark \<Rightarrow> blake3 \<Rightarrow> scheduled_transaction list \<Rightarrow> ('f, 'g) chain
       \<Rightarrow> ((state_manager_error + unit) \<times> ('f, 'g) chain) option" where
  "execute_group W A H grp = (\<lambda>(u, sm).
     case take_checkpoint A H (u, sm) of
       (ck, sm1) \<Rightarrow>
         Option.bind (apply_transactions W A H (map s_tx grp) (u, sm1)) (\<lambda>(r, (u2, sm2)).
           case r of
             Inl _ \<Rightarrow>
               Some (bind_st (restore_from_checkpoint ck (u2, sm2)) (\<lambda>_ c.
                 (Inl (ApplyBlockFailed ''Group ''), c)))
           | Inr _ \<Rightarrow>
               (case get_root_hash A H sm2 of
                  (Inl e, sm3) \<Rightarrow>
                    Some (Inl (Sm_CryptographicError ''Failed to get root after group ''), (u2, sm3))
                | (Inr post_root, sm3) \<Rightarrow>
                    if ck_tree_root_hash ck = Some post_root
                    then Some (bind_st (restore_from_checkpoint ck (u2, sm3)) (\<lambda>_ c.
                           (Inl (ApplyBlockFailed ''Group ''), c)))
                    else Some (Inr (), (u2, sm3)))))"

fun execute_group_list ::
    "('m, 's) wasmer \<Rightarrow> ('f::field, 'p, 'g::ab_group_add) ark \<Rightarrow> blake3 \<Rightarrow> scheduled_transaction list list
       \<Rightarrow> ('f, 'g) chain \<Rightarrow> ((state_manager_error + unit) \<times> ('f, 'g) chain) option" where
  "execute_group_list W A H [] c = Some (Inr (), c)"
| "execute_group_list W A H (grp # grps) c =
     bind_run (execute_group W A H grp c) (\<lambda>_ c'. execute_group_list W A H grps c')"

definition execute_groups ::
    "('m, 's) wasmer \<Rightarrow> ('f::field, 'p, 'g::ab_group_add) ark \<Rightarrow> blake3 \<Rightarrow> scheduled_transaction list list
       \<Rightarrow> ('f, 'g) chain \<Rightarrow> ((state_manager_error + unit) \<times> ('f, 'g) chain) option" where
  "execute_groups W A H grps = (\<lambda>(u, sm).
     if detect_group_conflicts grps \<noteq> None
     then Some (Inl (ApplyBlockFailed ''Conflict detected between groups: ''), (u, sm))
     else
       let (_, sm') = take_checkpoint A H (u, sm)
       in execute_group_list W A H grps (u, sm'))"

section \<open>Groups of plain transactions\<close>

lemma take_checkpoint_ok:
  assumes "dense_poly A" "serializes A" "tree_ok A H (sm_tree sm)"
  shows "\<exists>ck rt t. take_checkpoint A H (u, sm) = (ck, sm\<lparr>sm_tree := t\<rparr>) \<and> ck_tree_root_hash ck = Some rt \<and>
    ck_utxo_snapshot ck = u \<and> ck_total_supply ck = current_total_supply sm \<and>
    ck_pending_updates_len ck = length (pending_updates sm) \<and> ck_height ck = current_height sm \<and>
    ck_gas_fees_len ck = length (block_gas_fees sm) \<and>
    tree_root A H t KEY_SIZE [] = Inr rt \<and> same_contents (sm_tree sm) t \<and> tree_ok A H t"
proof -
  from get_root_hash_ok [OF assms] obtain rt t where
    hash: "get_root_hash A H sm = (Inr rt, sm\<lparr>sm_tree := t\<rparr>)" and root: "tree_root A H (sm_tree sm) KEY_SIZE [] = Inr rt"
    and t: "same_contents (sm_tree sm) t" "tree_ok A H t" "tree_root A H t = tree_root A H (sm_tree sm)" by blast
  have "tree_root A H t KEY_SIZE [] = Inr rt" by (simp only: t(3) root)
  with hash t(1,2) show ?thesis
    by (intro exI [of _ "fst (take_checkpoint A H (u, sm))"] exI [of _ rt] exI [of _ t]) (simp add: take_checkpoint_def)
qed

text \<open>A group of plain transactions is always refused, and the outputs and the supply come back.\<close>

lemma plain_group_refused:
  assumes "dense_poly A" "serializes A" "tree_ok A H (sm_tree sm)" "list_all plain (map s_tx grp)"
  shows "\<exists>sm'. execute_group W A H grp (u, sm) = Some (Inl (ApplyBlockFailed ''Group ''), (u, sm')) \<and>
    current_total_supply sm' = current_total_supply sm \<and> same_contents (sm_tree sm) (sm_tree sm')"
proof -
  obtain ck rt t where ck: "take_checkpoint A H (u, sm) = (ck, sm\<lparr>sm_tree := t\<rparr>)" "ck_tree_root_hash ck = Some rt"
    "ck_utxo_snapshot ck = u" "ck_total_supply ck = current_total_supply sm"
    and t: "tree_root A H t KEY_SIZE [] = Inr rt" "same_contents (sm_tree sm) t" "tree_ok A H t"
    using take_checkpoint_ok [OF assms(1-3)] by blast
  let ?sm1 = "sm\<lparr>sm_tree := t\<rparr>"
  obtain r u2 sm2 where run: "apply_transactions W A H (map s_tx grp) (u, ?sm1) = Some (r, (u2, sm2))"
    and tree: "sm_tree sm2 = t"
    using apply_transactions_plain [OF assms(4), of W A H u ?sm1] by auto
  show ?thesis
  proof (cases r)
    case (Inl e)
    with ck run t(2) tree show ?thesis by (simp add: execute_group_def restore_from_checkpoint_def)
  next
    case (Inr v)
    have "tree_ok A H (sm_tree sm2)" using t(3) tree by simp
    from get_root_hash_ok [OF assms(1,2) this] obtain t3 where
      root: "get_root_hash A H sm2 = (Inr rt, sm2\<lparr>sm_tree := t3\<rparr>)" "same_contents t t3"
      using t(1) tree by auto
    have "same_contents (sm_tree sm) t3" using t(2) root(2) by (simp add: same_contents_def)
    with Inr ck run root(1) show ?thesis by (simp add: execute_group_def restore_from_checkpoint_def)
  qed
qed

section \<open>Properties\<close>

text \<open>
  C40. The scheduler's execution refuses every non-empty schedule of plain transactions: those only
  queue their updates, so the root never changes in a group, and a group that leaves the root as
  it was is an error. The outputs and the supply are put back.
\<close>

theorem execute_groups_refuses_plain:
  assumes "dense_poly A" "serializes A" "tree_ok A H (sm_tree sm)"
    and "grps = schedule_transactions H txs" "txs \<noteq> []" "list_all plain txs"
  shows "\<exists>e u' sm'. execute_groups W A H grps (u, sm) = Some (Inl (ApplyBlockFailed e), (u', sm')) \<and>
     u' = u \<and> current_total_supply sm' = current_total_supply sm"
proof (cases "detect_group_conflicts grps = None")
  case False
  then show ?thesis by (auto simp: execute_groups_def)
next
  case True
  obtain ck rt t where ck: "take_checkpoint A H (u, sm) = (ck, sm\<lparr>sm_tree := t\<rparr>)" and t: "tree_ok A H t"
    using take_checkpoint_ok [OF assms(1-3)] by blast
  have perm: "mset (concat grps) = mset (to_scheduled H txs)"
    by (simp add: assms(4) schedule_transactions_def group_loop_mset)
  have "to_scheduled H txs \<noteq> []" using assms(5) by (cases txs) (simp_all add: to_scheduled_def)
  then obtain grp rest where grps: "grps = grp # rest" using perm by (cases grps) auto
  have "s_tx s \<in> set txs" if "s \<in> set grp" for s
  proof -
    have "s \<in> set (to_scheduled H txs)" using that grps mset_eq_setD [OF perm] by auto
    then show ?thesis by (auto simp: to_scheduled_def in_set_enumerate_eq)
  qed
  then have "list_all plain (map s_tx grp)" using assms(6) by (auto simp: list_all_iff)
  moreover have "tree_ok A H (sm_tree (sm\<lparr>sm_tree := t\<rparr>))" using t by simp
  ultimately obtain sm' where
    "execute_group W A H grp (u, sm\<lparr>sm_tree := t\<rparr>) = Some (Inl (ApplyBlockFailed ''Group ''), (u, sm'))"
    "current_total_supply sm' = current_total_supply sm"
    using plain_group_refused [OF assms(1,2), of H "sm\<lparr>sm_tree := t\<rparr>" grp W u] by auto
  with True ck grps show ?thesis by (simp add: execute_groups_def)
qed

theorem execute_groups_refuses_plain_witness:
  "\<exists>sm e u' sm'. execute_groups sample_script sample_ark (\<lambda>_. 7) (schedule_transactions (\<lambda>_. 7) [sample_mint]) (utxo_new, sm) =
     Some (Inl (ApplyBlockFailed e), (u', sm')) \<and> u' = utxo_new"
proof -
  obtain sm where ok: "manager_ok sample_ark (\<lambda>_. 7) sm" using sample_mint_applies by blast
  have "list_all plain [sample_mint]" by (simp add: plain_def sample_mint_def)
  from execute_groups_refuses_plain [OF sample_ark_dense sample_ark_serializes(1) manager_okD(1) [OF ok] refl _ this]
  show ?thesis by blast
qed

end
