(* ===== verification/Difficulty.thy ===== *)
theory Difficulty
  imports Dag Pow Float64
begin

text \<open>
  Difficulty adjustment: the moving average over the latest blocks of the graph
  (\<open>src/core/daa/difficulty.rs\<close>) and the one over a list of timestamps
  (\<open>calculate_next_difficulty\<close> of \<open>src/core/pow/miner.rs\<close>). Both compute in \<open>f64\<close>. The sort by
  timestamp is stable over the blocks in the order of their hashes.
\<close>

section \<open>Operations\<close>

record daa =
  target_time :: u64
  window_size :: nat

definition daa_new :: "u64 \<Rightarrow> nat \<Rightarrow> daa" where
  "daa_new t w = \<lparr>target_time = t, window_size = w\<rparr>"

text \<open>The largest difficulty, \<open>u64::MAX / 2\<close>.\<close>

definition max_difficulty :: u64 where "max_difficulty = - 1 div 2"

definition timestamp_le :: "hash \<times> u64 \<times> u64 \<Rightarrow> hash \<times> u64 \<times> u64 \<Rightarrow> bool" where
  "timestamp_le = (\<lambda>(_, t, _) (_, t', _). t \<le> t')"

definition timed_blocks :: "dag \<Rightarrow> (hash \<times> u64 \<times> u64) list" where
  "timed_blocks d =
     sort_by timestamp_le
       (List.map_filter (\<lambda>h. map_option (\<lambda>b. (h, timestamp (header b), difficulty (header b))) (get_block d h))
         (get_all_hashes d))"

definition last_difficulty :: "(hash \<times> u64 \<times> u64) list \<Rightarrow> u64" where
  "last_difficulty bs = (if bs = [] then 1000 else snd (snd (last bs)))"

fun total_interval :: "u128 \<Rightarrow> (hash \<times> u64 \<times> u64) list \<Rightarrow> u128" where
  "total_interval acc ((h, prev_ts, d) # (h', cur_ts, d') # rest) =
     total_interval (acc + ucast (max (saturating_sub cur_ts prev_ts) 1)) ((h', cur_ts, d') # rest)"
| "total_interval acc _ = acc"

definition daa_next_difficulty :: "daa \<Rightarrow> dag \<Rightarrow> u64 \<Rightarrow> u64" where
  "daa_next_difficulty a d _ =
     (if get_all_hashes d = [] then 1000
      else
        let bs = timed_blocks d
        in if length bs < 2 then last_difficulty bs
           else
             let start = length bs - window_size a;
                 window = drop start bs
             in if length window < 2 then last_difficulty window
                else
                  let sma = f64_div (f64_of_nat (unat (total_interval 0 window))) (f64_of_nat (length window - 1));
                      current_difficulty = f64_of_nat (unat (last_difficulty window));
                      adjustment = f64_clamp (1 / 2) 2 (f64_div (f64_of_nat (unat (target_time a))) sma);
                      nxt = f64_as_u64 (f64_nearest (f64_mul current_difficulty adjustment))
                  in clamp nxt 1 max_difficulty)"

fun block_intervals :: "u64 list \<Rightarrow> u64 list" where
  "block_intervals (t # t' # rest) = max (saturating_sub t' t) 1 # block_intervals (t' # rest)"
| "block_intervals _ = []"

definition pow_next_difficulty :: "pow_state \<Rightarrow> u64 list \<Rightarrow> u64" where
  "pow_next_difficulty p block_timestamps =
     (if length block_timestamps < 2 then clamp (pow_difficulty p) 1 max_difficulty
      else
        let diffs = block_intervals block_timestamps;
            sma = f64_div (f64_of_nat (unat (sum_list diffs))) (f64_of_nat (length diffs));
            adjustment = f64_div (f64_of_nat (unat TARGET_BLOCK_TIME)) sma;
            nxt = f64_as_u64 (f64_nearest (f64_mul (f64_of_nat (unat (pow_difficulty p))) adjustment));
            max_step = max (pow_difficulty p div 2) 1;
            nxt' = (if saturating_add (pow_difficulty p) max_step < nxt
                    then saturating_add (pow_difficulty p) max_step
                    else if nxt + max_step < pow_difficulty p
                    then saturating_sub (pow_difficulty p) max_step
                    else nxt)
        in clamp nxt' 1 max_difficulty)"

section \<open>The observed interval\<close>

lemma unat_max_difficulty: "unat max_difficulty = 2 ^ 63 - 1"
  by (simp add: max_difficulty_def)

lemma unat_clamp_difficulty:
  "unat (clamp x 1 max_difficulty) = clamp (unat x) 1 (2 ^ 63 - 1)"
  using unat_max_difficulty by (simp add: clamp_def word_less_nat_alt)

lemma total_interval_bounds:
  assumes "bs \<noteq> []" "unat acc + (length bs - 1) * 2 ^ 64 < 2 ^ 128"
  shows "unat acc + (length bs - 1) \<le> unat (total_interval acc bs) \<and>
    unat (total_interval acc bs) \<le> unat acc + (length bs - 1) * 2 ^ 64"
  using assms
proof (induction acc bs rule: total_interval.induct)
  case (1 acc h prev_ts d h' cur_ts d' rest)
  let ?i = "max (saturating_sub cur_ts prev_ts) 1"
  have i: "1 \<le> unat ?i" "unat ?i < 2 ^ 64"
    using unat_u64_bound [of ?i] by (simp_all add: max_def word_le_nat_alt linorder_not_le)
  have "unat (acc + ucast ?i) = unat acc + unat ?i"
    using 1 i by (subst unat_add_no_overflow) (simp_all add: unat_ucast_u64_u128)
  with 1 i show ?case by simp
qed simp_all

text \<open>The time the window took, each interval counted as at least one second.\<close>

fun observed_total :: "(hash \<times> u64 \<times> u64) list \<Rightarrow> nat" where
  "observed_total ((h, prev_ts, d) # (h', cur_ts, d') # rest) =
     max (unat cur_ts - unat prev_ts) 1 + observed_total ((h', cur_ts, d') # rest)"
| "observed_total _ = 0"

lemma unat_total_interval:
  assumes "bs \<noteq> []" "unat acc + (length bs - 1) * 2 ^ 64 < 2 ^ 128"
  shows "unat (total_interval acc bs) = unat acc + observed_total bs"
  using assms
proof (induction acc bs rule: total_interval.induct)
  case (1 acc h prev_ts d h' cur_ts d' rest)
  let ?i = "max (saturating_sub cur_ts prev_ts) 1"
  have i: "unat ?i = max (unat cur_ts - unat prev_ts) 1" "unat ?i < 2 ^ 64"
    using unat_u64_bound [of ?i] by (auto simp: max_def word_le_nat_alt unat_saturating_sub)
  then have "unat (acc + ucast ?i) = unat acc + unat ?i"
    using 1 by (subst unat_add_no_overflow) (simp_all add: unat_ucast_u64_u128)
  with 1 i show ?case by simp
qed simp_all

lemma length_le_observed: "length bs - 1 \<le> observed_total bs"
  by (induction bs rule: observed_total.induct) auto

lemma f64_of_nat_between:
  assumes "0 < n" "n \<le> 2 ^ b" "b < 1024"
  shows "\<exists>r. f64_of_nat n = Finite r \<and> 1 \<le> r \<and> r \<le> 2 ^ b"
proof -
  have "(of_nat n :: rat) \<le> of_nat (2 ^ b)" using assms(2) by (simp only: of_nat_le_iff)
  then have "2 powi 0 \<le> (of_nat n :: rat)" "of_nat n \<le> (2 :: rat) powi int b" using assms(1) by (simp_all add: power_int_def)
  from f64_round_between [OF this] assms(3) show ?thesis by (auto simp: f64_of_nat_def power_int_def)
qed

lemma f64_of_nat_0 [simp]: "f64_of_nat 0 = Finite 0"
  by (simp add: f64_of_nat_def f64_round_def round_binary_def)

lemma powi_neg: "2 powi - int n = 1 / (2 :: rat) ^ n"
  by (simp only: power_int_minus power_int_of_nat inverse_eq_divide)

lemma f64_div_between:
  assumes "1 / 2 ^ a \<le> x" "x \<le> 2 ^ b" "1 / 2 ^ c \<le> y" "y \<le> 2 ^ d" "a + d \<le> 1000" "b + c \<le> 1000"
  shows "\<exists>r. f64_div (Finite x) (Finite y) = Finite r \<and> 1 / 2 ^ (a + d) \<le> r \<and> r \<le> 2 ^ (b + c)"
proof -
  have x: "0 < x" by (rule less_le_trans [OF _ assms(1)]) simp
  have y: "0 < y" by (rule less_le_trans [OF _ assms(3)]) simp
  have lo: "2 powi - int (a + d) \<le> x / y"
  proof -
    have "(1 / 2 ^ a) / 2 ^ d \<le> x / y" using assms(1,4) x y by (intro frac_le) (simp_all only: zero_le_power zero_le_numeral less_imp_le)
    then show ?thesis by (simp only: powi_neg power_add divide_divide_eq_left)
  qed
  have hi: "x / y \<le> 2 powi int (b + c)"
  proof -
    have "x / y \<le> 2 ^ b / (1 / 2 ^ c)" using assms(2,3) x by (intro frac_le) simp_all
    then show ?thesis by (simp only: power_int_of_nat power_add divide_divide_eq_right div_by_1)
  qed
  have "- 1074 \<le> - int (a + d)" "int (b + c) < 1024" using assms(5,6) by simp_all
  from f64_round_between [OF lo hi this]
  obtain r where "f64_round (x / y) = Finite r" "2 powi - int (a + d) \<le> r" "r \<le> 2 powi int (b + c)" by blast
  moreover have "y \<noteq> 0" using y by simp
  ultimately show ?thesis by (intro exI [of _ r]) (simp only: f64_div.simps powi_neg power_int_of_nat if_False simp_thms)
qed

text \<open>The observed average and the adjustment are finite: no division by zero, no overflow.\<close>

lemma adjustment_finite:
  assumes "0 < tot" "tot \<le> 2 ^ 128" "0 < n" "n \<le> 2 ^ 64" "t < 2 ^ 64"
  shows "\<exists>c. f64_clamp (1 / 2) 2 (f64_div (f64_of_nat t) (f64_div (f64_of_nat tot) (f64_of_nat n))) = Finite c \<and>
    1 / 2 \<le> c \<and> c \<le> 2"
proof -
  obtain x where x: "f64_of_nat tot = Finite x" "1 \<le> x" "x \<le> 2 ^ 128"
    using f64_of_nat_between [of tot 128] assms by auto
  obtain y where y: "f64_of_nat n = Finite y" "1 \<le> y" "y \<le> 2 ^ 64"
    using f64_of_nat_between [of n 64] assms by auto
  obtain s where s: "f64_div (Finite x) (Finite y) = Finite s" "1 / 2 ^ 64 \<le> s" "s \<le> 2 ^ 128"
    using f64_div_between [of 0 x 128 0 y 64] x y by auto
  have "\<exists>q. f64_div (f64_of_nat t) (Finite s) = Finite q"
  proof (cases "t = 0")
    case True
    have "s \<noteq> 0" using s(2) by auto
    with True show ?thesis by (simp add: f64_round_def round_binary_def)
  next
    case False
    with assms(5) obtain z where z: "f64_of_nat t = Finite z" "1 \<le> z" "z \<le> 2 ^ 64"
      using f64_of_nat_between [of t 64] by auto
    show ?thesis using f64_div_between [of 0 z 64 64 s 128] z s(2,3) by auto
  qed
  then obtain q where "f64_div (f64_of_nat t) (Finite s) = Finite q" by blast
  then show ?thesis using clamp_bounds [of "1 / 2" 2 q] by (simp add: x y s del: f64_div.simps)
qed

lemma f64_of_nat_exact: "n < 2 ^ 53 \<Longrightarrow> f64_of_nat n = Finite (of_nat n)"
proof -
  assume n: "n < 2 ^ 53"
  then have "(of_nat n :: rat) < of_nat (2 ^ 53)" by (simp only: of_nat_less_iff)
  with n show ?thesis by (simp add: f64_of_nat_def f64_round_def round_binary_nat)
qed

text \<open>
  The adjustment lies on the same side of a half, one and two as the exact quotient of the target
  and the observed average, when the numbers are exact.
\<close>

lemma quotient_side:
  assumes "0 < tot" "tot < 2 ^ 53" "0 < n" "n < 2 ^ 53" "t < 2 ^ 53" "j \<in> {- 1, 0, 1}"
  shows "\<exists>q. f64_div (f64_of_nat t) (f64_div (f64_of_nat tot) (f64_of_nat n)) = Finite q \<and>
    ((of_nat tot / of_nat n :: rat) \<le> of_nat t * 2 powi - j \<longrightarrow> 2 powi j \<le> q) \<and>
    ((of_nat t * 2 powi - j :: rat) \<le> of_nat tot / of_nat n \<longrightarrow> q \<le> 2 powi j)"
proof -
  have bounds: "1 \<le> (of_nat tot :: rat)" "of_nat tot \<le> (2 :: rat) ^ 53" "1 \<le> (of_nat n :: rat)" "of_nat n \<le> (2 :: rat) ^ 53"
    "of_nat t \<le> (2 :: rat) ^ 53"
    using assms(1-5) of_nat_mono [of tot "2 ^ 53", where 'a = rat] of_nat_mono [of n "2 ^ 53", where 'a = rat]
      of_nat_mono [of t "2 ^ 53", where 'a = rat] by simp_all
  obtain s where s: "f64_div (Finite (of_nat tot)) (Finite (of_nat n)) = Finite s" "1 / 2 ^ 53 \<le> s" "s \<le> 2 ^ 53"
    using f64_div_between [of 0 "of_nat tot" 53 0 "of_nat n" 53] bounds by auto
  have s0: "0 < s" using s(2) by (rule less_le_trans [rotated]) simp
  have sr: "s = round_binary (of_nat tot / of_nat n)"
    using s(1) assms(3) by (auto simp: f64_round_def Let_def split: if_splits)
  obtain q where q: "f64_div (Finite (of_nat t)) (Finite s) = Finite q"
  proof (cases "t = 0")
    case True
    with s0 that show ?thesis by (simp add: f64_round_def round_binary_def)
  next
    case False
    then have "1 / 2 ^ 0 \<le> (of_nat t :: rat)" by simp
    from f64_div_between [OF this bounds(5) s(2,3)] that show ?thesis by auto
  qed
  have qr: "q = round_binary (of_nat t / s)"
    using q s0 by (auto simp: f64_round_def Let_def split: if_splits)
  have ex: "round_binary (2 powi j) = 2 powi j" using assms(6) by (intro round_binary_power) auto
  have tex: "round_binary (of_nat t * 2 powi - j) = of_nat t * 2 powi - j"
    using assms(5,6) by (intro round_binary_exact [of "int t" "- j"]) auto
  have side: "of_nat t / s = of_nat t * 2 powi - j / s * 2 powi j"
    using power_int_not_zero [of "2 :: rat" j] by (simp add: power_int_minus field_simps)
  have "2 powi j \<le> q" if "(of_nat tot / of_nat n :: rat) \<le> of_nat t * 2 powi - j"
  proof -
    have "s \<le> of_nat t * 2 powi - j" using round_binary_mono [OF _ that] by (simp add: sr tex)
    then have "1 \<le> of_nat t * 2 powi - j / s" using s0 by (simp only: le_divide_eq_1_pos)
    from mult_right_mono [OF this, of "2 powi j"] have "2 powi j \<le> of_nat t / s" unfolding side by simp
    then show ?thesis using round_binary_mono [of "2 powi j" "of_nat t / s"] ex qr by simp
  qed
  moreover have "q \<le> 2 powi j" if "(of_nat t * 2 powi - j :: rat) \<le> of_nat tot / of_nat n"
  proof -
    have "of_nat t * 2 powi - j \<le> s" using round_binary_mono [OF _ that] tex sr by simp
    then have "of_nat t * 2 powi - j / s \<le> 1" using s0 by (simp only: divide_le_eq_1_pos)
    from mult_right_mono [OF this, of "2 powi j"] have "of_nat t / s \<le> 2 powi j" unfolding side by simp
    then show ?thesis using round_binary_mono [of "of_nat t / s" "2 powi j"] ex qr s0 by simp
  qed
  ultimately show ?thesis using q s(1) by (simp only: f64_of_nat_exact [OF assms(2)] f64_of_nat_exact [OF assms(4)] f64_of_nat_exact [OF assms(5)]) blast
qed

text \<open>Scaling an exact difficulty by a factor between a half and two.\<close>

definition scaled :: "nat \<Rightarrow> rat \<Rightarrow> nat" where
  "scaled n c = nat \<lfloor>round_binary (of_nat n * c) + 1 / 2\<rfloor>"

lemma scaled_mono: "0 \<le> c \<Longrightarrow> c \<le> c' \<Longrightarrow> scaled n c \<le> scaled n c'"
  unfolding scaled_def
  by (intro nat_mono floor_mono add_right_mono round_binary_mono mult_left_mono mult_nonneg_nonneg) simp_all

lemma scaled_exact:
  assumes "n < 2 ^ 53"
  shows "scaled n (1 / 2) = (n + 1) div 2" "scaled n 1 = n" "scaled n 2 = 2 * n"
proof -
  have "round_binary (of_nat n * (1 / 2)) = of_nat n * (1 / 2)"
    using assms by (intro round_binary_exact [of "int n" "- 1"]) (simp_all add: power_int_minus)
  then have "scaled n (1 / 2) = nat \<lfloor>(of_nat n * (1 / 2) + 1 / 2 :: rat)\<rfloor>" by (simp only: scaled_def)
  also have "(of_nat n * (1 / 2) + 1 / 2 :: rat) = of_nat (n + 1) / of_nat 2" by (simp add: field_simps)
  also have "nat \<lfloor>(of_nat (n + 1) / of_nat 2 :: rat)\<rfloor> = (n + 1) div 2"
    by (metis floor_divide_of_nat_eq nat_int)
  finally show "scaled n (1 / 2) = (n + 1) div 2" .
  have "\<lfloor>(of_nat m + 1 / 2 :: rat)\<rfloor> = int m" for m by (simp add: floor_unique)
  moreover have "round_binary (of_nat n) = of_nat n" using assms by (rule round_binary_nat)
  moreover have "round_binary (of_nat n * 2) = of_nat (2 * n)"
    using assms by (subst round_binary_exact [of "int n" 1]) simp_all
  ultimately show "scaled n 1 = n" "scaled n 2 = 2 * n" by (simp_all only: scaled_def mult_1_right nat_int)
qed

lemma scaled_difficulty:
  assumes "n < 2 ^ 53" "1 / 2 \<le> c" "c \<le> 2"
  shows "unat (f64_as_u64 (f64_nearest (f64_mul (f64_of_nat n) (Finite c)))) = scaled n c"
    "(n + 1) div 2 \<le> scaled n c" "scaled n c \<le> 2 * n"
proof -
  let ?x = "of_nat n * c" and ?r = "round_binary (of_nat n * c)"
  have c: "0 \<le> c" using assms(2) by (rule order_trans [rotated]) simp
  show lo: "(n + 1) div 2 \<le> scaled n c" using scaled_mono [of "1 / 2" c n] assms by (simp add: scaled_exact(1))
  show hi: "scaled n c \<le> 2 * n" using scaled_mono [OF c assms(3), of n] assms(1) by (simp add: scaled_exact(3))
  have lt: "(of_nat n :: rat) < of_nat (2 ^ 53)" using assms(1) by (simp only: of_nat_less_iff)
  have "?x \<le> of_nat n * 2" using assms(3) by (intro mult_left_mono) simp_all
  then have "?r \<le> round_binary (of_nat n * 2)" using c by (intro round_binary_mono) simp_all
  moreover have "round_binary (of_nat n * 2) = of_nat n * 2"
    using assms(1) by (intro round_binary_exact [of "int n" 1]) simp_all
  ultimately have hi': "?r \<le> of_nat n * 2" by simp
  have r0: "0 \<le> ?r" using round_binary_mono [of 0 ?x] c by (simp add: round_binary_def)
  have "(2 ^ 53 * 2 :: rat) < 2 ^ 1024" by simp
  with hi' lt r0 have "f64_round ?x = Finite ?r" by (auto simp: f64_round_def Let_def)
  then have eq: "f64_nearest (f64_mul (f64_of_nat n) (Finite c)) = Finite (of_int \<lfloor>?r + 1 / 2\<rfloor>)"
    using r0 by (simp add: round_away_def f64_of_nat_exact [OF assms(1)])
  define m where "m = \<lfloor>?r + 1 / 2\<rfloor>"
  have m: "scaled n c = nat m" "0 \<le> m" using r0 by (simp_all add: scaled_def m_def)
  with hi assms(1) have b: "m \<le> 2 * int n" by simp
  have "f64_as_u64 (Finite (of_int m)) = word_of_int m" using b m(2) assms(1) by (simp add: clamp_def)
  moreover have "unat (word_of_int m :: u64) = nat m"
    using b m(2) assms(1) by (simp add: unat_eq_nat_uint uint_word_of_int)
  ultimately show "unat (f64_as_u64 (f64_nearest (f64_mul (f64_of_nat n) (Finite c)))) = scaled n c"
    by (simp only: eq m(1) flip: m_def)
qed

section \<open>Properties\<close>

lemma adjustment_side:
  assumes "0 < tot" "tot < 2 ^ 53" "0 < n" "n < 2 ^ 53" "t < 2 ^ 53"
    and "f64_clamp (1 / 2) 2 (f64_div (f64_of_nat t) (f64_div (f64_of_nat tot) (f64_of_nat n))) = Finite c"
  shows "tot \<le> t * n \<Longrightarrow> 1 \<le> c" "t * n \<le> tot \<Longrightarrow> c \<le> 1"
    "2 * tot \<le> t * n \<Longrightarrow> c = 2" "2 * (t * n) \<le> tot \<Longrightarrow> c = 1 / 2"
proof -
  have quot: "(of_nat a / of_nat n :: rat) \<le> of_nat b" if "a \<le> b * n" for a b
    using that assms(3) by (simp add: pos_divide_le_eq flip: of_nat_mult)
  have quot': "of_nat b \<le> (of_nat a / of_nat n :: rat)" if "b * n \<le> a" for a b
    using that assms(3) by (simp add: pos_le_divide_eq flip: of_nat_mult)
  have side: "\<exists>q. c = clamp q (1 / 2) 2 \<and>
      ((of_nat tot / of_nat n :: rat) \<le> of_nat t * 2 powi - j \<longrightarrow> 2 powi j \<le> q) \<and>
      ((of_nat t * 2 powi - j :: rat) \<le> of_nat tot / of_nat n \<longrightarrow> q \<le> 2 powi j)" if "j \<in> {- 1, 0, 1}" for j
    using quotient_side [OF assms(1-5) that] assms(6) by auto
  show "1 \<le> c" if "tot \<le> t * n" using side [of 0] quot [OF that] by (auto simp: clamp_def)
  show "c \<le> 1" if "t * n \<le> tot" using side [of 0] quot' [OF that] by (auto simp: clamp_def)
  show "c = 2" if "2 * tot \<le> t * n"
  proof -
    have "(of_nat tot / of_nat n :: rat) \<le> of_nat t * 2 powi - 1"
      using quot [OF that] by (simp add: power_int_minus mult.commute)
    with side [of 1] show ?thesis by (auto simp: clamp_def)
  qed
  show "c = 1 / 2" if "2 * (t * n) \<le> tot"
    using side [of "- 1"] quot' [of "2 * t" tot] that by (auto simp: clamp_def power_int_minus mult.assoc)
qed

text \<open>
  C23. The difficulty follows the observed block time in bounded steps. Let the window have at least
  two blocks and the latest difficulty \<open>n\<close> be below \<open>2 ^ 53\<close>. Then the next difficulty is between \<open>n / 2\<close>
  rounded up and \<open>2 n\<close>, but at least one (so it is one when \<open>n\<close> is zero), whatever the timestamps and the
  target. When the target and the time the window took are below \<open>2 ^ 53\<close> as well, it moves the right
  way: not down when the blocks came on average at least as fast as the target, not up when they came
  at most as fast, doubled when at least twice as fast, halved when at most half as fast. With fewer
  blocks the next difficulty is the latest one, or 1000.
\<close>

theorem daa_step_bounded:
  assumes "window = drop (length (timed_blocks d) - window_size a) (timed_blocks d)"
    and "n = unat (last_difficulty window)" "n < 2 ^ 53" "length (timed_blocks d) < 2 ^ 64"
    and "took = observed_total window" "planned = unat (target_time a) * (length window - 1)"
    and "nxt = unat (daa_next_difficulty a d now)"
  shows "if 2 \<le> length window
     then max 1 ((n + 1) div 2) \<le> nxt \<and> nxt \<le> max 1 (2 * n) \<and>
       (took < 2 ^ 53 \<and> unat (target_time a) < 2 ^ 53 \<longrightarrow>
          (took \<le> planned \<longrightarrow> max 1 n \<le> nxt) \<and> (planned \<le> took \<longrightarrow> nxt \<le> max 1 n) \<and>
          (2 * took \<le> planned \<longrightarrow> nxt = max 1 (2 * n)) \<and>
          (2 * planned \<le> took \<longrightarrow> nxt = max 1 ((n + 1) div 2)))
     else daa_next_difficulty a d now =
       (if length (timed_blocks d) < 2 then last_difficulty (timed_blocks d) else last_difficulty window)"
proof (cases "2 \<le> length window")
  case True
  have len: "2 \<le> length (timed_blocks d)" and ne: "get_all_hashes d \<noteq> []"
    using True assms(1) by (auto simp: timed_blocks_def map_filter_simps sort_by_def)
  have wlen: "length window < 2 ^ 64" using assms(1,4) by simp
  then have small: "(length window - 1) * 2 ^ 64 < 2 ^ 64 * 2 ^ 64" by (intro mult_strict_right_mono) simp_all
  moreover have ne': "window \<noteq> []" using True by auto
  ultimately have tot: "0 < unat (total_interval 0 window)" "unat (total_interval 0 window) \<le> 2 ^ 128"
    using True total_interval_bounds [of window 0] by (simp_all, linarith)
  have took: "unat (total_interval 0 window) = took"
    using unat_total_interval [OF ne', of 0] small by (simp add: assms(5))
  obtain c where c: "f64_clamp (1 / 2) 2 (f64_div (f64_of_nat (unat (target_time a)))
      (f64_div (f64_of_nat (unat (total_interval 0 window))) (f64_of_nat (length window - 1)))) = Finite c"
    "1 / 2 \<le> c" "c \<le> 2"
    using adjustment_finite [OF tot, of "length window - 1" "unat (target_time a)"] True wlen unat_u64_bound by force
  have "daa_next_difficulty a d now =
      clamp (f64_as_u64 (f64_nearest (f64_mul (f64_of_nat n) (Finite c)))) 1 max_difficulty"
    by (simp only: daa_next_difficulty_def Let_def assms(1) [symmetric] assms(2) c(1) ne if_False not_less [THEN iffD2, OF len]
        not_less [THEN iffD2, OF True])
  then have "nxt = clamp (scaled n c) 1 (2 ^ 63 - 1)"
    by (simp only: assms(7) unat_clamp_difficulty scaled_difficulty(1) [OF assms(3) c(2,3)])
  with scaled_difficulty(3) [OF assms(3) c(2,3)] assms(3) have nxt: "nxt = max 1 (scaled n c)"
    by (auto simp: clamp_def)
  have "(took \<le> planned \<longrightarrow> max 1 n \<le> nxt) \<and> (planned \<le> took \<longrightarrow> nxt \<le> max 1 n) \<and>
      (2 * took \<le> planned \<longrightarrow> nxt = max 1 (2 * n)) \<and> (2 * planned \<le> took \<longrightarrow> nxt = max 1 ((n + 1) div 2))"
    if exact: "took < 2 ^ 53" "unat (target_time a) < 2 ^ 53"
  proof -
    have "length window - 1 < 2 ^ 53" using exact(1) length_le_observed [of window] assms(5) by simp
    then have side: "took \<le> planned \<Longrightarrow> 1 \<le> c" "planned \<le> took \<Longrightarrow> c \<le> 1" "2 * took \<le> planned \<Longrightarrow> c = 2"
      "2 * planned \<le> took \<Longrightarrow> c = 1 / 2"
      using adjustment_side [of took "length window - 1" "unat (target_time a)" c] c(1) exact tot(1) True took assms(6) by simp_all
    have c0: "0 \<le> c" using c(2) by (rule order_trans [rotated]) simp
    have "took \<le> planned \<Longrightarrow> n \<le> scaled n c" "planned \<le> took \<Longrightarrow> scaled n c \<le> n"
      using scaled_mono [of 1 c n] scaled_mono [OF c0, of 1 n] side(1,2) by (simp_all add: scaled_exact(2) [OF assms(3)])
    moreover have "2 * took \<le> planned \<Longrightarrow> scaled n c = 2 * n" "2 * planned \<le> took \<Longrightarrow> scaled n c = (n + 1) div 2"
      using side(3,4) by (simp_all only: scaled_exact [OF assms(3)])
    ultimately show ?thesis unfolding nxt by auto
  qed
  with True scaled_difficulty(2,3) [OF assms(3) c(2,3)] show ?thesis by (simp add: nxt) auto
next
  case False
  then show ?thesis
    using assms(1) by (auto simp: daa_next_difficulty_def Let_def timed_blocks_def last_difficulty_def
        map_filter_simps sort_by_def)
qed

definition paced_block :: "bytes32 \<Rightarrow> hash fset \<Rightarrow> u64 \<Rightarrow> block_node" where
  "paced_block n ps t = (sample_block n ps)\<lparr>header := (header (sample_block n ps))\<lparr>timestamp := t, difficulty := 1000\<rparr>\<rparr>"

definition paced_dag :: dag where
  "paced_dag = \<lparr>blocks = fmap_of_list
     [(Hash 1, paced_block 1 {||} 100), (Hash 2, paced_block 2 {|Hash 1|} 104), (Hash 3, paced_block 3 {|Hash 1|} 101)],
   tips = {|Hash 2, Hash 3|}\<rparr>"

lemma paced_blocks:
  "timed_blocks paced_dag = [(Hash 1, 100, 1000), (Hash 3, 101, 1000), (Hash 2, 104, 1000)]"
  by code_simp

text \<open>Four seconds for two intervals of one second each: the difficulty falls to its half.\<close>

lemma daa_step_bounded_witness:
  "unat (daa_next_difficulty (daa_new 1 10) paced_dag 0) = 500"
  using daa_step_bounded [OF refl refl _ _ refl refl refl, where d = paced_dag and a = "daa_new 1 10" and now = 0]
  by (simp add: paced_blocks daa_new_def last_difficulty_def)

text \<open>
  The adjustment of the miner moves a difficulty in the allowed range by at most half of it, or
  by one, and keeps it in the range, for every list of timestamps: also when the sum of the
  intervals wraps around, even to zero, where the average is zero and the adjustment infinite.
\<close>

theorem pow_step_bounded:
  assumes "n = unat (pow_difficulty p)" "n < 2 ^ 63" "step = max (n div 2) 1"
  shows "max 1 (n - step) \<le> unat (pow_next_difficulty p stamps) \<and>
    unat (pow_next_difficulty p stamps) \<le> min (n + step) (2 ^ 63 - 1)"
proof -
  let ?d = "pow_difficulty p" and ?s = "max (pow_difficulty p div 2) 1"
  have s: "unat ?s = step" using assms(1,3) by (auto simp: max_def word_le_nat_alt unat_div)
  have bound: "max 1 (n - step) \<le> unat (clamp nxt' 1 max_difficulty) \<and>
      unat (clamp nxt' 1 max_difficulty) \<le> min (n + step) (2 ^ 63 - 1)"
    if nxt': "nxt' = (if saturating_add ?d ?s < nxt then saturating_add ?d ?s
      else if nxt + ?s < ?d then saturating_sub ?d ?s else nxt)" for nxt nxt'
  proof -
    have add: "unat (saturating_add ?d ?s) = n + step"
      using assms by (simp add: unat_saturating_add s)
    have "n - step \<le> unat nxt' \<and> unat nxt' \<le> n + step"
    proof (cases "saturating_add ?d ?s < nxt")
      case True
      with nxt' add show ?thesis by simp
    next
      case False
      then have le: "unat nxt \<le> n + step" using add by (simp add: word_less_nat_alt)
      then have "unat (nxt + ?s) = unat nxt + step"
        using assms s by (subst unat_add_no_overflow) auto
      with False le nxt' show ?thesis
        by (auto simp: word_less_nat_alt unat_saturating_sub s assms(1) split: if_splits)
    qed
    then show ?thesis using assms(2,3) by (simp only: unat_clamp_difficulty) (auto simp: clamp_def)
  qed
  show ?thesis
  proof (cases "length stamps < 2")
    case True
    then have "unat (pow_next_difficulty p stamps) = clamp n 1 (2 ^ 63 - 1)"
      by (simp only: pow_next_difficulty_def if_True unat_clamp_difficulty assms(1))
    with assms(2,3) show ?thesis by (auto simp: clamp_def)
  next
    case False
    then show ?thesis unfolding pow_next_difficulty_def Let_def by (simp only: if_False bound [OF refl])
  qed
qed

lemma pow_step_bounded_witness:
  "max 1 (1000 - 500) \<le> unat (pow_next_difficulty (pow_new 1000) [7, 8, 12]) \<and>
   unat (pow_next_difficulty (pow_new 1000) [7, 8, 12]) \<le> min (1000 + 500) (2 ^ 63 - 1)"
  by (rule pow_step_bounded [OF _ _ _, where n = 1000]) (simp_all add: pow_new_def max_def word_le_nat_alt)

end
