(* ===== verification/Ipa_Tree.thy ===== *)
theory Ipa_Tree
  imports V_Trie Utxo
begin

text \<open>
  The second Verkle tree of the crate (\<open>src/core/crypto/verkle/verkle_tree.rs\<close>), with opening
  proofs. It differs from the tree of \<open>state/v_trie.rs\<close> in its caches (entries are marked dirty
  instead of dropped), in what it does with pruned keys (it keeps the commitments of the path from
  before the pruning, and an insertion takes the mark away), and in its errors: most of them are
  panics. The encoding of nodes is the same code and shares its definitions with \<open>V_Trie\<close>.

  \<open>Panic\<close> is a panic or a call that does not return. \<open>get_node_commitment\<close> always answers
  \<open>Some\<close>, so its \<open>Option\<close> is left out. The counters \<open>cache_hits\<close> and \<open>cache_misses\<close> are written
  and never read, and left out too. The functions on nodes take the height \<open>32 - depth\<close>.
\<close>

section \<open>Data\<close>

datatype panic = Panic

definition or_panic :: "'e + 'a \<Rightarrow> panic + 'a" where
  "or_panic r = map_err (\<lambda>_. Panic) r"

record ('f, 'g) vk_proof =
  vk_proof_type :: proof_type
  vk_path :: bytes
  vk_siblings :: "bytes32 list"
  vk_leaf_value :: "bytes option"
  vk_root :: bytes32
  opening_proofs :: "('f, 'g) opening_proof list"

record 'g vk_cached_node =
  vk_commitment :: "'g commitment option"
  vk_dirty :: bool

record ('f, 'g) vk_tree =
  vk_storage :: memory_storage
  vk_pc :: "'g polynomial_commitment"
  vk_cache :: "(bytes, 'g vk_cached_node) fmap"
  vk_empty_roots :: "bytes32 list"
  vk_empty_scalars :: "'f list"
  vk_root_cache :: "bytes32 option"
  vk_pruned_keys :: "bytes fset"
  pruned_commitments :: "(bytes, 'g commitment) fmap"

section \<open>Nodes\<close>

definition vk_ensure_node :: "bytes \<Rightarrow> ('f, 'g) vk_tree \<Rightarrow> ('f, 'g) vk_tree" where
  "vk_ensure_node path t =
     (if storage_get (vk_storage t) (key_for_path path) = None
      then t\<lparr>vk_storage := storage_put (key_for_path path) (serialize_node None) (vk_storage t)\<rparr>
      else t)"

definition vk_node_exists :: "bytes \<Rightarrow> ('f, 'g) vk_tree \<Rightarrow> bool" where
  "vk_node_exists path t \<longleftrightarrow> storage_get (vk_storage t) (key_for_path path) \<noteq> None"

definition vk_get_node_value :: "bytes \<Rightarrow> ('f, 'g) vk_tree \<Rightarrow> bytes option" where
  "vk_get_node_value path t =
     (if length path = KEY_SIZE \<and> path |\<in>| vk_pruned_keys t then None
      else Option.bind (Option.bind (storage_get (vk_storage t) (key_for_path path)) deserialize_node) (\<lambda>v. v))"

definition vk_set_node_value :: "bytes \<Rightarrow> bytes option \<Rightarrow> ('f, 'g) vk_tree \<Rightarrow> ('f, 'g) vk_tree" where
  "vk_set_node_value path value t =
     t\<lparr>vk_storage := storage_put (key_for_path path) (serialize_node value) (vk_storage t)\<rparr>"

definition mark_dirty :: "bytes \<Rightarrow> (bytes, 'g vk_cached_node) fmap \<Rightarrow> (bytes, 'g vk_cached_node) fmap" where
  "mark_dirty node_key c =
     (case fmlookup c node_key of
        Some cached \<Rightarrow> fmupd node_key (cached\<lparr>vk_dirty := True\<rparr>) c
      | None \<Rightarrow> c)"

definition vk_invalidate_path_cache :: "bytes \<Rightarrow> ('f, 'g) vk_tree \<Rightarrow> ('f, 'g) vk_tree" where
  "vk_invalidate_path_cache path t =
     t\<lparr>vk_cache := fold (\<lambda>i. mark_dirty (key_for_path (take i path))) [0..<length path + 1] (vk_cache t),
       vk_root_cache := None\<rparr>"

definition clear_pruned_state_for_key :: "bytes32 \<Rightarrow> ('f, 'g) vk_tree \<Rightarrow> ('f, 'g) vk_tree" where
  "clear_pruned_state_for_key key t =
     t\<lparr>vk_pruned_keys := vk_pruned_keys t |-| {|array_bytes key|},
       pruned_commitments := fold (\<lambda>i. fmdrop (key_for_path (take i (array_bytes key)))) [0..<KEY_SIZE + 1]
         (pruned_commitments t),
       vk_root_cache := None\<rparr>"

section \<open>Commitments\<close>

definition vk_commit ::
    "('f, 'p, 'g::ab_group_add) ark \<Rightarrow> blake3 \<Rightarrow> 'g polynomial_commitment \<Rightarrow> 'f list \<Rightarrow> panic + 'g commitment" where
  "vk_commit A H pc cs = or_panic (commit A H pc (p_from A cs))"

definition vk_commitment_root_hash :: "('f, 'p, 'g) ark \<Rightarrow> blake3 \<Rightarrow> 'g commitment \<Rightarrow> panic + bytes32" where
  "vk_commitment_root_hash A H cm =
     bind_res (or_panic (point_bytes A (point_of cm))) (\<lambda>bytes. Inr (H bytes))"

definition vk_value_to_scalar :: "('f, 'p, 'g) ark \<Rightarrow> blake3 \<Rightarrow> bytes \<Rightarrow> 'f" where
  "vk_value_to_scalar A H value = from_le_mod A (H value)"

fun vk_empty_roots_from ::
    "('f, 'p, 'g::ab_group_add) ark \<Rightarrow> blake3 \<Rightarrow> 'g polynomial_commitment \<Rightarrow> nat \<Rightarrow> panic + bytes32 list" where
  "vk_empty_roots_from A H pc 0 =
     bind_res (vk_commit A H pc []) (\<lambda>cm.
     bind_res (vk_commitment_root_hash A H cm) (\<lambda>root. Inr [root]))"
| "vk_empty_roots_from A H pc (Suc height) =
     bind_res (vk_empty_roots_from A H pc height) (\<lambda>roots.
     bind_res (vk_commit A H pc (replicate VERKLE_RADIX (from_le_mod A (hd roots)))) (\<lambda>cm.
     bind_res (vk_commitment_root_hash A H cm) (\<lambda>root. Inr (root # roots))))"

definition vk_compute_empty_subtree_constants ::
    "('f, 'p, 'g::ab_group_add) ark \<Rightarrow> blake3 \<Rightarrow> 'g polynomial_commitment \<Rightarrow> panic + bytes32 list \<times> 'f list" where
  "vk_compute_empty_subtree_constants A H pc =
     bind_res (vk_empty_roots_from A H pc KEY_SIZE) (\<lambda>roots. Inr (roots, map (from_le_mod A) roots))"

definition vk_empty_subtree_root_hash :: "('f, 'g) vk_tree \<Rightarrow> nat \<Rightarrow> bytes32" where
  "vk_empty_subtree_root_hash t depth = vk_empty_roots t ! depth"

definition vk_empty_subtree_scalar :: "('f, 'g) vk_tree \<Rightarrow> nat \<Rightarrow> 'f" where
  "vk_empty_subtree_scalar t depth = vk_empty_scalars t ! depth"

text \<open>The commitment the cache holds and has not marked dirty; else the one kept at a pruning.\<close>

definition clean_commitment :: "bytes \<Rightarrow> ('f, 'g) vk_tree \<Rightarrow> 'g commitment option" where
  "clean_commitment path t =
     (case fmlookup (vk_cache t) (key_for_path path) of
        Some cached \<Rightarrow> if \<not> vk_dirty cached then vk_commitment cached else None
      | None \<Rightarrow> None)"

definition known_commitment :: "bytes \<Rightarrow> ('f, 'g) vk_tree \<Rightarrow> 'g commitment option" where
  "known_commitment path t =
     (case clean_commitment path t of
        Some cm \<Rightarrow> Some cm
      | None \<Rightarrow> fmlookup (pruned_commitments t) (key_for_path path))"

definition store_commitment :: "bytes \<Rightarrow> 'g commitment \<Rightarrow> ('f, 'g) vk_tree \<Rightarrow> ('f, 'g) vk_tree" where
  "store_commitment path cm t =
     t\<lparr>vk_cache := fmupd (key_for_path path) \<lparr>vk_commitment = Some cm, vk_dirty = False\<rparr> (vk_cache t)\<rparr>"

text \<open>\<open>get_node_commitment\<close> and \<open>compute_node_root_hash\<close>, given \<open>compute_node_commitment\<close>.\<close>

definition get_commitment_by ::
    "(bytes \<Rightarrow> ('f, 'g) vk_tree \<Rightarrow> (panic + 'g commitment) \<times> ('f, 'g) vk_tree)
       \<Rightarrow> bytes \<Rightarrow> ('f, 'g) vk_tree \<Rightarrow> (panic + 'g commitment) \<times> ('f, 'g) vk_tree" where
  "get_commitment_by compute path t =
     (case known_commitment path t of
        Some cm \<Rightarrow> (Inr cm, t)
      | None \<Rightarrow> bind_st (compute path t) (\<lambda>cm t'. (Inr cm, store_commitment path cm t')))"

definition root_hash_by ::
    "('f, 'p, 'g) ark \<Rightarrow> blake3 \<Rightarrow> (bytes \<Rightarrow> ('f, 'g) vk_tree \<Rightarrow> (panic + 'g commitment) \<times> ('f, 'g) vk_tree)
       \<Rightarrow> bytes \<Rightarrow> ('f, 'g) vk_tree \<Rightarrow> (panic + bytes32) \<times> ('f, 'g) vk_tree" where
  "root_hash_by A H compute path t =
     bind_st (get_commitment_by compute path t) (\<lambda>cm t'. (vk_commitment_root_hash A H cm, t'))"

definition vk_child_scalar ::
    "('f, 'p, 'g) ark \<Rightarrow> blake3 \<Rightarrow> (bytes \<Rightarrow> ('f, 'g) vk_tree \<Rightarrow> (panic + 'g commitment) \<times> ('f, 'g) vk_tree)
       \<Rightarrow> bytes \<Rightarrow> nat \<Rightarrow> nat \<Rightarrow> ('f, 'g) vk_tree \<Rightarrow> (panic + 'f) \<times> ('f, 'g) vk_tree" where
  "vk_child_scalar A H compute path depth child_index t =
     (let child_path = path @ [word_of_nat child_index]
      in if vk_node_exists child_path t
         then bind_st (root_hash_by A H compute child_path t) (\<lambda>root t'. (Inr (from_le_mod A root), t'))
         else (Inr (vk_empty_subtree_scalar t (depth + 1)), t))"

definition vk_leaf_coeffs :: "('f::field, 'p, 'g) ark \<Rightarrow> blake3 \<Rightarrow> bytes \<Rightarrow> ('f, 'g) vk_tree \<Rightarrow> 'f list" where
  "vk_leaf_coeffs A H path t =
     [case vk_get_node_value path t of Some v \<Rightarrow> vk_value_to_scalar A H v | None \<Rightarrow> 0]"

fun vk_compute_node_commitment ::
    "('f::field, 'p, 'g::ab_group_add) ark \<Rightarrow> blake3 \<Rightarrow> nat \<Rightarrow> bytes \<Rightarrow> ('f, 'g) vk_tree
       \<Rightarrow> (panic + 'g commitment) \<times> ('f, 'g) vk_tree" where
  "vk_compute_node_commitment A H 0 path t =
     (case known_commitment path t of
        Some cm \<Rightarrow> (Inr cm, t)
      | None \<Rightarrow> (vk_commit A H (vk_pc t) (vk_leaf_coeffs A H path t), t))"
| "vk_compute_node_commitment A H (Suc height) path t =
     (case known_commitment path t of
        Some cm \<Rightarrow> (Inr cm, t)
      | None \<Rightarrow>
          bind_st (mapM_st (vk_child_scalar A H (\<lambda>child_path t'. vk_compute_node_commitment A H height child_path t')
                     path (KEY_SIZE - Suc height)) [0..<VERKLE_RADIX] t)
            (\<lambda>coeffs t'. (vk_commit A H (vk_pc t') coeffs, t')))"

definition get_node_commitment ::
    "('f::field, 'p, 'g::ab_group_add) ark \<Rightarrow> blake3 \<Rightarrow> nat \<Rightarrow> bytes \<Rightarrow> ('f, 'g) vk_tree
       \<Rightarrow> (panic + 'g commitment) \<times> ('f, 'g) vk_tree" where
  "get_node_commitment A H height = get_commitment_by (vk_compute_node_commitment A H height)"

definition vk_compute_node_root_hash ::
    "('f::field, 'p, 'g::ab_group_add) ark \<Rightarrow> blake3 \<Rightarrow> nat \<Rightarrow> bytes \<Rightarrow> ('f, 'g) vk_tree
       \<Rightarrow> (panic + bytes32) \<times> ('f, 'g) vk_tree" where
  "vk_compute_node_root_hash A H height = root_hash_by A H (vk_compute_node_commitment A H height)"

definition reconstruct_node_polynomial ::
    "('f::field, 'p, 'g::ab_group_add) ark \<Rightarrow> blake3 \<Rightarrow> nat \<Rightarrow> bytes \<Rightarrow> ('f, 'g) vk_tree
       \<Rightarrow> (panic + 'p) \<times> ('f, 'g) vk_tree" where
  "reconstruct_node_polynomial A H height path t =
     (case height of
        0 \<Rightarrow> (Inr (p_from A (vk_leaf_coeffs A H path t)), t)
      | Suc h \<Rightarrow>
          bind_st (mapM_st (vk_child_scalar A H (vk_compute_node_commitment A H h) path (KEY_SIZE - height))
                     [0..<VERKLE_RADIX] t)
            (\<lambda>coeffs t'. (Inr (p_from A coeffs), t')))"

section \<open>Operations\<close>

definition vk_tree_new ::
    "('f::field, 'p, 'g::ab_group_add) ark \<Rightarrow> blake3 \<Rightarrow> memory_storage \<Rightarrow> ('f, 'g) vk_tree option" where
  "vk_tree_new A H s =
     Option.bind (pc_new A H VERKLE_RADIX) (\<lambda>pc.
       case vk_compute_empty_subtree_constants A H pc of
         Inl _ \<Rightarrow> None
       | Inr (roots, scalars) \<Rightarrow>
           Some (vk_ensure_node []
             \<lparr>vk_storage = s, vk_pc = pc, vk_cache = fmempty, vk_empty_roots = roots, vk_empty_scalars = scalars,
              vk_root_cache = None, vk_pruned_keys = {||}, pruned_commitments = fmempty\<rparr>))"

fun vk_ensure_path :: "bytes \<Rightarrow> bytes \<Rightarrow> ('f, 'g) vk_tree \<Rightarrow> ('f, 'g) vk_tree" where
  "vk_ensure_path path [] t = t"
| "vk_ensure_path path (byte # rest) t = vk_ensure_path (path @ [byte]) rest (vk_ensure_node (path @ [byte]) t)"

definition vk_insert :: "bytes32 \<Rightarrow> bytes \<Rightarrow> ('f, 'g) vk_tree \<Rightarrow> ('f, 'g) vk_tree" where
  "vk_insert key value t =
     (let path = take KEY_SIZE (array_bytes key);
          t1 = vk_ensure_path [] path (vk_ensure_node [] (clear_pruned_state_for_key key t))
      in vk_invalidate_path_cache path (vk_set_node_value path (Some value) t1))"

definition vk_get_root ::
    "('f::field, 'p, 'g::ab_group_add) ark \<Rightarrow> blake3 \<Rightarrow> ('f, 'g) vk_tree
       \<Rightarrow> (panic + bytes32) \<times> ('f, 'g) vk_tree" where
  "vk_get_root A H t =
     (case vk_root_cache t of
        Some root \<Rightarrow> (Inr root, t)
      | None \<Rightarrow> bind_st (vk_compute_node_root_hash A H KEY_SIZE [] t)
                 (\<lambda>root t'. (Inr root, t'\<lparr>vk_root_cache := Some root\<rparr>)))"

definition vk_get :: "bytes32 \<Rightarrow> ('f, 'g) vk_tree \<Rightarrow> core_error + bytes option" where
  "vk_get key t =
     (if array_bytes key |\<in>| vk_pruned_keys t then Inl (PrunedData ''Key has been pruned'')
      else Inr (vk_get_node_value (take KEY_SIZE (array_bytes key)) t))"

text \<open>Recording the commitments from the root to the leaf, then the deletion.\<close>

definition record_commitment ::
    "('f::field, 'p, 'g::ab_group_add) ark \<Rightarrow> blake3 \<Rightarrow> bytes \<Rightarrow> ('f, 'g) vk_tree \<Rightarrow> (panic + unit) \<times> ('f, 'g) vk_tree" where
  "record_commitment A H path_prefix t =
     bind_st (get_node_commitment A H (KEY_SIZE - length path_prefix) path_prefix t) (\<lambda>cm t'.
       (Inr (), t'\<lparr>pruned_commitments := fmupd (key_for_path path_prefix) cm (pruned_commitments t')\<rparr>))"

definition vk_prune_key ::
    "('f::field, 'p, 'g::ab_group_add) ark \<Rightarrow> blake3 \<Rightarrow> bytes32 \<Rightarrow> ('f, 'g) vk_tree
       \<Rightarrow> (panic + core_error + unit) \<times> ('f, 'g) vk_tree" where
  "vk_prune_key A H key t =
     (let path = array_bytes key
      in if \<not> vk_node_exists path t
         then (Inr (Inl (PrunedData ''Key does not exist or already absent'')), t)
         else
           bind_st (mapM_st (\<lambda>depth. record_commitment A H (take depth path)) [0..<KEY_SIZE + 1] t) (\<lambda>_ t1.
             let t2 = vk_invalidate_path_cache path
                   (t1\<lparr>vk_storage := storage_delete (key_for_path path) (vk_storage t1),
                       vk_pruned_keys := finsert path (vk_pruned_keys t1)\<rparr>)
             in case fmlookup (pruned_commitments t2) [] of
                  None \<Rightarrow> (Inr (Inr ()), t2)
                | Some root_commit \<Rightarrow>
                    bind_st (vk_commitment_root_hash A H root_commit, t2)
                      (\<lambda>root t3. (Inr (Inr ()), t3\<lparr>vk_root_cache := Some root\<rparr>))))"

section \<open>Proofs\<close>

definition vk_sibling_root ::
    "('f::field, 'p, 'g::ab_group_add) ark \<Rightarrow> blake3 \<Rightarrow> bool \<Rightarrow> bytes \<Rightarrow> nat \<Rightarrow> nat \<Rightarrow> ('f, 'g) vk_tree
       \<Rightarrow> (panic + bytes32) \<times> ('f, 'g) vk_tree" where
  "vk_sibling_root A H path_exists path depth child_index t =
     (let empty_child_root = vk_empty_subtree_root_hash t (depth + 1);
          child_path = path @ [word_of_nat child_index]
      in if path_exists \<and> vk_node_exists path t
         then if vk_node_exists child_path t
              then vk_compute_node_root_hash A H (KEY_SIZE - (depth + 1)) child_path t
              else (Inr empty_child_root, t)
         else (Inr empty_child_root, t))"

definition hash_node_value_at_index ::
    "('f::field, 'p, 'g::ab_group_add) ark \<Rightarrow> blake3 \<Rightarrow> bytes \<Rightarrow> byte \<Rightarrow> ('f, 'g) vk_tree
       \<Rightarrow> (panic + 'f) \<times> ('f, 'g) vk_tree" where
  "hash_node_value_at_index A H path child_index t =
     bind_st (vk_compute_node_root_hash A H (KEY_SIZE - (length path + 1)) (path @ [child_index]) t)
       (\<lambda>child_root t'. (Inr (from_le_mod A child_root), t'))"

text \<open>The scalar of one byte: the array whose first byte it is, read from its low end.\<close>

definition byte_scalar :: "('f, 'p, 'g) ark \<Rightarrow> byte \<Rightarrow> 'f" where
  "byte_scalar A b = from_le_mod A (push_bit 248 (ucast b))"

definition opening_at ::
    "('f::field, 'p, 'g::ab_group_add) ark \<Rightarrow> blake3 \<Rightarrow> bool \<Rightarrow> bytes \<Rightarrow> nat \<Rightarrow> byte \<Rightarrow> ('f, 'g) vk_tree
       \<Rightarrow> (panic + ('f, 'g) opening_proof list) \<times> ('f, 'g) vk_tree" where
  "opening_at A H path_exists path depth byte t =
     (if path_exists \<and> vk_node_exists path t
      then
        bind_st (get_node_commitment A H (KEY_SIZE - depth) path t) (\<lambda>_ t1.
        bind_st (hash_node_value_at_index A H path byte t1) (\<lambda>value_hash t2.
        bind_st (reconstruct_node_polynomial A H (KEY_SIZE - depth) path t2) (\<lambda>poly t3.
          case pc_open A H (vk_pc t3) poly (byte_scalar A byte) value_hash of
            None \<Rightarrow> (Inl Panic, t3)
          | Some (Inl _) \<Rightarrow> (Inr [], t3)
          | Some (Inr opening) \<Rightarrow> (Inr [opening], t3))))
      else (Inr [], t))"

text \<open>The loop over the bytes of the key.\<close>

fun vk_proof_loop ::
    "('f::field, 'p, 'g::ab_group_add) ark \<Rightarrow> blake3 \<Rightarrow> bool \<Rightarrow> bytes \<Rightarrow> nat \<Rightarrow> bytes \<Rightarrow> ('f, 'g) vk_tree
       \<Rightarrow> (panic + bytes32 list \<times> ('f, 'g) opening_proof list \<times> bytes \<times> bool) \<times> ('f, 'g) vk_tree" where
  "vk_proof_loop A H path_exists path depth [] t = (Inr ([], [], path, path_exists), t)"
| "vk_proof_loop A H path_exists path depth (byte # rest) t =
     bind_st (mapM_st (vk_sibling_root A H path_exists path depth) [0..<VERKLE_RADIX] t) (\<lambda>row t1.
     bind_st (opening_at A H path_exists path depth byte t1) (\<lambda>opening t2.
       let path' = (if path_exists then path @ [byte] else path);
           path_exists' = (path_exists \<and> vk_node_exists path' t2)
       in bind_st (vk_proof_loop A H path_exists' path' (depth + 1) rest t2) (\<lambda>(rows, openings, p, ex) t3.
            (Inr (row @ rows, opening @ openings, p, ex), t3))))"

definition vk_generate_proof ::
    "('f::field, 'p, 'g::ab_group_add) ark \<Rightarrow> blake3 \<Rightarrow> bytes32 \<Rightarrow> ('f, 'g) vk_tree
       \<Rightarrow> (panic + ('f, 'g) vk_proof) \<times> ('f, 'g) vk_tree" where
  "vk_generate_proof A H key t =
     bind_st (vk_proof_loop A H True [] 0 (take KEY_SIZE (array_bytes key)) t)
       (\<lambda>(sibs, openings, path, path_exists) t1.
       let leaf = (if path_exists then vk_get_node_value path t1 else None)
       in bind_st (vk_get_root A H t1) (\<lambda>root t2.
            (Inr \<lparr>vk_proof_type = (if leaf \<noteq> None then Membership else NonMembership),
                  vk_path = array_bytes key, vk_siblings = sibs, vk_leaf_value = leaf, vk_root = root,
                  opening_proofs = openings\<rparr>, t2)))"

definition vk_row_coeffs :: "('f, 'p, 'g) ark \<Rightarrow> ('f, 'g) vk_proof \<Rightarrow> nat \<Rightarrow> 'f \<Rightarrow> 'f list" where
  "vk_row_coeffs A prf depth current_scalar =
     map (\<lambda>child_index.
        if child_index = unat (vk_path prf ! depth) then current_scalar
        else from_le_mod A (vk_siblings prf ! (depth * VERKLE_RADIX + child_index)))
       [0..<VERKLE_RADIX]"

text \<open>\<open>None\<close> is the early \<open>return false\<close> of a failed commitment.\<close>

fun vk_verify_loop ::
    "('f, 'p, 'g::ab_group_add) ark \<Rightarrow> blake3 \<Rightarrow> 'g polynomial_commitment \<Rightarrow> ('f, 'g) vk_proof
       \<Rightarrow> nat \<Rightarrow> bytes32 \<Rightarrow> 'f \<Rightarrow> panic + bytes32 option" where
  "vk_verify_loop A H pc prf 0 computed_root current_scalar = Inr (Some computed_root)"
| "vk_verify_loop A H pc prf (Suc depth) computed_root current_scalar =
     (case commit A H pc (p_from A (vk_row_coeffs A prf depth current_scalar)) of
        Inl _ \<Rightarrow> Inr None
      | Inr cm \<Rightarrow>
          bind_res (vk_commitment_root_hash A H cm) (\<lambda>reconstructed_root.
            vk_verify_loop A H pc prf depth reconstructed_root (from_le_mod A reconstructed_root)))"

definition vk_starting_scalar ::
    "('f, 'p, 'g::ab_group_add) ark \<Rightarrow> blake3 \<Rightarrow> ('f, 'g) vk_tree \<Rightarrow> ('f, 'g) vk_proof \<Rightarrow> panic + 'f option" where
  "vk_starting_scalar A H t prf =
     (case (vk_proof_type prf, vk_leaf_value prf) of
        (Membership, Some value) \<Rightarrow>
          (case commit A H (vk_pc t) (p_from A [vk_value_to_scalar A H value]) of
             Inl _ \<Rightarrow> Inr None
           | Inr cm \<Rightarrow> bind_res (vk_commitment_root_hash A H cm) (\<lambda>root. Inr (Some (from_le_mod A root))))
      | (NonMembership, _) \<Rightarrow> Inr (Some (from_le_mod A (vk_empty_subtree_root_hash t KEY_SIZE)))
      | _ \<Rightarrow> Inr None)"

definition vk_verify_proof ::
    "('f::field, 'p, 'g::ab_group_add) ark \<Rightarrow> blake3 \<Rightarrow> ('f, 'g) vk_tree \<Rightarrow> ('f, 'g) vk_proof \<Rightarrow> panic + bool" where
  "vk_verify_proof A H t prf =
     (if length (vk_path prf) \<noteq> KEY_SIZE then Inr False
      else if length (vk_siblings prf) \<noteq> KEY_SIZE * VERKLE_RADIX then Inr False
      else if vk_proof_type prf = Membership \<and> vk_leaf_value prf = None then Inr False
      else if vk_proof_type prf = NonMembership \<and> vk_leaf_value prf \<noteq> None then Inr False
      else if list_ex (\<lambda>opening. \<not> is_ok (pc_verify A H (vk_pc t) (quotient_commitment opening) opening))
                (opening_proofs prf)
      then Inr False
      else bind_res (vk_starting_scalar A H t prf) (\<lambda>start.
             case start of
               None \<Rightarrow> Inr False
             | Some current_scalar \<Rightarrow>
                 bind_res (vk_verify_loop A H (vk_pc t) prf KEY_SIZE 0 current_scalar) (\<lambda>computed.
                   case computed of
                     None \<Rightarrow> Inr False
                   | Some computed_root \<Rightarrow> Inr (computed_root = vk_root prf))))"

definition verify_verkle_proof ::
    "('f::field, 'p, 'g::ab_group_add) ark \<Rightarrow> blake3 \<Rightarrow> ('f, 'g) vk_tree \<Rightarrow> hash \<Rightarrow> ('f, 'g) vk_proof
       \<Rightarrow> hash \<Rightarrow> hash \<Rightarrow> panic + bool" where
  "verify_verkle_proof A H t root prf key value =
     (if vk_root prf \<noteq> as_bytes root then Inr False
      else bind_res (vk_verify_proof A H t prf) (\<lambda>verified.
             Inr (if \<not> verified then False
                  else if vk_path prf \<noteq> hash_bytes key then False
                  else if vk_proof_type prf = Membership
                  then case vk_leaf_value prf of
                         Some leaf \<Rightarrow> hash_new H leaf = value
                       | None \<Rightarrow> False
                  else vk_leaf_value prf = None)))"

section \<open>The root of a UTXO set\<close>

text \<open>
  \<open>to_string\<close> of an unsigned integer. \<open>hex::encode\<close> is a parameter, and so is the order \<open>it\<close> in
  which the iteration visits the map.
\<close>

fun decimal :: "nat \<Rightarrow> string" where
  "decimal n = (if n < 10 then [char_of (48 + n)] else decimal (n div 10) @ [char_of (48 + n mod 10)])"

declare decimal.simps [simp del]

definition utxo_path :: "(bytes \<Rightarrow> string) \<Rightarrow> outpoint \<Rightarrow> tx_output \<Rightarrow> string" where
  "utxo_path hex out output =
     hex (hash_bytes (pubkey_hash output)) @ '':'' @ decimal (unat (snd out)) @ '':VALUE''"

definition utxo_tree_key :: "blake3 \<Rightarrow> (bytes \<Rightarrow> string) \<Rightarrow> outpoint \<Rightarrow> tx_output \<Rightarrow> bytes32" where
  "utxo_tree_key H hex out output = H (str_bytes (utxo_path hex out output))"

definition visited_outputs :: "(outpoint fset \<Rightarrow> outpoint list) \<Rightarrow> utxo_set \<Rightarrow> (outpoint \<times> tx_output) list" where
  "visited_outputs it u =
     List.map_filter (\<lambda>out. map_option (Pair out) (fmlookup (utxos u) out)) (it (fmdom (utxos u)))"

definition calculate_verkle_root ::
    "('f::field, 'p, 'g::ab_group_add) ark \<Rightarrow> blake3 \<Rightarrow> (bytes \<Rightarrow> string) \<Rightarrow> (outpoint fset \<Rightarrow> outpoint list)
       \<Rightarrow> utxo_set \<Rightarrow> ('f, 'g) vk_tree \<Rightarrow> (panic + hash) \<times> ('f, 'g) vk_tree" where
  "calculate_verkle_root A H hex it u t =
     (let cleared = t\<lparr>vk_storage := storage_clear (vk_storage t), vk_cache := fmempty, vk_root_cache := None,
                     vk_pruned_keys := {||}, pruned_commitments := fmempty\<rparr>;
          filled = fold (\<lambda>(out, output). vk_insert (utxo_tree_key H hex out output) (to_le_bytes (out_value output)))
                     (visited_outputs it u) cleared
      in bind_st (vk_get_root A H filled) (\<lambda>root t'. (Inr (Hash root), t')))"

end
