(* ===== verification/Ipa_Tree_Cache.thy ===== *)
theory Ipa_Tree_Cache
  imports Ipa_Tree V_Trie_Cache
begin

text \<open>
  The caches of the second Verkle tree. The specification computes the commitment of a node from
  the store and the commitments kept at prunings, without a cache. The cache is coherent when its
  clean entries are what the specification computes; every operation keeps it so, and a pruning
  does not change what the specification computes.
\<close>

section \<open>The specification\<close>

definition kept_or :: "bytes \<Rightarrow> ('f, 'g) vk_tree \<Rightarrow> panic + 'g commitment \<Rightarrow> panic + 'g commitment" where
  "kept_or path t r =
     (case fmlookup (pruned_commitments t) (key_for_path path) of Some cm \<Rightarrow> Inr cm | None \<Rightarrow> r)"

definition vk_spec_child ::
    "('f, 'p, 'g) ark \<Rightarrow> blake3 \<Rightarrow> ('f, 'g) vk_tree \<Rightarrow> (bytes \<Rightarrow> panic + 'g commitment) \<Rightarrow> bytes \<Rightarrow> nat \<Rightarrow> nat
       \<Rightarrow> panic + 'f" where
  "vk_spec_child A H t child path depth i =
     (if vk_node_exists (path @ [word_of_nat i]) t
      then bind_res (bind_res (child (path @ [word_of_nat i])) (vk_commitment_root_hash A H))
             (\<lambda>root. Inr (from_le_mod A root))
      else Inr (vk_empty_subtree_scalar t (depth + 1)))"

fun vk_spec ::
    "('f::field, 'p, 'g::ab_group_add) ark \<Rightarrow> blake3 \<Rightarrow> ('f, 'g) vk_tree \<Rightarrow> nat \<Rightarrow> bytes \<Rightarrow> panic + 'g commitment" where
  "vk_spec A H t 0 path = kept_or path t (vk_commit A H (vk_pc t) (vk_leaf_coeffs A H path t))"
| "vk_spec A H t (Suc height) path =
     kept_or path t
       (bind_res (mapM_res (vk_spec_child A H t (\<lambda>p. vk_spec A H t height p) path (KEY_SIZE - Suc height))
          [0..<VERKLE_RADIX]) (vk_commit A H (vk_pc t)))"

definition vk_spec_root ::
    "('f::field, 'p, 'g::ab_group_add) ark \<Rightarrow> blake3 \<Rightarrow> ('f, 'g) vk_tree \<Rightarrow> panic + bytes32" where
  "vk_spec_root A H t = bind_res (vk_spec A H t KEY_SIZE []) (vk_commitment_root_hash A H)"

text \<open>What it depends on: the nodes, marks and kept commitments below the path.\<close>

definition agree_below :: "bytes \<Rightarrow> ('f, 'g) vk_tree \<Rightarrow> ('f, 'g) vk_tree \<Rightarrow> bool" where
  "agree_below path t t' \<longleftrightarrow>
     vk_pc t' = vk_pc t \<and> vk_empty_scalars t' = vk_empty_scalars t \<and>
     (\<forall>r. storage_get (vk_storage t') (key_for_path (path @ r)) = storage_get (vk_storage t) (key_for_path (path @ r)) \<and>
        (path @ r |\<in>| vk_pruned_keys t' \<longleftrightarrow> path @ r |\<in>| vk_pruned_keys t) \<and>
        fmlookup (pruned_commitments t') (key_for_path (path @ r)) = fmlookup (pruned_commitments t) (key_for_path (path @ r)))"

lemma agree_belowD:
  assumes "agree_below path t t'"
  shows "vk_pc t' = vk_pc t" "vk_empty_scalars t' = vk_empty_scalars t" "agree_below (path @ r) t t'"
    "storage_get (vk_storage t') (key_for_path path) = storage_get (vk_storage t) (key_for_path path)"
    "path |\<in>| vk_pruned_keys t' \<longleftrightarrow> path |\<in>| vk_pruned_keys t"
    "fmlookup (pruned_commitments t') (key_for_path path) = fmlookup (pruned_commitments t) (key_for_path path)"
proof -
  note all = assms [unfolded agree_below_def]
  show "vk_pc t' = vk_pc t" "vk_empty_scalars t' = vk_empty_scalars t" "agree_below (path @ r) t t'"
    using all by (simp_all add: agree_below_def)
  from all have at: "storage_get (vk_storage t') (key_for_path (path @ [])) = storage_get (vk_storage t) (key_for_path (path @ [])) \<and>
      (path @ [] |\<in>| vk_pruned_keys t' \<longleftrightarrow> path @ [] |\<in>| vk_pruned_keys t) \<and>
      fmlookup (pruned_commitments t') (key_for_path (path @ [])) = fmlookup (pruned_commitments t) (key_for_path (path @ []))"
    by blast
  then show "storage_get (vk_storage t') (key_for_path path) = storage_get (vk_storage t) (key_for_path path)"
    "path |\<in>| vk_pruned_keys t' \<longleftrightarrow> path |\<in>| vk_pruned_keys t"
    "fmlookup (pruned_commitments t') (key_for_path path) = fmlookup (pruned_commitments t) (key_for_path path)"
    by simp_all
qed

lemma agree_nodes:
  assumes "agree_below path t t'"
  shows "vk_node_exists path t' = vk_node_exists path t" "vk_leaf_coeffs A H path t' = vk_leaf_coeffs A H path t"
    "kept_or path t' r = kept_or path t r"
  using agree_belowD(4-6) [OF assms]
  by (simp_all add: vk_node_exists_def vk_leaf_coeffs_def vk_get_node_value_def kept_or_def)

lemma vk_spec_local:
  assumes "agree_below path t t'"
  shows "vk_spec A H t' height path = vk_spec A H t height path"
  using assms
proof (induction height arbitrary: path)
  case 0
  then show ?case by (simp add: agree_nodes [OF 0] agree_belowD(1) [OF 0])
next
  case (Suc height)
  have "vk_spec_child A H t' (\<lambda>p. vk_spec A H t' height p) path d i = vk_spec_child A H t (\<lambda>p. vk_spec A H t height p) path d i"
    for d i
    by (simp add: vk_spec_child_def vk_empty_subtree_scalar_def Suc.IH [OF agree_belowD(3) [OF Suc.prems]]
        agree_nodes(1) [OF agree_belowD(3) [OF Suc.prems]] agree_belowD(2) [OF Suc.prems])
  then show ?case by (simp add: agree_nodes(3) [OF Suc.prems] agree_belowD(1) [OF Suc.prems] cong: mapM_res_cong)
qed

section \<open>Coherence\<close>

definition vk_coherent :: "('f::field, 'p, 'g::ab_group_add) ark \<Rightarrow> blake3 \<Rightarrow> ('f, 'g) vk_tree \<Rightarrow> bool" where
  "vk_coherent A H t \<longleftrightarrow>
     (\<forall>path cm. clean_commitment path t = Some cm \<longrightarrow>
        length path \<le> KEY_SIZE \<and> vk_spec A H t (KEY_SIZE - length path) path = Inr cm)"

definition vk_root_coherent :: "('f::field, 'p, 'g::ab_group_add) ark \<Rightarrow> blake3 \<Rightarrow> ('f, 'g) vk_tree \<Rightarrow> bool" where
  "vk_root_coherent A H t \<longleftrightarrow> (\<forall>root. vk_root_cache t = Some root \<longrightarrow> vk_spec_root A H t = Inr root)"

text \<open>All of a tree but its cache.\<close>

definition vk_same :: "('f, 'g) vk_tree \<Rightarrow> ('f, 'g) vk_tree \<Rightarrow> bool" where
  "vk_same t t' \<longleftrightarrow> t'\<lparr>vk_cache := fmempty\<rparr> = t\<lparr>vk_cache := fmempty\<rparr>"

lemma vk_sameD:
  assumes "vk_same t t'"
  shows "vk_storage t' = vk_storage t" "vk_pc t' = vk_pc t" "vk_empty_scalars t' = vk_empty_scalars t"
    "vk_empty_roots t' = vk_empty_roots t" "vk_root_cache t' = vk_root_cache t"
    "vk_pruned_keys t' = vk_pruned_keys t" "pruned_commitments t' = pruned_commitments t"
  using assms by (cases t; cases t'; simp add: vk_same_def)+

lemma vk_same_refl [simp]: "vk_same t t"
  by (simp add: vk_same_def)

lemma vk_same_store [simp]: "vk_same t (store_commitment path cm t') \<longleftrightarrow> vk_same t t'"
  by (simp add: vk_same_def store_commitment_def)

lemma vk_same_agree: "vk_same t t' \<Longrightarrow> agree_below path t t'"
  using vk_sameD [of t t'] by (simp add: agree_below_def)

lemma vk_same_spec: "vk_same t t' \<Longrightarrow> vk_spec A H t' = vk_spec A H t"
  using vk_spec_local [OF vk_same_agree] by blast

lemma vk_same_nodes:
  assumes "vk_same t t'"
  shows "vk_node_exists p t' = vk_node_exists p t" "vk_get_node_value p t' = vk_get_node_value p t"
    "vk_leaf_coeffs A H p t' = vk_leaf_coeffs A H p t" "vk_empty_subtree_scalar t' d = vk_empty_subtree_scalar t d"
    "vk_empty_subtree_root_hash t' d = vk_empty_subtree_root_hash t d" "vk_pc t' = vk_pc t"
  using vk_sameD [OF assms]
  by (simp_all add: vk_node_exists_def vk_get_node_value_def vk_leaf_coeffs_def vk_empty_subtree_scalar_def
      vk_empty_subtree_root_hash_def)

lemma clean_commitment_store [simp]:
  "clean_commitment p (store_commitment path cm t) = (if p = path then Some cm else clean_commitment p t)"
  by (simp add: clean_commitment_def store_commitment_def)

abbreviation vk_reading ::
    "('f::field, 'p, 'g::ab_group_add) ark \<Rightarrow> blake3 \<Rightarrow> ('f, 'g) vk_tree \<Rightarrow> ('f, 'g) vk_tree \<Rightarrow> bool" where
  "vk_reading A H t0 t \<equiv> vk_coherent A H t \<and> vk_same t0 t"

text \<open>What is known without computing is what the specification computes.\<close>

lemma known_commitment_spec:
  assumes "vk_reading A H t0 t" "length path + height = KEY_SIZE" "known_commitment path t = Some cm"
  shows "vk_spec A H t0 height path = Inr cm"
proof (cases "clean_commitment path t")
  case (Some c)
  have "KEY_SIZE - length path = height" using assms(2) by simp
  with Some assms have "vk_spec A H t height path = Inr cm"
    by (auto simp: known_commitment_def vk_coherent_def)
  with assms(1) vk_same_spec [of t0 t A H] show ?thesis by simp
next
  case None
  with assms vk_sameD(7) [of t0 t] have "fmlookup (pruned_commitments t0) (key_for_path path) = Some cm"
    by (simp add: known_commitment_def)
  then show ?thesis by (cases height) (simp_all add: kept_or_def)
qed

lemma not_known_kept:
  assumes "vk_same t0 t" "known_commitment path t = None"
  shows "kept_or path t0 r = r"
  using assms vk_sameD(7) [of t0 t] by (simp add: known_commitment_def kept_or_def split: option.splits)

lemma vk_answers_get:
  assumes "vk_reading A H t0 t" "length path + height = KEY_SIZE"
    and "answers (vk_reading A H t0) (vk_spec A H t0 height path) (compute path t)"
  shows "answers (vk_reading A H t0) (vk_spec A H t0 height path) (get_commitment_by compute path t)"
proof (cases "known_commitment path t")
  case (Some cm)
  with known_commitment_spec [OF assms(1,2)] assms(1) show ?thesis by (simp add: get_commitment_by_def answers_def)
next
  case None
  have "vk_reading A H t0 (store_commitment path cm s)" if "vk_spec A H t0 height path = Inr cm" "vk_reading A H t0 s" for cm s
  proof -
    have "vk_spec A H (store_commitment path cm s) = vk_spec A H t0" "vk_spec A H s = vk_spec A H t0"
      using that vk_same_spec [of t0 "store_commitment path cm s"] vk_same_spec [of t0 s] by simp_all
    moreover have "KEY_SIZE - length path = height" using assms(2) by simp
    ultimately show ?thesis
      using that assms(2) by (simp add: vk_coherent_def)
  qed
  with None assms(3) show ?thesis
    by (cases "compute path t"; cases "fst (compute path t)") (auto simp: get_commitment_by_def answers_def)
qed

lemma vk_answers_root_by:
  assumes "vk_reading A H t0 t" "length path + height = KEY_SIZE"
    and "answers (vk_reading A H t0) (vk_spec A H t0 height path) (compute path t)"
  shows "answers (vk_reading A H t0) (bind_res (vk_spec A H t0 height path) (vk_commitment_root_hash A H))
     (root_hash_by A H compute path t)"
  unfolding root_hash_by_def
  by (rule answers_bind [OF vk_answers_get [where compute = compute, OF assms]]) (simp_all add: answers_def)

text \<open>One row of children.\<close>

lemma vk_answers_row:
  assumes "vk_reading A H t0 t" "length path + Suc height = KEY_SIZE"
    and "\<And>p s. vk_reading A H t0 s \<Longrightarrow> length p + height = KEY_SIZE \<Longrightarrow>
       answers (vk_reading A H t0) (vk_spec A H t0 height p) (compute p s)"
  shows "answers (vk_reading A H t0)
     (mapM_res (vk_spec_child A H t0 (\<lambda>p. vk_spec A H t0 height p) path d) [0..<VERKLE_RADIX])
     (mapM_st (vk_child_scalar A H compute path d) [0..<VERKLE_RADIX] t)"
proof (rule answers_mapM [where I = "vk_reading A H t0"])
  show "vk_reading A H t0 t" by (rule assms(1))
  fix i s assume s: "vk_reading A H t0 s"
  let ?p = "path @ [word_of_nat i]"
  show "answers (vk_reading A H t0) (vk_spec_child A H t0 (\<lambda>p. vk_spec A H t0 height p) path d i)
      (vk_child_scalar A H compute path d i s)"
  proof (cases "vk_node_exists ?p t0")
    case True
    have p: "length ?p + height = KEY_SIZE" using assms(2) by simp
    have "answers (vk_reading A H t0)
        (bind_res (bind_res (vk_spec A H t0 height ?p) (vk_commitment_root_hash A H)) (\<lambda>root. Inr (from_le_mod A root)))
        (bind_st (root_hash_by A H compute ?p s) (\<lambda>root t'. (Inr (from_le_mod A root), t')))"
      by (rule answers_bind [OF vk_answers_root_by [where compute = compute, OF s p assms(3) [OF s p]]]) (simp_all add: answers_def)
    with True s vk_same_nodes(1) [of t0 s] show ?thesis by (simp add: vk_spec_child_def vk_child_scalar_def Let_def)
  next
    case False
    with s vk_same_nodes(1,4) [of t0 s] show ?thesis
      by (simp add: vk_spec_child_def vk_child_scalar_def Let_def answers_def)
  qed
qed

lemma vk_answers_compute:
  assumes "vk_reading A H t0 t" "length path + height = KEY_SIZE"
  shows "answers (vk_reading A H t0) (vk_spec A H t0 height path) (vk_compute_node_commitment A H height path t)"
  using assms
proof (induction height arbitrary: path t)
  case 0
  then show ?case
    using known_commitment_spec [OF 0] not_known_kept [of t0 t path] vk_same_nodes(3) [where t = t0 and t' = t and A = A and H = H] vk_same_nodes(6) [of t0 t]
    by (cases "known_commitment path t") (simp_all add: answers_def)
next
  case (Suc height)
  show ?case
  proof (cases "known_commitment path t")
    case (Some cm)
    with known_commitment_spec [OF Suc.prems] Suc.prems(1) show ?thesis by (simp only: vk_compute_node_commitment.simps option.case answers_def fst_conv snd_conv)
  next
    case None
    have "answers (vk_reading A H t0)
        (bind_res (mapM_res (vk_spec_child A H t0 (\<lambda>p. vk_spec A H t0 height p) path (KEY_SIZE - Suc height)) [0..<VERKLE_RADIX])
          (vk_commit A H (vk_pc t0)))
        (bind_st (mapM_st (vk_child_scalar A H (\<lambda>p t'. vk_compute_node_commitment A H height p t') path (KEY_SIZE - Suc height))
            [0..<VERKLE_RADIX] t) (\<lambda>coeffs t'. (vk_commit A H (vk_pc t') coeffs, t')))"
    proof (rule answers_bind)
      show "answers (vk_reading A H t0)
          (mapM_res (vk_spec_child A H t0 (\<lambda>p. vk_spec A H t0 height p) path (KEY_SIZE - Suc height)) [0..<VERKLE_RADIX])
          (mapM_st (vk_child_scalar A H (\<lambda>p t'. vk_compute_node_commitment A H height p t') path (KEY_SIZE - Suc height))
            [0..<VERKLE_RADIX] t)"
        by (rule vk_answers_row [OF Suc.prems]) (rule Suc.IH)
      show "answers (vk_reading A H t0) (vk_commit A H (vk_pc t0) cs) (vk_commit A H (vk_pc s) cs, s)"
        if "vk_reading A H t0 s" for cs s
        using that vk_same_nodes(6) [of t0 s] by (simp add: answers_def)
    qed
    with None not_known_kept [of t0 t path] Suc.prems(1) show ?thesis
      by (simp only: vk_compute_node_commitment.simps vk_spec.simps option.case)
  qed
qed

lemma vk_answers_commitment:
  assumes "vk_reading A H t0 t" "length path + height = KEY_SIZE"
  shows "answers (vk_reading A H t0) (vk_spec A H t0 height path) (get_node_commitment A H height path t)"
  unfolding get_node_commitment_def by (rule vk_answers_get [where compute = "vk_compute_node_commitment A H height", OF assms vk_answers_compute [OF assms]])

lemma vk_answers_root:
  assumes "vk_reading A H t0 t" "length path + height = KEY_SIZE"
  shows "answers (vk_reading A H t0) (bind_res (vk_spec A H t0 height path) (vk_commitment_root_hash A H))
     (vk_compute_node_root_hash A H height path t)"
  unfolding vk_compute_node_root_hash_def by (rule vk_answers_root_by [where compute = "vk_compute_node_commitment A H height", OF assms vk_answers_compute [OF assms]])

section \<open>The store after an insertion\<close>

text \<open>The same store as the first tree's.\<close>

definition trie_of :: "('f, 'g) vk_tree \<Rightarrow> ('f, 'g) verkle_tree" where
  "trie_of t =
     \<lparr>vt_storage = vk_storage t, vt_pc = vk_pc t, commitment_cache = fmempty,
      empty_subtree_roots = vk_empty_roots t, empty_subtree_scalars = vk_empty_scalars t,
      root_cache = None, dirty = True, pruned_keys = {||}\<rparr>"

lemma trie_of_fields [simp]:
  "vt_storage (trie_of t) = vk_storage t" "vt_pc (trie_of t) = vk_pc t"
  "empty_subtree_roots (trie_of t) = vk_empty_roots t" "empty_subtree_scalars (trie_of t) = vk_empty_scalars t"
  "pruned_keys (trie_of t) = {||}"
  by (simp_all add: trie_of_def)

lemma trie_of_caches [simp]: "caches_ok A H (trie_of t)"
  by (simp add: trie_of_def caches_ok_def coherent_def root_coherent_def cache_lookup_def)

lemma vk_ensure_node_frame [simp, frames]:
  "vk_pc (vk_ensure_node p t) = vk_pc t" "vk_cache (vk_ensure_node p t) = vk_cache t"
  "vk_empty_roots (vk_ensure_node p t) = vk_empty_roots t" "vk_empty_scalars (vk_ensure_node p t) = vk_empty_scalars t"
  "vk_root_cache (vk_ensure_node p t) = vk_root_cache t" "vk_pruned_keys (vk_ensure_node p t) = vk_pruned_keys t"
  "pruned_commitments (vk_ensure_node p t) = pruned_commitments t"
  by (simp_all add: vk_ensure_node_def)

lemma vk_ensure_path_frame [simp, frames]:
  "vk_pc (vk_ensure_path p bs t) = vk_pc t" "vk_cache (vk_ensure_path p bs t) = vk_cache t"
  "vk_empty_roots (vk_ensure_path p bs t) = vk_empty_roots t" "vk_empty_scalars (vk_ensure_path p bs t) = vk_empty_scalars t"
  "vk_root_cache (vk_ensure_path p bs t) = vk_root_cache t" "vk_pruned_keys (vk_ensure_path p bs t) = vk_pruned_keys t"
  "pruned_commitments (vk_ensure_path p bs t) = pruned_commitments t"
  by (induction p bs t rule: vk_ensure_path.induct) simp_all

lemma vk_storage_ensure_node:
  "vt_storage t' = vk_storage t \<Longrightarrow> vk_storage (vk_ensure_node p t) = vt_storage (ensure_node p t')"
  by (simp add: vk_ensure_node_def ensure_node_def)

lemma vk_storage_ensure_path:
  "vt_storage t' = vk_storage t \<Longrightarrow> vk_storage (vk_ensure_path p bs t) = vt_storage (ensure_path p bs t')"
  by (induction p bs t arbitrary: t' rule: vk_ensure_path.induct) (simp_all add: vk_storage_ensure_node)

lemma vk_storage_insert:
  assumes "vt_storage u = vk_storage t"
  shows "vk_storage (vk_insert key v t) = vt_storage (tree_insert key v u)"
proof -
  let ?t1 = "vk_ensure_node [] (clear_pruned_state_for_key key t)"
  have "vk_storage ?t1 = vt_storage (ensure_node [] (u\<lparr>dirty := True\<rparr>))"
    by (rule vk_storage_ensure_node) (simp add: clear_pruned_state_for_key_def assms)
  then show ?thesis
    using vk_storage_ensure_path [of "ensure_node [] (u\<lparr>dirty := True\<rparr>)" ?t1 "[]" "array_bytes key"]
    by (simp add: vk_insert_def tree_insert_def Let_def vk_invalidate_path_cache_def vk_set_node_value_def set_node_value_def)
qed

lemma vk_insert_fields [simp, frames]:
  "vk_pc (vk_insert key v t) = vk_pc t" "vk_empty_roots (vk_insert key v t) = vk_empty_roots t"
  "vk_empty_scalars (vk_insert key v t) = vk_empty_scalars t" "vk_root_cache (vk_insert key v t) = None"
  "vk_pruned_keys (vk_insert key v t) = vk_pruned_keys t |-| {|array_bytes key|}"
  "vk_storage (vk_insert key v t) = vt_storage (tree_insert key v (trie_of t))"
  by (simp_all only: vk_storage_insert [of "trie_of t"] trie_of_fields)
    (simp_all add: vk_insert_def Let_def vk_invalidate_path_cache_def vk_set_node_value_def clear_pruned_state_for_key_def)

lemma prefix_take_iff: "prefix q path \<longleftrightarrow> (\<exists>i \<le> length path. q = take i path)"
proof
  assume "prefix q path"
  then have "q = take (length q) path" "length q \<le> length path"
    using prefix_length_le [of q path] by (auto simp: prefix_def)
  then show "\<exists>i \<le> length path. q = take i path" by blast
qed (auto simp: take_is_prefix)

lemma fmlookup_drop_prefixes:
  "fmlookup (fold (\<lambda>i. fmdrop (key_for_path (take i path))) [0..<n] c) k =
     (if \<exists>i<n. k = key_for_path (take i path) then None else fmlookup c k)"
  by (induction n) (auto simp: less_Suc_eq)

lemma fmlookup_mark_dirty:
  "fmlookup (fold (\<lambda>i. mark_dirty (key_for_path (take i path))) [0..<n] c) k =
     (if \<exists>i<n. k = key_for_path (take i path)
      then map_option (\<lambda>e. e\<lparr>vk_dirty := True\<rparr>) (fmlookup c k) else fmlookup c k)"
proof (induction n)
  case (Suc n)
  let ?c = "fold (\<lambda>i. mark_dirty (key_for_path (take i path))) [0..<n] c"
  have "fmlookup (mark_dirty key d) k = (if k = key then map_option (\<lambda>e. e\<lparr>vk_dirty := True\<rparr>) (fmlookup d k) else fmlookup d k)"
    for key and d :: "(bytes, 'a vk_cached_node) fmap"
    by (auto simp: mark_dirty_def split: option.split)
  then have step: "fmlookup (mark_dirty (key_for_path (take n path)) ?c) k =
      (if k = key_for_path (take n path) then map_option (\<lambda>e. e\<lparr>vk_dirty := True\<rparr>) (fmlookup ?c k) else fmlookup ?c k)" .
  have "(\<exists>i < Suc n. k = key_for_path (take i path)) \<longleftrightarrow>
      k = key_for_path (take n path) \<or> (\<exists>i < n. k = key_for_path (take i path))"
    by (auto simp: less_Suc_eq)
  moreover have "fold (\<lambda>i. mark_dirty (key_for_path (take i path))) [0..<Suc n] c = mark_dirty (key_for_path (take n path)) ?c"
    by simp
  moreover have "map_option (\<lambda>e. e\<lparr>vk_dirty := True\<rparr>) (map_option (\<lambda>e. e\<lparr>vk_dirty := True\<rparr>) (fmlookup c k)) =
      map_option (\<lambda>e. e\<lparr>vk_dirty := True\<rparr>) (fmlookup c k)"
    by (simp add: option.map_comp comp_def)
  ultimately show ?case by (auto simp only: step Suc split: if_split)
qed simp

lemma pruned_commitments_insert:
  "fmlookup (pruned_commitments (vk_insert key v t)) k =
     (if \<exists>p. prefix p (array_bytes key) \<and> k = key_for_path p then None else fmlookup (pruned_commitments t) k)"
proof -
  have "(\<exists>i < KEY_SIZE + 1. k = key_for_path (take i (array_bytes key))) \<longleftrightarrow>
      (\<exists>p. prefix p (array_bytes key) \<and> k = key_for_path p)"
  proof -
    have len: "length (array_bytes key) = KEY_SIZE" by (simp add: KEY_SIZE_def)
    show ?thesis unfolding prefix_take_iff len by (auto simp: less_Suc_eq_le)
  qed
  then show ?thesis
    by (simp add: vk_insert_def Let_def vk_invalidate_path_cache_def vk_set_node_value_def
        clear_pruned_state_for_key_def fmlookup_drop_prefixes del: upt_Suc)
qed

lemma clean_commitment_invalidate:
  "clean_commitment q (vk_invalidate_path_cache path t) = (if prefix q path then None else clean_commitment q t)"
  by (auto simp: clean_commitment_def vk_invalidate_path_cache_def fmlookup_mark_dirty prefix_take_iff less_Suc_eq_le
      simp del: upt_Suc split: option.splits)

section \<open>Operations keep the caches coherent\<close>

definition vk_ok :: "('f::field, 'p, 'g::ab_group_add) ark \<Rightarrow> blake3 \<Rightarrow> ('f, 'g) vk_tree \<Rightarrow> bool" where
  "vk_ok A H t \<longleftrightarrow> vk_coherent A H t \<and> vk_root_coherent A H t \<and> fmlookup (pruned_commitments t) [] = None"

lemma vk_coherent_change:
  assumes "vk_coherent A H t" "vk_pc t' = vk_pc t" "vk_empty_scalars t' = vk_empty_scalars t"
    and "\<And>q. clean_commitment q t' = (if prefix q path then None else clean_commitment q t)"
    and "\<And>q. \<not> prefix q path \<Longrightarrow> storage_get (vk_storage t') (key_for_path q) = storage_get (vk_storage t) (key_for_path q) \<and>
       (q |\<in>| vk_pruned_keys t' \<longleftrightarrow> q |\<in>| vk_pruned_keys t) \<and>
       fmlookup (pruned_commitments t') (key_for_path q) = fmlookup (pruned_commitments t) (key_for_path q)"
  shows "vk_coherent A H t'"
  unfolding vk_coherent_def
proof (intro allI impI)
  fix q cm assume "clean_commitment q t' = Some cm"
  then have q: "\<not> prefix q path" "clean_commitment q t = Some cm" using assms(4) [of q] by (auto split: if_splits)
  have "agree_below q t t'"
    unfolding agree_below_def using assms(2,3,5) q(1) append_prefixD by blast
  from vk_spec_local [OF this, of A H "KEY_SIZE - length q"] q(2) assms(1)
  show "length q \<le> KEY_SIZE \<and> vk_spec A H t' (KEY_SIZE - length q) q = Inr cm" by (simp add: vk_coherent_def)
qed

lemma vk_ok_insert:
  assumes "vk_ok A H t"
  shows "vk_ok A H (vk_insert key v t)"
proof -
  have "vk_coherent A H (vk_insert key v t)"
  proof (rule vk_coherent_change [where path = "array_bytes key"])
    show "vk_coherent A H t" using assms by (simp add: vk_ok_def)
    show "clean_commitment q (vk_insert key v t) = (if prefix q (array_bytes key) then None else clean_commitment q t)" for q
      by (simp add: vk_insert_def Let_def clean_commitment_invalidate)
        (simp add: clean_commitment_def vk_set_node_value_def clear_pruned_state_for_key_def)
    show "storage_get (vk_storage (vk_insert key v t)) (key_for_path q) = storage_get (vk_storage t) (key_for_path q) \<and>
        (q |\<in>| vk_pruned_keys (vk_insert key v t) \<longleftrightarrow> q |\<in>| vk_pruned_keys t) \<and>
        fmlookup (pruned_commitments (vk_insert key v t)) (key_for_path q) = fmlookup (pruned_commitments t) (key_for_path q)"
      if "\<not> prefix q (array_bytes key)" for q
      using that by (auto simp: storage_tree_insert pruned_commitments_insert)
  qed simp_all
  with assms show ?thesis by (simp add: vk_ok_def vk_root_coherent_def pruned_commitments_insert)
qed

lemma vk_ok_read:
  assumes "vk_ok A H t0" "vk_reading A H t0 t"
  shows "vk_ok A H t"
proof -
  have "vk_spec A H t = vk_spec A H t0" using assms(2) vk_same_spec by blast
  with assms vk_sameD(5,7) [of t0 t] show ?thesis by (simp add: vk_ok_def vk_root_coherent_def vk_spec_root_def)
qed

lemma vk_root_cache_same [simp]:
  "vk_spec A H (t\<lparr>vk_root_cache := r\<rparr>) = vk_spec A H t" "clean_commitment p (t\<lparr>vk_root_cache := r\<rparr>) = clean_commitment p t"
  "vk_coherent A H (t\<lparr>vk_root_cache := r\<rparr>) \<longleftrightarrow> vk_coherent A H t"
proof -
  show "vk_spec A H (t\<lparr>vk_root_cache := r\<rparr>) = vk_spec A H t"
    by (intro ext vk_spec_local) (simp add: agree_below_def)
  then show "vk_coherent A H (t\<lparr>vk_root_cache := r\<rparr>) \<longleftrightarrow> vk_coherent A H t"
    by (simp add: vk_coherent_def clean_commitment_def)
  show "clean_commitment p (t\<lparr>vk_root_cache := r\<rparr>) = clean_commitment p t" by (simp add: clean_commitment_def)
qed

lemma vk_get_root_result:
  assumes "vk_ok A H t"
  shows "fst (vk_get_root A H t) = vk_spec_root A H t \<and> vk_ok A H (snd (vk_get_root A H t)) \<and>
    (\<exists>r s. snd (vk_get_root A H t) = s\<lparr>vk_root_cache := r\<rparr> \<and> vk_same t s)"
proof (cases "vk_root_cache t")
  case (Some root)
  then have "vk_spec_root A H t = Inr root" using assms by (simp add: vk_ok_def vk_root_coherent_def)
  moreover have "t = t\<lparr>vk_root_cache := vk_root_cache t\<rparr> \<and> vk_same t t" by simp
  then have "\<exists>r s. t = s\<lparr>vk_root_cache := r\<rparr> \<and> vk_same t s" by blast
  ultimately show ?thesis using Some assms by (simp add: vk_get_root_def)
next
  case None
  let ?c = "vk_compute_node_root_hash A H KEY_SIZE [] t"
  have "answers (vk_reading A H t) (vk_spec_root A H t) ?c"
    unfolding vk_spec_root_def by (rule vk_answers_root) (use assms in \<open>simp_all add: vk_ok_def\<close>)
  then have fst: "fst ?c = vk_spec_root A H t" and r: "vk_reading A H t (snd ?c)" by (simp_all add: answers_def)
  have ok: "vk_ok A H (snd ?c)" by (rule vk_ok_read [OF assms r])
  show ?thesis
  proof (cases "fst ?c")
    case (Inl e)
    then have "vk_get_root A H t = (Inl e, snd ?c)" using None by (cases ?c) (simp add: vk_get_root_def)
    moreover have "snd ?c = (snd ?c)\<lparr>vk_root_cache := vk_root_cache (snd ?c)\<rparr>" by simp
    ultimately show ?thesis using fst Inl ok r by (metis fst_conv snd_conv)
  next
    case (Inr root)
    then have gr: "vk_get_root A H t = (Inr root, (snd ?c)\<lparr>vk_root_cache := Some root\<rparr>)"
      using None by (cases ?c) (simp add: vk_get_root_def)
    have "vk_spec_root A H (snd ?c) = Inr root"
      using Inr fst r vk_same_spec [of t "snd ?c" A H] by (simp add: vk_spec_root_def)
    then have "vk_ok A H ((snd ?c)\<lparr>vk_root_cache := Some root\<rparr>)"
      using ok by (simp add: vk_ok_def vk_root_coherent_def vk_spec_root_def)
    with gr fst Inr r show ?thesis by auto
  qed
qed

end
