(* ===== verification/Ipa_Tree_Ops.thy ===== *)
theory Ipa_Tree_Ops
  imports Ipa_Tree_Cache V_Trie_Proof
begin

text \<open>
  Pruning and runs of operations on the second Verkle tree: a pruning keeps every commitment as it
  was, every run keeps the caches coherent, and without prunings the tree agrees with the tree of
  \<open>state/v_trie.rs\<close>.
\<close>

section \<open>Keeping a commitment changes none\<close>

lemma vk_spec_keep:
  assumes "length q \<le> KEY_SIZE" "vk_spec A H t (KEY_SIZE - length q) q = Inr cm" "length p + h = KEY_SIZE"
    and "t' = t\<lparr>pruned_commitments := fmupd (key_for_path q) cm (pruned_commitments t)\<rparr>"
  shows "vk_spec A H t' h p = vk_spec A H t h p"
  using assms(3)
proof (induction h arbitrary: p)
  case 0
  have "vk_leaf_coeffs A H p t' = vk_leaf_coeffs A H p t" "vk_pc t' = vk_pc t"
    by (simp_all add: assms(4) vk_leaf_coeffs_def vk_get_node_value_def)
  moreover have "vk_spec A H t 0 q = Inr cm" if "p = q" using assms(2) 0 that by simp
  ultimately show ?case by (cases "p = q") (simp_all add: kept_or_def assms(4))
next
  case (Suc h)
  show ?case
  proof (cases "p = q")
    case True
    then have "KEY_SIZE - length q = Suc h" using Suc.prems by simp
    with assms(2) have "vk_spec A H t (Suc h) q = Inr cm" by simp
    with True show ?thesis by (simp add: kept_or_def assms(4))
  next
    case False
    have "vk_spec_child A H t' (\<lambda>p. vk_spec A H t' h p) p d i = vk_spec_child A H t (\<lambda>p. vk_spec A H t h p) p d i" for d i
      using Suc.prems
      by (simp add: vk_spec_child_def Suc.IH) (simp add: assms(4) vk_node_exists_def vk_empty_subtree_scalar_def)
    moreover have "vk_pc t' = vk_pc t" by (simp add: assms(4))
    moreover have "kept_or p t' r = kept_or p t r" for r using False by (simp add: kept_or_def assms(4))
    ultimately show ?thesis by (simp cong: mapM_res_cong)
  qed
qed

text \<open>Deleting a leaf whose path is kept changes none either.\<close>

lemma vk_spec_delete:
  assumes "\<And>q. prefix q (array_bytes key) \<Longrightarrow> fmlookup (pruned_commitments t) (key_for_path q) \<noteq> None"
    and "t' = t\<lparr>vk_storage := storage_delete (key_for_path (array_bytes key)) (vk_storage t),
                vk_pruned_keys := finsert (array_bytes key) (vk_pruned_keys t)\<rparr>"
    and "length p + h = KEY_SIZE"
  shows "vk_spec A H t' h p = vk_spec A H t h p"
  using assms(3)
proof (induction h arbitrary: p)
  case 0
  have pc: "vk_pc t' = vk_pc t" and kept: "kept_or p t' r = kept_or p t r" for r
    by (simp_all add: assms(2) kept_or_def)
  show ?case
  proof (cases "fmlookup (pruned_commitments t) (key_for_path p)")
    case None
    then have "p \<noteq> array_bytes key" using assms(1) [of p] by auto
    then have "vk_leaf_coeffs A H p t' = vk_leaf_coeffs A H p t"
      by (simp add: assms(2) vk_leaf_coeffs_def vk_get_node_value_def memory.get_del)
    then show ?thesis using pc kept by simp
  next
    case (Some cm)
    then have "kept_or p t r = Inr cm" for r by (simp add: kept_or_def)
    then show ?thesis using kept by simp
  qed
next
  case (Suc h)
  have pc: "vk_pc t' = vk_pc t" and kept: "kept_or p t' r = kept_or p t r" for r
    by (simp_all add: assms(2) kept_or_def)
  show ?case
  proof (cases "fmlookup (pruned_commitments t) (key_for_path p)")
    case None
    then have "p @ [b] \<noteq> array_bytes key" for b using assms(1) [of p] by (metis prefixI)
    then have "vk_spec_child A H t' (\<lambda>p. vk_spec A H t' h p) p d i = vk_spec_child A H t (\<lambda>p. vk_spec A H t h p) p d i" for d i
      using Suc.prems
      by (simp add: vk_spec_child_def Suc.IH) (simp add: assms(2) vk_node_exists_def vk_empty_subtree_scalar_def memory.get_del)
    then show ?thesis using pc kept by (simp cong: mapM_res_cong)
  next
    case (Some cm)
    then have "kept_or p t r = Inr cm" for r by (simp add: kept_or_def)
    then show ?thesis using kept by simp
  qed
qed

lemma vk_coherent_spec:
  assumes "vk_coherent A H t" "\<And>p h. length p + h = KEY_SIZE \<Longrightarrow> vk_spec A H t' h p = vk_spec A H t h p"
    and "\<And>q cm. clean_commitment q t' = Some cm \<Longrightarrow> clean_commitment q t = Some cm"
  shows "vk_coherent A H t'"
  unfolding vk_coherent_def
proof (intro allI impI)
  fix q cm assume "clean_commitment q t' = Some cm"
  with assms(1,3) have "length q \<le> KEY_SIZE" "vk_spec A H t (KEY_SIZE - length q) q = Inr cm"
    by (simp_all add: vk_coherent_def)
  with assms(2) [of q "KEY_SIZE - length q"] show "length q \<le> KEY_SIZE \<and> vk_spec A H t' (KEY_SIZE - length q) q = Inr cm"
    by simp
qed

section \<open>Pruning\<close>

text \<open>What recording commitments leaves: all fields but the caches, and the specification.\<close>

definition recorded :: "('f::field, 'p, 'g::ab_group_add) ark \<Rightarrow> blake3 \<Rightarrow> ('f, 'g) vk_tree \<Rightarrow> ('f, 'g) vk_tree \<Rightarrow> bool" where
  "recorded A H t0 t \<longleftrightarrow>
     vk_coherent A H t \<and> vk_storage t = vk_storage t0 \<and> vk_pc t = vk_pc t0 \<and> vk_empty_roots t = vk_empty_roots t0 \<and>
     vk_empty_scalars t = vk_empty_scalars t0 \<and> vk_root_cache t = vk_root_cache t0 \<and>
     vk_pruned_keys t = vk_pruned_keys t0 \<and>
     fmlookup (pruned_commitments t) [] = fmlookup (pruned_commitments t0) [] \<and>
     (\<forall>p h. length p + h = KEY_SIZE \<longrightarrow> vk_spec A H t h p = vk_spec A H t0 h p)"

lemma record_commitment_result:
  assumes "recorded A H t0 t" "length q \<le> KEY_SIZE" "record_commitment A H q t = (r, t')"
  shows "recorded A H t0 t' \<and>
     (\<forall>k. fmlookup (pruned_commitments t) k \<noteq> None \<longrightarrow> fmlookup (pruned_commitments t') k \<noteq> None) \<and>
     (is_ok r \<longrightarrow> fmlookup (pruned_commitments t') (key_for_path q) \<noteq> None)"
proof -
  let ?c = "get_node_commitment A H (KEY_SIZE - length q) q t"
  have "answers (vk_reading A H t) (vk_spec A H t (KEY_SIZE - length q) q) ?c"
    by (rule vk_answers_commitment) (use assms(1,2) in \<open>simp_all add: recorded_def\<close>)
  then have fst: "fst ?c = vk_spec A H t (KEY_SIZE - length q) q" and rd: "vk_reading A H t (snd ?c)"
    by (simp_all add: answers_def)
  note same = vk_sameD [of t "snd ?c"]
  have rc: "recorded A H t0 (snd ?c)"
    using assms(1) rd same vk_same_spec [of t "snd ?c" A H] by (simp add: recorded_def)
  show ?thesis
  proof (cases "fst ?c")
    case (Inl e)
    then have "record_commitment A H q t = (Inl e, snd ?c)" by (cases ?c) (simp add: record_commitment_def)
    with assms(3) rc rd same(7) show ?thesis by auto
  next
    case (Inr cm)
    let ?t = "(snd ?c)\<lparr>pruned_commitments := fmupd (key_for_path q) cm (pruned_commitments (snd ?c))\<rparr>"
    have eq: "record_commitment A H q t = (Inr (), ?t)" using Inr by (cases ?c) (simp add: record_commitment_def)
    have "vk_spec A H (snd ?c) (KEY_SIZE - length q) q = Inr cm"
      using Inr fst rd vk_same_spec [of t "snd ?c" A H] by simp
    from vk_spec_keep [OF assms(2) this _ refl]
    have spec: "vk_spec A H ?t h p = vk_spec A H (snd ?c) h p" if "length p + h = KEY_SIZE" for p h using that by blast
    have "vk_coherent A H ?t"
      by (rule vk_coherent_spec [of A H "snd ?c"]) (use rc spec in \<open>simp_all add: recorded_def clean_commitment_def\<close>)
    moreover have "[] \<noteq> key_for_path q" by (simp add: key_for_path_def)
    ultimately have "recorded A H t0 ?t" using rc spec by (simp add: recorded_def)
    with eq assms(3) rd same(7) show ?thesis by auto
  qed
qed

lemma record_all_result:
  assumes "recorded A H t0 t" "\<forall>n \<in> set ns. length (f n) \<le> KEY_SIZE"
    and "mapM_st (\<lambda>n. record_commitment A H (f n)) ns t = (r, t')"
  shows "recorded A H t0 t' \<and>
     (\<forall>k. fmlookup (pruned_commitments t) k \<noteq> None \<longrightarrow> fmlookup (pruned_commitments t') k \<noteq> None) \<and>
     (is_ok r \<longrightarrow> (\<forall>n \<in> set ns. fmlookup (pruned_commitments t') (key_for_path (f n)) \<noteq> None))"
  using assms
proof (induction ns arbitrary: t t' r)
  case (Cons n ns)
  obtain r1 t1 where one: "record_commitment A H (f n) t = (r1, t1)" by (cases "record_commitment A H (f n) t")
  note step = record_commitment_result [OF Cons.prems(1) _ one]
  show ?case
  proof (cases r1)
    case (Inl e)
    with Cons.prems step one show ?thesis by auto
  next
    case (Inr u)
    obtain r2 t2 where rest: "mapM_st (\<lambda>n. record_commitment A H (f n)) ns t1 = (r2, t2)"
      by (cases "mapM_st (\<lambda>n. record_commitment A H (f n)) ns t1")
    have ih: "recorded A H t0 t2 \<and>
       (\<forall>k. fmlookup (pruned_commitments t1) k \<noteq> None \<longrightarrow> fmlookup (pruned_commitments t2) k \<noteq> None) \<and>
       (is_ok r2 \<longrightarrow> (\<forall>n \<in> set ns. fmlookup (pruned_commitments t2) (key_for_path (f n)) \<noteq> None))"
      using Cons.IH [OF _ _ rest] Cons.prems step by auto
    have "t' = t2" "is_ok r \<longleftrightarrow> is_ok r2"
      using Cons.prems(3) one Inr rest by (cases r2; auto)+
    with ih step Inr Cons.prems(2) show ?thesis by auto
  qed
qed simp

lemma vk_prune_result:
  assumes "vk_ok A H t" "vk_prune_key A H key t = (r, t')"
  shows "vk_ok A H t' \<and> vk_pc t' = vk_pc t \<and> vk_empty_scalars t' = vk_empty_scalars t \<and>
     (\<forall>p h. length p + h = KEY_SIZE \<longrightarrow> vk_spec A H t' h p = vk_spec A H t h p) \<and>
     (case r of
        Inl _ \<Rightarrow> vk_storage t' = vk_storage t \<and> vk_pruned_keys t' = vk_pruned_keys t
      | Inr (Inl e) \<Rightarrow> t' = t \<and> \<not> vk_node_exists (array_bytes key) t \<and>
          e = PrunedData ''Key does not exist or already absent''
      | Inr (Inr _) \<Rightarrow> vk_node_exists (array_bytes key) t \<and>
          vk_storage t' = storage_delete (key_for_path (array_bytes key)) (vk_storage t) \<and>
          vk_pruned_keys t' = finsert (array_bytes key) (vk_pruned_keys t))"
proof (cases "vk_node_exists (array_bytes key) t")
  case False
  with assms show ?thesis by (auto simp: vk_prune_key_def Let_def)
next
  case True
  let ?loop = "mapM_st (\<lambda>depth. record_commitment A H (take depth (array_bytes key))) [0..<KEY_SIZE + 1] t"
  obtain r1 t1 where loop: "?loop = (r1, t1)" by (cases ?loop)
  have "recorded A H t t" using assms(1) by (simp add: recorded_def vk_ok_def)
  then have rec: "recorded A H t t1"
    and all: "is_ok r1 \<Longrightarrow> \<forall>n \<in> set [0..<KEY_SIZE + 1]. fmlookup (pruned_commitments t1) (key_for_path (take n (array_bytes key))) \<noteq> None"
    using record_all_result [OF _ _ loop] by (auto simp: KEY_SIZE_def)
  show ?thesis
  proof (cases r1)
    case (Inl e)
    with True loop assms(2) have "r = Inl e" "t' = t1" by (simp_all add: vk_prune_key_def Let_def)
    with rec assms(1) show ?thesis by (simp add: recorded_def vk_ok_def vk_root_coherent_def vk_spec_root_def)
  next
    case (Inr us)
    let ?d = "t1\<lparr>vk_storage := storage_delete (key_for_path (array_bytes key)) (vk_storage t1),
        vk_pruned_keys := finsert (array_bytes key) (vk_pruned_keys t1)\<rparr>"
    let ?t = "vk_invalidate_path_cache (array_bytes key) ?d"
    have P: "pruned_commitments ?t = pruned_commitments t1" by (simp add: vk_invalidate_path_cache_def)
    moreover have "fmlookup (pruned_commitments t1) [] = None" using rec assms(1) by (simp add: recorded_def vk_ok_def)
    ultimately have eq: "r = Inr (Inr ())" "t' = ?t"
      using True loop assms(2) Inr by (simp_all add: vk_prune_key_def Let_def)
    have kept: "fmlookup (pruned_commitments t1) (key_for_path q) \<noteq> None" if "prefix q (array_bytes key)" for q
      using that all Inr by (auto simp: prefix_take_iff KEY_SIZE_def)
    have "agree_below p ?d ?t" for p by (simp add: agree_below_def vk_invalidate_path_cache_def)
    from vk_spec_local [OF this] vk_spec_delete [OF kept refl]
    have spec: "vk_spec A H ?t h p = vk_spec A H t1 h p" if "length p + h = KEY_SIZE" for p h using that by metis
    have "vk_coherent A H ?t"
    proof (rule vk_coherent_spec [of A H t1])
      show "vk_coherent A H t1" using rec by (simp add: recorded_def)
      show "clean_commitment q t1 = Some cm" if "clean_commitment q ?t = Some cm" for q cm
        using that by (simp add: clean_commitment_invalidate split: if_splits) (simp add: clean_commitment_def)
    qed (rule spec)
    moreover have "vk_root_cache ?t = None" "vk_storage ?t = vk_storage ?d" "vk_pruned_keys ?t = vk_pruned_keys ?d"
      "vk_pc ?t = vk_pc t1" "vk_empty_scalars ?t = vk_empty_scalars t1"
      by (simp_all add: vk_invalidate_path_cache_def)
    moreover have "vk_spec A H ?t h p = vk_spec A H t h p" if "length p + h = KEY_SIZE" for p h
      using spec [OF that] rec that by (simp add: recorded_def)
    ultimately show ?thesis
      using True eq rec P assms(1) by (simp add: recorded_def vk_ok_def vk_root_coherent_def)
  qed
qed

section \<open>Proof generation\<close>

lemma vk_inv_root:
  assumes "vk_reading A H t0 t" "length path + height = KEY_SIZE"
  shows "vk_reading A H t0 (snd (vk_compute_node_root_hash A H height path t))"
  by (rule answersD(2) [OF vk_answers_root [OF assms]])

lemma vk_inv_opening:
  assumes "vk_reading A H t0 t" "path_exists \<Longrightarrow> length path = depth" "depth < KEY_SIZE"
  shows "vk_reading A H t0 (snd (opening_at A H path_exists path depth byte t))"
proof (cases "path_exists \<and> vk_node_exists path t")
  case True
  let ?I = "vk_reading A H t0"
  have len: "length path + (KEY_SIZE - depth) = KEY_SIZE" "length (path @ [byte]) + (KEY_SIZE - (length path + 1)) = KEY_SIZE"
    using True assms(2,3) by simp_all
  obtain h where h: "KEY_SIZE - depth = Suc h" using assms(3) by (cases "KEY_SIZE - depth") auto
  have "?I (snd (get_node_commitment A H (KEY_SIZE - depth) path t))"
    by (rule answersD(2) [OF vk_answers_commitment [OF assms(1) len(1)]])
  moreover have "?I (snd (hash_node_value_at_index A H path byte s))" if "?I s" for s
    unfolding hash_node_value_at_index_def
    by (rule bind_st_inv [where I = ?I, OF vk_inv_root [OF that len(2)]]) simp
  moreover have "?I (snd (reconstruct_node_polynomial A H (KEY_SIZE - depth) path s))" if "?I s" for s
  proof -
    have "answers ?I (mapM_res (vk_spec_child A H t0 (\<lambda>p. vk_spec A H t0 h p) path (KEY_SIZE - Suc h)) [0..<VERKLE_RADIX])
        (mapM_st (vk_child_scalar A H (vk_compute_node_commitment A H h) path (KEY_SIZE - Suc h)) [0..<VERKLE_RADIX] s)"
      using len(1) h by (intro vk_answers_row that vk_answers_compute) simp_all
    from answersD(2) [where I = ?I, OF this] show ?thesis
      unfolding reconstruct_node_polynomial_def h
      by (simp only: nat.case) (erule bind_st_inv [where I = ?I], simp)
  qed
  ultimately show ?thesis
    using True unfolding opening_at_def
    by (simp only: if_True simp_thms)
      (intro bind_st_inv [where I = ?I]; auto split: option.splits sum.splits)
qed (use assms in \<open>auto simp: opening_at_def\<close>)

lemma vk_inv_sibling:
  assumes "vk_reading A H t0 t" "path_exists \<Longrightarrow> length path = depth" "depth < KEY_SIZE"
  shows "vk_reading A H t0 (snd (vk_sibling_root A H path_exists path depth i t))"
proof (cases path_exists)
  case True
  then have "length (path @ [word_of_nat i]) + (KEY_SIZE - (depth + 1)) = KEY_SIZE" using assms(2,3) by simp
  from vk_inv_root [OF assms(1) this] assms(1) show ?thesis by (simp add: vk_sibling_root_def Let_def)
qed (use assms(1) in \<open>simp add: vk_sibling_root_def Let_def\<close>)

lemma vk_proof_loop_reading:
  assumes "vk_reading A H t0 t" "depth + length bs = KEY_SIZE" "path_exists \<Longrightarrow> length path = depth"
  shows "vk_reading A H t0 (snd (vk_proof_loop A H path_exists path depth bs t))"
  using assms
proof (induction bs arbitrary: path_exists path depth t)
  case (Cons byte rest)
  let ?I = "vk_reading A H t0"
  have d: "depth < KEY_SIZE" using Cons.prems(2) by simp
  have row: "?I (snd (mapM_st (vk_sibling_root A H path_exists path depth) [0..<VERKLE_RADIX] t))"
    using vk_inv_sibling [where A = A and H = H and ?t0.0 = t0, OF _ Cons.prems(3) d] Cons.prems(1)
    by (intro mapM_st_inv [where I = ?I]) blast+
  have loop: "?I (snd (vk_proof_loop A H ex p (depth + 1) rest s))" if "?I s" "ex \<Longrightarrow> length p = depth + 1" for ex p s
    using Cons.prems(2) that by (intro Cons.IH) simp_all
  show ?case
    unfolding vk_proof_loop.simps Let_def
    by (intro bind_st_inv [where I = ?I, OF row] bind_st_inv [where I = ?I, OF vk_inv_opening]
        bind_st_inv [where I = ?I, OF loop] Cons.prems(3) d)
      (use Cons.prems(3) in \<open>auto split: if_splits\<close>)
qed simp

lemma vk_ok_proof:
  assumes "vk_ok A H t"
  shows "vk_ok A H (snd (vk_generate_proof A H key t))"
proof -
  let ?loop = "vk_proof_loop A H True [] 0 (array_bytes key) t"
  have r: "vk_reading A H t (snd ?loop)"
    using assms by (intro vk_proof_loop_reading) (simp_all add: vk_ok_def KEY_SIZE_def)
  have "vk_ok A H (snd ?loop)" by (rule vk_ok_read [OF assms r])
  then show ?thesis
    unfolding vk_generate_proof_def take_key
    by (rule bind_st_inv [where I = "vk_ok A H"])
      (auto simp: Let_def split_beta intro!: bind_st_inv [where I = "vk_ok A H"] dest: vk_get_root_result)
qed

section \<open>Runs of operations\<close>

lemma vk_tree_new_fields:
  assumes "vk_tree_new A H s = Some t"
  shows "vk_ok A H t" "vk_pruned_keys t = {||}" "pruned_commitments t = fmempty" "vk_node_exists [] t"
    "pc_new A H VERKLE_RADIX = Some (vk_pc t)"
    "vk_empty_roots_from A H (vk_pc t) KEY_SIZE = Inr (vk_empty_roots t)"
    "vk_empty_scalars t = map (from_le_mod A) (vk_empty_roots t)"
    "vk_storage t = (if storage_get s (key_for_path []) = None
       then storage_put (key_for_path []) (serialize_node None) s else s)"
proof -
  obtain pc roots where pc: "pc_new A H VERKLE_RADIX = Some pc" and roots: "vk_empty_roots_from A H pc KEY_SIZE = Inr roots"
    and t: "t = vk_ensure_node []
      \<lparr>vk_storage = s, vk_pc = pc, vk_cache = fmempty, vk_empty_roots = roots,
       vk_empty_scalars = map (from_le_mod A) roots, vk_root_cache = None, vk_pruned_keys = {||},
       pruned_commitments = fmempty\<rparr>"
    using assms
    by (cases "pc_new A H VERKLE_RADIX"; cases "vk_empty_roots_from A H (the (pc_new A H VERKLE_RADIX)) KEY_SIZE")
      (auto simp: vk_tree_new_def vk_compute_empty_subtree_constants_def)
  have "vk_cache t = fmempty" "vk_root_cache t = None" by (simp_all add: t)
  then show "vk_ok A H t"
    by (simp add: vk_ok_def vk_coherent_def vk_root_coherent_def clean_commitment_def t)
  show "vk_pruned_keys t = {||}" "pruned_commitments t = fmempty" "pc_new A H VERKLE_RADIX = Some (vk_pc t)"
    "vk_empty_roots_from A H (vk_pc t) KEY_SIZE = Inr (vk_empty_roots t)"
    "vk_empty_scalars t = map (from_le_mod A) (vk_empty_roots t)"
    by (simp_all add: t pc roots)
  show "vk_node_exists [] t" "vk_storage t = (if storage_get s (key_for_path []) = None
       then storage_put (key_for_path []) (serialize_node None) s else s)"
    by (simp_all add: t vk_node_exists_def vk_ensure_node_def memory.get_put)
qed

datatype vk_op =
    VkInsert bytes32 bytes
  | VkPrune bytes32
  | VkRoot
  | VkProof bytes32
  | VkUtxoRoot "bytes \<Rightarrow> string" "outpoint fset \<Rightarrow> outpoint list" utxo_set

fun run_vk_op :: "('f::field, 'p, 'g::ab_group_add) ark \<Rightarrow> blake3 \<Rightarrow> vk_op \<Rightarrow> ('f, 'g) vk_tree \<Rightarrow> ('f, 'g) vk_tree" where
  "run_vk_op A H (VkInsert key value) t = vk_insert key value t"
| "run_vk_op A H (VkPrune key) t = snd (vk_prune_key A H key t)"
| "run_vk_op A H VkRoot t = snd (vk_get_root A H t)"
| "run_vk_op A H (VkProof key) t = snd (vk_generate_proof A H key t)"
| "run_vk_op A H (VkUtxoRoot hex it u) t = snd (calculate_verkle_root A H hex it u t)"

lemma vk_ok_inserts: "vk_ok A H t \<Longrightarrow> vk_ok A H (fold (\<lambda>x. vk_insert (f x) (g x)) xs t)"
  by (induction xs arbitrary: t) (simp_all add: vk_ok_insert)

definition cleared_tree :: "('f, 'g) vk_tree \<Rightarrow> ('f, 'g) vk_tree" where
  "cleared_tree t =
     t\<lparr>vk_storage := storage_clear (vk_storage t), vk_cache := fmempty, vk_root_cache := None,
       vk_pruned_keys := {||}, pruned_commitments := fmempty\<rparr>"

definition utxo_tree ::
    "blake3 \<Rightarrow> (bytes \<Rightarrow> string) \<Rightarrow> (outpoint fset \<Rightarrow> outpoint list) \<Rightarrow> utxo_set \<Rightarrow> ('f, 'g) vk_tree \<Rightarrow> ('f, 'g) vk_tree" where
  "utxo_tree H hex it u t =
     fold (\<lambda>x. vk_insert (utxo_tree_key H hex (fst x) (snd x)) (to_le_bytes (out_value (snd x))))
       (visited_outputs it u) (cleared_tree t)"

lemma calculate_verkle_root_eq:
  "calculate_verkle_root A H hex it u t =
     bind_st (vk_get_root A H (utxo_tree H hex it u t)) (\<lambda>root t'. (Inr (Hash root), t'))"
  by (simp add: calculate_verkle_root_def utxo_tree_def cleared_tree_def Let_def case_prod_unfold)

lemma vk_ok_utxo_tree: "vk_ok A H (utxo_tree H hex it u t)"
proof -
  have "vk_ok A H (cleared_tree t)"
    by (simp add: vk_ok_def vk_coherent_def vk_root_coherent_def clean_commitment_def cleared_tree_def)
  then show ?thesis unfolding utxo_tree_def by (rule vk_ok_inserts)
qed

lemma run_vk_op_ok: "vk_ok A H t \<Longrightarrow> vk_ok A H (run_vk_op A H op t)"
proof (cases op)
  case (VkUtxoRoot hex it u)
  have "vk_ok A H (snd (vk_get_root A H (utxo_tree H hex it u t)))"
    using vk_get_root_result [OF vk_ok_utxo_tree] by blast
  then have "vk_ok A H (snd (calculate_verkle_root A H hex it u t))"
    unfolding calculate_verkle_root_eq by (rule bind_st_inv [where I = "vk_ok A H"]) simp
  with VkUtxoRoot show ?thesis by simp
next
  case (VkPrune key)
  assume "vk_ok A H t"
  from vk_prune_result [OF this surjective_pairing] VkPrune show ?thesis by simp
qed (use vk_get_root_result in \<open>auto simp: vk_ok_insert vk_ok_proof\<close>)

lemma run_vk_ok: "vk_ok A H t \<Longrightarrow> vk_ok A H (fold (run_vk_op A H) ops t)"
  by (induction ops arbitrary: t) (simp_all add: run_vk_op_ok)

lemma inserts_constants [simp]:
  "vk_pc (fold (\<lambda>x. vk_insert (f x) (g x)) xs t) = vk_pc t"
  "vk_empty_scalars (fold (\<lambda>x. vk_insert (f x) (g x)) xs t) = vk_empty_scalars t"
  "vk_empty_roots (fold (\<lambda>x. vk_insert (f x) (g x)) xs t) = vk_empty_roots t"
  by (induction xs arbitrary: t) simp_all

lemma vk_get_root_same:
  assumes "vk_ok A H t"
  shows "vk_storage (snd (vk_get_root A H t)) = vk_storage t" "vk_pc (snd (vk_get_root A H t)) = vk_pc t"
    "vk_empty_scalars (snd (vk_get_root A H t)) = vk_empty_scalars t"
    "vk_pruned_keys (snd (vk_get_root A H t)) = vk_pruned_keys t"
    "pruned_commitments (snd (vk_get_root A H t)) = pruned_commitments t"
proof -
  obtain r s where "snd (vk_get_root A H t) = s\<lparr>vk_root_cache := r\<rparr>" "vk_same t s"
    using vk_get_root_result [OF assms] by blast
  with vk_sameD [of t s] show "vk_storage (snd (vk_get_root A H t)) = vk_storage t"
    "vk_pc (snd (vk_get_root A H t)) = vk_pc t" "vk_empty_scalars (snd (vk_get_root A H t)) = vk_empty_scalars t"
    "vk_pruned_keys (snd (vk_get_root A H t)) = vk_pruned_keys t"
    "pruned_commitments (snd (vk_get_root A H t)) = pruned_commitments t" by simp_all
qed

text \<open>The constants of a tree: the commitment scheme and the scalars of empty subtrees.\<close>

definition same_constants :: "('f, 'g) vk_tree \<Rightarrow> ('f, 'g) vk_tree \<Rightarrow> bool" where
  "same_constants t t' \<longleftrightarrow> vk_pc t' = vk_pc t \<and> vk_empty_scalars t' = vk_empty_scalars t"

lemma same_constants_get_root: "vk_ok A H t' \<Longrightarrow> same_constants t (snd (vk_get_root A H t')) \<longleftrightarrow> same_constants t t'"
  by (simp add: same_constants_def vk_get_root_same)

lemma run_vk_op_constants:
  assumes "vk_ok A H t"
  shows "same_constants t (run_vk_op A H op t)"
proof (cases op)
  case (VkPrune key)
  from vk_prune_result [OF assms surjective_pairing] VkPrune show ?thesis by (simp add: same_constants_def)
next
  case (VkProof key)
  let ?I = "\<lambda>t'. vk_ok A H t' \<and> same_constants t t'"
  have r: "vk_reading A H t (snd (vk_proof_loop A H True [] 0 (array_bytes key) t))"
    using assms by (intro vk_proof_loop_reading) (simp_all add: vk_ok_def KEY_SIZE_def)
  have "?I (snd (vk_proof_loop A H True [] 0 (array_bytes key) t))"
    using vk_ok_read [OF assms r] r vk_sameD(2,3) unfolding same_constants_def by blast
  then have "?I (snd (vk_generate_proof A H key t))"
    unfolding vk_generate_proof_def take_key
    by (rule bind_st_inv [where I = ?I])
      (auto simp: Let_def split_beta same_constants_get_root dest: vk_get_root_result intro!: bind_st_inv [where I = ?I])
  with VkProof show ?thesis by simp
next
  case (VkUtxoRoot hex it u)
  have "same_constants t (utxo_tree H hex it u t)" by (simp add: same_constants_def utxo_tree_def cleared_tree_def)
  then have "same_constants t (snd (calculate_verkle_root A H hex it u t))"
    unfolding calculate_verkle_root_eq
    by (intro bind_st_inv [where I = "same_constants t"]) (simp_all add: same_constants_get_root [OF vk_ok_utxo_tree])
  with VkUtxoRoot show ?thesis by simp
qed (simp_all add: same_constants_get_root [OF assms], simp_all add: same_constants_def)

lemma run_vk_constants: "vk_ok A H t \<Longrightarrow> same_constants t (fold (run_vk_op A H) ops t)"
proof (induction ops arbitrary: t)
  case (Cons op ops)
  from Cons.IH [OF run_vk_op_ok [OF Cons.prems]] run_vk_op_constants [OF Cons.prems] show ?case
    by (simp add: same_constants_def)
qed (simp add: same_constants_def)

section \<open>Reading\<close>

lemma vk_get_eq:
  "vk_get k t = (if array_bytes k |\<in>| vk_pruned_keys t then Inl (PrunedData ''Key has been pruned'')
     else Inr (get_node_value (vk_storage t) (array_bytes k)))"
  by (simp add: vk_get_def vk_get_node_value_def get_node_value_def)

lemma vk_get_insert:
  assumes "length v < 2 ^ 32"
  shows "vk_get k (vk_insert key v t) = (if k = key then Inr (Some v) else vk_get k t)"
  by (auto simp: vk_get_eq get_node_value_insert [OF assms])

lemma vk_get_deleted:
  assumes "vk_storage t' = storage_delete (key_for_path (array_bytes key)) (vk_storage t)"
    and "vk_pruned_keys t' = finsert (array_bytes key) (vk_pruned_keys t)"
  shows "vk_get k t' = (if k = key then Inl (PrunedData ''Key has been pruned'') else vk_get k t)"
  using assms by (simp add: vk_get_eq get_node_value_def memory.get_del)

end
