(* ===== verification/Ipa_Tree_Proof.thy ===== *)
theory Ipa_Tree_Proof
  imports Ipa_Tree_Ops
begin

text \<open>
  The second Verkle tree against the first: when commitments do not fail nothing panics; without
  prunings both trees compute the same commitments, and the proofs of the second pass its verifier,
  which in turn decides like the verifier of the first, the opening proofs left aside.
\<close>

section \<open>The same computations\<close>

lemma or_panic_simps [simp]:
  "or_panic (Inl e) = Inl Panic" "or_panic (Inr a) = Inr a"
  "or_panic r = Inr a \<longleftrightarrow> r = Inr a"
  by (simp_all add: or_panic_def) (cases r; simp)

lemma or_panic_bind: "or_panic (bind_res r f) = bind_res (or_panic r) (\<lambda>a. or_panic (f a))"
  by (cases r) simp_all

lemma or_panic_mapM: "or_panic (mapM_res f xs) = mapM_res (\<lambda>x. or_panic (f x)) xs"
  by (induction xs) (simp_all add: or_panic_bind)

lemma vk_commit_eq: "vk_commit A H pc = (\<lambda>cs. or_panic (commit_coeffs A H pc msg cs))"
proof
  show "vk_commit A H pc cs = or_panic (commit_coeffs A H pc msg cs)" for cs
    by (cases "commit A H pc (p_from A cs)") (simp_all add: vk_commit_def commit_coeffs_def)
qed

lemma vk_commitment_root_hash_eq: "vk_commitment_root_hash A H = (\<lambda>cm. or_panic (commitment_root_hash A H cm))"
proof
  show "vk_commitment_root_hash A H cm = or_panic (commitment_root_hash A H cm)" for cm
    by (cases "point_bytes A (point_of cm)") (simp_all add: vk_commitment_root_hash_def commitment_root_hash_def)
qed

lemma vk_empty_roots_eq: "vk_empty_roots_from A H pc n = or_panic (empty_roots A H pc n)"
proof (induction n)
  case 0
  show ?case
    by (simp add: or_panic_bind vk_commitment_root_hash_eq
        vk_commit_eq [where msg = "''Failed to commit empty polynomial: ''"])
next
  case (Suc n)
  then show ?case
    by (simp add: or_panic_bind vk_commitment_root_hash_eq
        vk_commit_eq [where msg = "''Failed to commit subtree polynomial: ''"])
qed

section \<open>No panics\<close>

lemma vk_commit_total:
  assumes "commits_ok A pc" "length cs \<le> VERKLE_RADIX"
  shows "\<exists>cm root. vk_commit A H pc cs = Inr cm \<and> vk_commitment_root_hash A H cm = Inr root"
  using coeffs_root [OF assms, where msg = "[]" and H = H]
  by (auto simp: vk_commit_eq [where msg = "[]"] vk_commitment_root_hash_eq)

lemma root_hash_total: "commits_ok A pc \<Longrightarrow> \<exists>root. vk_commitment_root_hash A H cm = Inr root"
  by (auto simp: vk_commitment_root_hash_def commits_ok_def serializes_def)

lemma vk_spec_total:
  assumes "commits_ok A (vk_pc t)"
  shows "\<exists>cm. vk_spec A H t h p = Inr cm"
proof (induction h arbitrary: p)
  case 0
  have "length (vk_leaf_coeffs A H p t) \<le> VERKLE_RADIX" by (simp add: vk_leaf_coeffs_def VERKLE_RADIX_def)
  from vk_commit_total [OF assms this] show ?case by (auto simp: kept_or_def split: option.split)
next
  case (Suc h)
  have "\<exists>c. vk_spec_child A H t (\<lambda>p. vk_spec A H t h p) p d i = Inr c" for d i
    using Suc [of "p @ [word_of_nat i]"] root_hash_total [OF assms] by (fastforce simp: vk_spec_child_def)
  then have "\<exists>c. \<forall>i. vk_spec_child A H t (\<lambda>p. vk_spec A H t h p) p (KEY_SIZE - Suc h) i = Inr (c i)" by metis
  then obtain c where "\<forall>i. vk_spec_child A H t (\<lambda>p. vk_spec A H t h p) p (KEY_SIZE - Suc h) i = Inr (c i)" by blast
  then have "mapM_res (vk_spec_child A H t (\<lambda>p. vk_spec A H t h p) p (KEY_SIZE - Suc h)) [0..<VERKLE_RADIX] =
      Inr (map c [0..<VERKLE_RADIX])"
    by (intro mapM_res_Inr) simp
  with vk_commit_total [OF assms, of "map c [0..<VERKLE_RADIX]"] show ?case
    by (auto simp: kept_or_def split: option.split)
qed

lemma vk_root_total: "commits_ok A (vk_pc t) \<Longrightarrow> \<exists>root. vk_spec_root A H t = Inr root"
  using vk_spec_total [of A t H KEY_SIZE "[]"] root_hash_total [of A "vk_pc t"] by (fastforce simp: vk_spec_root_def)

lemma record_all_total:
  assumes "recorded A H t0 t" "\<forall>n \<in> set ns. length (f n) \<le> KEY_SIZE" "commits_ok A (vk_pc t0)"
  shows "is_ok (fst (mapM_st (\<lambda>n. record_commitment A H (f n)) ns t))"
  using assms(1,2)
proof (induction ns arbitrary: t)
  case (Cons n ns)
  let ?c = "get_node_commitment A H (KEY_SIZE - length (f n)) (f n) t"
  have "answers (vk_reading A H t) (vk_spec A H t (KEY_SIZE - length (f n)) (f n)) ?c"
    by (rule vk_answers_commitment) (use Cons.prems in \<open>simp_all add: recorded_def\<close>)
  moreover have "commits_ok A (vk_pc t)" using Cons.prems(1) assms(3) by (simp add: recorded_def)
  ultimately obtain cm where "fst ?c = Inr cm"
    using vk_spec_total [where A = A and t = t and H = H and h = "KEY_SIZE - length (f n)" and p = "f n"]
    by (auto simp: answers_def)
  then obtain t1 where one: "record_commitment A H (f n) t = (Inr (), t1)"
    by (cases ?c) (simp add: record_commitment_def)
  have "recorded A H t0 t1" using record_commitment_result [OF Cons.prems(1) _ one] Cons.prems(2) by simp
  then have "is_ok (fst (mapM_st (\<lambda>n. record_commitment A H (f n)) ns t1))" using Cons.IH Cons.prems(2) by simp
  then show ?case
    by (cases "mapM_st (\<lambda>n. record_commitment A H (f n)) ns t1"; cases "fst (mapM_st (\<lambda>n. record_commitment A H (f n)) ns t1)")
      (simp_all add: one)
qed simp

lemma vk_prune_total:
  assumes "vk_ok A H t" "commits_ok A (vk_pc t)"
  shows "\<exists>r t'. vk_prune_key A H key t = (Inr r, t')"
proof (cases "vk_node_exists (array_bytes key) t")
  case True
  let ?loop = "mapM_st (\<lambda>depth. record_commitment A H (take depth (array_bytes key))) [0..<KEY_SIZE + 1] t"
  have rec: "recorded A H t t" using assms(1) by (simp add: recorded_def vk_ok_def)
  have len: "\<forall>n \<in> set [0..<KEY_SIZE + 1]. length (take n (array_bytes key)) \<le> KEY_SIZE" by (simp add: KEY_SIZE_def)
  from record_all_total [OF rec len assms(2)] obtain us t1 where loop: "?loop = (Inr us, t1)"
    by (cases ?loop; cases "fst ?loop") auto
  have "fmlookup (pruned_commitments t1) [] = None"
    using record_all_result [OF rec len loop] assms(1) by (simp add: recorded_def vk_ok_def)
  with True loop show ?thesis by (simp add: vk_prune_key_def Let_def vk_invalidate_path_cache_def)
qed (simp add: vk_prune_key_def Let_def)

section \<open>Without prunings\<close>

definition unpruned :: "('f, 'g) vk_tree \<Rightarrow> bool" where
  "unpruned t \<longleftrightarrow> vk_pruned_keys t = {||} \<and> pruned_commitments t = fmempty"

lemma vk_spec_plain:
  assumes "unpruned t"
  shows "vk_spec A H t h p = or_panic (spec_commitment A H (vk_pc t) (vk_empty_scalars t) (vk_storage t) h p)"
proof (induction h arbitrary: p)
  case 0
  have "vk_leaf_coeffs A H p t = leaf_coeffs A H (vk_storage t) p"
    using assms by (simp add: vk_leaf_coeffs_def leaf_coeffs_def vk_get_node_value_def get_node_value_def
        unpruned_def vk_value_to_scalar_def value_to_scalar_def split: option.split)
  with assms show ?case
    by (simp add: kept_or_def unpruned_def vk_commit_eq [where msg = "''Failed to commit leaf: ''"])
next
  case (Suc h)
  let ?spec = "spec_commitment A H (vk_pc t) (vk_empty_scalars t) (vk_storage t) h"
  have "vk_spec_child A H t (\<lambda>p. vk_spec A H t h p) p d i =
      or_panic (spec_child A (vk_empty_scalars t) (vk_storage t) (\<lambda>p. bind_res (?spec p) (commitment_root_hash A H)) p d i)"
    for d i
    by (simp add: vk_spec_child_def spec_child_def Suc or_panic_bind vk_commitment_root_hash_eq vk_node_exists_def
        node_exists_def vk_empty_subtree_scalar_def)
  with assms show ?case
    by (simp add: kept_or_def unpruned_def or_panic_bind or_panic_mapM
        vk_commit_eq [where msg = "''Failed to commit node polynomial: ''"] cong: mapM_res_cong)
qed

lemma vk_root_plain:
  assumes "unpruned t"
  shows "bind_res (vk_spec A H t h p) (vk_commitment_root_hash A H) = or_panic (tree_root A H (trie_of t) h p)"
    and "vk_spec_root A H t = or_panic (tree_root A H (trie_of t) KEY_SIZE [])"
  by (simp_all add: vk_spec_root_def spec_root_def or_panic_bind vk_spec_plain [OF assms] vk_commitment_root_hash_eq)

lemma unpruned_insert: "unpruned t \<Longrightarrow> unpruned (vk_insert key v t)"
  by (auto simp: unpruned_def pruned_commitments_insert intro!: fmap_ext)

lemma unpruned_same: "unpruned t \<Longrightarrow> vk_same t t' \<Longrightarrow> unpruned t'"
  using vk_sameD(6,7) [of t t'] by (simp add: unpruned_def)

section \<open>Computations that return\<close>

definition yields :: "('s \<Rightarrow> bool) \<Rightarrow> ('a \<Rightarrow> bool) \<Rightarrow> ('e + 'a) \<times> 's \<Rightarrow> bool" where
  "yields I Q c \<longleftrightarrow> I (snd c) \<and> (\<exists>a. fst c = Inr a \<and> Q a)"

lemma yields_bind:
  assumes "yields I Q c" "\<And>a s. Q a \<Longrightarrow> I s \<Longrightarrow> yields I R (f a s)"
  shows "yields I R (bind_st c f)"
  using assms by (cases c; cases "fst c") (auto simp: yields_def)

lemma yields_answers: "answers I (Inr a) c \<Longrightarrow> yields I (\<lambda>b. b = a) c"
  by (simp add: yields_def answers_def)

lemma yields_pure: "I s \<Longrightarrow> Q a \<Longrightarrow> yields I Q (Inr a, s)"
  by (simp add: yields_def)

section \<open>Proof generation returns\<close>

text \<open>What generation relies on: the tree as \<open>new\<close> and insertions make it.\<close>

definition provable :: "('f::field, 'p, 'g::ab_group_add) ark \<Rightarrow> blake3 \<Rightarrow> ('f, 'g) vk_tree \<Rightarrow> bool" where
  "provable A H t \<longleftrightarrow>
     unpruned t \<and> commits_ok A (vk_pc t) \<and> empties_ok A H (trie_of t) \<and> node_exists (vk_storage t) []"

text \<open>
  A node is opened through the polynomial whose coefficients are the roots of its children as
  scalars. The nodes on the path of a key can be opened when none of those polynomials is zero: in
  each of these nodes the root of some child is not zero as a scalar.
\<close>

definition openable_node :: "('f::field, 'p, 'g::ab_group_add) ark \<Rightarrow> blake3 \<Rightarrow> ('f, 'g) vk_tree \<Rightarrow> bytes \<Rightarrow> bool" where
  "openable_node A H t path \<longleftrightarrow>
     (\<exists>i < VERKLE_RADIX. from_le_mod A (child_root A H (trie_of t) (KEY_SIZE - (length path + 1)) path i) \<noteq> 0)"

definition openable :: "('f::field, 'p, 'g::ab_group_add) ark \<Rightarrow> blake3 \<Rightarrow> ('f, 'g) vk_tree \<Rightarrow> bytes32 \<Rightarrow> bool" where
  "openable A H t key \<longleftrightarrow>
     (\<forall>depth < KEY_SIZE. node_exists (vk_storage t) (take depth (array_bytes key)) \<longrightarrow>
        openable_node A H t (take depth (array_bytes key)))"

lemma provableD:
  assumes "provable A H t"
  shows "unpruned t" "commits_ok A (vt_pc (trie_of t))" "empties_ok A H (trie_of t)" "node_exists (vk_storage t) []"
  using assms by (simp_all add: provable_def)

lemma trie_root_total:
  assumes "provable A H t" "h \<le> KEY_SIZE"
  shows "bind_res (vk_spec A H t h p) (vk_commitment_root_hash A H) = Inr (root_at A H (trie_of t) h p)"
    and "vk_spec_root A H t = Inr (root_at A H (trie_of t) KEY_SIZE [])"
  unfolding vk_root_plain [OF provableD(1) [OF assms(1)]]
  by (simp_all only: tree_root_total(1) [OF provableD(2,3) [OF assms(1)]] assms(2) order.refl or_panic_simps)

lemma vk_answers_hash:
  assumes "provable A H t0" "vk_reading A H t0 t" "length p + h = KEY_SIZE"
  shows "answers (vk_reading A H t0) (Inr (root_at A H (trie_of t0) h p)) (vk_compute_node_root_hash A H h p t)"
proof -
  have "h \<le> KEY_SIZE" using assms(3) by simp
  from vk_answers_root [OF assms(2,3)] show ?thesis
    by (simp only: trie_root_total(1) [OF assms(1) \<open>h \<le> KEY_SIZE\<close>])
qed

lemma vk_answers_sibling:
  assumes "provable A H t0" "vk_reading A H t0 t" "depth < KEY_SIZE"
    and "path_exists \<Longrightarrow> length path = depth \<and> node_exists (vk_storage t0) path"
  shows "answers (vk_reading A H t0) (Inr (sibling A H (trie_of t0) path_exists path depth i))
     (vk_sibling_root A H path_exists path depth i t)"
proof -
  have same: "vk_storage t = vk_storage t0" "vk_empty_roots t = vk_empty_roots t0"
    using assms(2) vk_sameD(1,4) [of t0 t] by simp_all
  have "KEY_SIZE - (KEY_SIZE - (depth + 1)) = depth + 1" using assms(3) by simp
  moreover have "answers (vk_reading A H t0) (Inr (root_at A H (trie_of t0) (KEY_SIZE - (depth + 1)) (path @ [word_of_nat i])))
      (vk_compute_node_root_hash A H (KEY_SIZE - (depth + 1)) (path @ [word_of_nat i]) t)" if path_exists
    using assms(3,4) that by (intro vk_answers_hash [OF assms(1,2)]) simp
  ultimately show ?thesis
    using assms(2,4)
    by (auto simp: vk_sibling_root_def sibling_def child_root_def Let_def vk_node_exists_def node_exists_def same
        vk_empty_subtree_root_hash_def empty_subtree_root_hash_def answers_def)
qed

lemma opening_ok:
  assumes "provable A H t" "h < KEY_SIZE" "\<exists>i < VERKLE_RADIX. from_le_mod A (child_root A H (trie_of t) h p i) \<noteq> 0"
    and "poly = p_from A (map (\<lambda>i. from_le_mod A (child_root A H (trie_of t) h p i)) [0..<VERKLE_RADIX])"
  shows "\<exists>r. pc_open A H (vk_pc t) poly z v = Some r \<and>
     (\<forall>opening. r = Inr opening \<longrightarrow> (\<forall>cm. is_ok (pc_verify A H (vk_pc t) cm opening)))"
proof -
  let ?cs = "map (\<lambda>i. from_le_mod A (child_root A H (trie_of t) h p i)) [0..<VERKLE_RADIX]"
  have dense: "dense_poly A" "VERKLE_RADIX \<le> length (generators (vk_pc t))"
    using provableD(2) [OF assms(1)] by (simp_all add: commits_ok_def)
  have "\<exists>c \<in> set ?cs. c \<noteq> 0" using assms(3) by auto
  then have "strip_while ((=) 0) ?cs \<noteq> []" by (auto simp: strip_while_def dropWhile_eq_Nil_conv)
  then have nonzero: "p_coeffs A poly \<noteq> []" by (simp only: assms(4) dense_polyD(1) [OF dense(1)] not_False_eq_True)
  have "length (p_coeffs A poly) \<le> length (generators (vk_pc t))"
    using dense(2) length_strip_while_le [of "(=) 0" ?cs] by (simp add: assms(4) dense_polyD(1) [OF dense(1)])
  with honest_opening [OF dense(1) nonzero _ this, of z v H] show ?thesis
    by (cases "p_eval A poly z = v") (auto simp: pc_open_def)
qed

lemma vk_yields_opening:
  assumes "provable A H t0" "vk_reading A H t0 t" "depth < KEY_SIZE"
    and "path_exists \<Longrightarrow> length path = depth \<and> node_exists (vk_storage t0) path \<and> openable_node A H t0 path"
  shows "yields (vk_reading A H t0)
     (\<lambda>os. \<forall>opening \<in> set os. \<forall>cm. is_ok (pc_verify A H (vk_pc t0) cm opening)) (opening_at A H path_exists path depth byte t)"
proof (cases "path_exists \<and> vk_node_exists path t")
  case True
  let ?I = "vk_reading A H t0"
  obtain h where h: "KEY_SIZE - depth = Suc h" "h < KEY_SIZE" using assms(3) by (cases "KEY_SIZE - depth") auto
  have len: "length path + Suc h = KEY_SIZE" "length (path @ [byte]) + (KEY_SIZE - (length path + 1)) = KEY_SIZE"
    using True assms(3,4) h by simp_all
  have commit: "yields ?I (\<lambda>_. True) (get_node_commitment A H (Suc h) path t)"
  proof -
    obtain cm where "vk_spec A H t0 (Suc h) path = Inr cm"
      using vk_spec_total [where A = A and t = t0 and H = H and h = "Suc h" and p = path] provableD(2) [OF assms(1)] by auto
    with vk_answers_commitment [OF assms(2) len(1)] show ?thesis by (simp add: answers_def yields_def)
  qed
  have hash: "yields ?I (\<lambda>_. True) (hash_node_value_at_index A H path byte s)" if "?I s" for s
    unfolding hash_node_value_at_index_def
    by (rule yields_bind [OF yields_answers [OF vk_answers_hash [OF assms(1) that len(2)]]]) (rule yields_pure; simp)
  let ?cs = "map (\<lambda>i. from_le_mod A (child_root A H (trie_of t0) h path i)) [0..<VERKLE_RADIX]"
  have poly: "yields ?I (\<lambda>poly. poly = p_from A ?cs) (reconstruct_node_polynomial A H (Suc h) path s)" if s: "?I s" for s
  proof -
    have "vk_spec_child A H t0 (\<lambda>p. vk_spec A H t0 h p) path (KEY_SIZE - Suc h) i =
        Inr (from_le_mod A (child_root A H (trie_of t0) h path i))" for i
    proof -
      have "Suc (KEY_SIZE - Suc h) = KEY_SIZE - h" using h(2) by simp
      moreover have "empty_subtree_scalars (trie_of t0) ! (KEY_SIZE - h) = from_le_mod A (empty_subtree_root_hash (trie_of t0) (KEY_SIZE - h))"
        by (rule empties_okD(3) [OF provableD(2,3) [OF assms(1)]]) simp
      ultimately show ?thesis
        using h(2)
        by (simp add: vk_spec_child_def child_root_def trie_root_total(1) [OF assms(1)] vk_node_exists_def node_exists_def
            vk_empty_subtree_scalar_def)
    qed
    then have row: "mapM_res (vk_spec_child A H t0 (\<lambda>p. vk_spec A H t0 h p) path (KEY_SIZE - Suc h)) [0..<VERKLE_RADIX] = Inr ?cs"
      by (intro mapM_res_Inr) simp
    have "answers ?I (mapM_res (vk_spec_child A H t0 (\<lambda>p. vk_spec A H t0 h p) path (KEY_SIZE - Suc h)) [0..<VERKLE_RADIX])
        (mapM_st (vk_child_scalar A H (vk_compute_node_commitment A H h) path (KEY_SIZE - Suc h)) [0..<VERKLE_RADIX] s)"
      using len(1) by (intro vk_answers_row s vk_answers_compute) simp_all
    then have "answers ?I (Inr ?cs)
        (mapM_st (vk_child_scalar A H (vk_compute_node_commitment A H h) path (KEY_SIZE - Suc h)) [0..<VERKLE_RADIX] s)"
      by (simp only: row)
    from yields_bind [OF yields_answers [OF this], where f = "\<lambda>coeffs t'. (Inr (p_from A coeffs), t')"]
    show ?thesis by (simp add: reconstruct_node_polynomial_def yields_pure)
  qed
  show ?thesis
    unfolding opening_at_def h(1)
  proof (simp only: True if_True simp_thms, rule yields_bind [OF commit], rule yields_bind [OF hash], assumption,
      rule yields_bind [OF poly], assumption)
    fix value_hash poly s assume p: "poly = p_from A ?cs" and s: "?I s"
    have "vk_pc s = vk_pc t0" using s vk_sameD(2) [of t0 s] by simp
    have "KEY_SIZE - (length path + 1) = h" using len(1) by simp
    then have "\<exists>i < VERKLE_RADIX. from_le_mod A (child_root A H (trie_of t0) h path i) \<noteq> 0"
      using True assms(4) by (auto simp: openable_node_def)
    from opening_ok [OF assms(1) h(2) this p, of "byte_scalar A byte" value_hash] s \<open>vk_pc s = vk_pc t0\<close>
    show "yields ?I (\<lambda>os. \<forall>opening \<in> set os. \<forall>cm. is_ok (pc_verify A H (vk_pc t0) cm opening))
        (case pc_open A H (vk_pc s) poly (byte_scalar A byte) value_hash of
           None \<Rightarrow> (Inl Panic, s)
         | Some (Inl _) \<Rightarrow> (Inr [], s)
         | Some (Inr opening) \<Rightarrow> (Inr [opening], s))"
      by (auto simp: yields_def split: sum.split)
  qed
next
  case False
  then have "opening_at A H path_exists path depth byte t = (Inr [], t)" by (auto simp: opening_at_def)
  with assms(2) show ?thesis by (simp add: yields_def)
qed

lemma vk_yields_loop:
  assumes "provable A H t0" "openable A H t0 key" "vk_reading A H t0 t" "depth + length bs = KEY_SIZE"
    and "path_exists \<Longrightarrow> length path = depth \<and> node_exists (vk_storage t0) path \<and> path @ bs = array_bytes key"
  shows "yields (vk_reading A H t0)
     (\<lambda>(rows, os, p, ex). (rows, p, ex) = collected A H (trie_of t0) path_exists path depth bs \<and>
        (\<forall>opening \<in> set os. \<forall>cm. is_ok (pc_verify A H (vk_pc t0) cm opening)))
     (vk_proof_loop A H path_exists path depth bs t)"
  using assms(3-5)
proof (induction bs arbitrary: path_exists path depth t)
  case Nil
  then show ?case by (simp add: yields_def)
next
  case (Cons byte rest)
  let ?I = "vk_reading A H t0" and ?ok = "\<lambda>os. \<forall>opening \<in> set os. \<forall>cm. is_ok (pc_verify A H (vk_pc t0) cm opening)"
  let ?row = "map (sibling A H (trie_of t0) path_exists path depth) [0..<VERKLE_RADIX]"
  let ?path' = "if path_exists then path @ [byte] else path"
  let ?ex' = "path_exists \<and> node_exists (vk_storage t0) ?path'"
  have d: "depth < KEY_SIZE" using Cons.prems(2) by simp
  have node: "length path = depth \<and> node_exists (vk_storage t0) path" if path_exists using Cons.prems(3) [OF that] by simp
  have node_opens: "length path = depth \<and> node_exists (vk_storage t0) path \<and> openable_node A H t0 path" if path_exists
  proof -
    have "take depth (array_bytes key) = path" using Cons.prems(3) [OF that] by (auto simp: append_eq_conv_conj)
    then show ?thesis using assms(2) d node [OF that] by (auto simp: openable_def)
  qed
  have "answers ?I (mapM_res (\<lambda>i. Inr (sibling A H (trie_of t0) path_exists path depth i)) [0..<VERKLE_RADIX])
      (mapM_st (vk_sibling_root A H path_exists path depth) [0..<VERKLE_RADIX] t)"
    by (intro answers_mapM vk_answers_sibling [OF assms(1)] Cons.prems(1) node d)
  moreover have "mapM_res (\<lambda>i. Inr (sibling A H (trie_of t0) path_exists path depth i)) [0..<VERKLE_RADIX] = (Inr ?row :: panic + bytes32 list)"
    by (rule mapM_res_Inr) simp
  ultimately have row: "answers ?I (Inr ?row) (mapM_st (vk_sibling_root A H path_exists path depth) [0..<VERKLE_RADIX] t)"
    by simp
  show ?case
    unfolding vk_proof_loop.simps Let_def
  proof (rule yields_bind [OF yields_answers [OF row]], rule yields_bind [OF vk_yields_opening [OF assms(1) _ d node_opens]])
    fix r s os s' assume r: "r = ?row" and s': "?I s'" and os: "?ok os"
    have eq: "vk_node_exists q s' \<longleftrightarrow> node_exists (vk_storage t0) q" for q
      using s' vk_same_nodes(1) [of t0 s'] by (simp add: vk_node_exists_def node_exists_def)
    have "yields ?I (\<lambda>(rows, os, p, ex). (rows, p, ex) = collected A H (trie_of t0) ?ex' ?path' (depth + 1) rest \<and> ?ok os)
        (vk_proof_loop A H ?ex' ?path' (depth + 1) rest s')"
      using Cons.prems by (intro Cons.IH [OF s']) (auto split: if_splits)
    then show "yields ?I (\<lambda>(rows, os, p, ex). (rows, p, ex) = collected A H (trie_of t0) path_exists path depth (byte # rest) \<and> ?ok os)
        (bind_st (vk_proof_loop A H (path_exists \<and> vk_node_exists ?path' s') ?path' (depth + 1) rest s')
          (\<lambda>(rows, openings, p, ex) t3. (Inr (r @ rows, os @ openings, p, ex), t3)))"
      unfolding eq
    proof (rule yields_bind)
      fix a s'' assume "(\<lambda>(rows, os, p, ex). (rows, p, ex) = collected A H (trie_of t0) ?ex' ?path' (depth + 1) rest \<and> ?ok os) a"
        and "?I s''"
      then show "yields ?I (\<lambda>(rows, os, p, ex). (rows, p, ex) = collected A H (trie_of t0) path_exists path depth (byte # rest) \<and> ?ok os)
          ((\<lambda>(rows, openings, p, ex) t3. (Inr (r @ rows, os @ openings, p, ex), t3)) a s'')"
        using os r by (cases a) (auto simp: yields_def Let_def split: prod.split)
    qed
  qed
qed

section \<open>Verification\<close>

definition trie_proof :: "('f, 'g) vk_proof \<Rightarrow> verkle_proof" where
  "trie_proof prf =
     \<lparr>proof_type_of = vk_proof_type prf, proof_path = vk_path prf, siblings = vk_siblings prf,
      leaf_value = vk_leaf_value prf, proof_root = vk_root prf, gas_fee_distribution = None\<rparr>"

lemma trie_proof_fields [simp]:
  "proof_type_of (trie_proof prf) = vk_proof_type prf" "proof_path (trie_proof prf) = vk_path prf"
  "siblings (trie_proof prf) = vk_siblings prf" "leaf_value (trie_proof prf) = vk_leaf_value prf"
  "proof_root (trie_proof prf) = vk_root prf" "gas_fee_distribution (trie_proof prf) = None"
  by (simp_all add: trie_proof_def)

lemma commit_hash_ok:
  assumes "commits_ok A pc" "length cs \<le> VERKLE_RADIX"
  obtains cm where "commit A H pc (p_from A cs) = Inr cm" "vk_commitment_root_hash A H cm = Inr (coeffs_root A H pc cs)"
    "\<And>msg. commit_coeffs A H pc msg cs = Inr cm" "commitment_root_hash A H cm = Inr (coeffs_root A H pc cs)"
proof -
  obtain cm where cm: "commit A H pc (p_from A cs) = Inr cm"
    using coeffs_root [OF assms, where msg = "[]" and H = H] by (cases "commit A H pc (p_from A cs)") (simp_all add: commit_coeffs_def)
  then have "commit_coeffs A H pc msg cs = Inr cm" for msg by (simp add: commit_coeffs_def)
  moreover from this have "commitment_root_hash A H cm = Inr (coeffs_root A H pc cs)"
    using coeffs_root [OF assms, where msg = "[]" and H = H] by simp
  ultimately show ?thesis using cm that by (simp add: vk_commitment_root_hash_eq)
qed

lemma vk_verify_loop_eq:
  assumes "commits_ok A pc"
  shows "\<exists>root. vk_verify_loop A H pc prf d c x = Inr (Some root) \<and> verify_loop A H pc (trie_proof prf) d c x = Inr root"
proof (induction d arbitrary: c x)
  case (Suc d)
  let ?cs = "vk_row_coeffs A prf d x"
  have "length ?cs \<le> VERKLE_RADIX" by (simp add: vk_row_coeffs_def)
  with assms obtain cm where "commit A H pc (p_from A ?cs) = Inr cm" "vk_commitment_root_hash A H cm = Inr (coeffs_root A H pc ?cs)"
    "\<And>msg. commit_coeffs A H pc msg ?cs = Inr cm" "commitment_root_hash A H cm = Inr (coeffs_root A H pc ?cs)"
    by (rule commit_hash_ok) blast
  moreover have "row_coeffs A (trie_proof prf) d x = ?cs" by (simp add: row_coeffs_def vk_row_coeffs_def)
  ultimately show ?case using Suc by simp
qed simp

lemma vk_verify_proof_eq:
  assumes "commits_ok A (vk_pc t)"
  shows "vk_verify_proof A H t prf =
     Inr (list_all (\<lambda>opening. is_ok (pc_verify A H (vk_pc t) (quotient_commitment opening) opening)) (opening_proofs prf) \<and>
       verify_proof A H (trie_of t) (trie_proof prf) = Inr True)"
proof -
  let ?ok = "list_all (\<lambda>opening. is_ok (pc_verify A H (vk_pc t) (quotient_commitment opening) opening)) (opening_proofs prf)"
  have openings: "list_ex (\<lambda>opening. \<not> is_ok (pc_verify A H (vk_pc t) (quotient_commitment opening) opening)) (opening_proofs prf) \<longleftrightarrow> \<not> ?ok"
    by (simp add: list_ex_iff list_all_iff)
  show ?thesis
  proof (cases "length (vk_path prf) = KEY_SIZE \<and> length (vk_siblings prf) = KEY_SIZE * VERKLE_RADIX \<and>
      (vk_proof_type prf = Membership \<longleftrightarrow> vk_leaf_value prf \<noteq> None)")
    case False
    then show ?thesis by (cases "vk_proof_type prf") (auto simp: vk_verify_proof_def verify_proof_def)
  next
    case True
    have "\<exists>x. vk_starting_scalar A H t prf = Inr (Some x) \<and> starting_scalar A H (trie_of t) (trie_proof prf) = Inr x"
    proof (cases "vk_leaf_value prf")
      case None
      with True have "vk_proof_type prf = NonMembership" by (cases "vk_proof_type prf") auto
      with None show ?thesis
        by (simp add: vk_starting_scalar_def starting_scalar_def vk_empty_subtree_root_hash_def empty_subtree_root_hash_def)
    next
      case (Some v)
      have "length [vk_value_to_scalar A H v] \<le> VERKLE_RADIX" by (simp add: VERKLE_RADIX_def)
      with assms obtain cm where "commit A H (vk_pc t) (p_from A [vk_value_to_scalar A H v]) = Inr cm"
        "vk_commitment_root_hash A H cm = Inr (coeffs_root A H (vk_pc t) [vk_value_to_scalar A H v])"
        "\<And>msg. commit_coeffs A H (vk_pc t) msg [vk_value_to_scalar A H v] = Inr cm"
        "commitment_root_hash A H cm = Inr (coeffs_root A H (vk_pc t) [vk_value_to_scalar A H v])"
        by (rule commit_hash_ok) blast
      moreover have "value_to_scalar A H v = vk_value_to_scalar A H v"
        by (simp add: value_to_scalar_def vk_value_to_scalar_def)
      ultimately show ?thesis using Some True by (simp add: vk_starting_scalar_def starting_scalar_def)
    qed
    then obtain x where x: "vk_starting_scalar A H t prf = Inr (Some x)"
      "starting_scalar A H (trie_of t) (trie_proof prf) = Inr x" by blast
    obtain root where root: "vk_verify_loop A H (vk_pc t) prf KEY_SIZE 0 x = Inr (Some root)"
      "verify_loop A H (vk_pc t) (trie_proof prf) KEY_SIZE 0 x = Inr root"
      using vk_verify_loop_eq [OF assms] by blast
    have "verify_proof A H (trie_of t) (trie_proof prf) = Inr (root = vk_root prf)"
      using True x root by (cases "vk_proof_type prf") (auto simp: verify_proof_def witness_ok_def)
    moreover have "vk_verify_proof A H t prf = Inr (?ok \<and> root = vk_root prf)"
      using True x root by (cases "vk_proof_type prf") (auto simp: vk_verify_proof_def openings)
    ultimately show ?thesis by simp
  qed
qed

lemma opening_verdict_ok:
  assumes "dense_poly A" "length (proof_scalars (ipa_of opening)) < length (generators pc)"
  shows "is_ok (pc_verify A H pc cm opening)"
proof -
  let ?qs = "proof_scalars (ipa_of opening)"
  let ?p = "p_from A (reconstruct_polynomial_from_quotient ?qs (op_point opening) (op_value opening))"
  have "length (p_coeffs A ?p) \<le> length (generators pc)"
    using assms(2) length_strip_while_le [of "(=) 0" "reconstruct_polynomial_from_quotient ?qs (op_point opening) (op_value opening)"]
    by (simp add: dense_polyD(1) [OF assms(1)] reconstruct_eq)
  then obtain rc where "commit A H pc ?p = Inr rc" using commit_Inr [of A H pc ?p] by blast
  moreover obtain qc where "reconstruct_commitment_from_scalars A H pc ?qs = Inr qc"
    using assms(2) by (simp add: reconstruct_commitment_from_scalars_def Let_def)
  ultimately show ?thesis by (simp add: pc_verify_def verify_ipa_proof_def Let_def)
qed

section \<open>Generated proofs\<close>

lemma vk_generated_proof:
  assumes "vk_ok A H t" "provable A H t" "openable A H t key"
  shows "\<exists>prf t'. vk_generate_proof A H key t = (Inr prf, t') \<and>
     vk_spec_root A H t = Inr (vk_root prf) \<and>
     vk_leaf_value prf =
       (if \<forall>n. 0 < n \<and> n \<le> 32 \<longrightarrow> node_exists (vk_storage t) (take n (array_bytes key))
        then get_node_value (vk_storage t) (array_bytes key) else None) \<and>
     vk_verify_proof A H t' prf = Inr True \<and>
     vk_path prf = array_bytes key \<and> (vk_proof_type prf = Membership \<longleftrightarrow> vk_leaf_value prf \<noteq> None) \<and>
     vk_pc t' = vk_pc t \<and> vk_empty_roots t' = vk_empty_roots t"
proof -
  let ?loop = "vk_proof_loop A H True [] 0 (array_bytes key) t"
  have rd: "vk_reading A H t t" using assms(1) by (simp add: vk_ok_def)
  have "yields (vk_reading A H t)
     (\<lambda>(rows, os, p, ex). (rows, p, ex) = collected A H (trie_of t) True [] 0 (array_bytes key) \<and>
        (\<forall>opening \<in> set os. \<forall>cm. is_ok (pc_verify A H (vk_pc t) cm opening))) ?loop"
    by (rule vk_yields_loop [OF assms(2,3) rd]) (use provableD(4) [OF assms(2)] in \<open>simp_all add: KEY_SIZE_def\<close>)
  then obtain rows os p ex t1 where loop: "?loop = (Inr (rows, os, p, ex), t1)" and r: "vk_reading A H t t1"
    and col: "collected A H (trie_of t) True [] 0 (array_bytes key) = (rows, p, ex)"
    and os: "\<forall>opening \<in> set os. \<forall>cm. is_ok (pc_verify A H (vk_pc t) cm opening)"
    by (cases ?loop) (auto simp: yields_def)
  from collected_result [OF col]
  have ex: "ex \<longleftrightarrow> (\<forall>n. 0 < n \<and> n \<le> 32 \<longrightarrow> node_exists (vk_storage t) (take n (array_bytes key)))"
    and p: "ex \<Longrightarrow> p = array_bytes key" by simp_all
  have "vk_ok A H t1" by (rule vk_ok_read [OF assms(1) r])
  from vk_get_root_result [OF this] obtain rc s where gr: "fst (vk_get_root A H t1) = vk_spec_root A H t1"
    "snd (vk_get_root A H t1) = s\<lparr>vk_root_cache := rc\<rparr>" "vk_same t1 s" by blast
  have "vk_spec_root A H t1 = vk_spec_root A H t" using r vk_same_spec [of t t1 A H] by (simp add: vk_spec_root_def)
  with gr trie_root_total(2) [OF assms(2) order.refl]
  have root: "vk_get_root A H t1 = (Inr (root_at A H (trie_of t) KEY_SIZE []), s\<lparr>vk_root_cache := rc\<rparr>)"
    by (cases "vk_get_root A H t1") simp
  have val: "vk_get_node_value q t1 = get_node_value (vk_storage t) q" for q
    using vk_same_nodes(2) [of t t1] r provableD(1) [OF assms(2)]
    by (simp add: vk_get_node_value_def get_node_value_def unpruned_def)
  let ?leaf = "if ex then get_node_value (vk_storage t) p else None"
  let ?proof = "\<lparr>vk_proof_type = (if ex \<and> get_node_value (vk_storage t) p \<noteq> None then Membership else NonMembership),
      vk_path = array_bytes key, vk_siblings = rows, vk_leaf_value = ?leaf,
      vk_root = root_at A H (trie_of t) KEY_SIZE [], opening_proofs = os\<rparr>"
  have gen: "vk_generate_proof A H key t = (Inr ?proof, s\<lparr>vk_root_cache := rc\<rparr>)"
    unfolding vk_generate_proof_def take_key loop by (simp add: Let_def root val)
  note same = vk_sameD [of t t1] vk_sameD [OF gr(3)]
  let ?t' = "s\<lparr>vk_root_cache := rc\<rparr>"
  have pc: "vk_pc ?t' = vk_pc t" "vk_empty_roots ?t' = vk_empty_roots t" using same r by simp_all
  have "verify_proof A H (trie_of ?t') (trie_proof ?proof) = Inr (witness_ok None)"
    using verify_generated [OF provableD(2,3) [OF assms(2)] col, of "trie_of ?t'" None]
    by (simp only: trie_of_fields trie_proof_def vk_proof.simps pc)
  moreover have "commits_ok A (vk_pc ?t')" using provableD(2) [OF assms(2)] pc by simp
  ultimately have "vk_verify_proof A H ?t' ?proof = Inr True"
    using os pc(1) by (simp add: vk_verify_proof_eq witness_ok_def list_all_iff)
  then show ?thesis
    using gen p pc trie_root_total(2) [OF assms(2) order.refl] unfolding ex [symmetric]
    by (cases ex; intro exI [of _ ?proof] exI [of _ ?t']; simp)
qed

end
