(* ===== verification/Ipa_Tree_Root.thy ===== *)
theory Ipa_Tree_Root
  imports Ipa_Tree_Proof "HOL-Library.Product_Lexorder"
begin

text \<open>
  What the second Verkle tree promises: its root, its agreement with the first tree, pruning,
  proofs, and the root of a UTXO set.
\<close>

section \<open>A new tree\<close>

lemma vk_new_commits:
  assumes "vk_tree_new A H s = Some t" "dense_poly A" "serializes A"
  shows "commits_ok A (vk_pc t)"
proof -
  have "length gs = length is" if "generator_points A H is = Some gs" for "is" gs
    using that by (induction "is" arbitrary: gs) (auto simp: bind_eq_Some_conv)
  from this [of "[0..<VERKLE_RADIX]"] have "length (generators pc) = VERKLE_RADIX" if "pc_new A H VERKLE_RADIX = Some pc" for pc
    using that by (auto simp: pc_new_def bind_eq_Some_conv)
  with vk_tree_new_fields(5) [OF assms(1)] assms(2,3) show ?thesis by (simp add: commits_ok_def)
qed

lemma vk_new_empties: "vk_tree_new A H s = Some t \<Longrightarrow> empties_ok A H (trie_of t)"
  using vk_tree_new_fields(6,7) [of A H s t] by (simp add: empties_ok_def vk_empty_roots_eq)

lemma vk_tree_new_ok:
  assumes "dense_poly A" "serializes A" "\<And>b. from_le_mod A b \<noteq> 0"
  shows "\<exists>t. vk_tree_new A H s = Some t"
proof -
  obtain pc where pc: "pc_new A H VERKLE_RADIX = Some pc" "length (generators pc) = VERKLE_RADIX"
    using pc_new_first [OF assms(3)] by blast
  then have "commits_ok A pc" using assms(1,2) by (simp add: commits_ok_def)
  then obtain roots where "empty_roots A H pc KEY_SIZE = Inr roots" using empty_roots_total by blast
  then show ?thesis
    by (simp add: vk_tree_new_def pc vk_compute_empty_subtree_constants_def vk_empty_roots_eq)
qed

section \<open>Agreement with the first tree\<close>

definition same_nodes :: "('f::field, 'p, 'g::ab_group_add) ark \<Rightarrow> blake3 \<Rightarrow> ('f, 'g) vk_tree \<Rightarrow> ('f, 'g) verkle_tree \<Rightarrow> bool" where
  "same_nodes A H t u \<longleftrightarrow>
     vk_ok A H t \<and> unpruned t \<and> caches_ok A H u \<and> pruned_keys u = {||} \<and>
     vt_storage u = vk_storage t \<and> vt_pc u = vk_pc t \<and> empty_subtree_scalars u = vk_empty_scalars t"

text \<open>The operations both trees have.\<close>

fun trie_op :: "vk_op \<Rightarrow> tree_op option" where
  "trie_op (VkInsert key value) = Some (InsertOp key value)"
| "trie_op VkRoot = Some RootOp"
| "trie_op (VkProof key) = Some (ProofOp key None)"
| "trie_op _ = None"

lemma same_nodes_get_root: "same_nodes A H t u \<Longrightarrow> same_nodes A H (snd (vk_get_root A H t)) u"
  using vk_get_root_same [of A H t] vk_get_root_result [of A H t] by (simp add: same_nodes_def unpruned_def)

lemma same_nodes_trie_root: "same_nodes A H t u \<Longrightarrow> same_nodes A H t (snd (get_root A H u))"
  using get_root_result [of A H u] by (simp add: same_nodes_def)

lemma same_nodes_read: "same_nodes A H t u \<Longrightarrow> vk_reading A H t t' \<Longrightarrow> same_nodes A H t' u"
  using vk_ok_read [of A H t t'] unpruned_same [of t t'] vk_sameD(1-3) [of t t'] by (simp add: same_nodes_def)

lemma same_nodes_trie_read: "same_nodes A H t u \<Longrightarrow> reading A H u u' \<Longrightarrow> same_nodes A H t u'"
  using coherent_read [of A H u u'] same_treeD(1-3,7) [of u u'] by (simp add: same_nodes_def)

lemma same_nodes_op:
  assumes "same_nodes A H t u" "trie_op op = Some op'"
  shows "same_nodes A H (run_vk_op A H op t) (run_op A H op' u)"
proof (cases op)
  case (VkInsert key v)
  have "caches_ok A H (tree_insert key v u)" using assms(1) by (intro tree_insert_caches) (simp add: same_nodes_def caches_ok_def)
  moreover have "vk_storage (vk_insert key v t) = vt_storage (tree_insert key v u)"
    using assms(1) by (intro vk_storage_insert) (simp add: same_nodes_def)
  ultimately show ?thesis
    using VkInsert assms unpruned_insert [of t key v] vk_ok_insert [of A H t key v]
    by (auto simp: same_nodes_def simp del: vk_insert_fields(6))
next
  case (VkProof key)
  let ?I = "\<lambda>t. same_nodes A H t u" and ?J = "\<lambda>u. same_nodes A H t u"
  have "vk_reading A H t (snd (vk_proof_loop A H True [] 0 (array_bytes key) t))"
    using assms(1) by (intro vk_proof_loop_reading) (simp_all add: same_nodes_def vk_ok_def KEY_SIZE_def)
  from same_nodes_read [OF assms(1) this]
  have "?I (snd (vk_generate_proof A H key t))"
    unfolding vk_generate_proof_def take_key
    by (rule bind_st_inv [where I = ?I])
      (auto simp: Let_def split_beta intro!: bind_st_inv [where I = ?I] same_nodes_get_root)
  moreover have "reading A H u (snd (proof_loop A H True [] 0 (array_bytes key) u))"
    using assms(1) by (intro proof_loop_reading) (simp_all add: same_nodes_def caches_ok_def KEY_SIZE_def)
  from same_nodes_trie_read [OF assms(1) this]
  have "?J (snd (generate_proof_with_witness A H key None u))"
    unfolding generate_proof_with_witness_def take_key
    by (rule bind_st_inv [where I = ?J])
      (auto simp: Let_def split_beta intro!: bind_st_inv [where I = ?J] same_nodes_trie_root)
  ultimately show ?thesis using VkProof assms by (simp add: same_nodes_def) auto
next
  case VkRoot
  with assms same_nodes_get_root [OF same_nodes_trie_root [OF assms(1)]] show ?thesis by auto
qed (use assms(2) in simp_all)

lemma same_nodes_run:
  assumes "same_nodes A H t u" "\<forall>op \<in> set ops. trie_op op \<noteq> None"
  shows "same_nodes A H (fold (run_vk_op A H) ops t) (fold (run_op A H) (List.map_filter trie_op ops) u)"
  using assms
proof (induction ops arbitrary: t u)
  case (Cons op ops)
  then obtain op' where op': "trie_op op = Some op'" by auto
  with Cons.IH [OF same_nodes_op [OF Cons.prems(1) op']] Cons.prems(2) show ?case
    by (simp add: map_filter_simps)
qed (simp add: map_filter_simps)

lemma same_nodes_new:
  assumes "vk_tree_new A H s = Some t" "tree_new A H s = Some (Inr u)"
  shows "same_nodes A H t u"
proof -
  note new = vk_tree_new_fields [OF assms(1)] and old = tree_new_fields [OF assms(2)]
  have pc: "vt_pc u = vk_pc t" using new(5) old(5) by simp
  then have "empty_subtree_scalars u = vk_empty_scalars t"
    using new(6,7) old(1) by (simp add: empties_ok_def vk_empty_roots_eq)
  moreover have "vt_storage u = (if storage_get s (key_for_path []) = None
       then storage_put (key_for_path []) (serialize_node None) s else s)"
    using assms(2) by (auto simp: tree_new_def compute_empty_subtree_constants_def ensure_node_def bind_res_eq_Inr)
  ultimately show ?thesis using new old pc by (simp add: same_nodes_def unpruned_def)
qed

section \<open>The root of a UTXO set\<close>

lemma set_map_filter_Pair:
  "set (List.map_filter (\<lambda>x. map_option (Pair x) (m x)) xs) = {(x, v). x \<in> set xs \<and> m x = Some v}"
  by (induction xs) (auto simp: map_filter_simps split: option.split)

lemma distinct_map_filter_Pair:
  "distinct xs \<Longrightarrow> distinct (List.map_filter (\<lambda>x. map_option (Pair x) (m x)) xs)"
  by (induction xs) (auto simp: map_filter_simps set_map_filter_Pair split: option.split)

lemma set_visited_outputs:
  "enumerates it \<Longrightarrow> set (visited_outputs it u) = {(out, output). fmlookup (utxos u) out = Some output}"
  by (auto simp: visited_outputs_def set_map_filter_Pair enumerates_def intro: fmdomI)

text \<open>The nodes after insertions under distinct keys do not depend on their order.\<close>

lemma node_after_inserts:
  assumes "distinct (map f xs)"
  shows "storage_get (vk_storage (fold (\<lambda>x. vk_insert (f x) (g x)) xs t)) (key_for_path p) =
     (if \<exists>x \<in> set xs. p = array_bytes (f x)
      then Some (serialize_node (Some (g (THE x. x \<in> set xs \<and> p = array_bytes (f x)))))
      else if (\<exists>x \<in> set xs. prefix p (array_bytes (f x))) \<and> storage_get (vk_storage t) (key_for_path p) = None
      then Some (serialize_node None)
      else storage_get (vk_storage t) (key_for_path p))"
  using assms
proof (induction xs arbitrary: t)
  case (Cons x xs)
  have here: "storage_get (vk_storage (vk_insert (f x) (g x) t)) (key_for_path p) =
     (if p = array_bytes (f x) then Some (serialize_node (Some (g x)))
      else if prefix p (array_bytes (f x)) \<and> storage_get (vk_storage t) (key_for_path p) = None
      then Some (serialize_node None)
      else storage_get (vk_storage t) (key_for_path p))"
    by (simp add: storage_tree_insert)
  have the: "(THE y. y \<in> set (x # xs) \<and> p = array_bytes (f y)) = (THE y. y \<in> set xs \<and> p = array_bytes (f y))"
    if "p \<noteq> array_bytes (f x)"
    using that by (intro arg_cong [where f = The] ext) auto
  show ?case
  proof (cases "p = array_bytes (f x)")
    case True
    then have "\<not> (\<exists>y \<in> set xs. p = array_bytes (f y))" using Cons.prems by auto
    moreover have "(THE y. y \<in> set (x # xs) \<and> p = array_bytes (f y)) = x"
    proof (rule the_equality)
      fix y assume y: "y \<in> set (x # xs) \<and> p = array_bytes (f y)"
      show "y = x"
      proof (rule ccontr)
        assume "y \<noteq> x"
        with y have "y \<in> set xs" by simp
        moreover have "f y = f x" using y True by simp
        ultimately show False using Cons.prems by (auto simp: image_iff)
      qed
    qed (use True in simp)
    ultimately show ?thesis using Cons.IH [of "vk_insert (f x) (g x) t"] Cons.prems True here by simp
  next
    case False
    with Cons.IH [of "vk_insert (f x) (g x) t"] Cons.prems here the show ?thesis
      by (auto simp del: vk_insert_fields(6))
  qed
qed simp

lemma inserts_unpruned: "unpruned t \<Longrightarrow> unpruned (fold (\<lambda>x. vk_insert (f x) (g x)) xs t)"
  by (induction xs arbitrary: t) (simp_all add: unpruned_insert)

lemma utxo_tree_unpruned: "unpruned (utxo_tree H hex it u t)"
  unfolding utxo_tree_def by (intro inserts_unpruned) (simp add: unpruned_def cleared_tree_def)

text \<open>Every order gives the same root when the outputs have different keys.\<close>

definition separate_keys :: "blake3 \<Rightarrow> (bytes \<Rightarrow> string) \<Rightarrow> utxo_set \<Rightarrow> bool" where
  "separate_keys H hex u \<longleftrightarrow>
     inj_on (\<lambda>(out, output). utxo_tree_key H hex out output) {(out, output). fmlookup (utxos u) out = Some output}"

lemma distinct_utxo_keys:
  assumes "enumerates it" "separate_keys H hex u"
  shows "distinct (map (\<lambda>x. utxo_tree_key H hex (fst x) (snd x)) (visited_outputs it u))"
proof -
  have "distinct (it (fmdom (utxos u)))" using assms(1) by (simp add: enumerates_def)
  then have "distinct (visited_outputs it u)"
    unfolding visited_outputs_def by (rule distinct_map_filter_Pair)
  moreover have "inj_on (\<lambda>x. utxo_tree_key H hex (fst x) (snd x)) (set (visited_outputs it u))"
    using assms(2) by (simp add: set_visited_outputs [OF assms(1)] separate_keys_def case_prod_unfold)
  ultimately show ?thesis by (simp add: distinct_map)
qed

text \<open>The tree filled from a set depends on nothing else, neither the order nor what it held.\<close>

lemma utxo_tree_order:
  assumes "enumerates it" "enumerates it'" "separate_keys H hex u"
    and "vk_pc t' = vk_pc t" "vk_empty_scalars t' = vk_empty_scalars t"
  shows "vk_spec_root A H (utxo_tree H hex it u t) = vk_spec_root A H (utxo_tree H hex it' u t')"
proof -
  note dist = distinct_utxo_keys [OF assms(1,3)] distinct_utxo_keys [OF assms(2,3)]
  have cleared: "storage_get (vk_storage (cleared_tree t)) k = storage_get (vk_storage (cleared_tree t')) k" for k
    by (simp add: cleared_tree_def memory.get_clear)
  have "storage_get (vk_storage (utxo_tree H hex it u t)) (key_for_path p) =
      storage_get (vk_storage (utxo_tree H hex it' u t')) (key_for_path p)" for p
    unfolding utxo_tree_def node_after_inserts [OF dist(1)] node_after_inserts [OF dist(2)]
    by (simp only: set_visited_outputs assms(1,2) cleared)
  then have "agree_below [] (utxo_tree H hex it u t) (utxo_tree H hex it' u t')"
    using utxo_tree_unpruned [of H hex it u t] utxo_tree_unpruned [of H hex it' u t'] assms(4,5)
    by (simp add: agree_below_def unpruned_def) (simp add: utxo_tree_def cleared_tree_def)
  from vk_spec_local [OF this, of A H KEY_SIZE] assms(4) show ?thesis
    by (simp add: vk_spec_root_def)
qed

lemma vk_get_inserts:
  assumes "\<forall>x \<in> set xs. length (g x) < 2 ^ 32"
  shows "vk_get k (fold (\<lambda>x. vk_insert (f x) (g x)) xs t) =
     (case map_of (rev (map (\<lambda>x. (f x, g x)) xs)) k of Some v \<Rightarrow> Inr (Some v) | None \<Rightarrow> vk_get k t)"
  using assms
  by (induction xs arbitrary: t) (auto simp: vk_get_insert map_add_def split: option.splits)

lemma vk_get_utxo_tree:
  "vk_get k (utxo_tree H hex it u t) =
     Inr (map_of (rev (map (\<lambda>(out, output). (utxo_tree_key H hex out output, to_le_bytes (out_value output)))
       (visited_outputs it u))) k)"
proof -
  have "vk_get k (cleared_tree t) = Inr None"
    by (simp add: vk_get_eq cleared_tree_def get_node_value_def memory.get_clear)
  then show ?thesis unfolding utxo_tree_def
    by (simp add: vk_get_inserts case_prod_unfold split: option.split)
qed

lemma utxo_tree_reading:
  assumes "enumerates it" "separate_keys H hex u" "fmlookup (utxos u) out = Some output"
  shows "vk_get (utxo_tree_key H hex out output) (utxo_tree H hex it u t) = Inr (Some (to_le_bytes (out_value output)))"
proof -
  let ?kvs = "map (\<lambda>(out, output). (utxo_tree_key H hex out output, to_le_bytes (out_value output))) (visited_outputs it u)"
  have "distinct (map fst ?kvs)" using distinct_utxo_keys [OF assms(1,2)] by (simp add: case_prod_unfold comp_def)
  then have "distinct (map fst (rev ?kvs))" by (simp only: rev_map [symmetric] distinct_rev)
  moreover have "(utxo_tree_key H hex out output, to_le_bytes (out_value output)) \<in> set (rev ?kvs)"
    using assms(3) by (force simp: set_visited_outputs [OF assms(1)])
  ultimately show ?thesis unfolding vk_get_utxo_tree by (simp only: map_of_is_SomeI)
qed

lemma vk_get_root_reading: "vk_ok A H t \<Longrightarrow> vk_get k (snd (vk_get_root A H t)) = vk_get k t"
  by (simp add: vk_get_eq vk_get_root_same)

lemma calculate_verkle_root_parts:
  "fst (calculate_verkle_root A H hex it u t) = bind_res (vk_spec_root A H (utxo_tree H hex it u t)) (\<lambda>root. Inr (Hash root))"
  "vk_get k (snd (calculate_verkle_root A H hex it u t)) = vk_get k (utxo_tree H hex it u t)"
proof -
  let ?r = "vk_get_root A H (utxo_tree H hex it u t)"
  have "fst ?r = vk_spec_root A H (utxo_tree H hex it u t)"
    using vk_get_root_result [OF vk_ok_utxo_tree] by blast
  then show "fst (calculate_verkle_root A H hex it u t) = bind_res (vk_spec_root A H (utxo_tree H hex it u t)) (\<lambda>root. Inr (Hash root))"
    unfolding calculate_verkle_root_eq by (cases ?r; cases "fst ?r") auto
  have "snd (calculate_verkle_root A H hex it u t) = snd ?r"
    unfolding calculate_verkle_root_eq by (cases ?r; cases "fst ?r") auto
  then show "vk_get k (snd (calculate_verkle_root A H hex it u t)) = vk_get k (utxo_tree H hex it u t)"
    by (simp add: vk_get_root_reading [OF vk_ok_utxo_tree])
qed

section \<open>Properties\<close>

text \<open>
  C11. The root of the second tree is the root of its contents: after any run of insertions,
  prunings, root computations, proof generations and recomputations from a UTXO set, failed ones
  included, \<open>get_root\<close> answers what the specification computes without a cache from the store and
  the commitments kept at prunings.
\<close>

theorem vk_root_exact:
  assumes "vk_tree_new A H s = Some t0" "t = fold (run_vk_op A H) ops t0"
  shows "fst (vk_get_root A H t) = vk_spec_root A H t"
  using vk_get_root_result [OF run_vk_ok [OF vk_tree_new_fields(1) [OF assms(1)], of ops]] by (simp only: assms(2))

theorem vk_root_exact_witness:
  "\<exists>t. fst (vk_get_root sample_ark (\<lambda>_. 0) t) = vk_spec_root sample_ark (\<lambda>_. 0) t \<and> vk_get 7 t = Inr (Some [1, 2])"
proof -
  obtain t0 where new: "vk_tree_new sample_ark (\<lambda>_. 0) memory_storage_new = Some t0"
    using vk_tree_new_ok [OF sample_ark_dense sample_ark_serializes] by blast
  have "vk_get 7 (vk_insert 7 [1, 2] t0) = Inr (Some [1, 2])" by (simp add: vk_get_insert del: vk_insert_fields)
  with vk_root_exact [OF new refl, where ops = "[VkInsert 7 [1, 2]]"] show ?thesis by auto
qed

text \<open>
  C12. Pruning does not change the root: for every tree reached by a run, a pruning returns; of a key
  with a node it leaves the root as it was, makes the key unreadable until it is inserted again,
  and changes the reading of no other key; of a key without a node it is refused and changes
  nothing.
\<close>

theorem pruning_keeps_root:
  assumes "dense_poly A" "serializes A" "vk_tree_new A H s = Some t0" "t = fold (run_vk_op A H) ops t0" "length v < 2 ^ 32"
  shows "\<exists>r t'. vk_prune_key A H key t = (Inr r, t') \<and>
     fst (vk_get_root A H t') = fst (vk_get_root A H t) \<and>
     (if vk_node_exists (array_bytes key) t
      then r = Inr () \<and>
        vk_get k t' = (if k = key then Inl (PrunedData ''Key has been pruned'') else vk_get k t) \<and>
        vk_get key (vk_insert key v t') = Inr (Some v)
      else r = Inl (PrunedData ''Key does not exist or already absent'') \<and> t' = t)"
proof -
  have ok: "vk_ok A H t" unfolding assms(4) by (rule run_vk_ok [OF vk_tree_new_fields(1) [OF assms(3)]])
  have "vk_pc t = vk_pc t0"
    using run_vk_constants [OF vk_tree_new_fields(1) [OF assms(3)]] unfolding assms(4) same_constants_def by blast
  with vk_new_commits [OF assms(3,1,2)] have "commits_ok A (vk_pc t)" by simp
  from vk_prune_total [OF ok this] obtain r t' where prune: "vk_prune_key A H key t = (Inr r, t')" by blast
  note res = vk_prune_result [OF ok prune]
  have "length ([] :: bytes) + KEY_SIZE = KEY_SIZE" by simp
  with res have "vk_spec A H t' KEY_SIZE [] = vk_spec A H t KEY_SIZE []" by blast
  then have "vk_spec_root A H t' = vk_spec_root A H t" by (simp add: vk_spec_root_def)
  then have root: "fst (vk_get_root A H t') = fst (vk_get_root A H t)"
    using vk_get_root_result [OF ok] vk_get_root_result [of A H t'] res by simp
  have "if vk_node_exists (array_bytes key) t
      then r = Inr () \<and>
        vk_get k t' = (if k = key then Inl (PrunedData ''Key has been pruned'') else vk_get k t) \<and>
        vk_get key (vk_insert key v t') = Inr (Some v)
      else r = Inl (PrunedData ''Key does not exist or already absent'') \<and> t' = t"
    using res vk_get_insert [OF assms(5), of key key t'] vk_get_deleted [of t' key t k] by (cases r) auto
  with prune root show ?thesis by blast
qed

theorem pruning_keeps_root_witness:
  "\<exists>t t'. vk_prune_key sample_ark (\<lambda>_. 0) 7 t = (Inr (Inr ()), t') \<and>
     fst (vk_get_root sample_ark (\<lambda>_. 0) t') = fst (vk_get_root sample_ark (\<lambda>_. 0) t) \<and>
     vk_get 7 t = Inr (Some [1, 2]) \<and> vk_get 7 t' = Inl (PrunedData ''Key has been pruned'')"
proof -
  obtain t0 where new: "vk_tree_new sample_ark (\<lambda>_. 0) memory_storage_new = Some t0"
    using vk_tree_new_ok [OF sample_ark_dense sample_ark_serializes] by blast
  let ?t = "vk_insert 7 [1, 2] t0"
  have "vk_node_exists (array_bytes 7) ?t" by (simp add: vk_node_exists_def storage_tree_insert)
  moreover have "vk_get 7 ?t = Inr (Some [1, 2])" by (simp add: vk_get_insert del: vk_insert_fields)
  ultimately show ?thesis
    using pruning_keeps_root [OF sample_ark_dense sample_ark_serializes(1) new refl, where v = "[]" and ops = "[VkInsert 7 [1, 2]]" and key = 7 and k = 7] by auto
qed

text \<open>
  C21. Without prunings the second tree is equivalent to the tree of \<open>state/v_trie.rs\<close>: after the same
  insertions, root computations and proof generations on the same storage both answer the same
  root, up to the kind of failure, and read the same values.
\<close>

theorem trees_agree:
  assumes "vk_tree_new A H s = Some t0" "tree_new A H s = Some (Inr u0)"
    and "\<forall>op \<in> set ops. trie_op op \<noteq> None"
    and "t = fold (run_vk_op A H) ops t0" "u = fold (run_op A H) (List.map_filter trie_op ops) u0"
  shows "fst (vk_get_root A H t) = or_panic (fst (get_root A H u)) \<and> vk_get k t = tree_get k u"
proof -
  have same: "same_nodes A H t u"
    unfolding assms(4,5) by (rule same_nodes_run [OF same_nodes_new [OF assms(1,2)] assms(3)])
  then have "fst (vk_get_root A H t) = vk_spec_root A H t"
    using vk_get_root_result [of A H t] by (simp add: same_nodes_def)
  also have "\<dots> = or_panic (fst (get_root A H u))"
    using same vk_root_plain(2) [of t A H] get_root_result [of A H u] by (simp add: same_nodes_def)
  finally show ?thesis
    using same by (simp add: same_nodes_def vk_get_eq unpruned_def tree_get_def)
qed

theorem trees_agree_witness:
  "\<exists>t u. fst (vk_get_root sample_ark (\<lambda>_. 0) t) = or_panic (fst (get_root sample_ark (\<lambda>_. 0) u)) \<and>
     vk_get 7 t = Inr (Some [1, 2]) \<and> tree_get 7 u = Inr (Some [1, 2])"
proof -
  obtain t0 where new: "vk_tree_new sample_ark (\<lambda>_. 0) memory_storage_new = Some t0"
    using vk_tree_new_ok [OF sample_ark_dense sample_ark_serializes] by blast
  obtain u0 where old: "tree_new sample_ark (\<lambda>_. 0) memory_storage_new = Some (Inr u0)"
    using tree_new_ok [OF sample_ark_dense sample_ark_serializes] by blast
  have "vk_get 7 (vk_insert 7 [1, 2] t0) = Inr (Some [1, 2])" by (simp add: vk_get_insert del: vk_insert_fields)
  with trees_agree [OF new old _ refl refl, where ops = "[VkInsert 7 [1, 2]]" and k = 7] show ?thesis
    by (auto simp: map_filter_simps)
qed

lemma inserted_provable:
  assumes "dense_poly A" "serializes A" "vk_tree_new A H s = Some t0"
  shows "vk_ok A H (fold (\<lambda>(key, v). vk_insert key v) kvs t0)"
    and "provable A H (fold (\<lambda>(key, v). vk_insert key v) kvs t0)"
proof -
  note new = vk_tree_new_fields [OF assms(3)]
  let ?t = "fold (\<lambda>x. vk_insert (fst x) (snd x)) kvs t0"
  have t: "fold (\<lambda>(key, v). vk_insert key v) kvs t0 = ?t" by (simp add: case_prod_unfold)
  show "vk_ok A H (fold (\<lambda>(key, v). vk_insert key v) kvs t0)" unfolding t by (rule vk_ok_inserts [OF new(1)])
  have "unpruned ?t" by (intro inserts_unpruned) (simp add: unpruned_def new)
  moreover have "empties_ok A H (trie_of ?t)" "commits_ok A (vk_pc ?t)"
    using vk_new_empties [OF assms(3)] vk_new_commits [OF assms(3,1,2)] by (simp_all add: empties_ok_def)
  moreover have "node_exists (vk_storage ?t) []"
  proof -
    have "node_exists (vk_storage (fold (\<lambda>x. vk_insert (fst x) (snd x)) kvs w)) []"
      if "node_exists (vk_storage w) []" for w :: "('a, 'c) vk_tree"
      using that by (induction kvs arbitrary: w) (simp_all add: node_exists_def storage_tree_insert)
    with new(4) show ?thesis by (simp add: node_exists_def vk_node_exists_def)
  qed
  ultimately show "provable A H (fold (\<lambda>(key, v). vk_insert key v) kvs t0)"
    unfolding t by (simp add: provable_def)
qed

text \<open>
  C22. The second tree proves what it holds: after any insertions into a new tree it generates a
  proof for every key, present or absent, with its root and the value under the key, and its
  verifier accepts it. The condition is on this tree and this key only: in every node of the tree on
  the path of the key some child, empty or not, has a root that is not zero as a scalar. Otherwise
  the polynomial of that node is zero, and the quotient the generation computes has no coefficient
  to read.
\<close>

theorem second_tree_proves:
  assumes "dense_poly A" "serializes A"
    and "vk_tree_new A H s = Some t0" "t = fold (\<lambda>(key, v). vk_insert key v) kvs t0"
    and "openable A H t key"
  shows "\<exists>proof' t'. vk_generate_proof A H key t = (Inr proof', t') \<and>
     vk_spec_root A H t = Inr (vk_root proof') \<and>
     vk_leaf_value proof' =
       (if \<forall>n. 0 < n \<and> n \<le> 32 \<longrightarrow> node_exists (vk_storage t) (take n (array_bytes key))
        then get_node_value (vk_storage t) (array_bytes key) else None) \<and>
     vk_verify_proof A H t' proof' = Inr True \<and>
     verify_verkle_proof A H t' (Hash (vk_root proof')) proof' (Hash key) hashed =
       Inr (case vk_leaf_value proof' of Some leaf \<Rightarrow> hash_new H leaf = hashed | None \<Rightarrow> True)"
proof -
  obtain proof' t' where "vk_generate_proof A H key t = (Inr proof', t')"
    "vk_spec_root A H t = Inr (vk_root proof')"
    "vk_leaf_value proof' =
       (if \<forall>n. 0 < n \<and> n \<le> 32 \<longrightarrow> node_exists (vk_storage t) (take n (array_bytes key))
        then get_node_value (vk_storage t) (array_bytes key) else None)"
    "vk_verify_proof A H t' proof' = Inr True"
    "vk_path proof' = array_bytes key" "vk_proof_type proof' = Membership \<longleftrightarrow> vk_leaf_value proof' \<noteq> None"
    using vk_generated_proof [OF inserted_provable [OF assms(1-3), of kvs], of key] assms(5) unfolding assms(4) by blast
  then show ?thesis
    by (intro exI [of _ proof'] exI [of _ t'])
      (auto simp: verify_verkle_proof_def split: option.split)
qed

lemma sample_openable: "openable sample_ark H t key"
  unfolding openable_def openable_node_def
proof (intro allI impI exI conjI)
  show "0 < VERKLE_RADIX" by (simp add: VERKLE_RADIX_def)
qed (rule sample_ark_serializes(2))

theorem second_tree_proves_witness:
  "\<exists>t proof' t'. vk_generate_proof sample_ark (\<lambda>_. 0) 7 t = (Inr proof', t') \<and> vk_leaf_value proof' = Some [1, 2] \<and>
     vk_verify_proof sample_ark (\<lambda>_. 0) t' proof' = Inr True \<and>
     verify_verkle_proof sample_ark (\<lambda>_. 0) t' (Hash (vk_root proof')) proof' (Hash 7) (Hash 0) = Inr True"
proof -
  obtain t0 where new: "vk_tree_new sample_ark (\<lambda>_. 0) memory_storage_new = Some t0"
    using vk_tree_new_ok [OF sample_ark_dense sample_ark_serializes] by blast
  let ?t = "vk_insert 7 [1, 2] t0"
  have t: "?t = fold (\<lambda>(key, v). vk_insert key v) [(7, [1, 2])] t0" by (simp del: vk_insert_fields)
  have "node_exists (vk_storage ?t) (take n (array_bytes 7))" for n
    by (auto simp: node_exists_def storage_tree_insert take_is_prefix)
  moreover have "get_node_value (vk_storage ?t) (array_bytes 7) = Some [1, 2]"
    by (simp add: get_node_value_insert)
  moreover have "hash_new (\<lambda>_. 0) [1, 2] = Hash 0" by (simp add: hash_new_def)
  moreover note second_tree_proves [OF sample_ark_dense sample_ark_serializes(1) new t sample_openable, of 7 "Hash 0"]
  ultimately show ?thesis by (elim exE conjE) (intro exI conjI; simp)
qed

text \<open>
  C33. The verifier of the second tree decides like the verifier of the first: the opening proofs
  change nothing. Any openings with fewer scalars than generators pass, true or false, since an
  opening that is refused is not an error.
\<close>

theorem openings_not_checked:
  assumes "commits_ok A (vk_pc t)"
    and "list_all (\<lambda>opening. length (proof_scalars (ipa_of opening)) < length (generators (vk_pc t))) (opening_proofs prf)"
  shows "vk_verify_proof A H t prf = Inr (verify_proof A H (trie_of t) (trie_proof prf) = Inr True)"
proof -
  have "dense_poly A" using assms(1) by (simp add: commits_ok_def)
  then show ?thesis
    using assms(2) by (simp add: vk_verify_proof_eq [OF assms(1)] list_all_iff opening_verdict_ok)
qed

text \<open>A generated proof passes with its openings replaced by one that is refused.\<close>

theorem openings_not_checked_witness:
  "\<exists>t proof' opening. vk_verify_proof sample_ark (\<lambda>_. 0) t proof' = Inr True \<and>
     pc_verify sample_ark (\<lambda>_. 0) (vk_pc t) (quotient_commitment opening) opening = Inr False \<and>
     vk_verify_proof sample_ark (\<lambda>_. 0) t (proof'\<lparr>opening_proofs := [opening]\<rparr>) = Inr True"
proof -
  let ?A = sample_ark and ?H = "\<lambda>_. 0 :: bytes32"
  note dense = sample_ark_dense and ser = sample_ark_serializes
  obtain t where new: "vk_tree_new ?A ?H memory_storage_new = Some t" using vk_tree_new_ok [OF dense ser] by blast
  note made = inserted_provable [OF dense ser(1) new, of "[]", simplified]
  obtain proof' t' where gen: "vk_generate_proof ?A ?H 7 t = (Inr proof', t')" "vk_verify_proof ?A ?H t' proof' = Inr True"
    using vk_generated_proof [OF made sample_openable, of 7] by blast
  have pc: "vk_pc t' = vk_pc t" using run_vk_op_constants [OF made(1), of "VkProof 7"] gen(1) by (simp add: same_constants_def)
  then have cm: "commits_ok ?A (vk_pc t')" using vk_new_commits [OF new dense ser(1)] by simp
  then have len: "1 < length (generators (vk_pc t'))" by (simp add: commits_ok_def VERKLE_RADIX_def)
  then have "\<exists>q. reconstruct_commitment_from_scalars ?A ?H (vk_pc t') [7] = Inr (Commitment q)"
    by (cases "generators (vk_pc t')") (simp_all add: reconstruct_commitment_from_scalars_def Let_def)
  then obtain q where q: "reconstruct_commitment_from_scalars ?A ?H (vk_pc t') [7] = Inr (Commitment q)" by blast
  let ?opening = "\<lparr>quotient_commitment = Commitment (q + 1),
      ipa_of = \<lparr>final_commitment = Commitment q, proof_scalars = [7]\<rparr>, op_point = 8, op_value = 9\<rparr>"
  have "pc_verify ?A ?H (vk_pc t') (quotient_commitment ?opening) ?opening = Inr False"
    by (simp add: pc_verify_def verify_ipa_proof_def q)
  moreover have "vk_verify_proof ?A ?H t' (proof'\<lparr>opening_proofs := [?opening]\<rparr>) =
      Inr (verify_proof ?A ?H (trie_of t') (trie_proof (proof'\<lparr>opening_proofs := [?opening]\<rparr>)) = Inr True)"
    by (rule openings_not_checked [OF cm]) (use len in simp)
  moreover have "trie_proof (proof'\<lparr>opening_proofs := [?opening]\<rparr>) = trie_proof proof'" by (simp add: trie_proof_def)
  moreover have "verify_proof ?A ?H (trie_of t') (trie_proof proof') = Inr True"
    using gen(2) by (simp add: vk_verify_proof_eq [OF cm])
  ultimately show ?thesis using gen(2) by (intro exI conjI) simp_all
qed

text \<open>
  C34. \<open>calculate_verkle_root\<close> is a function of the UTXO set, for a set that is not empty and as
  long as no two outputs share a key
  (the key has the recipient and the index, not the transaction): the root is the same for every
  order in which the iteration visits the map and whatever the tree held before, and afterwards the
  tree has the value of every output under its key.
\<close>

theorem utxo_root_of_set:
  assumes "enumerates it" "enumerates it'" "separate_keys H hex u"
    and "vk_tree_new A H s = Some t0" "t = fold (run_vk_op A H) ops t0"
    and "fmlookup (utxos u) out = Some output"
  shows "fst (calculate_verkle_root A H hex it u t) = fst (calculate_verkle_root A H hex it' u t0) \<and>
     vk_get (utxo_tree_key H hex out output) (snd (calculate_verkle_root A H hex it u t)) =
       Inr (Some (to_le_bytes (out_value output)))"
proof -
  note new = vk_tree_new_fields(1) [OF assms(4)]
  have "vk_pc t = vk_pc t0" "vk_empty_scalars t = vk_empty_scalars t0"
    using run_vk_constants [OF new] unfolding assms(5) same_constants_def by blast+
  then have "vk_spec_root A H (utxo_tree H hex it' u t0) = vk_spec_root A H (utxo_tree H hex it u t)"
    by (intro utxo_tree_order [OF assms(2,1,3)])
  then show ?thesis
    by (simp add: calculate_verkle_root_parts utxo_tree_reading [OF assms(1,3,6)])
qed


text \<open>Two outputs of one recipient in two positions; the hash is the digit of the index.\<close>

definition digit_hash :: blake3 where
  "digit_hash bytes = ucast (bytes ! 1)"

definition sample_outputs :: utxo_set where
  "sample_outputs = \<lparr>utxos = fmap_of_list
     [((Hash 1, 0), \<lparr>out_value = 100, pubkey_hash = Hash 3\<rparr>), ((Hash 2, 1), \<lparr>out_value = 5, pubkey_hash = Hash 3\<rparr>)]\<rparr>"

lemma sample_digits: "char_of (48 :: nat) = CHR ''0''" "char_of (49 :: nat) = CHR ''1''"
  by code_simp+

lemma sample_outputs_keys:
  "fmlookup (utxos sample_outputs) (Hash 2, 1) = Some \<lparr>out_value = 5, pubkey_hash = Hash 3\<rparr>"
  "utxo_tree_key digit_hash (\<lambda>_. '''') (Hash 2, 1) \<lparr>out_value = 5, pubkey_hash = Hash 3\<rparr> = 49"
  "separate_keys digit_hash (\<lambda>_. '''') sample_outputs"
proof -
  show "fmlookup (utxos sample_outputs) (Hash 2, 1) = Some \<lparr>out_value = 5, pubkey_hash = Hash 3\<rparr>"
    by (simp add: sample_outputs_def)
  show "utxo_tree_key digit_hash (\<lambda>_. '''') (Hash 2, 1) \<lparr>out_value = 5, pubkey_hash = Hash 3\<rparr> = 49"
    by (simp add: utxo_tree_key_def digit_hash_def utxo_path_def decimal.simps str_bytes_def sample_digits)
  show "separate_keys digit_hash (\<lambda>_. '''') sample_outputs"
    by (auto simp: separate_keys_def inj_on_def sample_outputs_def utxo_tree_key_def digit_hash_def utxo_path_def
      decimal.simps str_bytes_def sample_digits fmlookup_of_list split: if_splits)
qed

theorem utxo_root_of_set_witness:
  "\<exists>t. vk_get 49 (snd (calculate_verkle_root sample_ark digit_hash (\<lambda>_. '''') sorted_list_of_fset sample_outputs t)) =
     Inr (Some (to_le_bytes (5 :: u64)))"
proof -
  obtain t0 where new: "vk_tree_new sample_ark digit_hash memory_storage_new = Some t0"
    using vk_tree_new_ok [OF sample_ark_dense sample_ark_serializes] by blast
  have "enumerates (sorted_list_of_fset :: outpoint fset \<Rightarrow> outpoint list)" by (simp add: enumerates_def)
  from utxo_root_of_set [OF this this sample_outputs_keys(3) new refl sample_outputs_keys(1)]
  show ?thesis by (auto simp: sample_outputs_keys(2))
qed

end
