(* ===== verification/V_Trie_Sound.thy ===== *)
theory V_Trie_Sound
  imports V_Trie_Proof
begin

text \<open>
  Soundness of the proofs of the Verkle tree (\<open>verify_proof\<close> of \<open>src/core/state/v_trie.rs\<close>). An
  accepted proof with the root of a tree says what the tree holds, unless one of finitely many
  named pairs collides: the row of the proof and the row of the tree at some depth, the two roots
  under it as scalars, or the two leaves. Which pairs these are is computed from the proof and the
  tree, so a false proof that is accepted exhibits a collision of the commitment or of the hash.
\<close>

section \<open>The roots on the way up\<close>

text \<open>The root the verifier starts from, and the one after \<open>n\<close> levels.\<close>

definition leaf_root :: "('f::field, 'p, 'g::ab_group_add) ark \<Rightarrow> blake3 \<Rightarrow> ('f, 'g) verkle_tree \<Rightarrow> bytes option \<Rightarrow> bytes32" where
  "leaf_root A H t leaf =
     coeffs_root A H (vt_pc t) (case leaf of Some v \<Rightarrow> [value_to_scalar A H v] | None \<Rightarrow> [])"

fun up_root ::
    "('f::field, 'p, 'g::ab_group_add) ark \<Rightarrow> blake3 \<Rightarrow> ('f, 'g) verkle_tree \<Rightarrow> verkle_proof \<Rightarrow> nat \<Rightarrow> bytes32" where
  "up_root A H t prf 0 = leaf_root A H t (leaf_value prf)"
| "up_root A H t prf (Suc n) =
     coeffs_root A H (vt_pc t) (row_coeffs A prf (KEY_SIZE - Suc n) (from_le_mod A (up_root A H t prf n)))"

definition proof_row ::
    "('f::field, 'p, 'g::ab_group_add) ark \<Rightarrow> blake3 \<Rightarrow> ('f, 'g) verkle_tree \<Rightarrow> verkle_proof \<Rightarrow> nat \<Rightarrow> 'f list" where
  "proof_row A H t prf d = row_coeffs A prf d (from_le_mod A (up_root A H t prf (KEY_SIZE - Suc d)))"

lemma up_root_row:
  assumes "d < KEY_SIZE"
  shows "up_root A H t prf (KEY_SIZE - d) = coeffs_root A H (vt_pc t) (proof_row A H t prf d)"
proof -
  have "KEY_SIZE - d = Suc (KEY_SIZE - Suc d)" using assms by simp
  moreover have "KEY_SIZE - Suc (KEY_SIZE - Suc d) = d" using assms by simp
  ultimately show ?thesis by (simp only: up_root.simps proof_row_def)
qed

lemma starting_scalar_eq:
  assumes "commits_ok A (vt_pc t)" "empties_ok A H t"
  shows "starting_scalar A H t prf = Inr (from_le_mod A (up_root A H t prf 0))"
proof (cases "leaf_value prf")
  case None
  with empties_okD(1) [OF assms] show ?thesis by (simp add: starting_scalar_def leaf_root_def)
next
  case (Some v)
  with coeffs_root [OF assms(1), of "[value_to_scalar A H v]" H "''Failed to commit leaf: ''"] show ?thesis
    by (cases "commit_coeffs A H (vt_pc t) ''Failed to commit leaf: '' [value_to_scalar A H v]")
      (simp_all add: starting_scalar_def leaf_root_def VERKLE_RADIX_def)
qed

lemma verify_loop_up:
  assumes "commits_ok A (vt_pc t)" "d \<le> KEY_SIZE"
  shows "verify_loop A H (vt_pc t) prf d (up_root A H t prf (KEY_SIZE - d)) (from_le_mod A (up_root A H t prf (KEY_SIZE - d)))
    = Inr (up_root A H t prf KEY_SIZE)"
  using assms(2)
proof (induction d)
  case (Suc d)
  let ?cs = "row_coeffs A prf d (from_le_mod A (up_root A H t prf (KEY_SIZE - Suc d)))"
  have root: "coeffs_root A H (vt_pc t) ?cs = up_root A H t prf (KEY_SIZE - d)"
    using up_root_row [of d A H t "prf"] Suc.prems by (simp add: proof_row_def)
  have "length ?cs \<le> VERKLE_RADIX" by (simp add: row_coeffs_def)
  from coeffs_root [OF assms(1) this, of H "''Failed to reconstruct commitment: ''"] obtain cm where
    "commit_coeffs A H (vt_pc t) ''Failed to reconstruct commitment: '' ?cs = Inr cm"
    "commitment_root_hash A H cm = Inr (up_root A H t prf (KEY_SIZE - d))"
    by (auto simp: bind_res_eq_Inr root)
  with Suc show ?case by simp
qed simp

lemma verify_loop_start:
  "0 < d \<Longrightarrow> verify_loop A H pc prf d c x = verify_loop A H pc prf d c' x"
  by (cases d) simp_all

lemma verify_proof_root:
  assumes "commits_ok A (vt_pc t)" "empties_ok A H t" "verify_proof A H t prf = Inr True"
  shows "up_root A H t prf KEY_SIZE = proof_root prf"
    "proof_type_of prf = Membership \<longleftrightarrow> leaf_value prf \<noteq> None"
proof -
  have "verify_loop A H (vt_pc t) prf KEY_SIZE 0 (from_le_mod A (up_root A H t prf 0)) = Inr (up_root A H t prf KEY_SIZE)"
    using verify_loop_up [OF assms(1) order.refl, of H "prf"]
      verify_loop_start [of KEY_SIZE A H "vt_pc t" "prf" 0 _ "up_root A H t prf 0"]
    by (simp only: diff_self_eq_0 KEY_SIZE_def zero_less_numeral simp_thms)
  with assms(3) show "up_root A H t prf KEY_SIZE = proof_root prf"
    unfolding verify_proof_def by (auto simp: starting_scalar_eq [OF assms(1,2)] split: if_splits)
  show "proof_type_of prf = Membership \<longleftrightarrow> leaf_value prf \<noteq> None"
    using assms(3) unfolding verify_proof_def by (cases "proof_type_of prf") (auto split: if_splits)
qed

section \<open>The same roots in the tree\<close>

text \<open>Whether the path of a key exists down to a depth.\<close>

definition on_path :: "('f, 'g) verkle_tree \<Rightarrow> bytes \<Rightarrow> nat \<Rightarrow> bool" where
  "on_path t bs d \<longleftrightarrow> (\<forall>n. 0 < n \<and> n \<le> d \<longrightarrow> node_exists (vt_storage t) (take n bs))"

definition tree_path_root ::
    "('f::field, 'p, 'g::ab_group_add) ark \<Rightarrow> blake3 \<Rightarrow> ('f, 'g) verkle_tree \<Rightarrow> bytes \<Rightarrow> nat \<Rightarrow> bytes32" where
  "tree_path_root A H t bs d = expected A H t (on_path t bs d) (take d bs) d"

definition tree_row ::
    "('f::field, 'p, 'g::ab_group_add) ark \<Rightarrow> blake3 \<Rightarrow> ('f, 'g) verkle_tree \<Rightarrow> bytes \<Rightarrow> nat \<Rightarrow> 'f list" where
  "tree_row A H t bs d = map (\<lambda>i. from_le_mod A (sibling A H t (on_path t bs d) (take d bs) d i)) [0..<VERKLE_RADIX]"

lemma tree_path_root_row:
  assumes "commits_ok A (vt_pc t)" "empties_ok A H t" "d < KEY_SIZE"
  shows "tree_path_root A H t bs d = coeffs_root A H (vt_pc t) (tree_row A H t bs d)"
  unfolding tree_path_root_def tree_row_def by (rule expected_step [OF assms])

lemma on_path_Suc: "on_path t bs (Suc d) \<longleftrightarrow> on_path t bs d \<and> node_exists (vt_storage t) (take (Suc d) bs)"
  by (auto simp: on_path_def le_Suc_eq)

lemma tree_row_child:
  assumes "d < KEY_SIZE" "length bs = KEY_SIZE"
  shows "tree_row A H t bs d ! unat (bs ! d) = from_le_mod A (tree_path_root A H t bs (Suc d))"
proof -
  have "unat (bs ! d) < VERKLE_RADIX" using unsigned_less [of "bs ! d"] by (simp add: VERKLE_RADIX_def)
  moreover have "take (Suc d) bs = take d bs @ [bs ! d]" using assms by (simp add: take_Suc_conv_app_nth)
  moreover have "expected A H t (on_path t bs (Suc d)) (take (Suc d) bs) (Suc d) =
      sibling A H t (on_path t bs d) (take d bs) d (unat (bs ! d))"
  proof (cases "on_path t bs d")
    case True
    with assms show ?thesis
      using expected_child [OF assms(1), of True "take d bs" "take (Suc d) bs" "bs ! d" "on_path t bs (Suc d)" t A H]
      by (simp add: on_path_Suc take_Suc_conv_app_nth)
  next
    case False
    then show ?thesis by (simp add: on_path_Suc expected_def sibling_def)
  qed
  ultimately show ?thesis by (simp add: tree_row_def tree_path_root_def)
qed

lemma tree_path_root_leaf:
  assumes "commits_ok A (vt_pc t)" "empties_ok A H t" "length bs = KEY_SIZE"
  shows "tree_path_root A H t bs KEY_SIZE =
     leaf_root A H t (if on_path t bs KEY_SIZE then get_node_value (vt_storage t) bs else None)"
proof (cases "on_path t bs KEY_SIZE")
  case True
  have "root_at A H t 0 bs = coeffs_root A H (vt_pc t) (leaf_coeffs A H (vt_storage t) bs)"
    using tree_root_leaf [OF assms(1), of H bs] by (simp add: root_at_def)
  with True assms(1,3) show ?thesis
    by (simp add: tree_path_root_def expected_def leaf_root_def leaf_coeffs_def coeffs_root_zero commits_ok_def
      split: option.split)
next
  case False
  with empties_okD(1) [OF assms(1,2)] show ?thesis by (simp add: tree_path_root_def expected_def leaf_root_def)
qed

section \<open>Collisions\<close>

text \<open>Two different polynomials with one root.\<close>

definition clash :: "('f::field, 'p, 'g::ab_group_add) ark \<Rightarrow> blake3 \<Rightarrow> 'g polynomial_commitment \<Rightarrow> 'f list \<Rightarrow> 'f list \<Rightarrow> bool" where
  "clash A H pc cs cs' \<longleftrightarrow>
     coeffs_root A H pc cs = coeffs_root A H pc cs' \<and> strip_while ((=) 0) cs \<noteq> strip_while ((=) 0) cs'"

definition leaf_scalars :: "('f::field, 'p, 'g) ark \<Rightarrow> blake3 \<Rightarrow> bytes option \<Rightarrow> 'f list" where
  "leaf_scalars A H leaf = (case leaf of Some v \<Rightarrow> [value_to_scalar A H v] | None \<Rightarrow> [])"

text \<open>The pairs a false proof has to make collide.\<close>

definition collision_free ::
    "('f::field, 'p, 'g::ab_group_add) ark \<Rightarrow> blake3 \<Rightarrow> ('f, 'g) verkle_tree \<Rightarrow> verkle_proof \<Rightarrow> bytes \<Rightarrow> bytes option \<Rightarrow> bool" where
  "collision_free A H t prf bs held \<longleftrightarrow>
     (\<forall>d < KEY_SIZE. \<not> clash A H (vt_pc t) (proof_row A H t prf d) (tree_row A H t bs d)) \<and>
     (\<forall>d \<le> KEY_SIZE. from_le_mod A (up_root A H t prf (KEY_SIZE - d)) = from_le_mod A (tree_path_root A H t bs d) \<longrightarrow>
        up_root A H t prf (KEY_SIZE - d) = tree_path_root A H t bs d) \<and>
     \<not> clash A H (vt_pc t) (leaf_scalars A H (leaf_value prf)) (leaf_scalars A H held) \<and>
     (strip_while ((=) 0) (leaf_scalars A H (leaf_value prf)) = strip_while ((=) 0) (leaf_scalars A H held) \<longrightarrow>
        leaf_value prf = held)"

lemma strip_while_zero_inject:
  assumes "strip_while ((=) 0) cs = strip_while ((=) 0) cs'" "length cs = length cs'"
  shows "cs = (cs' :: 'a::zero list)"
proof (rule nth_equalityI [OF assms(2)])
  fix i assume i: "i < length cs"
  have "nth_default 0 (strip_while ((=) 0) cs) = nth_default 0 cs" for cs :: "'a list" by simp
  then have "nth_default 0 cs i = nth_default 0 cs' i" using assms(1) by metis
  with i assms(2) show "cs ! i = cs' ! i" by (simp add: nth_default_nth)
qed

lemma roots_follow_path:
  assumes "commits_ok A (vt_pc t)" "empties_ok A H t" "collision_free A H t prf bs held"
    and "proof_path prf = bs" "length bs = KEY_SIZE"
    and "up_root A H t prf KEY_SIZE = tree_path_root A H t bs 0" "d \<le> KEY_SIZE"
  shows "up_root A H t prf (KEY_SIZE - d) = tree_path_root A H t bs d"
  using assms(7)
proof (induction d)
  case 0
  with assms(6) show ?case by simp
next
  case (Suc d)
  then have d: "d < KEY_SIZE" by simp
  have "coeffs_root A H (vt_pc t) (proof_row A H t prf d) = coeffs_root A H (vt_pc t) (tree_row A H t bs d)"
    using Suc.IH d up_root_row [OF d, of A H t "prf"] tree_path_root_row [OF assms(1,2) d, of bs] by simp
  with assms(3) d have "strip_while ((=) 0) (proof_row A H t prf d) = strip_while ((=) 0) (tree_row A H t bs d)"
    by (auto simp: collision_free_def clash_def)
  then have rows: "proof_row A H t prf d = tree_row A H t bs d"
    by (rule strip_while_zero_inject) (simp add: proof_row_def row_coeffs_def tree_row_def)
  have "unat (bs ! d) < VERKLE_RADIX" using unsigned_less [of "bs ! d"] by (simp add: VERKLE_RADIX_def)
  then have "proof_row A H t prf d ! unat (bs ! d) = from_le_mod A (up_root A H t prf (KEY_SIZE - Suc d))"
    by (simp add: proof_row_def row_coeffs_def assms(4))
  with rows tree_row_child [OF d assms(5), of A H t] have
    "from_le_mod A (up_root A H t prf (KEY_SIZE - Suc d)) = from_le_mod A (tree_path_root A H t bs (Suc d))" by simp
  with assms(3) Suc.prems show ?case unfolding collision_free_def by blast
qed

text \<open>What an accepted proof says of the tree with its root.\<close>

lemma accepted_proof_says:
  assumes "commits_ok A (vt_pc t)" "empties_ok A H t"
    and "verify_proof A H t prf = Inr True" "proof_path prf = array_bytes key"
    and "spec_root A H (vt_pc t) (empty_subtree_scalars t) (vt_storage t) KEY_SIZE [] = Inr (proof_root prf)"
    and "held = (if \<forall>n. 0 < n \<and> n \<le> 32 \<longrightarrow> node_exists (vt_storage t) (take n (array_bytes key))
       then get_node_value (vt_storage t) (array_bytes key) else None)"
    and "collision_free A H t prf (array_bytes key) held"
  shows "leaf_value prf = held \<and> (proof_type_of prf = Membership \<longleftrightarrow> held \<noteq> None)"
proof -
  let ?bs = "array_bytes key"
  have len: "length ?bs = KEY_SIZE" by (simp add: KEY_SIZE_def)
  note acc = verify_proof_root [OF assms(1-3)]
  have "tree_path_root A H t ?bs 0 = proof_root prf"
    using tree_root_total(1) [OF assms(1,2) order.refl, of "[]"] assms(5)
    by (simp add: tree_path_root_def expected_def on_path_def)
  with acc(1) have "up_root A H t prf KEY_SIZE = tree_path_root A H t ?bs 0" by simp
  from roots_follow_path [OF assms(1,2,7,4) len this order.refl]
  have "leaf_root A H t (leaf_value prf) = tree_path_root A H t ?bs KEY_SIZE" by simp
  also have "\<dots> = leaf_root A H t held"
    using tree_path_root_leaf [OF assms(1,2) len] by (simp add: assms(6) on_path_def KEY_SIZE_def)
  finally have "strip_while ((=) 0) (leaf_scalars A H (leaf_value prf)) = strip_while ((=) 0) (leaf_scalars A H held)"
    using assms(7) by (auto simp: collision_free_def clash_def leaf_root_def leaf_scalars_def)
  with assms(7) acc(2) show ?thesis by (simp add: collision_free_def)
qed

section \<open>Properties\<close>

text \<open>
  C7. Proofs are sound: a proof the verifier accepts for a key and the root of the tree says what the
  tree holds under the key, a value or its absence, unless one of the pairs named in
  \<open>collision_free\<close> collides.
\<close>

theorem accepted_proof_sound:
  assumes "commits_ok A (vt_pc t)" "empties_ok A H t"
    and "verify_proof A H t prf = Inr True" "proof_path prf = array_bytes key"
    and "spec_root A H (vt_pc t) (empty_subtree_scalars t) (vt_storage t) KEY_SIZE [] = Inr (proof_root prf)"
    and "held = (if \<forall>n. 0 < n \<and> n \<le> 32 \<longrightarrow> node_exists (vt_storage t) (take n (array_bytes key))
       then get_node_value (vt_storage t) (array_bytes key) else None)"
    and "collision_free A H t prf (array_bytes key) held"
  shows "leaf_value prf = held \<and> (proof_type_of prf = Membership \<longleftrightarrow> held \<noteq> None)"
  by (rule accepted_proof_says [OF assms])

text \<open>The proof of the example tree collides nowhere, although every root is the same there.\<close>

lemma sample_coeffs_root [simp]: "coeffs_root sample_ark (\<lambda>_. 0) pc cs = 0"
proof (cases "commit_coeffs sample_ark (\<lambda>_. 0) pc [] cs")
  case (Inr cm)
  then show ?thesis by (simp add: coeffs_root_def commitment_root_hash_def) (simp add: sample_ark_def)
qed (simp add: coeffs_root_def)

lemma sample_collision_free:
  assumes "commits_ok sample_ark (vt_pc t)" "empties_ok sample_ark (\<lambda>_. 0) t" "length bs = KEY_SIZE"
  shows "collision_free sample_ark (\<lambda>_. 0) t prf bs (leaf_value prf)"
proof -
  let ?A = sample_ark and ?H = "\<lambda>_. 0 :: bytes32"
  have scalar: "from_le_mod ?A x = 1" for x by (simp add: sample_ark_def)
  have "proof_row ?A ?H t prf d = tree_row ?A ?H t bs d" for d
    by (simp add: proof_row_def row_coeffs_def tree_row_def scalar)
  moreover have "up_root ?A ?H t prf n = 0" for n by (cases n) (simp_all add: leaf_root_def)
  moreover have "tree_path_root ?A ?H t bs d = 0" if "d \<le> KEY_SIZE" for d
  proof (cases "d = KEY_SIZE")
    case True
    with tree_path_root_leaf [OF assms] show ?thesis by (simp add: leaf_root_def)
  next
    case False
    with that tree_path_root_row [OF assms(1,2), of d bs] show ?thesis by simp
  qed
  ultimately show ?thesis by (simp add: collision_free_def clash_def)
qed

theorem accepted_proof_sound_witness:
  "\<exists>t proof'. verify_proof sample_ark (\<lambda>_. 0) t proof' = Inr True \<and> proof_path proof' = array_bytes 7 \<and>
     leaf_value proof' = Some [1, 2] \<and> proof_type_of proof' = Membership"
proof -
  let ?A = sample_ark and ?H = "\<lambda>_. 0 :: bytes32"
  obtain t0 where new: "tree_new ?A ?H memory_storage_new = Some (Inr t0)" and ok: "commits_ok ?A (vt_pc t0)"
    using tree_new_ok [OF sample_ark_dense sample_ark_serializes] by blast
  note fields = tree_new_fields [OF new]
  let ?t = "tree_insert 7 [1, 2] t0"
  have pc: "commits_ok ?A (vt_pc ?t)" using ok by simp
  have caches: "caches_ok ?A ?H ?t" by (rule tree_insert_caches) (use fields(2) in \<open>simp add: caches_ok_def\<close>)
  have empties: "empties_ok ?A ?H ?t" using fields(1) by (simp add: empties_ok_def)
  have nodes: "node_exists (vt_storage ?t) (take n (array_bytes 7))" for n
    by (auto simp: node_exists_def storage_tree_insert take_is_prefix)
  have val: "get_node_value (vt_storage ?t) (array_bytes 7) = Some [1, 2]" by (simp add: get_node_value_insert)
  obtain rows p ex where col: "collected ?A ?H ?t True [] 0 (array_bytes 7) = (rows, p, ex)" by (metis prod_cases3)
  have ex: "ex" "p = array_bytes 7" using collected_result [OF col] nodes by simp_all
  let ?proof = "\<lparr>proof_type_of = Membership, proof_path = array_bytes 7, siblings = rows, leaf_value = Some [1, 2],
      proof_root = root_at ?A ?H ?t KEY_SIZE [], gas_fee_distribution = None\<rparr>"
  have acc: "verify_proof ?A ?H ?t ?proof = Inr True"
    using verify_generated [OF pc empties col refl refl, of None] ex val by (simp add: witness_ok_def)
  have held: "Some [1, 2] = (if \<forall>n. 0 < n \<and> n \<le> 32 \<longrightarrow> node_exists (vt_storage ?t) (take n (array_bytes 7))
       then get_node_value (vt_storage ?t) (array_bytes 7) else None)" using nodes val by simp
  have free: "collision_free ?A ?H ?t ?proof (array_bytes 7) (Some [1, 2])"
    using sample_collision_free [OF pc empties, of "array_bytes 7" ?proof] by (simp add: KEY_SIZE_def)
  have root: "spec_root ?A ?H (vt_pc ?t) (empty_subtree_scalars ?t) (vt_storage ?t) KEY_SIZE [] = Inr (proof_root ?proof)"
    using tree_root_total(1) [OF pc empties order.refl, of "[]"] by simp
  from accepted_proof_sound [OF pc empties acc _ root held free] acc show ?thesis
    by (intro exI [of _ ?t] exI [of _ ?proof]) simp
qed

end
