(* ===== verification/V_Trie_Typed.thy ===== *)
theory V_Trie_Typed
  imports V_Trie_Proof Vm_Executor
begin

text \<open>
  The type of the store of the Verkle tree (\<open>src/core/state/v_trie.rs\<close>): its keys are the encodings
  of paths of at most 32 bytes, its values encodings of nodes, and only paths of full length carry
  a value. All operations of the tree keep it, and so do contracts.
\<close>

section \<open>The invariant\<close>

definition node_entry :: "bytes \<Rightarrow> bytes \<Rightarrow> bool" where
  "node_entry key entry \<longleftrightarrow>
     (\<exists>p node. key = key_for_path p \<and> length p \<le> KEY_SIZE \<and> entry = serialize_node node \<and>
        (node \<noteq> None \<longrightarrow> length p = KEY_SIZE))"

definition store_typed :: "memory_storage \<Rightarrow> bool" where
  "store_typed s \<longleftrightarrow> (\<forall>key entry. storage_get s key = Some entry \<longrightarrow> node_entry key entry)"

lemma store_typed_put: "store_typed s \<Longrightarrow> node_entry key entry \<Longrightarrow> store_typed (storage_put key entry s)"
  by (simp add: store_typed_def memory.get_put)

lemma store_typed_delete: "store_typed s \<Longrightarrow> store_typed (storage_delete key s)"
  by (simp add: store_typed_def memory.get_del)

lemma node_entry_empty: "length p \<le> KEY_SIZE \<Longrightarrow> node_entry (key_for_path p) (serialize_node None)"
  by (auto simp: node_entry_def)

lemma node_entry_value: "length p = KEY_SIZE \<Longrightarrow> node_entry (key_for_path p) (serialize_node v)"
  by (auto simp: node_entry_def)

section \<open>The operations keep it\<close>

lemma typed_ensure_node:
  "store_typed (vt_storage t) \<Longrightarrow> length p \<le> KEY_SIZE \<Longrightarrow> store_typed (vt_storage (ensure_node p t))"
  by (simp add: ensure_node_def store_typed_put node_entry_empty)

lemma typed_ensure_path:
  "store_typed (vt_storage t) \<Longrightarrow> length p + length bs \<le> KEY_SIZE \<Longrightarrow> store_typed (vt_storage (ensure_path p bs t))"
  by (induction p bs t rule: ensure_path.induct) (simp_all add: typed_ensure_node)

lemma typed_insert: "store_typed (vt_storage t) \<Longrightarrow> store_typed (vt_storage (tree_insert key v t))"
  by (simp add: tree_insert_def Let_def set_node_value_def store_typed_put node_entry_value typed_ensure_path
      typed_ensure_node KEY_SIZE_def)

lemma typed_cleanup: "store_typed (vt_storage t) \<Longrightarrow> store_typed (vt_storage (cleanup_loop path n t))"
  by (induction path n t rule: cleanup_loop.induct) (simp_all add: Let_def store_typed_delete)

lemma typed_prune: "store_typed (vt_storage t) \<Longrightarrow> store_typed (vt_storage (snd (prune_key key t)))"
  by (simp add: prune_key_def Let_def recursive_cleanup_empty_nodes_def typed_cleanup store_typed_delete)

interpretation typed_tree: tree_invariant "\<lambda>t. store_typed (vt_storage t)"
  by unfold_locales (simp_all add: typed_insert typed_prune)

lemma typed_inserts:
  "store_typed (vt_storage t) \<Longrightarrow> store_typed (vt_storage (fold (\<lambda>(key, value). tree_insert key value) kvs t))"
  by (induction kvs arbitrary: t) (auto simp: typed_insert)

lemma typed_transition:
  "store_typed (vt_storage t) \<Longrightarrow> store_typed (vt_storage (snd (apply_state_transition updates supply t)))"
  by (simp add: apply_state_transition_def Let_def typed_insert typed_inserts)

lemma generate_proof_storage:
  assumes "caches_ok A H t"
  shows "vt_storage (snd (generate_proof_with_witness A H key w t)) = vt_storage t"
proof -
  let ?loop = "proof_loop A H True [] 0 (array_bytes key) t"
  let ?I = "\<lambda>t'. caches_ok A H t' \<and> vt_storage t' = vt_storage t"
  have r: "reading A H t (snd ?loop)"
    using assms by (intro proof_loop_reading) (simp_all add: caches_ok_def KEY_SIZE_def)
  have "?I (snd ?loop)" using coherent_read [OF assms r] r same_treeD(1) [of t "snd ?loop"] by simp
  then have "?I (snd (generate_proof_with_witness A H key w t))"
    unfolding generate_proof_with_witness_def take_key
    by (rule bind_st_inv [where I = ?I])
      (auto simp: Let_def split_beta get_root_result intro!: bind_st_inv [where I = ?I])
  then show ?thesis by blast
qed

lemma typed_run_op:
  assumes "caches_ok A H t" "store_typed (vt_storage t)"
  shows "store_typed (vt_storage (run_op A H op t))"
  using get_root_result [OF assms(1)] assms
  by (cases op) (simp_all add: typed_insert typed_prune typed_transition generate_proof_storage)

lemma typed_run:
  "caches_ok A H t \<Longrightarrow> store_typed (vt_storage t) \<Longrightarrow> store_typed (vt_storage (fold (run_op A H) ops t))"
  by (induction ops arbitrary: t) (simp_all add: run_op_caches typed_run_op)

lemma typed_new:
  assumes "tree_new A H memory_storage_new = Some (Inr t)"
  shows "store_typed (vt_storage t)"
proof -
  have "store_typed memory_storage_new" by (simp add: store_typed_def memory_storage_new_def storage_get_def)
  then show ?thesis
    using assms by (auto simp: tree_new_def compute_empty_subtree_constants_def typed_ensure_node)
qed

section \<open>Properties\<close>

text \<open>
  C10. The store of the tree is well typed: after any run of insertions, prunings, state
  transitions, root computations and proof generations, and then of a contract, whatever it calls
  and however it ends, every key of the store encodes a path of at most 32 bytes and every value
  encodes a node, which is empty unless the path has 32 bytes.
\<close>

theorem store_well_typed:
  assumes "tree_new A H memory_storage_new = Some (Inr t0)" "sm_tree (env_state env) = fold (run_op A H) ops t0"
    and "guest_loop W H ev env = Some (res, env')"
    and "storage_get (vt_storage (sm_tree (env_state env'))) key = Some entry"
  shows "\<exists>p node. key = key_for_path p \<and> length p \<le> KEY_SIZE \<and> entry = serialize_node node \<and>
     (node \<noteq> None \<longrightarrow> length p = KEY_SIZE)"
proof -
  have "store_typed (vt_storage (sm_tree (env_state env)))"
    unfolding assms(2) by (rule typed_run [OF tree_new_fields(2) [OF assms(1)] typed_new [OF assms(1)]])
  then have "typed_tree.ran_from (env_state env) env"
    unfolding typed_tree.ran_from_def by (intro exI [of _ "sm_tree (env_state env)"]) simp
  from typed_tree.ran_from_loop [OF assms(3) this]
  have "store_typed (vt_storage (sm_tree (env_state env')))" by (auto simp: typed_tree.ran_from_def)
  with assms(4) show ?thesis by (simp add: store_typed_def node_entry_def)
qed

theorem store_well_typed_witness:
  "\<exists>p node. key_for_path (array_bytes 7) = key_for_path p \<and> length p \<le> KEY_SIZE \<and>
     serialize_node (Some [1, 2]) = serialize_node node \<and> (node \<noteq> None \<longrightarrow> length p = KEY_SIZE)"
proof -
  let ?A = sample_ark and ?H = "\<lambda>_. 0 :: bytes32"
  obtain t0 where new: "tree_new ?A ?H memory_storage_new = Some (Inr t0)"
    using tree_new_ok [OF sample_ark_dense sample_ark_serializes] by blast
  let ?t = "fold (run_op ?A ?H) [InsertOp 7 [1, 2]] t0"
  let ?env = "\<lparr>env_store = ([], 100, []), env_gas = gas_meter_new 100, env_state = sample_manager ?t, instance_backref = True\<rparr>"
  have tree: "sm_tree (env_state ?env) = ?t" by (simp add: sample_manager_def)
  have run: "guest_loop sample_script ?H (Returned ([], 90, [])) ?env = Some (Guest_Done, ?env\<lparr>env_store := ([], 90, [])\<rparr>)"
    by (simp add: guest_loop.simps)
  show ?thesis
    by (rule store_well_typed [OF new tree run]) (simp add: sample_manager_def storage_tree_insert)
qed

end
