(* ===== verification/V_Trie_Canonical.thy ===== *)
theory V_Trie_Canonical
  imports V_Trie_Proof
begin

text \<open>
  The root of the Verkle tree (\<open>src/core/state/v_trie.rs\<close>) is a function of what was inserted, not of
  the order of the insertions: nodes that build the same state agree on its root.
\<close>

section \<open>The store after insertions\<close>

abbreviation insert_all :: "(bytes32 \<times> bytes) list \<Rightarrow> ('f, 'g) verkle_tree \<Rightarrow> ('f, 'g) verkle_tree" where
  "insert_all \<equiv> fold (\<lambda>(key, v). tree_insert key v)"

lemma insert_all_run: "insert_all kvs t = fold (run_op A H) (map (\<lambda>(key, v). InsertOp key v) kvs) t"
  by (induction kvs arbitrary: t) auto

lemma insert_all_frame [simp]:
  "vt_pc (insert_all kvs t) = vt_pc t" "empty_subtree_scalars (insert_all kvs t) = empty_subtree_scalars t"
  "pruned_keys (insert_all kvs t) = pruned_keys t"
  by (induction kvs arbitrary: t) auto

text \<open>The keys by their paths.\<close>

definition value_at :: "(bytes32 \<times> bytes) list \<Rightarrow> bytes \<Rightarrow> bytes option" where
  "value_at kvs p =
     (if length p = 32 then map_of (rev kvs) (from_be_bytes p) else None)"

lemma value_at_key [simp]: "value_at kvs (array_bytes key) = map_of (rev kvs) key"
  by (simp add: value_at_def from_to_be_bytes)

lemma value_at_snoc: "value_at (kvs @ [(key, v)]) p = (if p = array_bytes key then Some v else value_at kvs p)"
proof (cases "length p = 32")
  case True
  then have "p = array_bytes key \<longleftrightarrow> from_be_bytes p = key"
    using to_from_be_bytes [of p, where 'a = 256] by (auto simp: from_to_be_bytes)
  with True show ?thesis by (simp add: value_at_def)
qed (auto simp: value_at_def)

lemma storage_insert_all:
  "storage_get (vt_storage (insert_all kvs t)) (key_for_path p) =
     (case value_at kvs p of
        Some v \<Rightarrow> Some (serialize_node (Some v))
      | None \<Rightarrow>
          if storage_get (vt_storage t) (key_for_path p) = None \<and> (\<exists>key \<in> fst ` set kvs. prefix p (array_bytes key))
          then Some (serialize_node None) else storage_get (vt_storage t) (key_for_path p))"
proof (induction kvs rule: rev_induct)
  case Nil
  show ?case by (simp add: value_at_def)
next
  case (snoc kv kvs)
  obtain key v where kv: "kv = (key, v)" by fastforce
  show ?case
    unfolding kv value_at_snoc
    by (simp add: storage_tree_insert snoc.IH split: option.split) auto
qed

lemma storage_same_values:
  assumes "map_of (rev kvs) = map_of (rev kvs')"
  shows "storage_get (vt_storage (insert_all kvs t)) (key_for_path p) =
    storage_get (vt_storage (insert_all kvs' t)) (key_for_path p)"
proof -
  have "dom (map_of (rev kvs)) = dom (map_of (rev kvs'))" using assms by simp
  then have keys: "fst ` set kvs = fst ` set kvs'" by (simp add: dom_map_of_conv_image_fst)
  show ?thesis unfolding storage_insert_all keys by (simp add: value_at_def assms)
qed

section \<open>Properties\<close>

text \<open>
  C8. The root is canonical: two lists of insertions with the same last value for every key, in any
  order and with any values written in between, give trees with the same root and the same
  readings.
\<close>

theorem root_of_contents:
  assumes "tree_new A H s = Some (Inr t)" "map_of (rev kvs) = map_of (rev kvs')"
  shows "fst (get_root A H (insert_all kvs t)) = fst (get_root A H (insert_all kvs' t)) \<and>
     tree_get key (insert_all kvs t) = tree_get key (insert_all kvs' t)"
proof -
  have root: "fst (get_root A H (insert_all l t)) = tree_root A H (insert_all l t) KEY_SIZE []" for l
    using get_root_result [OF run_caches [OF tree_new_fields(2) [OF assms(1)]], of "map (\<lambda>(key, v). InsertOp key v) l"]
    by (simp only: insert_all_run [symmetric])
  note same = storage_same_values [OF assms(2), of t]
  have "spec_commitment A H (vt_pc t) (empty_subtree_scalars t) (vt_storage (insert_all kvs t)) KEY_SIZE [] =
      spec_commitment A H (vt_pc t) (empty_subtree_scalars t) (vt_storage (insert_all kvs' t)) KEY_SIZE []"
    by (rule spec_commitment_local) (rule same)
  then have "tree_root A H (insert_all kvs t) KEY_SIZE [] = tree_root A H (insert_all kvs' t) KEY_SIZE []"
    by (simp add: spec_root_def)
  with same show ?thesis by (simp add: root tree_get_def get_node_value_def)
qed

theorem root_of_contents_witness:
  "\<exists>t :: (rat, rat) verkle_tree.
     fst (get_root sample_ark (\<lambda>_. 0) (insert_all [(7, [1]), (8, [2]), (7, [3])] t)) =
     fst (get_root sample_ark (\<lambda>_. 0) (insert_all [(8, [2]), (7, [3])] t)) \<and>
     tree_get 7 (insert_all [(7, [1]), (8, [2]), (7, [3])] t) = tree_get 7 (insert_all [(8, [2]), (7, [3])] t)"
proof -
  obtain t0 where new: "tree_new sample_ark (\<lambda>_. 0) memory_storage_new = Some (Inr t0)"
    using tree_new_ok [OF sample_ark_dense sample_ark_serializes] by blast
  have "map_of (rev [(7 :: bytes32, [1]), (8, [2]), (7, [3])]) = map_of (rev [(8, [2 :: byte]), (7, [3])])"
    by (rule ext) simp
  from root_of_contents [OF new this, of 7] show ?thesis by blast
qed

end
