(* ===== verification/Signing.thy ===== *)
theory Signing
  imports Block_Validation Utxo
begin

text \<open>
  The key pairs of \<open>src/core/crypto/schnorr.rs\<close> and the composition of signing with the checks of
  \<open>state/utxo.rs\<close> and \<open>consensus/ghostdag.rs\<close>. The signing side of k256 is the record \<open>signer\<close>,
  with the law that its signatures verify; the system's random source is a state \<open>'rng\<close>.
\<close>

section \<open>Key pairs\<close>

record ('rng, 'sk, 'vk, 'sig) signer =
  sk_random :: "'rng \<Rightarrow> 'sk \<times> 'rng"
  sk_from_bytes :: "bytes32 \<Rightarrow> 'sk option"
  sk_verifying_key :: "'sk \<Rightarrow> 'vk"
  sk_sign :: "'sk \<Rightarrow> bytes \<Rightarrow> 'sig"
  vk_to_bytes :: "'vk \<Rightarrow> bytes"
  sig_to_bytes :: "'sig \<Rightarrow> bytes"

record 'sk key_pair_wrapper =
  signing_key :: 'sk

definition key_pair_new :: "('rng, 'sk, 'vk, 'sig) signer \<Rightarrow> 'rng \<Rightarrow> 'sk key_pair_wrapper \<times> 'rng" where
  "key_pair_new S rng = (case sk_random S rng of (sk, rng') \<Rightarrow> (\<lparr>signing_key = sk\<rparr>, rng'))"

definition key_pair_default :: "('rng, 'sk, 'vk, 'sig) signer \<Rightarrow> 'rng \<Rightarrow> 'sk key_pair_wrapper \<times> 'rng" where
  "key_pair_default S = key_pair_new S"

definition key_pair_from_seed ::
    "('vk, 'sig) crypto \<Rightarrow> ('rng, 'sk, 'vk, 'sig) signer \<Rightarrow> u64 \<Rightarrow> core_error + 'sk key_pair_wrapper" where
  "key_pair_from_seed E S seed =
     bind_res (from_seed (blake3_hash E) (sk_from_bytes S) seed) (\<lambda>sk. Inr \<lparr>signing_key = sk\<rparr>)"

definition public_key :: "('rng, 'sk, 'vk, 'sig) signer \<Rightarrow> 'sk key_pair_wrapper \<Rightarrow> 'vk" where
  "public_key S kp = sk_verifying_key S (signing_key kp)"

definition kp_sign :: "('rng, 'sk, 'vk, 'sig) signer \<Rightarrow> 'sk key_pair_wrapper \<Rightarrow> bytes \<Rightarrow> 'sig" where
  "kp_sign S kp msg = sk_sign S (signing_key kp) msg"

text \<open>What k256 promises of its encodings and signatures.\<close>

definition signs :: "('vk, 'sig) crypto \<Rightarrow> ('rng, 'sk, 'vk, 'sig) signer \<Rightarrow> bool" where
  "signs E S \<longleftrightarrow>
     (\<forall>sk. vk_from_bytes E (vk_to_bytes S (sk_verifying_key S sk)) = Some (Some (sk_verifying_key S sk)) \<and>
        length (vk_to_bytes S (sk_verifying_key S sk)) = 32) \<and>
     (\<forall>sk msg. sig_try_from E (sig_to_bytes S (sk_sign S sk msg)) = Some (Some (sk_sign S sk msg)) \<and>
        length (sig_to_bytes S (sk_sign S sk msg)) = 64 \<and>
        vk_verify E (sk_verifying_key S sk) msg (sk_sign S sk msg))"

section \<open>Signing a transaction\<close>

text \<open>What a wallet does with these functions: first the public keys, then the signatures.\<close>

definition map_inputs :: "(nat \<Rightarrow> tx_input \<Rightarrow> tx_input) \<Rightarrow> transaction \<Rightarrow> transaction" where
  "map_inputs f tx = tx\<lparr>inputs := map (\<lambda>(j, input). f j input) (List.enumerate 0 (inputs tx))\<rparr>"

definition with_keys ::
    "('rng, 'sk, 'vk, 'sig) signer \<Rightarrow> (nat \<Rightarrow> 'sk key_pair_wrapper) \<Rightarrow> transaction \<Rightarrow> transaction" where
  "with_keys S keys = map_inputs (\<lambda>j input. input\<lparr>in_pubkey := vk_to_bytes S (public_key S (keys j))\<rparr>)"

definition sighash_message :: "blake3 \<Rightarrow> transaction \<Rightarrow> nat \<Rightarrow> sighash_type \<Rightarrow> bytes32" where
  "sighash_message H tx j t = tagged_hash H TAG_TX_SIGN (serialize_tx_for_sighash tx j t)"

definition sign_transaction ::
    "('vk, 'sig) crypto \<Rightarrow> ('rng, 'sk, 'vk, 'sig) signer \<Rightarrow> (nat \<Rightarrow> 'sk key_pair_wrapper) \<Rightarrow> transaction \<Rightarrow> transaction" where
  "sign_transaction E S keys tx =
     (let keyed_tx = with_keys S keys tx
      in map_inputs (\<lambda>j input. input\<lparr>in_signature :=
           sig_to_bytes S (kp_sign S (keys j)
             (array_bytes (sighash_message (blake3_hash E) keyed_tx j (in_sighash_type input))))\<rparr>) keyed_tx)"

lemma enumerate_Nil_iff: "List.enumerate n xs = [] \<longleftrightarrow> xs = []"
  by (cases xs) simp_all

lemma map_inputs_fields [simp]:
  "outputs (map_inputs f tx) = outputs tx" "length (inputs (map_inputs f tx)) = length (inputs tx)"
  "j < length (inputs tx) \<Longrightarrow> inputs (map_inputs f tx) ! j = f j (inputs tx ! j)"
  "is_coinbase (map_inputs f tx) = is_coinbase tx"
  by (auto simp: map_inputs_def nth_enumerate_eq is_coinbase_def enumerate_Nil_iff)

lemma map_outpoints:
  assumes "\<And>j i. outpoint_of (f j i) = outpoint_of i"
  shows "map outpoint_of (inputs (map_inputs f tx)) = map outpoint_of (inputs tx)"
  by (rule nth_equalityI) (simp_all add: assms)

lemma inputs_total_outpoints: "map outpoint_of ins = map outpoint_of ins' \<Longrightarrow> inputs_total m ins = inputs_total m ins'"
  unfolding inputs_total_def by (metis (no_types, lifting) list.map_comp comp_def map_eq_conv)

text \<open>The message does not depend on the signatures.\<close>

lemma sighash_message_signatures:
  assumes "\<And>j i. prev_tx (f j i) = prev_tx i \<and> in_index (f j i) = in_index i \<and> in_pubkey (f j i) = in_pubkey i"
  shows "sighash_message H (map_inputs f tx) j t = sighash_message H tx j t"
proof -
  have "map (sighash_input_bytes j) (List.enumerate 0 (inputs (map_inputs f tx))) =
      map (sighash_input_bytes j) (List.enumerate 0 (inputs tx))"
    by (rule nth_equalityI) (simp_all add: nth_enumerate_eq sighash_input_bytes_def assms)
  then have "sighash_inputs (map_inputs f tx) j = sighash_inputs tx j" by (simp add: sighash_inputs_def)
  then show ?thesis
    by (cases t) (simp_all add: sighash_message_def serialize_tx_for_sighash_def, simp_all add: map_inputs_def)
qed

lemma sign_transaction_fields:
  "outputs (sign_transaction E S keys tx) = outputs tx"
  "length (inputs (sign_transaction E S keys tx)) = length (inputs tx)"
  "is_coinbase (sign_transaction E S keys tx) = is_coinbase tx"
  "map outpoint_of (inputs (sign_transaction E S keys tx)) = map outpoint_of (inputs tx)"
  by (simp_all add: sign_transaction_def with_keys_def Let_def map_outpoints outpoint_of_def)

lemma signed_input:
  assumes "j < length (inputs tx)"
  shows "in_pubkey (inputs (sign_transaction E S keys tx) ! j) = vk_to_bytes S (public_key S (keys j))"
    "in_signature (inputs (sign_transaction E S keys tx) ! j) = sig_to_bytes S (kp_sign S (keys j) (array_bytes
       (sighash_message (blake3_hash E) (sign_transaction E S keys tx) j
          (in_sighash_type (inputs (sign_transaction E S keys tx) ! j)))))"
  using assms(1)
  by (simp_all add: sign_transaction_def Let_def with_keys_def sighash_message_signatures)

lemma signed_input_accepted:
  assumes "signs E S" "j < length (inputs tx)"
  shows "check_signature E (sign_transaction E S keys tx) j (inputs (sign_transaction E S keys tx) ! j) = Some (Inr ())"
    and "input_signed E (sign_transaction E S keys tx) j"
proof -
  note law = assms(1) [unfolded signs_def]
  show "check_signature E (sign_transaction E S keys tx) j (inputs (sign_transaction E S keys tx) ! j) = Some (Inr ())"
    using law by (simp add: check_signature_def compute_sighash_def schnorr_verify_def signed_input [OF assms(2)]
      public_key_def kp_sign_def sighash_message_def)
  have "sig_to_bytes S (sk_sign S sk msg) \<noteq> []" for sk msg using law by (metis list.size(3) zero_neq_numeral)
  then show "input_signed E (sign_transaction E S keys tx) j"
    using law by (simp add: input_signed_def input_item_def item_valid_def compute_sighash_def signed_input [OF assms(2)]
      public_key_def kp_sign_def sighash_message_def)
qed

section \<open>Properties\<close>

text \<open>
  C15. Signing is complete, and it is all that spending needs: a transaction signed with key pairs
  passes every signature check of block validation, and \<open>validate_tx\<close> accepts it exactly when no
  output pays the burn hash and, unless it has no inputs (then the fee is zero), its inputs are
  distinct, exist, have a sum that fits 64 bits and cover the outputs; the fee is the difference.
  The keys are arbitrary: nothing relates them to the outputs that are spent.
\<close>

theorem signed_transaction_accepted:
  assumes "signs E S"
  shows "(\<forall>idx < length (inputs tx). input_signed E (sign_transaction E S keys tx) idx) \<and>
     (validate_tx E u (sign_transaction E S keys tx) = Some (Inr fee) \<longleftrightarrow>
        \<not> pays_burn (blake3_hash E) tx \<and>
        (if is_coinbase tx then fee = 0
         else distinct (map outpoint_of (inputs tx)) \<and>
           (\<forall>i \<in> set (inputs tx). fmlookup (utxos u) (outpoint_of i) \<noteq> None) \<and>
           inputs_total (utxos u) (inputs tx) < 2 ^ 64 \<and>
           outputs_total (outputs tx) + unat fee = inputs_total (utxos u) (inputs tx)))"
proof -
  let ?tx = "sign_transaction E S keys tx"
  note fields = sign_transaction_fields [of E S keys tx]
  have "outpoint_of (inputs ?tx ! j) = outpoint_of (inputs tx ! j)" if "j < length (inputs tx)" for j
    using arg_cong [OF fields(4), of "\<lambda>l. l ! j"] that fields(2) by simp
  then have "spendable E u ?tx \<longleftrightarrow>
      distinct (map outpoint_of (inputs tx)) \<and>
      (\<forall>i \<in> set (inputs tx). fmlookup (utxos u) (outpoint_of i) \<noteq> None) \<and>
      outputs_total (outputs tx) < 2 ^ 64 \<and> inputs_total (utxos u) (inputs tx) < 2 ^ 64 \<and>
      outputs_total (outputs tx) \<le> inputs_total (utxos u) (inputs tx)"
    using signed_input_accepted(1) [OF assms] inputs_total_outpoints [OF fields(4), of "utxos u"]
    by (auto simp: spendable_def fields all_set_conv_all_nth)
  moreover have "pays_burn (blake3_hash E) ?tx \<longleftrightarrow> pays_burn (blake3_hash E) tx" by (simp add: pays_burn_def fields)
  ultimately show ?thesis
    using signed_input_accepted(2) [OF assms] inputs_total_outpoints [OF fields(4), of "utxos u"]
    by (auto simp: validate_tx_eq_Inr fields)
qed

definition sample_signer :: "(unit, byte, bytes, bool) signer" where
  "sample_signer = \<lparr>sk_random = (\<lambda>_. (1, ())), sk_from_bytes = (\<lambda>_. Some 1), sk_verifying_key = (\<lambda>sk. replicate 32 sk),
     sk_sign = (\<lambda>sk msg. True), vk_to_bytes = (\<lambda>vk. vk), sig_to_bytes = (\<lambda>sig. (if sig then 1 else 0) # replicate 63 0)\<rparr>"

theorem signed_transaction_accepted_witness:
  "validate_tx sample_crypto sample_utxo
     (sign_transaction sample_crypto sample_signer (\<lambda>_. \<lparr>signing_key = 5\<rparr>) sample_spend) = Some (Inr 30)"
proof -
  have "signs sample_crypto sample_signer" by (simp add: signs_def sample_crypto_def sample_signer_def)
  from signed_transaction_accepted [OF this, of sample_spend "\<lambda>_. \<lparr>signing_key = 5\<rparr>" sample_utxo 30] show ?thesis
    by (simp add: pays_burn_def is_coinbase_def sample_spend_def outpoint_of_def sample_lookup hash_new_def sample_crypto_def
      inputs_total_def outputs_total_def entry_value_def)
qed

text \<open>
  A block is signed over the hash of its header hashed again, with the key whose bytes are the
  recipient of the first output of its first transaction.
\<close>

theorem signed_block_verifies:
  assumes "signs E S" "bincode ((header block)\<lparr>hdr_signature := None\<rparr>) = Some serialized"
    and "hdr_signature (header block) = Some (sig_to_bytes S (kp_sign S kp (array_bytes
       (tagged_hash (blake3_hash E) TAG_TX_SIGN (array_bytes (tagged_hash (blake3_hash E) TAG_TX_SIGN serialized))))))"
    and "transactions block = coinbase # txs" "outputs coinbase = out # outs"
    and "hash_bytes (pubkey_hash out) = vk_to_bytes S (public_key S kp)"
  shows "verify_block_signature E bincode block = Some True"
  using assms(1) unfolding signs_def
  by (simp add: verify_block_signature_def assms(2-6) verify_schnorr_def Let_def public_key_def kp_sign_def)

end
