(* ===== verification/Node_Entry.thy ===== *)
theory Node_Entry
  imports Manager_Blocks
begin

text \<open>
  The composition of consensus and ledger: what \<open>validate_and_apply_block\<close> of
  \<open>src/core/state_manager.rs\<close> does with a block of plain transactions, in terms of the block and
  the state alone.
\<close>

section \<open>Blocks whose inputs are not their outputs\<close>

definition creates_none_it_spends :: "transaction list \<Rightarrow> bool" where
  "creates_none_it_spends txs \<longleftrightarrow> (\<forall>tx \<in> set txs. set (created_keys tx) \<inter> set (spent_outpoints txs) = {})"

lemma spent_outpoints_Cons [simp]:
  "spent_outpoints [] = []"
  "spent_outpoints (tx # txs) = map outpoint_of (inputs tx) @ spent_outpoints txs"
  by (simp_all add: spent_outpoints_def outpoint_of_def)

text \<open>A validated block does not spend what it creates, since its inputs are in the tree before it.\<close>

lemma validated_disjoint:
  assumes "check_state H tree txs = Inr ()"
  shows "creates_none_it_spends txs"
proof -
  have "k \<notin> set (created_keys tx)" if "tx \<in> set txs" "k \<in> set (spent_outpoints txs)" for tx k
  proof
    assume "k \<in> set (created_keys tx)"
    then obtain n where n: "n < length (outputs tx)" "k = (tx_id tx, word_of_nat n)" by (auto simp: created_keys_def)
    from that(2) obtain tx' i where "tx' \<in> set txs" "i \<in> set (inputs tx')" "k = (prev_tx i, in_index i)"
      by (auto simp: spent_outpoints_def)
    with n obtain v where "tree_get (hash_with_index H tx (word_of_nat n)) tree = Inr (Some v)"
      using assms unfolding check_state_Inr by (fastforce simp: outpoint_key_def hash_with_index_def)
    with n that(1) assms show False unfolding check_state_Inr by blast
  qed
  then show ?thesis by (auto simp: creates_none_it_spends_def)
qed

text \<open>Such a block is applied exactly when every output it spends is in the set before it.\<close>

lemma plain_transactions_ok:
  assumes "list_all plain txs" "distinct (spent_outpoints txs)" "creates_none_it_spends txs"
    and "\<forall>tx \<in> set txs. length (outputs tx) \<le> 2 ^ 32"
    and "apply_transactions W A H txs (u, sm) = Some (r, c)"
  shows "is_ok r \<longleftrightarrow> (\<forall>k \<in> set (spent_outpoints txs). fmlookup (utxos u) k \<noteq> None)"
  using assms
proof (induction txs arbitrary: u sm)
  case (Cons tx txs)
  obtain r1 u1 sm1 where tx: "apply_utxo_transaction H tx (u, sm) = (r1, (u1, sm1))" by (metis prod_cases3)
  have run: "apply_transaction W A H tx (u, sm) = Some (r1, (u1, sm1))"
    using Cons.prems(1) tx by (simp add: plain_def apply_transaction_def)
  have sp: "is_ok r1 \<longleftrightarrow> (\<forall>k \<in> set (map outpoint_of (inputs tx)). fmlookup (utxos u) k \<noteq> None)"
    using apply_utxo_ok [of H tx u sm] tx Cons.prems(2) by (simp add: spendable_inputs_def)
  show ?case
  proof (cases r1)
    case (Inl e)
    with run Cons.prems(5) have "r = Inl e" by simp
    moreover have "\<not> (\<forall>k \<in> set (map outpoint_of (inputs tx)). fmlookup (utxos u) k \<noteq> None)" using sp Inl by simp
    ultimately show ?thesis unfolding spent_outpoints_Cons set_append ball_Un by simp
  next
    case (Inr v)
    with run Cons.prems(5) have rest: "apply_transactions W A H txs (u1, sm1) = Some (r, c)" by simp
    have u1: "utxos u1 = applied (utxos u) tx" using apply_utxo_Inr(1) [of H tx u sm] tx Inr by simp
    have "fmlookup (utxos u1) k = fmlookup (utxos u) k" if "k \<in> set (spent_outpoints txs)" for k
    proof -
      have "k \<notin> set (created_keys tx)" using that Cons.prems(3) by (auto simp: creates_none_it_spends_def)
      then have "map_of (keyed (tx_id tx) 0 (outputs tx)) k = None" by (simp add: map_of_keyed_None)
      moreover have "k \<notin> outpoint_of ` set (inputs tx)" using that Cons.prems(2) by auto
      ultimately show ?thesis using Cons.prems(4) by (simp add: u1 fmlookup_applied)
    qed
    moreover have "creates_none_it_spends txs" using Cons.prems(3) by (auto simp: creates_none_it_spends_def)
    ultimately have "is_ok r \<longleftrightarrow> (\<forall>k \<in> set (spent_outpoints txs). fmlookup (utxos u) k \<noteq> None)"
      using Cons.IH [OF _ _ _ _ rest] Cons.prems(1,2,4) by simp
    with sp Inr show ?thesis by auto
  qed
qed auto

section \<open>The transition of the tree\<close>

definition pays_burn_address :: "transaction list \<Rightarrow> bool" where
  "pays_burn_address txs \<longleftrightarrow>
     (\<exists>tx \<in> set txs. \<exists>out \<in> set (outputs tx). as_bytes (pubkey_hash out) = ECON_BURN_ADDRESS)"

lemma in_set_snd_enumerate: "(\<exists>(i, x) \<in> set (List.enumerate n xs). P x) \<longleftrightarrow> (\<exists>x \<in> set xs. P x)"
  by (metis (mono_tags, lifting) case_prod_unfold imageE image_eqI map_snd_enumerate set_map)

lemma updates_burn:
  "(\<exists>(key, v) \<in> set (concat (map (tx_updates H) txs)). pays_zero_hash v) \<longleftrightarrow> pays_burn_address txs"
proof -
  have "(\<exists>(key, v) \<in> set (tx_updates H tx). pays_zero_hash v) \<longleftrightarrow>
      (\<exists>out \<in> set (outputs tx). as_bytes (pubkey_hash out) = ECON_BURN_ADDRESS)" for tx
    using in_set_snd_enumerate [of 0 "outputs tx" "\<lambda>out. as_bytes (pubkey_hash out) = ECON_BURN_ADDRESS"]
    by (simp add: tx_updates_def pays_zero_hash_def case_prod_unfold)
  then show ?thesis by (auto simp: pays_burn_address_def)
qed

lemma plain_block_verdict:
  assumes "dense_poly A" "serializes A" "manager_ok A H sm" "list_all plain (transactions block)"
    and "distinct (spent_outpoints (transactions block))" "creates_none_it_spends (transactions block)"
    and "unat (current_total_supply sm) = utxo_total (utxos u)" "fresh_ids (utxos u) (transactions block)"
    and "utxo_total (utxos u) + block_outputs (transactions block) < 2 ^ 128"
  shows "\<exists>r u' sm'. sm_apply_block W A H block (u, sm) = Some (r, (u', sm')) \<and>
     (is_ok r \<longleftrightarrow>
        (\<forall>k \<in> set (spent_outpoints (transactions block)). fmlookup (utxos u) k \<noteq> None) \<and>
        \<not> pays_burn_address (transactions block) \<and>
        utxo_total (fold (\<lambda>tx m. applied m tx) (transactions block) (utxos u)) \<le> unat MAX_GLOBAL_SUPPLY_NANO_SLUG) \<and>
     (is_ok r \<longrightarrow> utxos u' = fold (\<lambda>tx m. applied m tx) (transactions block) (utxos u))"
proof -
  let ?txs = "transactions block"
  let ?start = "sm\<lparr>applying_block := True, pending_updates := [], block_gas_fees := []\<rparr>"
  let ?upd = "concat (map (tx_updates H) ?txs)"
  note ok = manager_okD [OF assms(3)]
  obtain r1 u1 sm1 where run: "apply_transactions W A H ?txs (u, ?start) = Some (r1, (u1, sm1))"
    and tree: "sm_tree sm1 = sm_tree sm"
    using apply_transactions_plain [OF assms(4), of W A H u ?start] by auto
  have spent: "is_ok r1 \<longleftrightarrow> (\<forall>k \<in> set (spent_outpoints ?txs). fmlookup (utxos u) k \<noteq> None)"
    using assms(8) by (intro plain_transactions_ok [OF assms(4-6) _ run]) (simp add: fresh_ids_def)
  have len: "\<forall>(key, v) \<in> set ?upd. length v < 2 ^ 32" by (auto simp: tx_updates_def output_serialize_def)
  obtain saved where saved: "tree_clone A H (sm_tree sm) = Some saved" using tree_clone_eq [OF ok(1)] by blast
  show ?thesis
  proof (cases r1)
    case (Inl e)
    with run saved ok(3) have "\<exists>c. sm_apply_block W A H block (u, sm) = Some (Inl e, c)"
      by (simp add: sm_apply_block_def apply_block_body_def)
    with Inl spent show ?thesis by (metis is_ok.simps(1) surj_pair)
  next
    case (Inr v)
    with run have run1: "apply_transactions W A H ?txs (u, ?start) = Some (Inr (), (u1, sm1))" by simp
    have u1: "utxos u1 = fold (\<lambda>tx m. applied m tx) ?txs (utxos u)" and upd: "pending_updates sm1 = ?upd"
      and sup: "unat (current_total_supply sm1) = utxo_total (utxos u1)"
      using apply_transactions_Inr [OF run1] ok(1) assms(7-9) by simp_all
    obtain r2 t2 where tr: "apply_state_transition ?upd (current_total_supply sm1) (sm_tree sm) = (r2, t2)" by fastforce
    have r2: "r2 = Inr () \<longleftrightarrow> \<not> pays_burn_address ?txs \<and> utxo_total (utxos u1) \<le> unat MAX_GLOBAL_SUPPLY_NANO_SLUG"
      using transition_effect [OF len tr, of 0, unfolded updates_burn] sup
      by (cases "pays_burn_address ?txs") (simp_all add: word_le_nat_alt)
    show ?thesis
    proof (cases r2)
      case (Inl e)
      with run1 saved ok(3) upd tr tree have "\<exists>e c. sm_apply_block W A H block (u, sm) = Some (Inl e, c)"
        by (simp add: sm_apply_block_def apply_block_body_def)
      with Inl r2 u1 show ?thesis by (metis Inl_Inr_False is_ok.simps(1) surj_pair)
    next
      case (Inr w)
      have "fst (apply_state_transition (pending_updates sm1) (current_total_supply sm1) (sm_tree sm1)) = Inr ()"
        using tr Inr upd tree by simp
      from plain_block_ok [OF assms(1-4) run1 this] obtain sm' where
        "sm_apply_block W A H block (u, sm) = Some (Inr (), (u1, sm'))" by blast
      with u1 r2 Inr spent \<open>r1 = Inr v\<close> show ?thesis
        by (intro exI [of _ "Inr ()"] exI [of _ u1] exI [of _ sm']) simp
    qed
  qed
qed

section \<open>Properties\<close>

text \<open>
  C2. What the entry of the node does with a block of plain transactions (no payload, so no contract
  runs), given the clock's answer. Assumed of the block and the state: the transaction ids are
  pairwise distinct and no entry of the set carries one of them, with at most 2^32 outputs each; the
  tracked supply is the value of the outputs, and that value plus the outputs of the block is below
  2^128; every key has 32 bytes and every signature is empty or has at least 32. Assumed of the
  libraries: \<open>dense_poly\<close>, \<open>serializes\<close>, \<open>conversions_return\<close>; the verdicts of the signature threads may
  arrive in any order. Then the node does not panic, and the block is applied exactly when it passes
  \<open>validate_block\<close> and \<open>can_reorganize\<close>, every output it spends is unspent, it pays nothing to the burn
  address and leaves outputs worth at most the cap. If it is applied, the outputs are those of its
  transactions applied in turn, the tracked supply is their value and the height is one more;
  otherwise outputs, tree, supply and history are untouched.
\<close>

theorem entry_decides_block:
  assumes "dense_poly A" "serializes A" "manager_ok A (blake3_hash E) sm" "\<forall>vs. mset (arrival vs) = mset vs"
    and "list_all plain (transactions block)"
    and "unat (current_total_supply sm) = utxo_total (utxos u)" "fresh_ids (utxos u) (transactions block)"
    and "utxo_total (utxos u) + block_outputs (transactions block) < 2 ^ 128"
    and "conversions_return E" "well_sized (transactions block)"
  shows "\<exists>r u' sm'. validate_and_apply_block E arrival W A (Inr now) gd d block (u, sm) = Some (r, (u', sm')) \<and>
     (is_ok r \<longleftrightarrow>
        validate_block E arrival block d (sm_tree sm) now = Some (Inr ()) \<and>
        can_reorganize gd d (hdr_id (header block)) = Inr True \<and>
        (\<forall>k \<in> set (spent_outpoints (transactions block)). fmlookup (utxos u) k \<noteq> None) \<and>
        \<not> pays_burn_address (transactions block) \<and>
        utxo_total (fold (\<lambda>tx m. applied m tx) (transactions block) (utxos u)) \<le> unat MAX_GLOBAL_SUPPLY_NANO_SLUG) \<and>
     (if is_ok r
      then utxos u' = fold (\<lambda>tx m. applied m tx) (transactions block) (utxos u) \<and>
        unat (current_total_supply sm') = utxo_total (utxos u') \<and> current_height sm' = current_height sm + 1
      else u' = u \<and> same_state sm sm')"
proof (cases "validate_block E arrival block d (sm_tree sm) now = Some (Inr ()) \<and> can_reorganize gd d (hdr_id (header block)) = Inr True")
  case False
  moreover have "validate_block E arrival block d (sm_tree sm) now \<noteq> None"
    using validate_block_returns [OF assms(9,10), of arrival d "sm_tree sm" now] by (simp add: returns_iff)
  ultimately have "\<exists>e. validate_and_apply_block E arrival W A (Inr now) gd d block (u, sm) = Some (Inl e, (u, sm))"
    by (auto simp: validate_and_apply_block_def split: sum.split)
  then obtain e where "validate_and_apply_block E arrival W A (Inr now) gd d block (u, sm) = Some (Inl e, (u, sm))" ..
  with False show ?thesis
    by (intro exI [of _ "Inl e"] exI [of _ u] exI [of _ sm]) (auto simp: same_state_def same_contents_def)
next
  case True
  let ?txs = "transactions block" and ?H = "blake3_hash E"
  note ok = manager_okD [OF assms(3)]
  have "validate_transactions E arrival block = Some (Inr ())" "check_state ?H (sm_tree sm) ?txs = Inr ()"
    using True by (auto simp: validate_block_def validate_verkle_proof_def Let_def split: if_splits)
  then have "distinct (spent_outpoints ?txs)" "creates_none_it_spends ?txs"
    using validate_transactions_Inr [of arrival E block] assms(4) validated_disjoint by blast+
  from plain_block_verdict [OF assms(1-3,5) this assms(6-8)] obtain r u' sm' where
    ap: "sm_apply_block W A ?H block (u, sm) = Some (r, (u', sm'))" and
    verdict: "is_ok r \<longleftrightarrow>
        (\<forall>k \<in> set (spent_outpoints ?txs). fmlookup (utxos u) k \<noteq> None) \<and> \<not> pays_burn_address ?txs \<and>
        utxo_total (fold (\<lambda>tx m. applied m tx) ?txs (utxos u)) \<le> unat MAX_GLOBAL_SUPPLY_NANO_SLUG"
    and after: "is_ok r \<longrightarrow> utxos u' = fold (\<lambda>tx m. applied m tx) ?txs (utxos u)" by blast
  have run: "validate_and_apply_block E arrival W A (Inr now) gd d block (u, sm) = Some (r, (u', sm'))"
    using True ap by (simp add: validate_and_apply_block_def)
  have "if is_ok r
      then utxos u' = fold (\<lambda>tx m. applied m tx) ?txs (utxos u) \<and>
        unat (current_total_supply sm') = utxo_total (utxos u') \<and> current_height sm' = current_height sm + 1
      else u' = u \<and> same_state sm sm'"
    using sm_apply_block_cases [OF assms(1,2) ok(1-3) ap]
  proof (elim disjE exE conjE)
    fix sm1 t rt
    assume r: "r = Inr ()" and
      run1: "apply_transactions W A ?H ?txs
         (u, sm\<lparr>applying_block := True, pending_updates := [], block_gas_fees := []\<rparr>) = Some (Inr (), (u', sm1))" and
      sm': "sm' = sm1\<lparr>sm_tree := t, current_height := current_height sm + 1,
         snapshots := snapshots sm @ [\<lparr>snap_height = current_height sm + 1, snap_root = rt,
           snap_total_supply = current_total_supply sm1, snap_gas_fees = block_gas_fees sm1\<rparr>],
         snapshot_storages := snapshot_storages sm @ [vt_storage t], applying_block := False\<rparr>"
    from apply_transactions_Inr [OF run1] ok(1) assms(6-8)
    have "unat (current_total_supply sm1) = utxo_total (utxos u')" by simp
    with after r sm' show ?thesis by simp
  qed simp
  with run verdict True show ?thesis by blast
qed

definition sample_entry_mint :: transaction where
  "sample_entry_mint = sample_mint\<lparr>tx_id := Hash 7\<rparr>"

definition sample_entry_block :: block_node where
  "sample_entry_block = (sample_block 5 {|Hash 1|})\<lparr>transactions := [sample_entry_mint]\<rparr>"

lemma sample_storage_empty: "storage_get memory_storage_new key = None"
  by (simp add: memory_storage_new_def storage_get_def)

theorem entry_decides_block_witness:
  "\<exists>sm u' sm'. validate_and_apply_block sample_crypto rev sample_script sample_ark (Inr 100) (ghost_dag_new 1) sample_dag
       sample_entry_block (utxo_new, sm) = Some (Inr (), (u', sm' :: (rat, rat) state_manager)) \<and>
     utxos u' = fmupd (Hash 7, 0) \<lparr>out_value = 50, pubkey_hash = Hash 3\<rparr> fmempty \<and> unat (current_total_supply sm') = 50"
proof -
  let ?H = "\<lambda>_. 7 :: bytes32"
  have H: "blake3_hash sample_crypto = ?H" by (simp add: sample_crypto_def)
  obtain t0 where new: "tree_new sample_ark ?H memory_storage_new = Some (Inr t0)"
    using tree_new_ok [OF sample_ark_dense sample_ark_serializes] by blast
  obtain sm where sm: "manager_ok sample_ark ?H sm" "current_total_supply sm = 0" "pruned_keys (sm_tree sm) = {||}"
    "vt_storage (sm_tree sm) = vt_storage t0"
    using manager_new_ok [OF sample_ark_dense sample_ark_serializes(1) tree_new_wf [OF new]] tree_new_fields(4) [OF new]
    by auto
  have txs: "transactions sample_entry_block = [sample_entry_mint]" by (simp add: sample_entry_block_def)
  have applied: "fold (\<lambda>tx m. applied m tx) (transactions sample_entry_block) (utxos utxo_new) =
      fmupd (Hash 7, 0) \<lparr>out_value = 50, pubkey_hash = Hash 3\<rparr> fmempty"
    by (simp add: txs sample_entry_mint_def sample_mint_def applied_def utxo_new_def)
  have "get_node_value (vt_storage t0) (array_bytes 7) = None"
    using new sample_storage_empty
    by (auto simp: tree_new_def compute_empty_subtree_constants_def storage_ensure_node get_node_value_def)
  then have read: "tree_get 7 (sm_tree sm) = Inr None" using sm(3,4) by (simp add: tree_get_def)
  have "get_block sample_dag (Hash 1) \<noteq> None" by code_simp
  moreover have "hash_val (Hash 7) = 0" by (simp add: hash_val_def) code_simp
  ultimately have valid: "validate_block sample_crypto rev sample_entry_block sample_dag (sm_tree sm) 100 = Some (Inr ())"
    using read
    by (subst validate_block_exact)
      (simp_all add: txs sample_entry_block_def sample_block_def sample_entry_mint_def sample_mint_def header_hash_def
        calculate_hash_def calculate_id_def hash_with_index_def hash_new_def sample_crypto_def)
  have "can_reorganize (ghost_dag_new 1) sample_dag (Hash 5) = Inr True" by code_simp
  then have reorg: "can_reorganize (ghost_dag_new 1) sample_dag (hdr_id (header sample_entry_block)) = Inr True"
    by (simp add: sample_entry_block_def sample_block_def)
  have total: "utxo_total (fmupd (Hash 7, 0 :: u32) \<lparr>out_value = 50, pubkey_hash = Hash 3\<rparr> fmempty) = 50"
    by (simp add: utxo_total_def entry_value_def)
  have "\<not> pays_burn_address (transactions sample_entry_block)"
    by (simp add: pays_burn_address_def txs sample_entry_mint_def sample_mint_def ECON_BURN_ADDRESS_def)
  moreover have "spent_outpoints (transactions sample_entry_block) = []"
    by (simp add: txs sample_entry_mint_def sample_mint_def)
  moreover have "conversions_return sample_crypto" "well_sized (transactions sample_entry_block)"
    by (simp_all add: conversions_return_def sample_crypto_def well_sized_def txs sample_entry_mint_def sample_mint_def)
  moreover have "list_all plain (transactions sample_entry_block)" "fresh_ids (utxos utxo_new) (transactions sample_entry_block)"
    "unat (current_total_supply sm) = utxo_total (utxos utxo_new)"
    "utxo_total (utxos utxo_new) + block_outputs (transactions sample_entry_block) < 2 ^ 128"
    by (simp_all add: txs plain_def fresh_ids_def sample_entry_mint_def sample_mint_def block_outputs_def outputs_total_def
      sm(2) utxo_new_def)
  ultimately obtain r u' sm' where
    run: "validate_and_apply_block sample_crypto rev sample_script sample_ark (Inr 100) (ghost_dag_new 1) sample_dag
       sample_entry_block (utxo_new, sm) = Some (r, (u', sm'))" and ok: "is_ok r" and
    after: "utxos u' = fmupd (Hash 7, 0) \<lparr>out_value = 50, pubkey_hash = Hash 3\<rparr> fmempty"
      "unat (current_total_supply sm') = utxo_total (utxos u')"
    using entry_decides_block [OF sample_ark_dense sample_ark_serializes(1), of sample_crypto sm rev sample_entry_block utxo_new
        sample_script 100 "ghost_dag_new 1" sample_dag, unfolded H applied total]
      sm(1) valid reorg
    by (auto simp: MAX_GLOBAL_SUPPLY_NANO_SLUG_def)
  from ok have "r = Inr ()" by (cases r) simp_all
  with run after total show ?thesis by auto
qed

end
