(* ===== verification/Unit_Tests.thy ===== *)
theory Unit_Tests
  imports Chain_State Emission Storage Signing Vm_Executor "HOL-Library.Monad_Syntax"
begin

text \<open>
  Unit tests of the crate (the \<open>tests\<close> modules of \<open>consensus/emission.rs\<close>,
  \<open>consensus/economic_constants.rs\<close>, \<open>state/storage.rs\<close>, \<open>state/mod.rs\<close> and \<open>state/utxo.rs\<close>),
  translated like the code they test: the model is checked against the behaviour its authors
  wrote down. A test is a \<open>unit option\<close>; a failed assertion, like any panic, is \<open>None\<close>.

  The tests use blake3 on a few texts and rely on their hashes being different; that is the
  hypothesis \<open>inj_on\<close> of the lemmas.
\<close>

section \<open>Tests\<close>

type_synonym test = "unit option"

text \<open>\<open>assert!\<close>, and \<open>expect\<close> or \<open>unwrap\<close> on a \<open>Result\<close>.\<close>

definition check :: "bool \<Rightarrow> test" where
  "check b = (if b then Some () else None)"

fun expect_ok :: "'e + 'a \<Rightarrow> 'a option" where
  "expect_ok (Inr x) = Some x"
| "expect_ok (Inl e) = None"

named_theorems test_simps \<open>running a test\<close>

lemma check_True [test_simps]: "check True = Some ()"
  by (simp add: check_def)

lemma check_passes [test_simps]: "check b = Some () \<longleftrightarrow> b"
  by (simp add: check_def)

lemma check_bind [test_simps]: "Option.bind (check b) f = Some y \<longleftrightarrow> b \<and> f () = Some y"
  by (simp add: check_def)

section \<open>Emission\<close>

definition test_initial_reward :: test where
  "test_initial_reward =
     (case block_reward 0 1 of (miner, infra, per_node) \<Rightarrow> do {
        check (miner + infra = ucast (100 * UNIT));
        check (per_node = ucast (20 * UNIT));
        check (validate_reward_split 0 1)
      })"

definition test_reward_halving :: test where
  "test_reward_halving =
     (case block_reward 100000 10 of (m1, i1, p1) \<Rightarrow>
      case block_reward 200000 10 of (m2, i2, p2) \<Rightarrow>
      case block_reward 300000 10 of (m3, i3, _) \<Rightarrow> do {
        check (m1 + i1 = ucast (50 * UNIT));
        check (p1 = ucast UNIT);
        check (m2 + i2 = ucast (25 * UNIT));
        check (p2 = ucast (UNIT div 2));
        check (m3 + i3 = ucast (1250000000 :: u128))
      })"

definition test_minimum_reward :: test where
  "test_minimum_reward =
     (case block_reward 5000000 10 of (m, i, _) \<Rightarrow> check (m + i = ucast MIN_REWARD))"

definition test_total_emitted_increases :: test where
  "test_total_emitted_increases = check (total_emitted 50 < total_emitted 100)"

definition test_max_supply_cap :: test where
  "test_max_supply_cap = check (total_emitted 1000000 \<le> MAX_SUPPLY)"

definition test_capped_reward :: test where
  "test_capped_reward =
     (let high_score = 10000000 in do {
        check (capped_reward high_score \<le> MAX_SUPPLY);
        check (validate_reward_split high_score 100)
      })"

definition test_max_supply_constant :: test where
  "test_max_supply_constant = do {
     check (max_supply = MAX_GLOBAL_SUPPLY);
     check (max_supply = 600000000000000000)
   }"

text \<open>Far from the cap the reward of the schedule is paid in full.\<close>

lemma early_reward:
  assumes "unat s \<le> 10 ^ 9"
  shows "capped_reward s = word_of_nat (sched_reward (unat s div 100000))"
proof -
  have "unat s mod 100000 * sched_reward (unat s div 100000) \<le> 100000 * 10 ^ 10"
    using sched_reward_le [of "unat s div 100000"] by (intro mult_mono) simp_all
  moreover have "(\<Sum>i<unat s div 100000. sched_reward i) \<le> 19999999989 + 10000"
    using sum_sched_le [of "unat s div 100000"] assms by simp
  ultimately have "emitted_before (unat s) \<le> 100000 * 20000009989 + 100000 * 10 ^ 10"
    unfolding emitted_before_eq by simp
  then have "unat (capped_reward s) = unat (raw_block_reward s)"
    using raw_block_reward_le [of s] by (simp add: unat_capped_reward unat_total_emitted unat_MAX_SUPPLY)
  also have "unat (raw_block_reward s) = sched_reward (unat s div 100000)"
    using assms by (intro unat_raw_block_reward) simp
  finally have "unat (capped_reward s) = sched_reward (unat s div 100000)" .
  then have "word_of_nat (unat (capped_reward s)) = (word_of_nat (sched_reward (unat s div 100000)) :: u128)"
    by (rule arg_cong)
  then show ?thesis by simp
qed

lemmas reward_values = early_reward sched_reward_def block_reward_def UNIT_def COIN_UNIT_def MIN_REWARD_def

lemma emission_tests_pass:
  "test_initial_reward = Some ()" "test_reward_halving = Some ()" "test_minimum_reward = Some ()"
  "test_total_emitted_increases = Some ()" "test_max_supply_cap = Some ()" "test_capped_reward = Some ()"
  "test_max_supply_constant = Some ()"
proof -
  show "test_initial_reward = Some ()"
    by (simp add: test_initial_reward_def test_simps validate_reward_split_holds reward_values saturating_sub_def)
  show "test_reward_halving = Some ()"
    by (simp add: test_reward_halving_def test_simps reward_values saturating_sub_def)
  show "test_minimum_reward = Some ()"
    by (simp add: test_minimum_reward_def test_simps reward_values saturating_sub_def)
  show "test_total_emitted_increases = Some ()"
    by (simp add: test_total_emitted_increases_def test_simps word_less_nat_alt unat_total_emitted
        unat_MAX_SUPPLY emitted_before_eq sched_reward_def)
  show "test_max_supply_cap = Some ()"
    by (simp add: test_max_supply_cap_def test_simps word_le_nat_alt unat_total_emitted)
  show "test_capped_reward = Some ()"
    using capped_reward_le [of 10000000]
    by (simp add: test_capped_reward_def test_simps validate_reward_split_holds word_le_nat_alt unat_MAX_SUPPLY)
  show "test_max_supply_constant = Some ()"
    by (simp add: test_max_supply_constant_def test_simps max_supply_def MAX_GLOBAL_SUPPLY_def
        MAX_GLOBAL_SUPPLY_NANO_SLUG_def)
qed

section \<open>Economic constants, storage, chain state\<close>

definition test_supply_cap_is_correct :: test where
  "test_supply_cap_is_correct = check (MAX_GLOBAL_SUPPLY_NANO_SLUG = 600000000000000000)"

definition test_distribution_sums_to_100 :: test where
  "test_distribution_sums_to_100 = check (MINER_REWARD_PERCENT + FULLNODE_REWARD_PERCENT = 100)"

definition test_miner_share_validation :: test where
  "test_miner_share_validation =
     (let tot = 1000; miner_share = 800; fullnode_share = 200 in do {
        check (validate_miner_share tot miner_share);
        check (validate_fullnode_share tot fullnode_share)
      })"

definition test_no_burn_enforcement :: test where
  "test_no_burn_enforcement = do {
     check NO_BURN_ENFORCEMENT_ACTIVE;
     check (\<not> verify_non_burn_address ECON_BURN_ADDRESS)
   }"

definition test_memory_storage_put_get_delete :: test where
  "test_memory_storage_put_get_delete =
     (let s0 = memory_storage_new;
          key = str_bytes ''test-key'';
          value = str_bytes ''test-value''
      in do {
        check (storage_get s0 key = None);
        (let s1 = storage_put key value s0 in do {
           check (storage_get s1 key = Some value);
           check (storage_get (storage_delete key s1) key = None)
         })
      })"

definition test_state_creation :: test where
  "test_state_creation =
     (let state = state_new in do {
        check (finalizing_block state = None);
        check (virtual_score state = 0);
        check (pruned state = [])
      })"

definition test_state_updates :: "blake3 \<Rightarrow> test" where
  "test_state_updates H =
     (let block_hash = hash_new H (str_bytes ''test'');
          state1 = set_finalizing_block state_new block_hash
      in do {
        check (finalizing_block state1 = Some block_hash);
        check (get_virtual_score (update_virtual_score state1 100) = 100)
      })"

lemma economic_tests_pass:
  "test_supply_cap_is_correct = Some ()" "test_distribution_sums_to_100 = Some ()"
  "test_miner_share_validation = Some ()" "test_no_burn_enforcement = Some ()"
  by (simp_all add: test_simps test_supply_cap_is_correct_def MAX_GLOBAL_SUPPLY_NANO_SLUG_def
      test_distribution_sums_to_100_def MINER_REWARD_PERCENT_def FULLNODE_REWARD_PERCENT_def
      test_miner_share_validation_def validate_miner_share_def validate_fullnode_share_def
      test_no_burn_enforcement_def NO_BURN_ENFORCEMENT_ACTIVE_def verify_non_burn_address_def)

lemma storage_test_passes: "test_memory_storage_put_get_delete = Some ()"
  by (simp add: test_memory_storage_put_get_delete_def test_simps memory.get_put memory.get_del)
    (simp add: memory_storage_new_def storage_get_def)

lemma state_tests_pass: "test_state_creation = Some ()" "test_state_updates H = Some ()"
  by (simp_all add: test_simps test_state_creation_def test_state_updates_def state_new_def
      set_finalizing_block_def update_virtual_score_def get_virtual_score_def)

section \<open>The UTXO set\<close>

text \<open>The transactions of the tests differ in identifier, inputs and outputs only.\<close>

definition test_tx :: "hash \<Rightarrow> tx_input list \<Rightarrow> tx_output list \<Rightarrow> transaction" where
  "test_tx id' ins outs =
     \<lparr>tx_id = id', inputs = ins, outputs = outs, execution_payload = [], contract_address = None,
      gas_limit = 0, max_fee_per_gas = 0, chain_id = 1, locktime = 0\<rparr>"

definition unsigned_input :: "hash \<Rightarrow> u32 \<Rightarrow> tx_input" where
  "unsigned_input prev i =
     \<lparr>prev_tx = prev, in_index = i, in_signature = [], in_pubkey = [], in_sighash_type = SigHash_All\<rparr>"

definition with_output :: "outpoint \<Rightarrow> u64 \<Rightarrow> hash \<Rightarrow> utxo_set \<Rightarrow> utxo_set" where
  "with_output key v pk u = u\<lparr>utxos := fmupd key \<lparr>out_value = v, pubkey_hash = pk\<rparr> (utxos u)\<rparr>"

definition test_apply_revert_success :: "('vk, 'sig) crypto \<Rightarrow> test" where
  "test_apply_revert_success E =
     (let new_hash = (\<lambda>s. hash_new (blake3_hash E) (str_bytes s));
          pk = new_hash ''recipient_pubkey_hash'';
          u0 = with_output (new_hash ''prev_tx'', 0) 100 pk utxo_new;
          tx = test_tx (new_hash ''tx1'') [] [\<lparr>out_value = 50, pubkey_hash = pk\<rparr>]
      in do {
           (r, u1) \<leftarrow> apply_tx E u0 tx;
           changeset \<leftarrow> expect_ok r;
           out \<leftarrow> fmlookup (utxos u1) (tx_id tx, 0);
           check (out_value out = 50);
           (case revert_tx u1 changeset fmempty of (r', u2) \<Rightarrow> do {
              expect_ok r';
              check (fmlookup (utxos u2) (tx_id tx, 0) = None)
            })
         })"

definition test_apply_revert_fail :: "('vk, 'sig) crypto \<Rightarrow> test" where
  "test_apply_revert_fail E =
     (let new_hash = (\<lambda>s. hash_new (blake3_hash E) (str_bytes s));
          tx = test_tx (new_hash ''tx1'') [unsigned_input (new_hash ''nonexistent'') 0]
                 [\<lparr>out_value = 50, pubkey_hash = new_hash ''pubkey1''\<rparr>]
      in do {
           (r, u1) \<leftarrow> apply_tx E utxo_new tx;
           check (\<not> is_ok r);
           check (utxos u1 = fmempty)
         })"

definition test_coinbase_valid :: "blake3 \<Rightarrow> test" where
  "test_coinbase_valid H =
     (let tx = test_tx (hash_new H (str_bytes ''coinbase_tx'')) []
                 [\<lparr>out_value = 50, pubkey_hash = hash_new H (str_bytes ''pubkey1'')\<rparr>]
      in do {
        check (is_coinbase tx);
        check (sum_list (map (\<lambda>out. ucast (out_value out)) (outputs tx)) = (50 :: u128))
      })"

definition test_coinbase_invalid_reward :: "blake3 \<Rightarrow> test" where
  "test_coinbase_invalid_reward H =
     (let tx = test_tx (hash_new H (str_bytes ''coinbase_tx'')) []
                 [\<lparr>out_value = 100, pubkey_hash = hash_new H (str_bytes ''pubkey1'')\<rparr>]
      in check (sum_list (map (\<lambda>out. ucast (out_value out)) (outputs tx)) = (100 :: u128)))"

definition test_validate_tx_reject_zero_address_output :: "('vk, 'sig) crypto \<Rightarrow> test" where
  "test_validate_tx_reject_zero_address_output E =
     (let tx = test_tx (hash_new (blake3_hash E) (str_bytes ''tx1'')) []
                 [\<lparr>out_value = 100, pubkey_hash = hash_new (blake3_hash E) (array_bytes 0)\<rparr>]
      in do {
        r \<leftarrow> validate_tx E utxo_new tx;
        check (\<not> is_ok r)
      })"

definition test_validate_tx_reject_duplicate_input :: "('vk, 'sig) crypto \<Rightarrow> test" where
  "test_validate_tx_reject_duplicate_input E =
     (let new_hash = (\<lambda>s. hash_new (blake3_hash E) (str_bytes s));
          prev = new_hash ''prev_tx'';
          pk = new_hash ''pubkey1'';
          u = with_output (prev, 0) 200 pk utxo_new;
          tx = test_tx (new_hash ''tx1'') [unsigned_input prev 0, unsigned_input prev 0]
                 [\<lparr>out_value = 100, pubkey_hash = pk\<rparr>]
      in do {
        r \<leftarrow> validate_tx E u tx;
        (case r of
           Inr _ \<Rightarrow> None
         | Inl e \<Rightarrow> check (contains (show_core_error e) ''Duplicate input''))
      })"

text \<open>The helper that signs takes all messages before it sets the public keys.\<close>

definition test_sign_transaction ::
    "('vk, 'sig) crypto \<Rightarrow> ('rng, 'sk, 'vk, 'sig) signer \<Rightarrow> 'sk key_pair_wrapper \<Rightarrow> transaction \<Rightarrow> transaction option" where
  "test_sign_transaction E S keypair tx =
     (let pubkey_bytes = vk_to_bytes S (public_key S keypair) in do {
        sighashes \<leftarrow> those (map (\<lambda>(idx, input).
          expect_ok (compute_sighash (blake3_hash E) tx idx (in_sighash_type input)))
          (List.enumerate 0 (inputs tx)));
        Some (tx\<lparr>inputs := map (\<lambda>(input, msg).
          input\<lparr>in_signature := sig_to_bytes S (kp_sign S keypair (array_bytes msg)),
                in_pubkey := pubkey_bytes\<rparr>) (zip (inputs tx) sighashes)\<rparr>)
      })"

definition test_validate_tx_reject_output_overflow ::
    "('vk, 'sig) crypto \<Rightarrow> ('rng, 'sk, 'vk, 'sig) signer \<Rightarrow> 'rng \<Rightarrow> test" where
  "test_validate_tx_reject_output_overflow E S rng =
     (let new_hash = (\<lambda>s. hash_new (blake3_hash E) (str_bytes s));
          keypair = fst (key_pair_new S rng);
          pk = hash_new (blake3_hash E) (vk_to_bytes S (public_key S keypair));
          u = with_output (new_hash ''prev_tx'', 0) 1000 pk utxo_new
      in do {
        tx \<leftarrow> test_sign_transaction E S keypair
          (test_tx (new_hash ''tx1'') [unsigned_input (new_hash ''prev_tx'') 0]
             [\<lparr>out_value = 18446744073709551615, pubkey_hash = new_hash ''pubkey1''\<rparr>,
              \<lparr>out_value = 1, pubkey_hash = new_hash ''pubkey2''\<rparr>]);
        r \<leftarrow> validate_tx E u tx;
        (case r of
           Inr _ \<Rightarrow> None
         | Inl e \<Rightarrow> check (contains (show_core_error e) ''Output overflow''))
      })"

definition test_validate_tx_fee_calculation_explicit :: "('vk, 'sig) crypto \<Rightarrow> test" where
  "test_validate_tx_fee_calculation_explicit E =
     (let new_hash = (\<lambda>s. hash_new (blake3_hash E) (str_bytes s));
          pk = new_hash ''pubkey1'';
          u = with_output (new_hash ''prev_tx2'', 0) 500 pk
                (with_output (new_hash ''prev_tx1'', 0) 1000 pk utxo_new);
          tx = test_tx (new_hash ''tx1'')
                 [unsigned_input (new_hash ''prev_tx1'') 0, unsigned_input (new_hash ''prev_tx2'') 0]
                 [\<lparr>out_value = 1200, pubkey_hash = pk\<rparr>]
      in do {
        r \<leftarrow> validate_tx E u tx;
        Some ()
      })"

lemmas utxo_test_defs = test_tx_def unsigned_input_def with_output_def utxo_new_def
  validate_tx_def apply_tx_def BURN_ADDRESS_def is_coinbase_def outpoint_of_def hash_new_def Let_def

lemma utxo_apply_revert_passes:
  assumes "blake3_hash E (str_bytes ''recipient_pubkey_hash'') \<noteq> blake3_hash E (array_bytes 0)"
  shows "test_apply_revert_success E = Some ()"
  using assms
  by (simp add: test_apply_revert_success_def test_simps utxo_test_defs revert_tx_def)

lemma utxo_rejects_unknown_input:
  "test_apply_revert_fail E = Some ()"
  by (simp add: test_apply_revert_fail_def test_simps utxo_test_defs checked_add_def)

lemma coinbase_tests_pass:
  "test_coinbase_valid H = Some ()" "test_coinbase_invalid_reward H = Some ()"
  by (simp_all add: test_coinbase_valid_def test_coinbase_invalid_reward_def test_simps test_tx_def is_coinbase_def)

lemma utxo_rejects_burn: "test_validate_tx_reject_zero_address_output E = Some ()"
  by (simp add: test_validate_tx_reject_zero_address_output_def test_simps utxo_test_defs)

lemma utxo_rejects_duplicate:
  assumes "blake3_hash E (str_bytes ''pubkey1'') \<noteq> blake3_hash E (array_bytes 0)"
  shows "test_validate_tx_reject_duplicate_input E = Some ()"
  using assms
  by (simp add: test_validate_tx_reject_duplicate_input_def test_simps utxo_test_defs contains_def)

lemma utxo_rejects_overflow:
  assumes "blake3_hash E (str_bytes ''pubkey1'') \<noteq> blake3_hash E (array_bytes 0)"
    and "blake3_hash E (str_bytes ''pubkey2'') \<noteq> blake3_hash E (array_bytes 0)"
  shows "test_validate_tx_reject_output_overflow E S rng = Some ()"
  using assms
  by (simp add: test_validate_tx_reject_output_overflow_def test_sign_transaction_def compute_sighash_def
      test_simps utxo_test_defs contains_def checked_add_def)

lemma utxo_fee_test_passes: "test_validate_tx_fee_calculation_explicit E = Some ()"
  by (auto simp: test_validate_tx_fee_calculation_explicit_def utxo_test_defs checked_add_def check_signature_def
      split: option.split)

end
