(* ===== verification/Unit_Tests_Commit.thy ===== *)
theory Unit_Tests_Commit
  imports Poly_Commit Unit_Tests
begin

text \<open>
  The unit tests of \<open>crypto/verkle/polynomial_commitment.rs\<close>. They hold for every field in which
  the small numbers they use are not zero, under the law \<open>dense_poly\<close>; where a test expects two
  commitments to differ, that is the hypothesis.
\<close>

section \<open>Tests\<close>

fun for_each :: "'a list \<Rightarrow> ('a \<Rightarrow> test) \<Rightarrow> test" where
  "for_each [] body = Some ()"
| "for_each (x # xs) body = do { body x; for_each xs body }"

lemma for_each_passes [test_simps]: "for_each xs body = Some () \<longleftrightarrow> (\<forall>x \<in> set xs. body x = Some ())"
  by (induction xs) (auto simp: bind_eq_Some_conv)

definition test_polynomial_commitment_creation :: "('f::field, 'p, 'g) ark \<Rightarrow> blake3 \<Rightarrow> test" where
  "test_polynomial_commitment_creation A H = do {
     pc \<leftarrow> pc_new A H 256;
     check (length (generators pc) = 256)
   }"

text \<open>Opening at a point with a value, and verifying against a commitment.\<close>

definition check_opening ::
    "('f::field, 'p, 'g::ab_group_add) ark \<Rightarrow> blake3 \<Rightarrow> 'g polynomial_commitment \<Rightarrow> 'p \<Rightarrow> 'g commitment
       \<Rightarrow> 'f \<Rightarrow> 'f \<Rightarrow> test" where
  "check_opening A H pc poly commitment point value = do {
     opened \<leftarrow> pc_open A H pc poly point value;
     prf \<leftarrow> expect_ok opened;
     is_valid \<leftarrow> expect_ok (pc_verify A H pc commitment prf);
     check is_valid
   }"

definition test_commit_and_open :: "('f::field, 'p, 'g::ab_group_add) ark \<Rightarrow> blake3 \<Rightarrow> test" where
  "test_commit_and_open A H = do {
     pc \<leftarrow> pc_new A H 256;
     (let polynomial = p_from A [1, 2, 1] in do {
        commitment \<leftarrow> expect_ok (commit A H pc polynomial);
        check_opening A H pc polynomial commitment 3 (p_eval A polynomial 3)
      })
   }"

definition test_polynomial_division :: "('f::field, 'p, 'g::ab_group_add) ark \<Rightarrow> blake3 \<Rightarrow> test" where
  "test_polynomial_division A H = do {
     pc \<leftarrow> pc_new A H 256;
     q \<leftarrow> compute_quotient_polynomial A (p_from A [1, 2, 1]) 1 4;
     check (p_coeffs A q = p_coeffs A (p_from A [3, 1]))
   }"

text \<open>Two commitments to the same coefficients, by one instance or by two.\<close>

definition same_commitments ::
    "('f::field, 'p, 'g::ab_group_add) ark \<Rightarrow> blake3 \<Rightarrow> 'g polynomial_commitment \<Rightarrow> 'g polynomial_commitment \<Rightarrow> test" where
  "same_commitments A H pc1 pc2 = do {
     c1 \<leftarrow> expect_ok (commit A H pc1 (p_from A [1, 2]));
     c2 \<leftarrow> expect_ok (commit A H pc2 (p_from A [1, 2]));
     check (c1 = c2)
   }"

definition test_poly_commitment_binding_property :: "('f::field, 'p, 'g::ab_group_add) ark \<Rightarrow> blake3 \<Rightarrow> test" where
  "test_poly_commitment_binding_property A H = do { pc \<leftarrow> pc_new A H 256; same_commitments A H pc pc }"

definition test_poly_blinding_factor_determinism :: "('f::field, 'p, 'g::ab_group_add) ark \<Rightarrow> blake3 \<Rightarrow> test" where
  "test_poly_blinding_factor_determinism A H = do { pc \<leftarrow> pc_new A H 256; same_commitments A H pc pc }"

definition test_poly_commitment_stability :: "('f::field, 'p, 'g::ab_group_add) ark \<Rightarrow> blake3 \<Rightarrow> test" where
  "test_poly_commitment_stability A H = do {
     pc1 \<leftarrow> pc_new A H 256;
     pc2 \<leftarrow> pc_new A H 256;
     same_commitments A H pc1 pc2
   }"

definition test_poly_commitment_commitments_differ_for_different_polynomials ::
    "('f::field, 'p, 'g::ab_group_add) ark \<Rightarrow> blake3 \<Rightarrow> test" where
  "test_poly_commitment_commitments_differ_for_different_polynomials A H = do {
     pc \<leftarrow> pc_new A H 256;
     c1 \<leftarrow> expect_ok (commit A H pc (p_from A [1, 2]));
     c2 \<leftarrow> expect_ok (commit A H pc (p_from A [3, 4]));
     check (c1 \<noteq> c2)
   }"

definition test_poly_opening_proof_correctness :: "('f::field, 'p, 'g::ab_group_add) ark \<Rightarrow> blake3 \<Rightarrow> test" where
  "test_poly_opening_proof_correctness A H = do {
     pc \<leftarrow> pc_new A H 256;
     for_each [0..<5] (\<lambda>test_idx.
       let point = of_nat (test_idx + 1); poly = p_from A [7, 3, 5] in do {
         commitment \<leftarrow> expect_ok (commit A H pc poly);
         check_opening A H pc poly commitment point (p_eval A poly point)
       })
   }"

definition test_poly_opening_proof_rejection_wrong_value ::
    "('f::field, 'p, 'g::ab_group_add) ark \<Rightarrow> blake3 \<Rightarrow> test" where
  "test_poly_opening_proof_rejection_wrong_value A H = do {
     pc \<leftarrow> pc_new A H 256;
     (let poly = p_from A [7, 3] in do {
        _ \<leftarrow> expect_ok (commit A H pc poly);
        opened \<leftarrow> pc_open A H pc poly 5 (p_eval A poly 5 + 1);
        (case opened of Inl InvalidEvaluation \<Rightarrow> Some () | _ \<Rightarrow> None)
      })
   }"

definition test_poly_opening_proof_rejection_wrong_point ::
    "('f::field, 'p, 'g::ab_group_add) ark \<Rightarrow> blake3 \<Rightarrow> test" where
  "test_poly_opening_proof_rejection_wrong_point A H = do {
     pc \<leftarrow> pc_new A H 256;
     (let poly = p_from A [7, 3] in do {
        commitment \<leftarrow> expect_ok (commit A H pc poly);
        opened \<leftarrow> pc_open A H pc poly 5 (p_eval A poly 5);
        prf \<leftarrow> expect_ok opened;
        is_valid \<leftarrow> expect_ok (pc_verify A H pc commitment (prf\<lparr>op_point := 7\<rparr>));
        check (\<not> is_valid)
      })
   }"

definition test_poly_commitment_degree_limit :: "('f::field, 'p, 'g::ab_group_add) ark \<Rightarrow> blake3 \<Rightarrow> test" where
  "test_poly_commitment_degree_limit A H = do {
     pc \<leftarrow> pc_new A H 16;
     check (\<not> is_ok (commit A H pc (p_from A (map of_nat [0..<20]))))
   }"

definition test_poly_opening_proof_multiple_points :: "('f::field, 'p, 'g::ab_group_add) ark \<Rightarrow> blake3 \<Rightarrow> test" where
  "test_poly_opening_proof_multiple_points A H = do {
     pc \<leftarrow> pc_new A H 256;
     (let poly = p_from A [7, 3, 5] in do {
        commitment \<leftarrow> expect_ok (commit A H pc poly);
        for_each (map of_nat [1..<6]) (\<lambda>point. check_opening A H pc poly commitment point (p_eval A poly point))
      })
   }"

definition test_poly_quotient_polynomial_correctness ::
    "('f::field, 'p, 'g::ab_group_add) ark \<Rightarrow> blake3 \<Rightarrow> test" where
  "test_poly_quotient_polynomial_correctness A H = do {
     pc \<leftarrow> pc_new A H 256;
     (let p = p_from A [5, 3, 1, 2]; z = 4; pz = p_eval A p z in do {
        q \<leftarrow> compute_quotient_polynomial A p z pz;
        for_each [1, 2, 3, 5, 6] (\<lambda>x. check (p_eval A p x - pz = p_eval A q x * (x - z)))
      })
   }"

definition test_poly_constant_polynomial :: "('f::field, 'p, 'g::ab_group_add) ark \<Rightarrow> blake3 \<Rightarrow> test" where
  "test_poly_constant_polynomial A H = do {
     pc \<leftarrow> pc_new A H 256;
     (let const_poly = p_from A [42] in do {
        commitment \<leftarrow> expect_ok (commit A H pc const_poly);
        for_each [1, 5, 10, 100] (\<lambda>point. do {
          check (p_eval A const_poly point = 42);
          check_opening A H pc const_poly commitment point (p_eval A const_poly point)
        })
      })
   }"

definition test_poly_linear_polynomial :: "('f::field, 'p, 'g::ab_group_add) ark \<Rightarrow> blake3 \<Rightarrow> test" where
  "test_poly_linear_polynomial A H = do {
     pc \<leftarrow> pc_new A H 256;
     (let poly = p_from A [7, 3] in do {
        commitment \<leftarrow> expect_ok (commit A H pc poly);
        for_each (map of_nat [1..<11]) (\<lambda>x. do {
          check (3 * x + 7 = p_eval A poly x);
          check_opening A H pc poly commitment x (p_eval A poly x)
        })
      })
   }"

definition test_poly_msm_correctness :: "('f::field, 'p, 'g::ab_group_add) ark \<Rightarrow> blake3 \<Rightarrow> test" where
  "test_poly_msm_correctness A H = do {
     pc \<leftarrow> pc_new A H 4;
     (let coeffs = [1, 2, 3, 4] in do {
        c1 \<leftarrow> expect_ok (commit A H pc (p_from A coeffs));
        (let manual = fold (\<lambda>(i, coeff) acc. acc + smul A (generators pc ! i) coeff) (List.enumerate 0 coeffs) 0;
             blinding = generate_blinding_factor A H coeffs
         in check (point_of c1 = manual + smul A (random_point pc) blinding))
      })
   }"

definition test_poly_opening_witness_security :: "('f::field, 'p, 'g::ab_group_add) ark \<Rightarrow> blake3 \<Rightarrow> test" where
  "test_poly_opening_witness_security A H = do {
     pc \<leftarrow> pc_new A H 256;
     (let poly1 = p_from A [1, 2] in do {
        _ \<leftarrow> expect_ok (commit A H pc poly1);
        opened \<leftarrow> pc_open A H pc poly1 5 (p_eval A poly1 5);
        proof1 \<leftarrow> expect_ok opened;
        commitment2 \<leftarrow> expect_ok (commit A H pc (p_from A [10, 20]));
        is_valid \<leftarrow> expect_ok (pc_verify A H pc commitment2 proof1);
        check (\<not> is_valid)
      })
   }"

text \<open>The last test of the module accepts either verdict.\<close>

definition test_poly_opening_point_value_binding :: "('f::field, 'p, 'g::ab_group_add) ark \<Rightarrow> blake3 \<Rightarrow> test" where
  "test_poly_opening_point_value_binding A H = do {
     pc \<leftarrow> pc_new A H 256;
     (let poly = p_from A [1, 2] in do {
        commitment \<leftarrow> expect_ok (commit A H pc poly);
        opened \<leftarrow> pc_open A H pc poly 5 (p_eval A poly 5);
        proof1 \<leftarrow> expect_ok opened;
        _ \<leftarrow> expect_ok (pc_verify A H pc commitment (proof1\<lparr>op_point := 7, op_value := p_eval A poly 7\<rparr>));
        Some ()
      })
   }"

section \<open>They pass\<close>

lemma length_generator_points: "generator_points A H is = Some ps \<Longrightarrow> length ps = length is"
  by (induction "is" arbitrary: ps) (auto simp: bind_eq_Some_conv)

lemma length_generators: "pc_new A H n = Some pc \<Longrightarrow> length (generators pc) = n"
  by (auto simp: pc_new_def bind_eq_Some_conv dest: length_generator_points)

text \<open>Small numbers are not zero in the field.\<close>

definition small_nonzero :: "'f::field itself \<Rightarrow> bool" where
  "small_nonzero TYPE('f) \<longleftrightarrow> (\<forall>n. 0 < n \<and> n < 1000 \<longrightarrow> (of_nat n :: 'f) \<noteq> 0)"

lemma small_nonzeroD:
  assumes "small_nonzero TYPE('f::field)" "numeral n < (1000 :: nat)"
  shows "(numeral n :: 'f) \<noteq> 0"
  using assms unfolding small_nonzero_def by (metis of_nat_numeral zero_less_numeral)

lemma small_distinct:
  assumes "small_nonzero TYPE('f::field)" "m < n" "n < 1000"
  shows "(of_nat m :: 'f) \<noteq> of_nat n"
proof
  assume "(of_nat m :: 'f) = of_nat n"
  with assms(2) have "(of_nat (n - m) :: 'f) = 0" by (simp add: of_nat_diff)
  with assms show False unfolding small_nonzero_def by (metis less_imp_diff_less zero_less_diff)
qed

text \<open>A polynomial given by its coefficients, as the tests write them.\<close>

lemma given_coeffs:
  assumes "dense_poly A" "cs \<noteq> []" "last cs \<noteq> 0"
  shows "p_coeffs A (p_from A cs) = cs" "p_eval A (p_from A cs) x = horner cs x"
proof -
  have "strip_while ((=) 0) cs = cs" using assms(2,3) by (cases cs rule: rev_cases) simp_all
  then show "p_coeffs A (p_from A cs) = cs" "p_eval A (p_from A cs) x = horner cs x"
    by (simp_all add: dense_polyD(1,4) [OF assms(1)])
qed

lemma commit_given:
  assumes "dense_poly A" "length cs \<le> length (generators pc)"
  obtains cm where "commit A H pc (p_from A cs) = Inr cm"
  using commit_Inr [of A H pc "p_from A cs"] assms length_strip_while_le [of "(=) 0" cs]
  by (auto simp: dense_polyD(1) [OF assms(1)])

text \<open>An opening of a given polynomial, and the verdict on it after a change of point and value.\<close>

lemma open_given:
  assumes "dense_poly A" "cs \<noteq> []" "last cs \<noteq> 0" "length cs \<le> length (generators pc)"
  obtains opened where "pc_open A H pc (p_from A cs) z (horner cs z) = Some (Inr opened)"
    "op_point opened = z" "op_value opened = horner cs z"
    "\<And>z' v' cm. pc_verify A H pc cm (opened\<lparr>op_point := z', op_value := v'\<rparr>) =
       Inr (commit A H pc (p_from A (reconstruct_polynomial_from_quotient (packed_quotient z cs) z' v')) = Inr cm)"
proof -
  note cs = given_coeffs [OF assms(1-3)]
  let ?qs = "packed_quotient z cs"
  have q: "p_coeffs A (p_from A ?qs) = ?qs" by (simp add: dense_polyD(1) [OF assms(1)])
  have len: "Suc (length ?qs) \<le> length cs"
    using assms(2) length_filter_le [of "\<lambda>q. q \<noteq> 0" "synthetic_quotient z cs"]
    by (cases cs) (simp_all add: packed_quotient_def synthetic_quotient_def)
  have "length ?qs \<le> length (generators pc)" using len assms(4) by simp
  then obtain qc where qc: "commit A H pc (p_from A ?qs) = Inr qc" by (rule commit_given [OF assms(1)])
  let ?opened = "\<lparr>quotient_commitment = qc, ipa_of = \<lparr>final_commitment = qc, proof_scalars = ?qs\<rparr>,
    op_point = z, op_value = horner cs z\<rparr>"
  have "pc_open A H pc (p_from A cs) z (horner cs z) = Some (Inr ?opened)"
    using compute_quotient_packed [OF assms(1), of "p_from A cs"] assms(2)
    by (simp add: pc_open_def cs qc generate_ipa_proof_def q)
  moreover have "pc_verify A H pc cm (?opened\<lparr>op_point := z', op_value := v'\<rparr>) =
      Inr (commit A H pc (p_from A (reconstruct_polynomial_from_quotient ?qs z' v')) = Inr cm)" for z' v' cm
  proof -
    have "length (reconstruct_polynomial_from_quotient ?qs z' v') \<le> length (generators pc)"
      using len assms(4) by (simp add: reconstruct_eq)
    then obtain rc where "commit A H pc (p_from A (reconstruct_polynomial_from_quotient ?qs z' v')) = Inr rc"
      by (rule commit_given [OF assms(1)])
    then show ?thesis
      by (simp add: pc_verify_def verify_ipa_proof_def reconstruct_scalars_commit [OF q] qc)
  qed
  ultimately show ?thesis by (intro that [of ?opened]) simp_all
qed

text \<open>An honest opening of a polynomial whose quotient has no zero coefficient is accepted.\<close>

lemma opening_checks:
  assumes "dense_poly A" "cs \<noteq> []" "last cs \<noteq> 0" "length cs \<le> length (generators pc)"
    and "commit A H pc (p_from A cs) = Inr cm" "0 \<notin> set (synthetic_quotient z cs)"
  shows "check_opening A H pc (p_from A cs) cm z (p_eval A (p_from A cs) z) = Some ()"
proof -
  note cs = given_coeffs [OF assms(1-3)]
  obtain opened where opened: "pc_open A H pc (p_from A cs) z (horner cs z) = Some (Inr opened)"
      "op_point opened = z" "op_value opened = horner cs z"
    and verdict: "\<And>z' v' cm. pc_verify A H pc cm (opened\<lparr>op_point := z', op_value := v'\<rparr>) =
      Inr (commit A H pc (p_from A (reconstruct_polynomial_from_quotient (packed_quotient z cs) z' v')) = Inr cm)"
    using open_given [OF assms(1-4), where z = z and H = H] by blast
  have "opened\<lparr>op_point := z, op_value := horner cs z\<rparr> = opened" using opened(2,3) by (cases opened) simp
  then have "pc_verify A H pc cm opened = Inr True"
    using verdict [where z' = z and v' = "horner cs z" and cm = cm] rebuilt_commitment [OF assms(1), of "p_from A cs" z "horner cs z" H pc]
      assms(2,5,6) by (simp add: cs)
  then show ?thesis by (simp add: check_opening_def cs opened(1) test_simps)
qed

lemmas commit_test_simps = test_simps bind_eq_Some_conv small_nonzeroD synthetic_quotient_def

lemma creation_test_passes:
  "pc_new A H 256 = Some pc \<Longrightarrow> test_polynomial_commitment_creation A H = Some ()"
  by (simp add: test_polynomial_commitment_creation_def test_simps length_generators)

lemma opening_tests_pass:
  fixes A :: "('f::field, 'p, 'g::ab_group_add) ark"
  assumes A: "dense_poly A" and nz: "small_nonzero TYPE('f)" and pc: "pc_new A H 256 = Some pc"
  shows "test_commit_and_open A H = Some ()" "test_poly_opening_proof_correctness A H = Some ()"
    "test_poly_opening_proof_multiple_points A H = Some ()" "test_poly_constant_polynomial A H = Some ()"
    "test_poly_linear_polynomial A H = Some ()"
proof -
  note len = length_generators [OF pc] and num = small_nonzeroD [OF nz] small_nonzeroD [OF nz, THEN not_sym]
  have opens: "check_opening A H pc (p_from A cs) cm z (p_eval A (p_from A cs) z) = Some ()"
    if "commit A H pc (p_from A cs) = Inr cm" "length cs \<le> 256" "cs \<noteq> []" "last cs \<noteq> 0"
      "0 \<notin> set (synthetic_quotient z cs)" for cs z cm
    using that by (intro opening_checks [OF A]) (simp_all add: len)
  have commits: "\<exists>cm. commit A H pc (p_from A cs) = Inr cm" if "length cs \<le> 256" for cs
    using that len commit_given [OF A, of cs pc H] by metis
  obtain c1 where c1: "commit A H pc (p_from A [1, 2, 1]) = Inr c1" using commits [of "[1, 2, 1]"] by auto
  show "test_commit_and_open A H = Some ()"
    using opens [OF c1, of 3] by (simp add: num test_commit_and_open_def pc c1 Let_def synthetic_quotient_def)
  obtain c2 where c2: "commit A H pc (p_from A [7, 3, 5]) = Inr c2" using commits [of "[7, 3, 5]"] by auto
  have points: "check_opening A H pc (p_from A [7, 3, 5]) c2 x (p_eval A (p_from A [7, 3, 5]) x) = Some ()"
    if "x \<in> set (map of_nat [1..<6])" for x
    using that by (intro opens [OF c2]) (auto simp: num synthetic_quotient_def upt_rec)
  show "test_poly_opening_proof_correctness A H = Some ()" "test_poly_opening_proof_multiple_points A H = Some ()"
    using points by (simp_all add: test_poly_opening_proof_correctness_def
        test_poly_opening_proof_multiple_points_def pc c2 Let_def test_simps upt_rec)
  obtain c3 where c3: "commit A H pc (p_from A [42]) = Inr c3" using commits [of "[42]"] by auto
  show "test_poly_constant_polynomial A H = Some ()"
    using opens [OF c3] given_coeffs(2) [OF A, of "[42]"]
    by (simp add: num test_poly_constant_polynomial_def pc c3 Let_def test_simps bind_eq_Some_conv synthetic_quotient_def)
  obtain c4 where c4: "commit A H pc (p_from A [7, 3]) = Inr c4" using commits [of "[7, 3]"] by auto
  show "test_poly_linear_polynomial A H = Some ()"
    using opens [OF c4] given_coeffs(2) [OF A, of "[7, 3]"]
    by (simp add: num test_poly_linear_polynomial_def pc c4 Let_def test_simps bind_eq_Some_conv synthetic_quotient_def algebra_simps)
qed

lemma commitment_tests_pass:
  fixes A :: "('f::field, 'p, 'g::ab_group_add) ark"
  assumes A: "dense_poly A" and pc: "pc_new A H 256 = Some pc"
  shows "test_poly_commitment_binding_property A H = Some ()" "test_poly_blinding_factor_determinism A H = Some ()"
    "test_poly_commitment_stability A H = Some ()"
proof -
  obtain cm where cm: "commit A H pc (p_from A [1, 2]) = Inr cm"
    using commit_given [OF A, of "[1, 2]" pc H] length_generators [OF pc] by auto
  show "test_poly_commitment_binding_property A H = Some ()" "test_poly_blinding_factor_determinism A H = Some ()"
    "test_poly_commitment_stability A H = Some ()"
    by (simp_all add: test_poly_commitment_binding_property_def test_poly_blinding_factor_determinism_def
        test_poly_commitment_stability_def same_commitments_def pc cm test_simps)
qed

lemma degree_test_passes:
  fixes A :: "('f::field, 'p, 'g::ab_group_add) ark"
  assumes "dense_poly A" "small_nonzero TYPE('f)" "pc_new A H 16 = Some pc"
  shows "test_poly_commitment_degree_limit A H = Some ()"
proof -
  have "last (map of_nat [0..<20]) \<noteq> (0 :: 'f)"
    using small_nonzeroD [OF assms(2)] by (simp add: upt_rec)
  then have "p_coeffs A (p_from A (map of_nat [0..<20])) = map of_nat [0..<20]"
    by (intro given_coeffs [OF assms(1)]) simp_all
  then show ?thesis
    using assms(3) length_generators [OF assms(3)]
    by (simp add: test_poly_commitment_degree_limit_def test_simps commit_def)
qed

lemma wrong_value_test_passes:
  fixes A :: "('f::field, 'p, 'g::ab_group_add) ark"
  assumes "dense_poly A" "pc_new A H 256 = Some pc"
  shows "test_poly_opening_proof_rejection_wrong_value A H = Some ()"
proof -
  obtain cm where "commit A H pc (p_from A [7, 3]) = Inr cm"
    using commit_given [OF assms(1), of "[7, 3]" pc H] length_generators [OF assms(2)] by auto
  then show ?thesis
    using assms(2) by (simp add: test_poly_opening_proof_rejection_wrong_value_def pc_open_def Let_def)
qed

lemma division_tests_pass:
  fixes A :: "('f::field, 'p, 'g::ab_group_add) ark"
  assumes A: "dense_poly A" and nz: "small_nonzero TYPE('f)" and pc: "pc_new A H 256 = Some pc"
  shows "test_polynomial_division A H = Some ()" "test_poly_quotient_polynomial_correctness A H = Some ()"
proof -
  note num = small_nonzeroD [OF nz] small_nonzeroD [OF nz, THEN not_sym]
  have q1: "packed_quotient (1 :: 'f) [1, 2, 1] = [3, 1]"
    by (simp add: packed_quotient_def synthetic_quotient_def num)
  show "test_polynomial_division A H = Some ()"
    using compute_quotient_packed [OF A, of "p_from A [1, 2, 1]" 1 4] given_coeffs(1) [OF A, of "[1, 2, 1]"] q1
    by (simp add: test_polynomial_division_def pc test_simps)
  let ?cs = "[5, 3, 1, 2] :: 'f list"
  have p: "p_coeffs A (p_from A ?cs) = ?cs" "p_eval A (p_from A ?cs) x = horner ?cs x" for x
    using given_coeffs [OF A, of ?cs] by (simp_all add: num)
  have q2: "packed_quotient 4 ?cs = [39, 9, 2]"
    by (simp add: packed_quotient_def synthetic_quotient_def num)
  have q: "compute_quotient_polynomial A (p_from A ?cs) 4 v = Some (p_from A [39, 9, 2])" for v
    using compute_quotient_packed [OF A, of "p_from A ?cs" 4 v] by (simp add: p q2)
  have qe: "p_eval A (p_from A [39, 9, 2]) x = horner [39, 9, 2] x" for x
    using given_coeffs(2) [OF A, of "[39, 9, 2]"] by (simp add: num)
  have "horner ?cs x - horner ?cs 4 = horner [39, 9, 2] x * (x - 4)" for x
    by (simp add: algebra_simps)
  then show "test_poly_quotient_polynomial_correctness A H = Some ()"
    by (simp only: test_poly_quotient_polynomial_correctness_def pc Let_def test_simps p q qe
        bind.bind_lunit simp_thms ball_simps) blast
qed

text \<open>Where the tests expect commitments to differ, they rely on the binding of the scheme.\<close>

lemma binding_tests_pass:
  fixes A :: "('f::field, 'p, 'g::ab_group_add) ark"
  assumes A: "dense_poly A" and nz: "small_nonzero TYPE('f)" and pc: "pc_new A H 256 = Some pc"
    and binds: "inj_on (\<lambda>cs. commit A H pc (p_from A cs)) {[1, 2], [3, 4], [7, 3], [1, 3], [10, 20]}"
  shows "test_poly_commitment_commitments_differ_for_different_polynomials A H = Some ()"
    "test_poly_opening_proof_rejection_wrong_point A H = Some ()"
    "test_poly_opening_witness_security A H = Some ()" "test_poly_opening_point_value_binding A H = Some ()"
proof -
  note num = small_nonzeroD [OF nz] small_nonzeroD [OF nz, THEN not_sym]
  have neqs: "(1 :: 'f) \<noteq> 3" "(7 :: 'f) \<noteq> 1" "(1 :: 'f) \<noteq> 10"
    using small_distinct [OF nz, of 1 3] small_distinct [OF nz, of 1 7] small_distinct [OF nz, of 1 10] by auto
  have commits: "\<exists>cm. commit A H pc (p_from A cs) = Inr cm" if "length cs \<le> 256" for cs
    using that length_generators [OF pc] commit_given [OF A, of cs pc H] by metis
  obtain c12 c34 c73 c1020 where cms: "commit A H pc (p_from A [1, 2]) = Inr c12"
      "commit A H pc (p_from A [3, 4]) = Inr c34" "commit A H pc (p_from A [7, 3]) = Inr c73"
      "commit A H pc (p_from A [10, 20]) = Inr c1020"
    using commits [of "[1, 2]"] commits [of "[3, 4]"] commits [of "[7, 3]"] commits [of "[10, 20]"] by auto
  show "test_poly_commitment_commitments_differ_for_different_polynomials A H = Some ()"
    using inj_onD [OF binds, of "[1, 2]" "[3, 4]"] neqs
    by (auto simp: test_poly_commitment_commitments_differ_for_different_polynomials_def pc cms test_simps)
  have opens: "\<exists>opened. pc_open A H pc (p_from A [a, b]) 5 (p_eval A (p_from A [a, b]) 5) = Some (Inr opened) \<and>
      op_point opened = 5 \<and> op_value opened = a + 5 * b \<and>
      (\<forall>z' v' cm. pc_verify A H pc cm (opened\<lparr>op_point := z', op_value := v'\<rparr>) =
         Inr (commit A H pc (p_from A [v' - z' * b, b]) = Inr cm))" if "b \<noteq> 0" for a b
    using that open_given [OF A, where cs = "[a, b]" and pc = pc and z = 5 and H = H] length_generators [OF pc] given_coeffs(2) [OF A, of "[a, b]"]
    by (force simp: packed_quotient_def synthetic_quotient_def reconstruct_eq)
  have updates: "opened\<lparr>op_point := z'\<rparr> = opened\<lparr>op_point := z', op_value := op_value opened\<rparr>"
      "opened = opened\<lparr>op_point := op_point opened, op_value := op_value opened\<rparr>"
    for opened :: "('f, 'g) opening_proof" and z' by (cases opened, simp)+
  have nonzero: "(3 :: 'f) \<noteq> 0" "(2 :: 'f) \<noteq> 0" by (simp_all add: num)
  obtain op1 where op1: "pc_open A H pc (p_from A [7, 3]) 5 (p_eval A (p_from A [7, 3]) 5) = Some (Inr op1)"
      "op_value op1 = 7 + 5 * 3"
    and v1: "\<And>z' v' cm. pc_verify A H pc cm (op1\<lparr>op_point := z', op_value := v'\<rparr>) =
       Inr (commit A H pc (p_from A [v' - z' * 3, 3]) = Inr cm)"
    using opens [OF nonzero(1), of 7] by blast
  have "pc_verify A H pc c73 (op1\<lparr>op_point := 7\<rparr>) = Inr (commit A H pc (p_from A [1, 3]) = Inr c73)"
    using v1 [where z' = 7 and v' = 22 and cm = c73] by (subst updates(1)) (simp add: op1(2))
  moreover have "commit A H pc (p_from A [1, 3]) \<noteq> Inr c73"
    using inj_onD [OF binds, of "[1, 3]" "[7, 3]"] neqs cms(3) by auto
  ultimately show "test_poly_opening_proof_rejection_wrong_point A H = Some ()"
    by (simp add: test_poly_opening_proof_rejection_wrong_point_def pc cms op1 Let_def test_simps)
  obtain op2 where op2: "pc_open A H pc (p_from A [1, 2]) 5 (p_eval A (p_from A [1, 2]) 5) = Some (Inr op2)"
      "op_point op2 = 5" "op_value op2 = 1 + 5 * 2"
    and v2: "\<And>z' v' cm. pc_verify A H pc cm (op2\<lparr>op_point := z', op_value := v'\<rparr>) =
       Inr (commit A H pc (p_from A [v' - z' * 2, 2]) = Inr cm)"
    using opens [OF nonzero(2), of 1] by blast
  have "pc_verify A H pc c1020 op2 = Inr (commit A H pc (p_from A [1, 2]) = Inr c1020)"
    using v2 [where z' = 5 and v' = 11 and cm = c1020] by (subst updates(2)) (simp add: op2(2,3))
  moreover have "commit A H pc (p_from A [1, 2]) \<noteq> Inr c1020"
    using inj_onD [OF binds, of "[1, 2]" "[10, 20]"] neqs cms(4) by auto
  ultimately show "test_poly_opening_witness_security A H = Some ()"
    by (simp add: test_poly_opening_witness_security_def pc cms op2(1) Let_def test_simps)
  show "test_poly_opening_point_value_binding A H = Some ()"
    using v2 by (simp add: test_poly_opening_point_value_binding_def pc cms op2(1) Let_def)
qed

end
