(* ===== verification/Unit_Tests_Manager.thy ===== *)
theory Unit_Tests_Manager
  imports Node_Entry Manager_History Unit_Tests_Commit
begin

text \<open>
  The unit tests of \<open>state_manager.rs\<close>: blocks with a coinbase are applied, rolled back, restored
  and refused. They hold for every library with the laws \<open>dense_poly\<close> and \<open>serializes\<close>, when the
  hash of no recipient is the burn address. Where a test expects two roots to differ, that they
  do is the hypothesis, stated of the trees without their caches.
\<close>

section \<open>What the tests set up\<close>

definition make_coinbase_transaction :: "blake3 \<Rightarrow> u64 \<Rightarrow> hash \<Rightarrow> transaction" where
  "make_coinbase_transaction H value pk = transaction_new H [] [\<lparr>out_value = value, pubkey_hash = pk\<rparr>]"

definition make_block :: "blake3 \<Rightarrow> bytes \<Rightarrow> transaction list \<Rightarrow> block_node" where
  "make_block H id_bytes txs =
     \<lparr>header = \<lparr>hdr_id = hash_new H id_bytes, parents = {||}, timestamp = 0, difficulty = 0, nonce = 0,
        verkle_root = hash_new H (str_bytes ''root''), verkle_proofs = None, hdr_signature = None\<rparr>,
      children = {||}, selected_parent = None, blue_set = {||}, red_set = {||}, blue_score = 0,
      transactions = txs\<rparr>"

text \<open>
  Every test starts with a new manager over a new tree, and applies blocks that hold one coinbase:
  \<open>manager.apply_block(..).expect(..)\<close>. \<open>read_root\<close> is \<open>manager.tree.get_root().expect(..)\<close>.
\<close>

definition new_manager ::
    "('f::field, 'p, 'g::ab_group_add) ark \<Rightarrow> blake3 \<Rightarrow> ('f, 'g) chain option" where
  "new_manager A H = do {
     created \<leftarrow> tree_new A H memory_storage_new;
     tree \<leftarrow> expect_ok created;
     manager \<leftarrow> expect_ok (manager_new A H tree);
     Some (utxo_new, manager)
   }"

definition coinbase_block :: "blake3 \<Rightarrow> string \<Rightarrow> u64 \<Rightarrow> string \<Rightarrow> block_node" where
  "coinbase_block H name value recipient =
     make_block H (str_bytes name) [make_coinbase_transaction H value (hash_new H (str_bytes recipient))]"

definition apply_expect ::
    "('m, 's) wasmer \<Rightarrow> ('f::field, 'p, 'g::ab_group_add) ark \<Rightarrow> blake3 \<Rightarrow> block_node \<Rightarrow> ('f, 'g) chain
       \<Rightarrow> ('f, 'g) chain option" where
  "apply_expect W A H block c = do {
     (r, c') \<leftarrow> sm_apply_block W A H block c;
     expect_ok r;
     Some c'
   }"

definition read_root ::
    "('f::field, 'p, 'g::ab_group_add) ark \<Rightarrow> blake3 \<Rightarrow> ('f, 'g) state_manager \<Rightarrow> (bytes32 \<times> ('f, 'g) state_manager) option" where
  "read_root A H sm = do {
     root \<leftarrow> expect_ok (fst (get_root A H (sm_tree sm)));
     Some (root, sm\<lparr>sm_tree := snd (get_root A H (sm_tree sm))\<rparr>)
   }"

definition expect_root_hash ::
    "('f::field, 'p, 'g::ab_group_add) ark \<Rightarrow> blake3 \<Rightarrow> ('f, 'g) state_manager \<Rightarrow> (bytes32 \<times> ('f, 'g) state_manager) option" where
  "expect_root_hash A H sm = do {
     root \<leftarrow> expect_ok (fst (get_root_hash A H sm));
     Some (root, snd (get_root_hash A H sm))
   }"

section \<open>The tests\<close>

definition test_state_manager_apply_block ::
    "('m, 's) wasmer \<Rightarrow> ('f::field, 'p, 'g::ab_group_add) ark \<Rightarrow> blake3 \<Rightarrow> test" where
  "test_state_manager_apply_block W A H = do {
     (u, sm) \<leftarrow> new_manager A H;
     (root_before, sm) \<leftarrow> read_root A H sm;
     (u, sm) \<leftarrow> apply_expect W A H (coinbase_block H ''block-1'' 42 ''alice'') (u, sm);
     (root_after, sm) \<leftarrow> read_root A H sm;
     check (root_before \<noteq> root_after);
     check (current_height sm = 1);
     check (length (snapshots sm) = 2);
     check (fcard (fmdom (utxos u)) = 1);
     snapshot \<leftarrow> get_state_at 1 sm;
     check (snap_root snapshot = root_after)
   }"

definition test_state_manager_snapshot ::
    "('m, 's) wasmer \<Rightarrow> ('f::field, 'p, 'g::ab_group_add) ark \<Rightarrow> blake3 \<Rightarrow> test" where
  "test_state_manager_snapshot W A H = do {
     (u, sm) \<leftarrow> new_manager A H;
     (u, sm) \<leftarrow> apply_expect W A H (coinbase_block H ''block-1'' 10 ''alice'') (u, sm);
     snapshot1 \<leftarrow> get_state_at 1 sm;
     (u, sm) \<leftarrow> apply_expect W A H (coinbase_block H ''block-2'' 20 ''bob'') (u, sm);
     snapshot2 \<leftarrow> get_state_at 2 sm;
     check (snap_root snapshot1 \<noteq> snap_root snapshot2);
     check (snap_height snapshot1 = 1);
     check (snap_height snapshot2 = 2)
   }"

definition test_state_manager_rollback ::
    "('m, 's) wasmer \<Rightarrow> ('f::field, 'p, 'g::ab_group_add) ark \<Rightarrow> blake3 \<Rightarrow> test" where
  "test_state_manager_rollback W A H = do {
     (u, sm) \<leftarrow> new_manager A H;
     (u, sm) \<leftarrow> apply_expect W A H (coinbase_block H ''block-1'' 10 ''alice'') (u, sm);
     (root1, sm) \<leftarrow> read_root A H sm;
     (u, sm) \<leftarrow> apply_expect W A H (coinbase_block H ''block-2'' 20 ''bob'') (u, sm);
     (root2, sm) \<leftarrow> read_root A H sm;
     check (root1 \<noteq> root2);
     check (current_height sm = 2);
     (r, sm) \<leftarrow> sm_rollback A H 1 sm;
     expect_ok r;
     check (current_height sm = 1);
     check (length (snapshots sm) = 2);
     snapshot \<leftarrow> get_state_at 1 sm;
     check (snap_root snapshot = root1);
     (root, sm) \<leftarrow> read_root A H sm;
     check (root = root1)
   }"

definition test_state_manager_rollback_state_result ::
    "('m, 's) wasmer \<Rightarrow> ('f::field, 'p, 'g::ab_group_add) ark \<Rightarrow> blake3 \<Rightarrow> test" where
  "test_state_manager_rollback_state_result W A H = do {
     (u, sm) \<leftarrow> new_manager A H;
     (u, sm) \<leftarrow> apply_expect W A H (coinbase_block H ''block-1'' 10 ''alice'') (u, sm);
     (u, sm) \<leftarrow> apply_expect W A H (coinbase_block H ''block-2'' 20 ''bob'') (u, sm);
     (r1, sm) \<leftarrow> rollback_state A H 1 sm;
     check (is_ok r1);
     check (current_height sm = 1);
     (r2, sm) \<leftarrow> rollback_state A H 1 sm;
     check (is_ok r2);
     (r3, sm) \<leftarrow> rollback_state A H 5 sm;
     (case r3 of Inl (InvalidRollback _) \<Rightarrow> Some () | _ \<Rightarrow> None)
   }"

definition test_state_manager_get_root_hash :: "('f::field, 'p, 'g::ab_group_add) ark \<Rightarrow> blake3 \<Rightarrow> test" where
  "test_state_manager_get_root_hash A H = do {
     (u, sm) \<leftarrow> new_manager A H;
     (root, sm) \<leftarrow> expect_root_hash A H sm;
     check (length (array_bytes root) = 32);
     check (root = snap_root (snapshots sm ! 0))
   }"

definition test_state_manager_restore_from_snapshot ::
    "('m, 's) wasmer \<Rightarrow> ('f::field, 'p, 'g::ab_group_add) ark \<Rightarrow> blake3 \<Rightarrow> test" where
  "test_state_manager_restore_from_snapshot W A H = do {
     (u, sm) \<leftarrow> new_manager A H;
     (u, sm) \<leftarrow> apply_expect W A H (coinbase_block H ''block-1'' 10 ''alice'') (u, sm);
     snapshot1 \<leftarrow> get_state_at 1 sm;
     (u, sm) \<leftarrow> apply_expect W A H (coinbase_block H ''block-2'' 20 ''bob'') (u, sm);
     (r, sm) \<leftarrow> restore_from_snapshot A H (snap_root snapshot1) 1 sm;
     check (is_ok r);
     check (current_height sm = 1);
     (root, sm) \<leftarrow> expect_root_hash A H sm;
     check (root = snap_root snapshot1)
   }"

definition test_state_manager_validate_snapshots ::
    "('m, 's) wasmer \<Rightarrow> ('f::field, 'p, 'g::ab_group_add) ark \<Rightarrow> blake3 \<Rightarrow> test" where
  "test_state_manager_validate_snapshots W A H = do {
     (u, sm) \<leftarrow> new_manager A H;
     check (is_ok (validate_snapshots sm));
     (u, sm) \<leftarrow> apply_expect W A H (coinbase_block H ''block-1'' 10 ''alice'') (u, sm);
     check (is_ok (validate_snapshots sm));
     (u, sm) \<leftarrow> apply_expect W A H (coinbase_block H ''block-2'' 20 ''bob'') (u, sm);
     check (is_ok (validate_snapshots sm))
   }"

definition test_state_manager_dag_reorganization ::
    "('m, 's) wasmer \<Rightarrow> ('f::field, 'p, 'g::ab_group_add) ark \<Rightarrow> blake3 \<Rightarrow> test" where
  "test_state_manager_dag_reorganization W A H = do {
     (u, sm) \<leftarrow> new_manager A H;
     (u, sm) \<leftarrow> apply_expect W A H (coinbase_block H ''block-1-main'' 10 ''alice'') (u, sm);
     (root_1_main, sm) \<leftarrow> expect_root_hash A H sm;
     (u, sm) \<leftarrow> apply_expect W A H (coinbase_block H ''block-2-main'' 20 ''bob'') (u, sm);
     (r, sm) \<leftarrow> rollback_state A H 1 sm;
     expect_ok r;
     (u, sm) \<leftarrow> apply_expect W A H (coinbase_block H ''block-2-alt'' 15 ''charlie'') (u, sm);
     (root_2_alt, sm) \<leftarrow> expect_root_hash A H sm;
     check (root_1_main \<noteq> root_2_alt);
     check (current_height sm = 2)
   }"

text \<open>The loop of the next test: five blocks, their names made by \<open>format!\<close>.\<close>

definition numbered_block :: "blake3 \<Rightarrow> nat \<Rightarrow> block_node" where
  "numbered_block H i =
     (let digit = [char_of (48 + i)]
      in coinbase_block H (''block-'' @ digit) (10 * word_of_nat i) (''user-'' @ digit))"

fun apply_numbered ::
    "('m, 's) wasmer \<Rightarrow> ('f::field, 'p, 'g::ab_group_add) ark \<Rightarrow> blake3 \<Rightarrow> nat list \<Rightarrow> ('f, 'g) chain \<Rightarrow> ('f, 'g) chain option" where
  "apply_numbered W A H [] c = Some c"
| "apply_numbered W A H (i # is) c = do {
     c' \<leftarrow> apply_expect W A H (numbered_block H i) c;
     apply_numbered W A H is c'
   }"

definition test_state_manager_multiple_snapshots ::
    "('m, 's) wasmer \<Rightarrow> ('f::field, 'p, 'g::ab_group_add) ark \<Rightarrow> blake3 \<Rightarrow> test" where
  "test_state_manager_multiple_snapshots W A H = do {
     (u, sm) \<leftarrow> new_manager A H;
     (u, sm) \<leftarrow> apply_numbered W A H [1..<6] (u, sm);
     check (length (snapshots sm) = 6);
     check (current_height sm = 5);
     for_each [0..<6] (\<lambda>i. do {
       snapshot \<leftarrow> get_state_at (word_of_nat i) sm;
       check (snap_height snapshot = word_of_nat i)
     });
     (r, sm) \<leftarrow> rollback_state A H 3 sm;
     expect_ok r;
     check (length (snapshots sm) = 4);
     check (current_height sm = 3)
   }"

definition invalid_tx :: "blake3 \<Rightarrow> transaction" where
  "invalid_tx H =
     test_tx (hash_new H (str_bytes ''invalid_tx'')) [unsigned_input (hash_new H (str_bytes ''nonexistent'')) 0]
       [\<lparr>out_value = 50, pubkey_hash = hash_new H (str_bytes ''recipient'')\<rparr>]"

definition test_state_manager_atomic_rollback_on_error ::
    "('m, 's) wasmer \<Rightarrow> ('f::field, 'p, 'g::ab_group_add) ark \<Rightarrow> blake3 \<Rightarrow> test" where
  "test_state_manager_atomic_rollback_on_error W A H = do {
     (u, sm) \<leftarrow> new_manager A H;
     (u, sm) \<leftarrow> apply_expect W A H (coinbase_block H ''block-1'' 10 ''alice'') (u, sm);
     (root_after_block1, sm1) \<leftarrow> expect_root_hash A H sm;
     (r, (u, sm)) \<leftarrow> sm_apply_block W A H (make_block H (str_bytes ''block-2-invalid'') [invalid_tx H]) (u, sm1);
     check (\<not> is_ok r);
     check (current_height sm = current_height sm1);
     check (current_total_supply sm = current_total_supply sm1);
     (root, sm) \<leftarrow> expect_root_hash A H sm;
     check (root = root_after_block1);
     check (fcard (fmdom (utxos u)) = 1);
     check (fcard (fmdom (outpoint_to_key sm)) = 1);
     check (fcard (fmdom (sm_prune_markers sm)) = 0)
   }"

definition test_state_manager_supply_consistency_check ::
    "('m, 's) wasmer \<Rightarrow> ('f::field, 'p, 'g::ab_group_add) ark \<Rightarrow> blake3 \<Rightarrow> (outpoint fset \<Rightarrow> outpoint list) \<Rightarrow> test" where
  "test_state_manager_supply_consistency_check W A H iteration = do {
     (u, sm) \<leftarrow> new_manager A H;
     (u, sm) \<leftarrow> apply_expect W A H (coinbase_block H ''block-1'' 100 ''alice'') (u, sm);
     (case cross_check_supply_consistency A H iteration u sm of (r, sm) \<Rightarrow> do {
        check (is_ok r);
        (let u = with_output (hash_new H (str_bytes ''fake_tx''), 0) 50 (hash_new H (str_bytes ''fake_owner'')) u
         in check (\<not> is_ok (fst (cross_check_supply_consistency A H iteration u sm))))
      })
   }"

section \<open>The effect of a block with a coinbase\<close>

text \<open>The tree after such a block.\<close>

definition minted_tree :: "blake3 \<Rightarrow> transaction \<Rightarrow> u128 \<Rightarrow> ('f, 'g) verkle_tree \<Rightarrow> ('f, 'g) verkle_tree" where
  "minted_tree H tx supply t = snd (apply_state_transition (tx_updates H tx) supply t)"

definition minted ::
    "blake3 \<Rightarrow> transaction \<Rightarrow> u64 \<Rightarrow> ('f, 'g) verkle_tree \<Rightarrow> bytes32 \<Rightarrow> ('f, 'g) state_manager \<Rightarrow> ('f, 'g) state_manager" where
  "minted H tx value t rt sm =
     sm\<lparr>sm_tree := t, current_height := current_height sm + 1,
        snapshots := snapshots sm @ [\<lparr>snap_height = current_height sm + 1, snap_root = rt,
          snap_total_supply = current_total_supply sm + ucast value, snap_gas_fees = []\<rparr>],
        snapshot_storages := snapshot_storages sm @ [vt_storage t],
        outpoint_to_key := fmupd (tx_id tx, 0) (hash_with_index H tx 0) (outpoint_to_key sm),
        current_total_supply := current_total_supply sm + ucast value, block_gas_fees := [],
        pending_updates := tx_updates H tx, applying_block := False\<rparr>"

lemma coinbase_fields [simp]:
  "inputs (make_coinbase_transaction H v pk) = []"
  "outputs (make_coinbase_transaction H v pk) = [\<lparr>out_value = v, pubkey_hash = pk\<rparr>]"
  "execution_payload (make_coinbase_transaction H v pk) = []"
  "contract_address (make_coinbase_transaction H v pk) = None"
  by (simp_all add: make_coinbase_transaction_def transaction_new_def transaction_default_def Let_def)

lemma coinbase_block_transactions [simp]:
  "transactions (coinbase_block H name v who) = [make_coinbase_transaction H v (hash_new H (str_bytes who))]"
  by (simp add: coinbase_block_def make_block_def)

lemma mint_block:
  fixes A :: "('f::field, 'p, 'g::ab_group_add) ark"
  assumes A: "dense_poly A" "serializes A" and ok: "manager_ok A H sm" and burn: "H (str_bytes who) \<noteq> 0"
    and cap: "unat (current_total_supply sm) + unat v \<le> 600000000000000000"
    and tx: "tx = make_coinbase_transaction H v (hash_new H (str_bytes who))"
  shows "\<exists>t rt. apply_expect W A H (coinbase_block H name v who) (u, sm) =
      Some (u\<lparr>utxos := fmupd (tx_id tx, 0) \<lparr>out_value = v, pubkey_hash = hash_new H (str_bytes who)\<rparr> (utxos u)\<rparr>,
            minted H tx v t rt sm) \<and>
    tree_root A H t KEY_SIZE [] = Inr rt \<and>
    same_contents (minted_tree H tx (current_total_supply sm + ucast v) (sm_tree sm)) t \<and>
    manager_ok A H (minted H tx v t rt sm)"
proof -
  let ?block = "coinbase_block H name v who" and ?supply = "current_total_supply sm + ucast v :: u128"
  let ?out = "\<lparr>out_value = v, pubkey_hash = hash_new H (str_bytes who)\<rparr>"
  let ?start = "sm\<lparr>applying_block := True, pending_updates := [], block_gas_fees := []\<rparr>"
  let ?u1 = "u\<lparr>utxos := fmupd (tx_id tx, 0) ?out (utxos u)\<rparr>"
  let ?sm1 = "?start\<lparr>pending_updates := tx_updates H tx, outpoint_to_key := fmupd (tx_id tx, 0) (hash_with_index H tx 0) (outpoint_to_key sm),
     current_total_supply := ?supply\<rparr>"
  note sm = manager_okD [OF ok]
  have totals: "saturating_add (current_total_supply sm) (ucast v) = ?supply" "unat ?supply = unat (current_total_supply sm) + unat v"
    using cap by (simp_all add: saturating_add_def unat_word_ariths(1))
  have txs: "transactions ?block = [tx]" by (simp add: tx)
  have run: "apply_transactions W A H (transactions ?block) (u, ?start) = Some (Inr (), (?u1, ?sm1))"
    unfolding txs
    by (simp add: tx apply_transaction_def apply_utxo_transaction_def tx_updates_def totals(1) Let_def)
  have "\<not> (\<exists>(key, v) \<in> set (tx_updates H tx). pays_zero_hash v)"
    using updates_burn [of H "[tx]"] burn by (simp add: pays_burn_address_def tx ECON_BURN_ADDRESS_def hash_new_def)
  moreover have "?supply \<le> MAX_GLOBAL_SUPPLY_NANO_SLUG"
    using cap by (simp add: word_le_nat_alt totals(2) MAX_GLOBAL_SUPPLY_NANO_SLUG_def)
  ultimately have tr: "fst (apply_state_transition (tx_updates H tx) ?supply (sm_tree sm)) = Inr ()"
    by (simp add: apply_state_transition_def list_ex_iff case_prod_unfold Let_def not_less)
  obtain sm' where applied: "sm_apply_block W A H ?block (u, sm) = Some (Inr (), (?u1, sm'))"
    using plain_block_ok [OF A ok _ run] tr by (auto simp: plain_def)
  obtain t rt where t: "same_contents (snd (apply_state_transition (tx_updates H tx) ?supply (sm_tree sm))) t"
      "tree_root A H t KEY_SIZE [] = Inr rt"
    and sm': "sm' = ?sm1\<lparr>sm_tree := t, current_height := current_height sm + 1,
      snapshots := snapshots sm @ [\<lparr>snap_height = current_height sm + 1, snap_root = rt,
        snap_total_supply = ?supply, snap_gas_fees = []\<rparr>],
      snapshot_storages := snapshot_storages sm @ [vt_storage t], applying_block := False\<rparr>"
    using sm_apply_block_cases [OF A sm(1-3) applied] run by auto
  have "sm' = minted H tx v t rt sm" unfolding sm' minted_def by simp
  with manager_ok_apply [OF A ok applied] applied t show ?thesis
    by (intro exI [of _ t] exI [of _ rt]) (simp add: apply_expect_def minted_tree_def)
qed

section \<open>Managers by the blocks they hold\<close>

text \<open>The store after an operation depends on the store before it alone.\<close>

lemma ensure_node_storage:
  "vt_storage t = vt_storage t' \<Longrightarrow> vt_storage (ensure_node p t) = vt_storage (ensure_node p t')"
  by (simp add: ensure_node_def)

lemma ensure_path_storage:
  "vt_storage t = vt_storage t' \<Longrightarrow> vt_storage (ensure_path p bs t) = vt_storage (ensure_path p bs t')"
proof (induction bs arbitrary: p t t')
  case (Cons b bs)
  from Cons.IH [OF ensure_node_storage [OF Cons.prems]] show ?case by simp
qed simp

lemma tree_insert_storage:
  assumes "vt_storage t = vt_storage t'"
  shows "vt_storage (tree_insert key v t) = vt_storage (tree_insert key v t')"
proof -
  have "vt_storage (ensure_path [] p (ensure_node [] (t\<lparr>dirty := True\<rparr>))) =
      vt_storage (ensure_path [] p (ensure_node [] (t'\<lparr>dirty := True\<rparr>)))" for p
    using assms by (intro ensure_path_storage ensure_node_storage) simp
  then show ?thesis by (simp add: tree_insert_def set_node_value_def invalidate_path_cache_def Let_def)
qed

lemma inserts_storage:
  "vt_storage t = vt_storage t' \<Longrightarrow>
     vt_storage (fold (\<lambda>(key, v). tree_insert key v) updates t) =
     vt_storage (fold (\<lambda>(key, v). tree_insert key v) updates t')"
proof (induction updates arbitrary: t t')
  case (Cons update updates)
  then show ?case using Cons.IH [OF tree_insert_storage [OF Cons.prems]] by (simp add: case_prod_unfold)
qed simp

lemma minted_storage:
  assumes "vt_storage t = vt_storage t'"
  shows "vt_storage (minted_tree H tx tot t) = vt_storage (minted_tree H tx tot t')"
proof -
  have "vt_storage (tree_insert TOTAL_SUPPLY_KEY b (fold (\<lambda>(key, v). tree_insert key v) us (t\<lparr>dirty := True\<rparr>))) =
      vt_storage (tree_insert TOTAL_SUPPLY_KEY b (fold (\<lambda>(key, v). tree_insert key v) us (t'\<lparr>dirty := True\<rparr>)))" for b us
    using assms by (intro tree_insert_storage inserts_storage) simp
  then show ?thesis using assms by (simp add: minted_tree_def apply_state_transition_def Let_def)
qed

lemma root_of_storage:
  assumes "tree_ok A H t" "tree_ok A H t'" "vt_storage t = vt_storage t'"
  shows "tree_root A H t = tree_root A H t'"
  using assms by (simp add: tree_ok_def empties_ok_def)

text \<open>The coinbases of the blocks, as value and recipient.\<close>

abbreviation coin :: "blake3 \<Rightarrow> u64 \<times> string \<Rightarrow> transaction" where
  "coin H m \<equiv> make_coinbase_transaction H (fst m) (hash_new H (str_bytes (snd m)))"

definition supply_of :: "(u64 \<times> string) list \<Rightarrow> u128" where
  "supply_of ms = sum_list (map (\<lambda>m. ucast (fst m)) ms)"

definition mints :: "blake3 \<Rightarrow> ('f, 'g) verkle_tree \<Rightarrow> (u64 \<times> string) list \<Rightarrow> ('f, 'g) verkle_tree" where
  "mints H t ms = fold (\<lambda>n. minted_tree H (coin H (ms ! n)) (supply_of (take (Suc n) ms))) [0..<length ms] t"

lemma mints_Nil [simp]: "mints H t [] = t"
  by (simp add: mints_def)

lemma mints_snoc: "mints H t (ms @ [m]) = minted_tree H (coin H m) (supply_of ms + ucast (fst m)) (mints H t ms)"
proof -
  have "fold (\<lambda>n. minted_tree H (coin H ((ms @ [m]) ! n)) (supply_of (take (Suc n) (ms @ [m])))) [0..<length ms] t =
      fold (\<lambda>n. minted_tree H (coin H (ms ! n)) (supply_of (take (Suc n) ms))) [0..<length ms] t"
    by (rule fold_cong) (simp_all add: nth_append)
  then show ?thesis by (simp add: mints_def nth_append supply_of_def)
qed

lemma mints_tree_ok: "tree_ok A H t \<Longrightarrow> tree_ok A H (mints H t ms)"
  by (induction ms rule: rev_induct) (simp_all add: mints_snoc minted_tree_def tree_ok_transition)

definition holds ::
    "('f::field, 'p, 'g::ab_group_add) ark \<Rightarrow> blake3 \<Rightarrow> ('f, 'g) verkle_tree \<Rightarrow> (u64 \<times> string) list
       \<Rightarrow> ('f, 'g) state_manager \<Rightarrow> bool" where
  "holds A H t0 ms sm \<longleftrightarrow>
     manager_ok A H sm \<and> tree_ok A H t0 \<and> length (snapshots sm) = Suc (length ms) \<and>
     current_total_supply sm = supply_of ms \<and> vt_storage (sm_tree sm) = vt_storage (mints H t0 ms) \<and>
     (\<forall>i \<le> length ms. snapshot_storages sm ! i = vt_storage (mints H t0 (take i ms)) \<and>
        snap_total_supply (snapshots sm ! i) = supply_of (take i ms))"

abbreviation root_after ::
    "('f::field, 'p, 'g::ab_group_add) ark \<Rightarrow> blake3 \<Rightarrow> ('f, 'g) verkle_tree \<Rightarrow> (u64 \<times> string) list \<Rightarrow> core_error + bytes32" where
  "root_after A H t0 ms \<equiv> tree_root A H (mints H t0 ms) KEY_SIZE []"

text \<open>A new manager holds no block.\<close>

lemma new_manager_holds:
  assumes "dense_poly A" "serializes A" "tree_new A H memory_storage_new = Some (Inr t0)"
  shows "\<exists>sm. new_manager A H = Some (utxo_new, sm) \<and> holds A H t0 [] sm \<and>
    outpoint_to_key sm = fmempty \<and> sm_prune_markers sm = fmempty"
proof -
  note t0 = tree_new_wf [OF assms(3)]
  obtain sm where sm: "manager_new A H t0 = Inr sm" "manager_ok A H sm" "current_total_supply sm = 0"
      "vt_storage (sm_tree sm) = vt_storage t0"
    using manager_new_ok [OF assms(1,2) t0] by blast
  then have "length (snapshots sm) = 1" "snapshot_storages sm = [vt_storage (sm_tree sm)]"
      "snap_total_supply (snapshots sm ! 0) = 0" "outpoint_to_key sm = fmempty" "sm_prune_markers sm = fmempty"
    by (auto simp: manager_new_def split: sum.splits prod.splits)
  with sm t0 show ?thesis
    by (simp add: new_manager_def assms(3) holds_def supply_of_def)
qed

lemma holdsD:
  assumes "holds A H t0 ms sm" "length ms < 2 ^ 32"
  shows "manager_ok A H sm" "current_height sm = word_of_nat (length ms)" "length (snapshots sm) = Suc (length ms)"
    "current_total_supply sm = supply_of ms" "unat (current_height sm) = length ms" "length (snapshots sm) < 2 ^ 64"
    "validate_snapshots sm = Inr ()"
  using assms manager_okD [of A H sm] by (auto simp: holds_def unsigned_of_nat take_bit_nat_eq_self validate_snapshots_def)

lemma holds_snapshot:
  assumes "holds A H t0 ms sm" "length ms < 2 ^ 32" "i \<le> length ms"
  shows "get_state_at (word_of_nat i) sm = Some (snapshots sm ! i)" "snap_height (snapshots sm ! i) = word_of_nat i"
    "root_after A H t0 (take i ms) = Inr (snap_root (snapshots sm ! i))"
proof -
  note ok = holdsD [OF assms(1,2)]
  have i: "i < length (snapshots sm)" using assms(3) ok(3) by simp
  have h: "snap_height (snapshots sm ! j) = word_of_nat j" if "j < length (snapshots sm)" for j
    using manager_okD(6) [OF ok(1)] that by (simp add: heights_match_iff)
  show "snap_height (snapshots sm ! i) = word_of_nat i" by (rule h [OF i])
  have "find (\<lambda>s. snap_height s = word_of_nat i) (snapshots sm) = Some (snapshots sm ! i)"
    unfolding find_Some_iff
  proof (intro exI [of _ i] conjI allI impI)
    fix j assume "j < i"
    moreover from this have "(word_of_nat j :: u64) \<noteq> word_of_nat i"
      using assms(2,3) by (simp add: word_of_nat_eq_iff take_bit_nat_eq_self)
    ultimately show "snap_height (snapshots sm ! j) \<noteq> word_of_nat i" using h i by simp
  qed (use h i in simp_all)
  then show "get_state_at (word_of_nat i) sm = Some (snapshots sm ! i)" by (simp add: get_state_at_def)
  obtain t where t: "tree_ok A H t" "vt_storage t = snapshot_storages sm ! i"
      "tree_root A H t KEY_SIZE [] = Inr (snap_root (snapshots sm ! i))"
    using ok(1) i by (auto simp: manager_ok_def stored_root_def)
  have "tree_ok A H (mints H t0 (take i ms))" using assms(1) by (intro mints_tree_ok) (simp add: holds_def)
  moreover have "vt_storage (mints H t0 (take i ms)) = vt_storage t" using assms(1,3) t(2) by (simp add: holds_def)
  ultimately have "tree_root A H (mints H t0 (take i ms)) = tree_root A H t" using t(1) by (intro root_of_storage)
  with t(3) show "root_after A H t0 (take i ms) = Inr (snap_root (snapshots sm ! i))" by simp
qed

lemma holds_tree:
  assumes "holds A H t0 ms sm"
  shows "tree_root A H (sm_tree sm) = tree_root A H (mints H t0 ms)" "tree_ok A H (sm_tree sm)"
proof -
  show ok: "tree_ok A H (sm_tree sm)" using assms manager_okD(1) [of A H sm] by (simp add: holds_def)
  show "tree_root A H (sm_tree sm) = tree_root A H (mints H t0 ms)"
    using assms by (intro root_of_storage [OF ok mints_tree_ok]) (simp_all add: holds_def)
qed

text \<open>Reading the root, in either way, changes caches only.\<close>

lemma holds_same_contents:
  assumes "holds A H t0 ms sm" "same_contents (sm_tree sm) t" "tree_ok A H t"
  shows "holds A H t0 ms (sm\<lparr>sm_tree := t\<rparr>)"
proof -
  have "manager_ok A H sm" using assms(1) by (simp add: holds_def)
  then have "manager_ok A H (sm\<lparr>sm_tree := t\<rparr>)" using assms(3) by (simp add: manager_ok_def)
  then show ?thesis using assms by (simp add: holds_def same_contents_def)
qed

lemma expect_root:
  assumes "dense_poly A" "serializes A" "holds A H t0 ms sm"
  obtains rt t where "root_after A H t0 ms = Inr rt" "expect_root_hash A H sm = Some (rt, sm\<lparr>sm_tree := t\<rparr>)"
    "read_root A H sm = Some (rt, sm\<lparr>sm_tree := t\<rparr>)" "holds A H t0 ms (sm\<lparr>sm_tree := t\<rparr>)"
proof -
  obtain rt t where rt: "get_root_hash A H sm = (Inr rt, sm\<lparr>sm_tree := t\<rparr>)" "tree_root A H (sm_tree sm) KEY_SIZE [] = Inr rt"
      "same_contents (sm_tree sm) t" "tree_ok A H t"
    using get_root_hash_ok [OF assms(1,2) holds_tree(2) [OF assms(3)]] by blast
  moreover obtain r t' where g: "get_root A H (sm_tree sm) = (r, t')" by fastforce
  moreover from this rt(1) have "r = Inr rt" and t': "sm\<lparr>sm_tree := t'\<rparr> = sm\<lparr>sm_tree := t\<rparr>"
    by (cases r; simp add: get_root_hash_def)+
  ultimately show ?thesis
    using holds_same_contents [OF assms(3) rt(3,4)] holds_tree(1) [OF assms(3)]
    by (intro that [of rt t]) (simp_all add: expect_root_hash_def read_root_def)
qed

text \<open>A block with a coinbase is added to those held.\<close>

lemma unat_supply_of:
  "sum_list (map (\<lambda>m. unat (fst m)) ms) < 2 ^ 128 \<Longrightarrow> unat (supply_of ms) = sum_list (map (\<lambda>m. unat (fst m)) ms)"
  by (induction ms) (simp_all add: supply_of_def unat_word_ariths(1))

lemma holds_apply:
  fixes A :: "('f::field, 'p, 'g::ab_group_add) ark"
  assumes "dense_poly A" "serializes A" "holds A H t0 ms sm" "H (str_bytes who) \<noteq> 0"
    and "sum_list (map (\<lambda>m. unat (fst m)) ms) + unat v \<le> 600000000000000000"
  shows "\<exists>sm'. apply_expect W A H (coinbase_block H name v who) (u, sm) =
      Some (u\<lparr>utxos := fmupd (tx_id (coin H (v, who)), 0)
          \<lparr>out_value = v, pubkey_hash = hash_new H (str_bytes who)\<rparr> (utxos u)\<rparr>, sm') \<and>
    holds A H t0 (ms @ [(v, who)]) sm' \<and> sm_prune_markers sm' = sm_prune_markers sm \<and>
    outpoint_to_key sm' =
      fmupd (tx_id (coin H (v, who)), 0) (hash_with_index H (coin H (v, who)) 0) (outpoint_to_key sm)"
proof -
  have ok: "manager_ok A H sm" and total: "current_total_supply sm = supply_of ms" and t0: "tree_ok A H t0"
    using assms(3) by (simp_all add: holds_def)
  have cap: "unat (current_total_supply sm) + unat v \<le> 600000000000000000"
    using assms(5) total by (simp add: unat_supply_of)
  obtain t rt where applied: "apply_expect W A H (coinbase_block H name v who) (u, sm) =
      Some (u\<lparr>utxos := fmupd (tx_id (coin H (v, who)), 0)
          \<lparr>out_value = v, pubkey_hash = hash_new H (str_bytes who)\<rparr> (utxos u)\<rparr>, minted H (coin H (v, who)) v t rt sm)"
    and t: "same_contents (minted_tree H (coin H (v, who)) (current_total_supply sm + ucast v) (sm_tree sm)) t"
      "manager_ok A H (minted H (coin H (v, who)) v t rt sm)"
    using mint_block [OF assms(1,2) ok assms(4) cap, of "coin H (v, who)" W name u] by auto
  have "vt_storage t = vt_storage (mints H t0 (ms @ [(v, who)]))"
    using minted_storage [of "sm_tree sm" "mints H t0 ms" H "coin H (v, who)"] assms(3) t(1) total
    by (simp add: mints_snoc holds_def same_contents_def)
  then have "holds A H t0 (ms @ [(v, who)]) (minted H (coin H (v, who)) v t rt sm)"
    using assms(3) t(2) t0 total manager_okD(5) [OF ok]
    by (auto simp: holds_def minted_def nth_append supply_of_def le_Suc_eq)
  with applied show ?thesis by (auto simp: minted_def)
qed

text \<open>A rollback, in either form, or a restoration leaves the blocks up to its height.\<close>

lemma holds_rolled_back:
  assumes "holds A H t0 ms sm" "n \<le> length ms" "length ms < 2 ^ 32" "tree_ok A H t"
    and "vt_storage t = snapshot_storages sm ! n" "manager_ok A H (rolled_back (word_of_nat n) t sm)"
  shows "holds A H t0 (take n ms) (rolled_back (word_of_nat n) t sm)"
proof -
  have n: "unat (word_of_nat n :: u64) = n" using assms(2,3) by (simp add: unsigned_of_nat take_bit_nat_eq_self)
  then show ?thesis using assms by (auto simp: holds_def rolled_back_def min_def)
qed

lemma holds_rollback:
  assumes "dense_poly A" "serializes A" "holds A H t0 ms sm" "n \<le> length ms" "length ms < 2 ^ 32"
  shows "\<exists>sm'. rollback_state A H (word_of_nat n) sm = Some (Inr (), sm') \<and> holds A H t0 (take n ms) sm'"
    "\<exists>sm'. sm_rollback A H (word_of_nat n) sm = Some (Inr (), sm') \<and> holds A H t0 (take n ms) sm'"
proof -
  note ok = holdsD [OF assms(3,5)]
  have n: "unat (word_of_nat n :: u64) = n" using assms(4,5) by (simp add: unsigned_of_nat take_bit_nat_eq_self)
  then have le: "(word_of_nat n :: u64) \<le> current_height sm" using ok(5) assms(4) by (simp add: word_le_nat_alt)
  obtain t where t: "rollback_state A H (word_of_nat n) sm = Some (Inr (), rolled_back (word_of_nat n) t sm)"
      "manager_ok A H (rolled_back (word_of_nat n) t sm)" "vt_storage t = snapshot_storages sm ! n"
    using rollback_state_ok [OF assms(1,2) ok(1,6) le] n by auto
  have "tree_ok A H t" using manager_okD(1) [OF t(2)] by (simp add: rolled_back_def)
  with t holds_rolled_back [OF assms(3-5) _ t(3,2)]
  show "\<exists>sm'. rollback_state A H (word_of_nat n) sm = Some (Inr (), sm') \<and> holds A H t0 (take n ms) sm'" by blast
  obtain t where t: "sm_rollback A H (word_of_nat n) sm = Some (Inr (), rolled_back (word_of_nat n) t sm)"
      "manager_ok A H (rolled_back (word_of_nat n) t sm)" "vt_storage t = snapshot_storages sm ! n"
    using sm_rollback_ok [OF assms(1,2) ok(1,6) le] n by auto
  have "tree_ok A H t" using manager_okD(1) [OF t(2)] by (simp add: rolled_back_def)
  with t holds_rolled_back [OF assms(3-5) _ t(3,2)]
  show "\<exists>sm'. sm_rollback A H (word_of_nat n) sm = Some (Inr (), sm') \<and> holds A H t0 (take n ms) sm'" by blast
qed

section \<open>They pass\<close>

text \<open>One block more, whatever the UTXO set becomes.\<close>

lemma holds_one_more:
  fixes A :: "('f::field, 'p, 'g::ab_group_add) ark"
  assumes "dense_poly A" "serializes A" "holds A H t0 ms sm" "H (str_bytes who) \<noteq> 0"
    and "sum_list (map (\<lambda>m. unat (fst m)) ms) + unat v \<le> 600000000000000000"
  shows "\<exists>u' sm'. apply_expect W A H (coinbase_block H name v who) (u, sm) = Some (u', sm') \<and>
    holds A H t0 (ms @ [(v, who)]) sm'"
  using holds_apply [OF assms, of W name u] by blast

text \<open>
  The hypotheses of all tests: the laws of the library, a new tree, and that no recipient hashes
  to the burn address.
\<close>

lemma apply_block_test_passes:
  fixes A :: "('f::field, 'p, 'g::ab_group_add) ark"
  assumes A: "dense_poly A" "serializes A" and t0: "tree_new A H memory_storage_new = Some (Inr t0)"
    and burn: "H (str_bytes ''alice'') \<noteq> 0" and neq: "root_after A H t0 [] \<noteq> root_after A H t0 [(42, ''alice'')]"
  shows "test_state_manager_apply_block W A H = Some ()"
proof -
  obtain sm0 where sm0: "new_manager A H = Some (utxo_new, sm0)" "holds A H t0 [] sm0"
    using new_manager_holds [OF A t0] by blast
  obtain rt0 t1 where r0: "root_after A H t0 [] = Inr rt0" "read_root A H sm0 = Some (rt0, sm0\<lparr>sm_tree := t1\<rparr>)"
      "holds A H t0 [] (sm0\<lparr>sm_tree := t1\<rparr>)"
    using expect_root [OF A sm0(2)] .
  obtain s2 where a1: "apply_expect W A H (coinbase_block H ''block-1'' 42 ''alice'') (utxo_new, sm0\<lparr>sm_tree := t1\<rparr>) =
      Some (utxo_new\<lparr>utxos := fmupd (tx_id (coin H (42, ''alice'')), 0)
        \<lparr>out_value = 42, pubkey_hash = hash_new H (str_bytes ''alice'')\<rparr> (utxos utxo_new)\<rparr>, s2)"
      "holds A H t0 [(42, ''alice'')] s2"
    using holds_apply [OF A r0(3) burn, of 42 W "''block-1''" utxo_new] by auto
  obtain rt1 t3 where r1: "root_after A H t0 [(42, ''alice'')] = Inr rt1" "read_root A H s2 = Some (rt1, s2\<lparr>sm_tree := t3\<rparr>)"
      "holds A H t0 [(42, ''alice'')] (s2\<lparr>sm_tree := t3\<rparr>)"
    using expect_root [OF A a1(2)] .
  show ?thesis
    using neq r0(1) r1(1) holdsD [OF r1(3)] holds_snapshot [OF r1(3), of 1]
    by (simp add: test_state_manager_apply_block_def sm0 r0(2) a1(1) r1(2) test_simps)
      (simp add: utxo_new_def fcard_finsert_disjoint)
qed

text \<open>The blocks that most tests apply.\<close>

lemma two_blocks:
  fixes A :: "('f::field, 'p, 'g::ab_group_add) ark"
  assumes A: "dense_poly A" "serializes A" and t0: "tree_new A H memory_storage_new = Some (Inr t0)"
    and burn: "H (str_bytes ''alice'') \<noteq> 0" "H (str_bytes ''bob'') \<noteq> 0"
  obtains sm0 u1 sm1 where "new_manager A H = Some (utxo_new, sm0)" "holds A H t0 [] sm0"
    "apply_expect W A H (coinbase_block H n1 10 ''alice'') (utxo_new, sm0) = Some (u1, sm1)"
    "holds A H t0 [(10, ''alice'')] sm1"
    "\<forall>sm. holds A H t0 [(10, ''alice'')] sm \<longrightarrow>
       (\<exists>u2 sm2. apply_expect W A H (coinbase_block H n2 20 ''bob'') (u1, sm) = Some (u2, sm2) \<and>
         holds A H t0 [(10, ''alice''), (20, ''bob'')] sm2)"
proof -
  obtain sm0 where sm0: "new_manager A H = Some (utxo_new, sm0)" "holds A H t0 [] sm0"
    using new_manager_holds [OF A t0] by blast
  obtain u1 sm1 where 1: "apply_expect W A H (coinbase_block H n1 10 ''alice'') (utxo_new, sm0) = Some (u1, sm1)"
      "holds A H t0 [(10, ''alice'')] sm1"
    using holds_one_more [OF A sm0(2) burn(1), of 10 W n1 utxo_new] by auto
  have "\<exists>u2 sm2. apply_expect W A H (coinbase_block H n2 20 ''bob'') (u1, sm) = Some (u2, sm2) \<and>
      holds A H t0 [(10, ''alice''), (20, ''bob'')] sm2" if "holds A H t0 [(10, ''alice'')] sm" for sm
    using holds_one_more [OF A that burn(2), of 20 W n2 u1] by auto
  then show ?thesis by (intro that [OF sm0 1]) blast
qed

lemma snapshot_test_passes:
  fixes A :: "('f::field, 'p, 'g::ab_group_add) ark"
  assumes A: "dense_poly A" "serializes A" and t0: "tree_new A H memory_storage_new = Some (Inr t0)"
    and burn: "H (str_bytes ''alice'') \<noteq> 0" "H (str_bytes ''bob'') \<noteq> 0"
    and neq: "root_after A H t0 [(10, ''alice'')] \<noteq> root_after A H t0 [(10, ''alice''), (20, ''bob'')]"
  shows "test_state_manager_snapshot W A H = Some ()"
proof -
  obtain sm0 u1 sm1 where 1: "new_manager A H = Some (utxo_new, sm0)"
      "apply_expect W A H (coinbase_block H ''block-1'' 10 ''alice'') (utxo_new, sm0) = Some (u1, sm1)"
      "holds A H t0 [(10, ''alice'')] sm1"
      "\<exists>u2 sm2. apply_expect W A H (coinbase_block H ''block-2'' 20 ''bob'') (u1, sm1) = Some (u2, sm2) \<and>
         holds A H t0 [(10, ''alice''), (20, ''bob'')] sm2"
    using two_blocks [OF A t0 burn] by metis
  then obtain u2 sm2 where 2: "apply_expect W A H (coinbase_block H ''block-2'' 20 ''bob'') (u1, sm1) = Some (u2, sm2)"
      "holds A H t0 [(10, ''alice''), (20, ''bob'')] sm2" by blast
  show ?thesis
    using neq holds_snapshot [OF 1(3), of 1] holds_snapshot [OF 2(2), of 2]
    by (auto simp: test_state_manager_snapshot_def 1(1,2) 2(1) test_simps)
qed


text \<open>A new manager after its two blocks, for the tests that start so.\<close>

lemma two_applied:
  fixes A :: "('f::field, 'p, 'g::ab_group_add) ark"
  assumes A: "dense_poly A" "serializes A" and t0: "tree_new A H memory_storage_new = Some (Inr t0)"
    and burn: "H (str_bytes ''alice'') \<noteq> 0" "H (str_bytes ''bob'') \<noteq> 0"
  obtains sm0 u1 sm1 u2 sm2 where "new_manager A H = Some (utxo_new, sm0)" "holds A H t0 [] sm0"
    "apply_expect W A H (coinbase_block H ''block-1'' 10 ''alice'') (utxo_new, sm0) = Some (u1, sm1)"
    "holds A H t0 [(10, ''alice'')] sm1"
    "apply_expect W A H (coinbase_block H ''block-2'' 20 ''bob'') (u1, sm1) = Some (u2, sm2)"
    "holds A H t0 [(10, ''alice''), (20, ''bob'')] sm2"
  using two_blocks [OF A t0 burn] by metis

lemma rollback_test_passes:
  fixes A :: "('f::field, 'p, 'g::ab_group_add) ark"
  assumes A: "dense_poly A" "serializes A" and t0: "tree_new A H memory_storage_new = Some (Inr t0)"
    and burn: "H (str_bytes ''alice'') \<noteq> 0" "H (str_bytes ''bob'') \<noteq> 0"
    and neq: "root_after A H t0 [(10, ''alice'')] \<noteq> root_after A H t0 [(10, ''alice''), (20, ''bob'')]"
  shows "test_state_manager_rollback W A H = Some ()"
proof -
  obtain sm0 u1 sm1 where 1: "new_manager A H = Some (utxo_new, sm0)" "holds A H t0 [] sm0"
      "apply_expect W A H (coinbase_block H ''block-1'' 10 ''alice'') (utxo_new, sm0) = Some (u1, sm1)"
      "holds A H t0 [(10, ''alice'')] sm1"
      "\<forall>sm. holds A H t0 [(10, ''alice'')] sm \<longrightarrow>
         (\<exists>u2 sm2. apply_expect W A H (coinbase_block H ''block-2'' 20 ''bob'') (u1, sm) = Some (u2, sm2) \<and>
           holds A H t0 [(10, ''alice''), (20, ''bob'')] sm2)"
    using two_blocks [OF A t0 burn, of W "''block-1''" "''block-2''"] .
  obtain rt1 t1 where r1: "root_after A H t0 [(10, ''alice'')] = Inr rt1" "read_root A H sm1 = Some (rt1, sm1\<lparr>sm_tree := t1\<rparr>)"
      "holds A H t0 [(10, ''alice'')] (sm1\<lparr>sm_tree := t1\<rparr>)"
    using expect_root [OF A 1(4)] .
  obtain u2 sm2 where 2: "apply_expect W A H (coinbase_block H ''block-2'' 20 ''bob'') (u1, sm1\<lparr>sm_tree := t1\<rparr>) = Some (u2, sm2)"
      "holds A H t0 [(10, ''alice''), (20, ''bob'')] sm2" using 1(5) r1(3) by blast
  obtain rt2 t2 where r2: "root_after A H t0 [(10, ''alice''), (20, ''bob'')] = Inr rt2"
      "read_root A H sm2 = Some (rt2, sm2\<lparr>sm_tree := t2\<rparr>)"
      "holds A H t0 [(10, ''alice''), (20, ''bob'')] (sm2\<lparr>sm_tree := t2\<rparr>)"
    using expect_root [OF A 2(2)] .
  obtain sm3 where 3: "sm_rollback A H 1 (sm2\<lparr>sm_tree := t2\<rparr>) = Some (Inr (), sm3)" "holds A H t0 [(10, ''alice'')] sm3"
    using holds_rollback(2) [OF A r2(3), of 1] by auto
  obtain rt3 t3 where r3: "root_after A H t0 [(10, ''alice'')] = Inr rt3" "read_root A H sm3 = Some (rt3, sm3\<lparr>sm_tree := t3\<rparr>)"
    using expect_root [OF A 3(2)] .
  have "rt1 \<noteq> rt2" "rt3 = rt1" using neq r1(1) r2(1) r3(1) by auto
  then show ?thesis
    using holds_snapshot [OF 3(2), of 1] holdsD [OF 3(2)] holdsD [OF r2(3)] r3(1)
    by (simp add: test_state_manager_rollback_def 1(1,3) r1(2) 2(1) r2(2) 3(1) r3(2) test_simps)
qed

lemma rollback_result_test_passes:
  fixes A :: "('f::field, 'p, 'g::ab_group_add) ark"
  assumes A: "dense_poly A" "serializes A" and t0: "tree_new A H memory_storage_new = Some (Inr t0)"
    and burn: "H (str_bytes ''alice'') \<noteq> 0" "H (str_bytes ''bob'') \<noteq> 0"
  shows "test_state_manager_rollback_state_result W A H = Some ()"
proof -
  obtain sm0 u1 sm1 u2 sm2 where 2: "new_manager A H = Some (utxo_new, sm0)"
      "apply_expect W A H (coinbase_block H ''block-1'' 10 ''alice'') (utxo_new, sm0) = Some (u1, sm1)"
      "apply_expect W A H (coinbase_block H ''block-2'' 20 ''bob'') (u1, sm1) = Some (u2, sm2)"
      "holds A H t0 [(10, ''alice''), (20, ''bob'')] sm2"
    using two_applied [OF A t0 burn] by metis
  obtain sm3 where 3: "rollback_state A H 1 sm2 = Some (Inr (), sm3)" "holds A H t0 [(10, ''alice'')] sm3"
    using holds_rollback(1) [OF A 2(4), of 1] by auto
  obtain sm4 where 4: "rollback_state A H 1 sm3 = Some (Inr (), sm4)" "holds A H t0 [(10, ''alice'')] sm4"
    using holds_rollback(1) [OF A 3(2), of 1] by auto
  have "current_height sm4 < 5" using holdsD(2) [OF 4(2)] by simp
  from rollback_state_beyond [OF this, of A H] show ?thesis
    using holdsD(2) [OF 3(2)]
    by (simp add: test_state_manager_rollback_state_result_def 2(1-3) 3(1) 4(1) test_simps)
qed

lemma root_hash_test_passes:
  fixes A :: "('f::field, 'p, 'g::ab_group_add) ark"
  assumes A: "dense_poly A" "serializes A" and t0: "tree_new A H memory_storage_new = Some (Inr t0)"
  shows "test_state_manager_get_root_hash A H = Some ()"
proof -
  obtain sm0 where sm0: "new_manager A H = Some (utxo_new, sm0)" "holds A H t0 [] sm0"
    using new_manager_holds [OF A t0] by blast
  obtain rt t where "root_after A H t0 [] = Inr rt" "expect_root_hash A H sm0 = Some (rt, sm0\<lparr>sm_tree := t\<rparr>)"
    using expect_root [OF A sm0(2)] .
  then show ?thesis
    using holds_snapshot(3) [OF sm0(2), of 0] by (simp add: test_state_manager_get_root_hash_def sm0(1) test_simps)
qed

lemma validate_test_passes:
  fixes A :: "('f::field, 'p, 'g::ab_group_add) ark"
  assumes A: "dense_poly A" "serializes A" and t0: "tree_new A H memory_storage_new = Some (Inr t0)"
    and burn: "H (str_bytes ''alice'') \<noteq> 0" "H (str_bytes ''bob'') \<noteq> 0"
  shows "test_state_manager_validate_snapshots W A H = Some ()"
proof -
  obtain sm0 u1 sm1 u2 sm2 where 2: "new_manager A H = Some (utxo_new, sm0)" "holds A H t0 [] sm0"
      "apply_expect W A H (coinbase_block H ''block-1'' 10 ''alice'') (utxo_new, sm0) = Some (u1, sm1)"
      "holds A H t0 [(10, ''alice'')] sm1"
      "apply_expect W A H (coinbase_block H ''block-2'' 20 ''bob'') (u1, sm1) = Some (u2, sm2)"
      "holds A H t0 [(10, ''alice''), (20, ''bob'')] sm2"
    using two_applied [OF A t0 burn] by metis
  show ?thesis
    using holdsD(7) [OF 2(2)] holdsD(7) [OF 2(4)] holdsD(7) [OF 2(6)]
    by (simp add: test_state_manager_validate_snapshots_def 2(1,3,5) test_simps)
qed


text \<open>A restoration finds the snapshot, since heights differ, and its root is the one asked for.\<close>

lemma snapshot_position_None: "snapshot_position P ss = None \<longleftrightarrow> (\<forall>s \<in> set ss. \<not> P s)"
  by (induction ss) auto

lemma holds_restore:
  assumes "dense_poly A" "serializes A" "holds A H t0 ms sm" "n \<le> length ms" "length ms < 2 ^ 32"
  shows "\<exists>sm' t. restore_from_snapshot A H (snap_root (snapshots sm ! n)) (word_of_nat n) sm = Some (Inr (), sm') \<and>
    current_height sm' = word_of_nat n \<and> expect_root_hash A H sm' = Some (snap_root (snapshots sm ! n), sm'\<lparr>sm_tree := t\<rparr>)"
proof -
  note ok = holdsD [OF assms(3,5)]
  let ?P = "\<lambda>s. snap_height s = word_of_nat n \<and> snap_root s = snap_root (snapshots sm ! n)"
  have n: "n < length (snapshots sm)" using assms(4) ok(3) by simp
  have "?P (snapshots sm ! n)" using holds_snapshot(2) [OF assms(3,5,4)] by simp
  then obtain i where i: "snapshot_position ?P (snapshots sm) = Some i"
    using nth_mem [OF n] snapshot_position_None [of ?P "snapshots sm"] by (cases "snapshot_position ?P (snapshots sm)") auto
  from snapshot_position_Some [OF i] have "i \<le> length ms" "word_of_nat i = (word_of_nat n :: u64)"
    using holds_snapshot(2) [OF assms(3,5), of i] ok(3) by auto
  then have "i = n" using assms(4,5) by (simp add: word_of_nat_eq_iff take_bit_nat_eq_self)
  with i have pos: "snapshot_position ?P (snapshots sm) = Some n" by simp
  have "stored_root A H (snapshot_storages sm ! n) (snap_root (snapshots sm ! n))" using ok(1) n by (simp add: manager_ok_def)
  from restore_tree_ok [OF this, of sm] obtain t where
    t: "restore_tree A H (snapshot_storages sm ! n) sm = Some (Inr (), sm\<lparr>sm_tree := t\<rparr>)" "tree_ok A H t"
      "tree_root A H t KEY_SIZE [] = Inr (snap_root (snapshots sm ! n))" by blast
  define sm' where "sm' = sm\<lparr>sm_tree := t, current_height := word_of_nat n, snapshots := take (n + 1) (snapshots sm),
      snapshot_storages := take (n + 1) (snapshot_storages sm)\<rparr>"
  have "restore_from_snapshot A H (snap_root (snapshots sm ! n)) (word_of_nat n) sm = Some (Inr (), sm')"
    using pos t(1) n manager_okD(5) [OF ok(1)] by (simp add: restore_from_snapshot_def sm'_def)
  moreover obtain t' where "get_root_hash A H sm' = (Inr (snap_root (snapshots sm ! n)), sm'\<lparr>sm_tree := t'\<rparr>)"
    using get_root_hash_ok [OF assms(1,2), of H sm'] t(2,3) by (auto simp: sm'_def)
  ultimately show ?thesis by (auto simp: expect_root_hash_def sm'_def)
qed

lemma restore_test_passes:
  fixes A :: "('f::field, 'p, 'g::ab_group_add) ark"
  assumes A: "dense_poly A" "serializes A" and t0: "tree_new A H memory_storage_new = Some (Inr t0)"
    and burn: "H (str_bytes ''alice'') \<noteq> 0" "H (str_bytes ''bob'') \<noteq> 0"
  shows "test_state_manager_restore_from_snapshot W A H = Some ()"
proof -
  obtain sm0 u1 sm1 u2 sm2 where 2: "new_manager A H = Some (utxo_new, sm0)"
      "apply_expect W A H (coinbase_block H ''block-1'' 10 ''alice'') (utxo_new, sm0) = Some (u1, sm1)"
      "holds A H t0 [(10, ''alice'')] sm1"
      "apply_expect W A H (coinbase_block H ''block-2'' 20 ''bob'') (u1, sm1) = Some (u2, sm2)"
      "holds A H t0 [(10, ''alice''), (20, ''bob'')] sm2"
    using two_applied [OF A t0 burn] by metis
  have "snap_root (snapshots sm2 ! 1) = snap_root (snapshots sm1 ! 1)"
    using holds_snapshot(3) [OF 2(3), of 1] holds_snapshot(3) [OF 2(5), of 1] by simp
  moreover from holds_restore [OF A 2(5), of 1] obtain sm3 t where
    "restore_from_snapshot A H (snap_root (snapshots sm2 ! 1)) 1 sm2 = Some (Inr (), sm3)" "current_height sm3 = 1"
    "expect_root_hash A H sm3 = Some (snap_root (snapshots sm2 ! 1), sm3\<lparr>sm_tree := t\<rparr>)" by auto
  ultimately show ?thesis
    using holds_snapshot(1) [OF 2(3), of 1]
    by (simp add: test_state_manager_restore_from_snapshot_def 2(1,2,4) test_simps)
qed

lemma reorganization_test_passes:
  fixes A :: "('f::field, 'p, 'g::ab_group_add) ark"
  assumes A: "dense_poly A" "serializes A" and t0: "tree_new A H memory_storage_new = Some (Inr t0)"
    and burn: "H (str_bytes ''alice'') \<noteq> 0" "H (str_bytes ''bob'') \<noteq> 0" "H (str_bytes ''charlie'') \<noteq> 0"
    and neq: "root_after A H t0 [(10, ''alice'')] \<noteq> root_after A H t0 [(10, ''alice''), (15, ''charlie'')]"
  shows "test_state_manager_dag_reorganization W A H = Some ()"
proof -
  obtain sm0 u1 sm1 where 1: "new_manager A H = Some (utxo_new, sm0)" "holds A H t0 [] sm0"
      "apply_expect W A H (coinbase_block H ''block-1-main'' 10 ''alice'') (utxo_new, sm0) = Some (u1, sm1)"
      "holds A H t0 [(10, ''alice'')] sm1"
      "\<forall>sm. holds A H t0 [(10, ''alice'')] sm \<longrightarrow>
         (\<exists>u2 sm2. apply_expect W A H (coinbase_block H ''block-2-main'' 20 ''bob'') (u1, sm) = Some (u2, sm2) \<and>
           holds A H t0 [(10, ''alice''), (20, ''bob'')] sm2)"
    using two_blocks [OF A t0 burn(1,2), of W "''block-1-main''" "''block-2-main''"] .
  obtain rt1 t1 where r1: "root_after A H t0 [(10, ''alice'')] = Inr rt1"
      "expect_root_hash A H sm1 = Some (rt1, sm1\<lparr>sm_tree := t1\<rparr>)" "holds A H t0 [(10, ''alice'')] (sm1\<lparr>sm_tree := t1\<rparr>)"
    using expect_root [OF A 1(4)] .
  obtain u2 sm2 where 2: "apply_expect W A H (coinbase_block H ''block-2-main'' 20 ''bob'') (u1, sm1\<lparr>sm_tree := t1\<rparr>) = Some (u2, sm2)"
      "holds A H t0 [(10, ''alice''), (20, ''bob'')] sm2" using 1(5) r1(3) by blast
  obtain sm3 where 3: "rollback_state A H 1 sm2 = Some (Inr (), sm3)" "holds A H t0 [(10, ''alice'')] sm3"
    using holds_rollback(1) [OF A 2(2), of 1] by auto
  have "\<exists>u4 sm4. apply_expect W A H (coinbase_block H ''block-2-alt'' 15 ''charlie'') (u2, sm3) = Some (u4, sm4) \<and>
      holds A H t0 [(10, ''alice''), (15, ''charlie'')] sm4"
    using holds_one_more [OF A 3(2) burn(3), of 15 W "''block-2-alt''" u2] by simp
  then obtain u4 sm4 where 4: "apply_expect W A H (coinbase_block H ''block-2-alt'' 15 ''charlie'') (u2, sm3) = Some (u4, sm4)"
      "holds A H t0 [(10, ''alice''), (15, ''charlie'')] sm4" by blast
  obtain rt4 t4 where r4: "root_after A H t0 [(10, ''alice''), (15, ''charlie'')] = Inr rt4"
      "expect_root_hash A H sm4 = Some (rt4, sm4\<lparr>sm_tree := t4\<rparr>)"
    using expect_root [OF A 4(2)] .
  have "rt1 \<noteq> rt4" using neq r1(1) r4(1) by auto
  then show ?thesis
    using holdsD(2) [OF 4(2)]
    by (simp add: test_state_manager_dag_reorganization_def 1(1,3) r1(2) 2(1) 3(1) 4(1) r4(2) test_simps)
qed


text \<open>The loop over five blocks.\<close>

abbreviation numbered :: "nat \<Rightarrow> u64 \<times> string" where
  "numbered i \<equiv> (10 * word_of_nat i, ''user-'' @ [char_of (48 + i)])"

lemma holds_numbered:
  fixes A :: "('f::field, 'p, 'g::ab_group_add) ark"
  assumes A: "dense_poly A" "serializes A"
  shows "holds A H t0 ms sm \<Longrightarrow> \<forall>i \<in> set is. H (str_bytes (snd (numbered i))) \<noteq> 0 \<Longrightarrow>
    sum_list (map (\<lambda>m. unat (fst m)) (ms @ map numbered is)) \<le> 600000000000000000 \<Longrightarrow>
    \<exists>u' sm'. apply_numbered W A H is (u, sm) = Some (u', sm') \<and> holds A H t0 (ms @ map numbered is) sm'"
proof (induction "is" arbitrary: ms u sm)
  case (Cons i "is")
  have "sum_list (map (\<lambda>m. unat (fst m)) ms) + unat (fst (numbered i)) \<le> 600000000000000000"
    using Cons.prems(3) by simp
  then obtain u1 sm1 where 1: "apply_expect W A H (numbered_block H i) (u, sm) = Some (u1, sm1)"
      "holds A H t0 (ms @ [numbered i]) sm1"
    using holds_one_more [OF A Cons.prems(1), of "snd (numbered i)" "fst (numbered i)" W "''block-'' @ [char_of (48 + i)]" u]
      Cons.prems(2) by (auto simp: numbered_block_def Let_def)
  with Cons.IH [OF 1(2), of u1] Cons.prems(2,3) show ?case by simp
qed simp

lemma multiple_test_passes:
  fixes A :: "('f::field, 'p, 'g::ab_group_add) ark"
  assumes A: "dense_poly A" "serializes A" and t0: "tree_new A H memory_storage_new = Some (Inr t0)"
    and burn: "\<forall>i \<in> set [1..<6]. H (str_bytes (''user-'' @ [char_of (48 + i)])) \<noteq> 0"
  shows "test_state_manager_multiple_snapshots W A H = Some ()"
proof -
  let ?ms = "map numbered [1..<6]"
  obtain sm0 where sm0: "new_manager A H = Some (utxo_new, sm0)" "holds A H t0 [] sm0"
    using new_manager_holds [OF A t0] by blast
  have "sum_list (map (\<lambda>m. unat (fst m)) ([] @ ?ms)) \<le> 600000000000000000"
    by (simp add: upt_conv_Cons)
  from holds_numbered [OF A sm0(2) _ this] burn obtain u1 sm1 where
    1: "apply_numbered W A H [1..<6] (utxo_new, sm0) = Some (u1, sm1)" "holds A H t0 ?ms sm1" by fastforce
  have "get_state_at (word_of_nat i) sm1 = Some (snapshots sm1 ! i) \<and> snap_height (snapshots sm1 ! i) = word_of_nat i"
    if "i \<in> set [0..<6]" for i
    using holds_snapshot(1,2) [OF 1(2), of i] that by auto
  then have each: "\<forall>i \<in> set [0..<6]. get_state_at (word_of_nat i) sm1 \<bind>
      (\<lambda>snapshot. check (snap_height snapshot = word_of_nat i)) = Some ()"
    by (simp add: check_def)
  obtain sm2 where 2: "rollback_state A H 3 sm1 = Some (Inr (), sm2)" "holds A H t0 (take 3 ?ms) sm2"
    using holds_rollback(1) [OF A 1(2), of 3] by auto
  have "length (snapshots sm1) = 6" "current_height sm1 = 5" "length (snapshots sm2) = 4" "current_height sm2 = 3"
    using holdsD(2,3) [OF 1(2)] holdsD(2,3) [OF 2(2)] by simp_all
  moreover have "for_each [0..<6] (\<lambda>i. get_state_at (word_of_nat i) sm1 \<bind>
      (\<lambda>snapshot. check (snap_height snapshot = word_of_nat i))) = Some ()"
    unfolding for_each_passes by (rule each)
  ultimately show ?thesis
    using 1(1) by (simp add: test_state_manager_multiple_snapshots_def sm0(1) 2(1) check_def)
qed

text \<open>A block with a missing input: the tree is the clone of the saved one, the rest as it was.\<close>

lemma refuses_invalid:
  assumes "dense_poly A" "serializes A" "holds A H t0 ms sm"
    and "fmlookup (utxos u) (hash_new H (str_bytes ''nonexistent''), 0) = None"
  shows "\<exists>e t. sm_apply_block W A H (make_block H name [invalid_tx H]) (u, sm) = Some (Inl e, (u, sm\<lparr>sm_tree := t\<rparr>)) \<and>
    holds A H t0 ms (sm\<lparr>sm_tree := t\<rparr>)"
proof -
  have ok: "manager_ok A H sm" using assms(3) by (simp add: holds_def)
  note sm = manager_okD [OF ok]
  let ?t = "(sm_tree sm)\<lparr>commitment_cache := fmempty, root_cache := None, dirty := True\<rparr>"
  have clone: "tree_clone A H (sm_tree sm) = Some ?t" by (rule tree_clone_eq [OF sm(1)])
  have "\<not> applying_block sm" using ok by (simp add: manager_ok_def)
  then have "sm_apply_block W A H (make_block H name [invalid_tx H]) (u, sm) =
      Some (Inl (ApplyBlockFailed ''Missing UTXO input in transaction ''), (u, sm\<lparr>sm_tree := ?t\<rparr>))"
    using assms(4)
    by (simp add: sm_apply_block_def apply_block_body_def clone make_block_def invalid_tx_def test_tx_def
        apply_transaction_def apply_utxo_transaction_def unsigned_input_def outpoint_of_def roll_back_block_def)
  moreover have "holds A H t0 ms (sm\<lparr>sm_tree := ?t\<rparr>)"
    using tree_ok_clone(1) [OF sm(1) clone]
    by (intro holds_same_contents [OF assms(3)]) (simp_all add: same_contents_def)
  ultimately show ?thesis by blast
qed


text \<open>Any hash that is not that of the coinbase will do for the input that is missing.\<close>

lemma atomic_test_passes:
  fixes A :: "('f::field, 'p, 'g::ab_group_add) ark"
  assumes A: "dense_poly A" "serializes A" and t0: "tree_new A H memory_storage_new = Some (Inr t0)"
    and burn: "H (str_bytes ''alice'') \<noteq> 0"
    and missing: "hash_new H (str_bytes ''nonexistent'') \<noteq> tx_id (coin H (10, ''alice''))"
  shows "test_state_manager_atomic_rollback_on_error W A H = Some ()"
proof -
  let ?u1 = "utxo_new\<lparr>utxos := fmupd (tx_id (coin H (10, ''alice'')), 0)
      \<lparr>out_value = 10, pubkey_hash = hash_new H (str_bytes ''alice'')\<rparr> (utxos utxo_new)\<rparr>"
  obtain sm0 where sm0: "new_manager A H = Some (utxo_new, sm0)" "holds A H t0 [] sm0"
      "outpoint_to_key sm0 = fmempty" "sm_prune_markers sm0 = fmempty"
    using new_manager_holds [OF A t0] by blast
  obtain sm1 where 1: "apply_expect W A H (coinbase_block H ''block-1'' 10 ''alice'') (utxo_new, sm0) = Some (?u1, sm1)"
      "holds A H t0 [(10, ''alice'')] sm1" "sm_prune_markers sm1 = sm_prune_markers sm0"
      "outpoint_to_key sm1 = fmupd (tx_id (coin H (10, ''alice'')), 0) (hash_with_index H (coin H (10, ''alice'')) 0)
         (outpoint_to_key sm0)"
    using holds_apply [OF A sm0(2) burn, of 10 W "''block-1''" utxo_new] by auto
  obtain rt1 t1 where r1: "root_after A H t0 [(10, ''alice'')] = Inr rt1"
      "expect_root_hash A H sm1 = Some (rt1, sm1\<lparr>sm_tree := t1\<rparr>)" "holds A H t0 [(10, ''alice'')] (sm1\<lparr>sm_tree := t1\<rparr>)"
    using expect_root [OF A 1(2)] .
  have "fmlookup (utxos ?u1) (hash_new H (str_bytes ''nonexistent''), 0) = None"
    using missing by (simp add: utxo_new_def)
  from refuses_invalid [OF A r1(3) this, of W "str_bytes ''block-2-invalid''"] obtain e t2 where
    2: "sm_apply_block W A H (make_block H (str_bytes ''block-2-invalid'') [invalid_tx H]) (?u1, sm1\<lparr>sm_tree := t1\<rparr>) =
      Some (Inl e, (?u1, sm1\<lparr>sm_tree := t2\<rparr>))" "holds A H t0 [(10, ''alice'')] (sm1\<lparr>sm_tree := t2\<rparr>)"
    by auto
  obtain rt3 t3 where r3: "root_after A H t0 [(10, ''alice'')] = Inr rt3"
      "expect_root_hash A H (sm1\<lparr>sm_tree := t2\<rparr>) = Some (rt3, (sm1\<lparr>sm_tree := t2\<rparr>)\<lparr>sm_tree := t3\<rparr>)"
    using expect_root [OF A 2(2)] .
  have "rt3 = rt1" using r1(1) r3(1) by simp
  with 2(1) show ?thesis
    by (simp add: test_state_manager_atomic_rollback_on_error_def sm0 1(1,3,4) r1(2) r3(2) test_simps)
      (simp add: utxo_new_def fcard_finsert_disjoint)
qed

lemma supply_test_passes:
  fixes A :: "('f::field, 'p, 'g::ab_group_add) ark"
  assumes A: "dense_poly A" "serializes A" and t0: "tree_new A H memory_storage_new = Some (Inr t0)"
    and burn: "H (str_bytes ''alice'') \<noteq> 0" and "enumerates iteration"
  shows "test_state_manager_supply_consistency_check W A H iteration = Some ()"
proof -
  let ?u1 = "utxo_new\<lparr>utxos := fmupd (tx_id (coin H (100, ''alice'')), 0)
      \<lparr>out_value = 100, pubkey_hash = hash_new H (str_bytes ''alice'')\<rparr> (utxos utxo_new)\<rparr>"
  let ?u2 = "with_output (hash_new H (str_bytes ''fake_tx''), 0) 50 (hash_new H (str_bytes ''fake_owner'')) ?u1"
  obtain sm0 where sm0: "new_manager A H = Some (utxo_new, sm0)" "holds A H t0 [] sm0"
    using new_manager_holds [OF A t0] by blast
  obtain sm1 where 1: "apply_expect W A H (coinbase_block H ''block-1'' 100 ''alice'') (utxo_new, sm0) = Some (?u1, sm1)"
      "holds A H t0 [(100, ''alice'')] sm1"
    using holds_apply [OF A sm0(2) burn, of 100 W "''block-1''" utxo_new] by auto
  have tracked: "unat (current_total_supply sm1) = 100" using holdsD(4) [OF 1(2)] by (simp add: supply_of_def)
  have total: "utxo_total (utxos ?u1) = 100"
    by (simp add: utxo_new_def utxo_total_fmupd_new)
  have total2: "utxo_total (utxos ?u2) \<in> {50, 150}"
    by (cases "hash_new H (str_bytes ''fake_tx'') = tx_id (coin H (100, ''alice''))")
      (simp_all add: utxo_new_def with_output_def utxo_total_fmupd_new)
  obtain rt t where root: "root_after A H t0 [(100, ''alice'')] = Inr rt"
      "expect_root_hash A H sm1 = Some (rt, sm1\<lparr>sm_tree := t\<rparr>)"
    using expect_root [OF A 1(2)] .
  then have got: "get_root_hash A H sm1 = (Inr rt, sm1\<lparr>sm_tree := t\<rparr>)"
    by (cases "get_root_hash A H sm1"; cases "fst (get_root_hash A H sm1)") (auto simp: expect_root_hash_def)
  have "last (snapshots sm1) = snapshots sm1 ! 1" using holdsD(3) [OF 1(2)] by (subst last_conv_nth) auto
  then have "snap_root (last (snapshots sm1)) = rt" "snapshots sm1 \<noteq> []"
    using holds_snapshot(3) [OF 1(2), of 1] holdsD(3) [OF 1(2)] root(1) by auto
  then have "cross_check_supply_consistency A H iteration ?u1 sm1 = (Inr (), sm1\<lparr>sm_tree := t\<rparr>)"
    using cross_check_eq [OF assms(5), of ?u1 A H sm1] total tracked by (simp add: got)
  moreover have "\<not> is_ok (fst (cross_check_supply_consistency A H iteration ?u2 (sm1\<lparr>sm_tree := t\<rparr>)))"
    using cross_check_eq [OF assms(5), of ?u2 A H "sm1\<lparr>sm_tree := t\<rparr>"] total2 tracked by auto
  ultimately show ?thesis
    by (simp add: test_state_manager_supply_consistency_check_def sm0(1) 1(1) test_simps)
qed

end
