(* ===== verification/Unit_Tests_Trees.thy ===== *)
theory Unit_Tests_Trees
  imports V_Trie_Sound Manager_Blocks Ipa_Tree_Root Unit_Tests_Commit
begin

text \<open>
  The unit tests of the two Verkle trees (\<open>state/v_trie.rs\<close>, \<open>crypto/verkle/verkle_tree.rs\<close>): a
  tree with one or two keys, its roots, its proofs, and proofs that were changed. A test that
  expects a changed proof to be refused relies on the commitment having no collision on that
  proof, which is the hypothesis of its lemma.
\<close>

section \<open>What the tests set up\<close>

text \<open>The key \<open>[b; KEY_SIZE]\<close>, and \<open>bytes[0] ^= 0xFF\<close> on a root.\<close>

definition repeated_key :: "byte \<Rightarrow> bytes32" where
  "repeated_key b = from_be_bytes (replicate KEY_SIZE b)"

definition flip_first :: "bytes32 \<Rightarrow> bytes32" where
  "flip_first r = from_be_bytes ((array_bytes r)[0 := xor (array_bytes r ! 0) 255])"

definition next_first :: "bytes \<Rightarrow> bytes" where
  "next_first path = path[0 := path ! 0 + 1]"

definition new_tree :: "('f::field, 'p, 'g::ab_group_add) ark \<Rightarrow> blake3 \<Rightarrow> ('f, 'g) verkle_tree option" where
  "new_tree A H = do {
     created \<leftarrow> tree_new A H memory_storage_new;
     expect_ok created
   }"

definition expect_tree_root ::
    "('f::field, 'p, 'g::ab_group_add) ark \<Rightarrow> blake3 \<Rightarrow> ('f, 'g) verkle_tree \<Rightarrow> (bytes32 \<times> ('f, 'g) verkle_tree) option" where
  "expect_tree_root A H t = do {
     root \<leftarrow> expect_ok (fst (get_root A H t));
     Some (root, snd (get_root A H t))
   }"

definition expect_proof ::
    "('f::field, 'p, 'g::ab_group_add) ark \<Rightarrow> blake3 \<Rightarrow> bytes32 \<Rightarrow> ('f, 'g) verkle_tree
       \<Rightarrow> (verkle_proof \<times> ('f, 'g) verkle_tree) option" where
  "expect_proof A H key t = do {
     made \<leftarrow> expect_ok (fst (generate_proof A H key t));
     Some (made, snd (generate_proof A H key t))
   }"

section \<open>The tests of the tree of the state\<close>

definition test_vtrie_insert_and_root_stability :: "('f::field, 'p, 'g::ab_group_add) ark \<Rightarrow> blake3 \<Rightarrow> test" where
  "test_vtrie_insert_and_root_stability A H =
     (let key = repeated_key 1; v = str_bytes ''hello'' in do {
        tree \<leftarrow> new_tree A H;
        (root1, tree) \<leftarrow> expect_tree_root A H (tree_insert key v tree);
        check (root1 \<noteq> 0);
        (root2, tree) \<leftarrow> expect_tree_root A H (tree_insert key v tree);
        check (root1 = root2)
      })"

definition test_vtrie_generate_and_verify_proof :: "('f::field, 'p, 'g::ab_group_add) ark \<Rightarrow> blake3 \<Rightarrow> test" where
  "test_vtrie_generate_and_verify_proof A H =
     (let key = repeated_key 10; v = str_bytes ''verkle'' in do {
        tree \<leftarrow> new_tree A H;
        (made, tree) \<leftarrow> expect_proof A H key (tree_insert key v tree);
        check (leaf_value made = Some v);
        check (proof_type_of made = Membership);
        is_valid \<leftarrow> expect_ok (verify_proof A H tree made);
        check is_valid
      })"

definition test_vtrie_non_membership_proof :: "('f::field, 'p, 'g::ab_group_add) ark \<Rightarrow> blake3 \<Rightarrow> test" where
  "test_vtrie_non_membership_proof A H =
     (let inserted_key = repeated_key 10; inserted_value = str_bytes ''verkle''; missing_key = repeated_key 11 in do {
        tree \<leftarrow> new_tree A H;
        (made, tree) \<leftarrow> expect_proof A H missing_key (tree_insert inserted_key inserted_value tree);
        check (leaf_value made = None);
        check (proof_type_of made = NonMembership);
        is_valid \<leftarrow> expect_ok (verify_proof A H tree made);
        check is_valid
      })"

definition test_vtrie_invalid_proof_modified_root_hash :: "('f::field, 'p, 'g::ab_group_add) ark \<Rightarrow> blake3 \<Rightarrow> test" where
  "test_vtrie_invalid_proof_modified_root_hash A H =
     (let key = repeated_key 20 in do {
        tree \<leftarrow> new_tree A H;
        (made, tree) \<leftarrow> expect_proof A H key (tree_insert key (str_bytes ''value'') tree);
        is_valid \<leftarrow> expect_ok (verify_proof A H tree (made\<lparr>proof_root := flip_first (proof_root made)\<rparr>));
        check (\<not> is_valid)
      })"

definition test_vtrie_invalid_proof_modified_path :: "('f::field, 'p, 'g::ab_group_add) ark \<Rightarrow> blake3 \<Rightarrow> test" where
  "test_vtrie_invalid_proof_modified_path A H =
     (let key = repeated_key 30 in do {
        tree \<leftarrow> new_tree A H;
        (made, tree) \<leftarrow> expect_proof A H key (tree_insert key (str_bytes ''value'') tree);
        is_valid \<leftarrow> expect_ok (verify_proof A H tree (made\<lparr>proof_path := next_first (proof_path made)\<rparr>));
        check (\<not> is_valid)
      })"

definition test_vtrie_invalid_siblings_length :: "('f::field, 'p, 'g::ab_group_add) ark \<Rightarrow> blake3 \<Rightarrow> test" where
  "test_vtrie_invalid_siblings_length A H =
     (let key = repeated_key 40 in do {
        tree \<leftarrow> new_tree A H;
        (made, tree) \<leftarrow> expect_proof A H key (tree_insert key (str_bytes ''value'') tree);
        is_valid \<leftarrow> expect_ok (verify_proof A H tree (made\<lparr>siblings := butlast (siblings made)\<rparr>));
        check (\<not> is_valid)
      })"

section \<open>Keys and roots that were changed\<close>

lemma array_repeated_key [simp]: "array_bytes (repeated_key b) = replicate 32 b"
  by (simp add: repeated_key_def KEY_SIZE_def to_from_be_bytes)

lemma repeated_key_eq [simp]: "repeated_key a = repeated_key b \<longleftrightarrow> a = b"
  by (metis array_repeated_key replicate_eq_replicate zero_neq_numeral)

lemma flip_first_neq [simp]: "flip_first r \<noteq> r"
proof
  let ?b = "xor (array_bytes r ! 0) 255 :: byte"
  assume "flip_first r = r"
  then have "array_bytes (from_be_bytes ((array_bytes r)[0 := ?b]) :: bytes32) = array_bytes r"
    by (simp add: flip_first_def)
  then have "(array_bytes r)[0 := ?b] = array_bytes r" by (simp add: to_from_be_bytes)
  then have "?b = array_bytes r ! 0" by (metis length_array_bytes nth_list_update_eq zero_less_numeral)
  then have "xor (array_bytes r ! 0) ?b = xor (array_bytes r ! 0) (array_bytes r ! 0)" by simp
  then have "(255 :: byte) = 0" by (simp add: xor.assoc [symmetric])
  then show False by simp
qed

section \<open>A tree with one key\<close>

text \<open>The value under the path when all nodes on it exist, as a proof states it.\<close>

abbreviation held_at :: "memory_storage \<Rightarrow> bytes32 \<Rightarrow> bytes option" where
  "held_at st key \<equiv>
     (if \<forall>n. 0 < n \<and> n \<le> 32 \<longrightarrow> node_exists st (take n (array_bytes key)) then get_node_value st (array_bytes key) else None)"

lemma held_one_key:
  assumes "\<And>p. p \<noteq> [] \<Longrightarrow> storage_get (vt_storage t) (key_for_path p) = None" "length v < 2 ^ 32"
  shows "held_at (vt_storage (tree_insert key' v t)) key = (if key = key' then Some v else None)"
proof (cases "key = key'")
  case True
  have "node_exists (vt_storage (tree_insert key' v t)) (take n (array_bytes key'))" for n
    by (auto simp: node_exists_def storage_tree_insert take_is_prefix)
  with True assms(2) show ?thesis by (simp add: get_node_value_insert)
next
  case False
  have "array_bytes key \<noteq> []" by (metis length_array_bytes list.size(3) zero_neq_numeral)
  then have "\<not> node_exists (vt_storage (tree_insert key' v t)) (array_bytes key)"
    using False same_length_prefix [of "array_bytes key" "array_bytes key'"] assms(1)
    by (auto simp: node_exists_def storage_tree_insert)
  then have "\<not> (\<forall>n. 0 < n \<and> n \<le> 32 \<longrightarrow> node_exists (vt_storage (tree_insert key' v t)) (take n (array_bytes key)))"
    by (auto intro!: exI [of _ 32])
  with False show ?thesis by (simp only: if_False)
qed

lemma tree_new_nodes:
  assumes "tree_new A H memory_storage_new = Some (Inr t0)" "p \<noteq> []"
  shows "storage_get (vt_storage t0) (key_for_path p) = None"
proof -
  have "vt_storage t0 = storage_put (key_for_path []) (serialize_node None) memory_storage_new"
    using assms by (auto simp: tree_new_def ensure_node_def memory_storage_new_def storage_get_def split: if_splits)
  with assms(2) show ?thesis by (simp add: memory.get_put) (simp add: memory_storage_new_def storage_get_def)
qed

lemma generated_from:
  assumes "dense_poly A" "serializes A" "tree_ok A H t"
  shows "\<exists>pf t'. generate_proof A H key t = (Inr pf, t') \<and> leaf_value pf = held_at (vt_storage t) key \<and>
    (proof_type_of pf = Membership \<longleftrightarrow> leaf_value pf \<noteq> None) \<and> proof_path pf = array_bytes key \<and>
    length (siblings pf) = KEY_SIZE * VERKLE_RADIX \<and> tree_root A H t KEY_SIZE [] = Inr (proof_root pf) \<and>
    verify_proof A H t' pf = Inr True \<and> vt_pc t' = vt_pc t \<and> empty_subtree_roots t' = empty_subtree_roots t"
proof -
  have pc: "commits_ok A (vt_pc t)" by (rule tree_ok_commits [OF assms])
  have ok: "empties_ok A H t" "caches_ok A H t" "node_exists (vt_storage t) []" using assms(3) by (simp_all add: tree_ok_def)
  obtain rows p ex where col: "collected A H t True [] 0 (array_bytes key) = (rows, p, ex)" by (metis prod_cases3)
  from collected_result [OF col]
  have ex: "ex \<longleftrightarrow> (\<forall>n. 0 < n \<and> n \<le> 32 \<longrightarrow> node_exists (vt_storage t) (take n (array_bytes key)))"
    and p: "ex \<Longrightarrow> p = array_bytes key" and rows: "length rows = KEY_SIZE * VERKLE_RADIX" by (simp_all add: KEY_SIZE_def)
  show ?thesis
    using generated_proof [OF pc ok col, of None] verify_generated [OF pc ok(1) col, of _ None] p rows
      tree_root_total(1) [OF pc ok(1) order.refl, of "[]"]
    unfolding ex [symmetric] by (cases ex) (auto simp: generate_proof_def witness_ok_def)
qed

text \<open>The verifier reads the constants of the tree only, and always answers.\<close>

lemma verify_same_constants:
  assumes "vt_pc t' = vt_pc t" "empty_subtree_roots t' = empty_subtree_roots t"
  shows "verify_proof A H t' pf = verify_proof A H t pf"
proof -
  have "starting_scalar A H t' pf = starting_scalar A H t pf"
    by (simp add: starting_scalar_def empty_subtree_root_hash_def assms cong: option.case_cong)
  then show ?thesis unfolding verify_proof_def by (simp only: assms)
qed

lemma verify_total:
  assumes "commits_ok A (vt_pc t)" "empties_ok A H t"
  shows "\<exists>b. verify_proof A H t pf = Inr b"
proof -
  have "verify_loop A H (vt_pc t) pf KEY_SIZE 0 (from_le_mod A (up_root A H t pf 0)) = Inr (up_root A H t pf KEY_SIZE)"
    using verify_loop_up [OF assms(1) order.refl, of H "pf"]
      verify_loop_start [of KEY_SIZE A H "vt_pc t" "pf" 0 _ "up_root A H t pf 0"]
    by (simp only: diff_self_eq_0 KEY_SIZE_def zero_less_numeral simp_thms)
  then show ?thesis unfolding verify_proof_def by (auto simp: starting_scalar_eq [OF assms])
qed

lemma up_root_any_root [simp]: "up_root A H t (pf\<lparr>proof_root := r\<rparr>) n = up_root A H t pf n"
proof (induction n)
  case (Suc n)
  have "row_coeffs A (pf\<lparr>proof_root := r\<rparr>) d x = row_coeffs A pf d x" for d x by (cases "pf") (simp add: row_coeffs_def)
  with Suc show ?case by simp
qed simp

lemma changed_root_refused:
  assumes "commits_ok A (vt_pc t)" "empties_ok A H t" "verify_proof A H t pf = Inr True" "r \<noteq> proof_root pf"
  shows "verify_proof A H t (pf\<lparr>proof_root := r\<rparr>) = Inr False"
proof -
  obtain b where b: "verify_proof A H t (pf\<lparr>proof_root := r\<rparr>) = Inr b" using verify_total [OF assms(1,2)] by blast
  have "\<not> b" using verify_proof_root(1) [OF assms(1,2), of "pf\<lparr>proof_root := r\<rparr>"] b verify_proof_root(1) [OF assms(1-3)] assms(4)
    by auto
  with b show ?thesis by simp
qed

lemma wrong_claim_refused:
  assumes "commits_ok A (vt_pc t)" "empties_ok A H t" "proof_path pf = array_bytes key"
    and "tree_root A H t KEY_SIZE [] = Inr (proof_root pf)"
    and "leaf_value pf \<noteq> held_at (vt_storage t) key"
    and "collision_free A H t pf (array_bytes key) (held_at (vt_storage t) key)"
  shows "verify_proof A H t pf = Inr False"
proof -
  obtain b where b: "verify_proof A H t pf = Inr b" using verify_total [OF assms(1,2)] by blast
  have "\<not> b" using accepted_proof_says [OF assms(1,2) _ assms(3,4) refl assms(6)] b assms(5) by auto
  with b show ?thesis by simp
qed

section \<open>The tests of the tree of the state pass\<close>

text \<open>The start of each test but the first.\<close>

lemma one_key_proof:
  fixes A :: "('f::field, 'p, 'g::ab_group_add) ark"
  assumes "dense_poly A" "serializes A" "tree_new A H memory_storage_new = Some (Inr t0)" "length v < 2 ^ 32"
  obtains pf t' where "new_tree A H = Some t0" "expect_proof A H key (tree_insert key' v t0) = Some (pf, t')"
    "leaf_value pf = (if key = key' then Some v else None)"
    "proof_type_of pf = (if key = key' then Membership else NonMembership)"
    "proof_path pf = array_bytes key" "length (siblings pf) = KEY_SIZE * VERKLE_RADIX"
    "tree_root A H (tree_insert key' v t0) KEY_SIZE [] = Inr (proof_root pf)"
    "verify_proof A H (tree_insert key' v t0) pf = Inr True"
    "\<And>pf. verify_proof A H t' pf = verify_proof A H (tree_insert key' v t0) pf"
    "commits_ok A (vt_pc (tree_insert key' v t0))" "empties_ok A H (tree_insert key' v t0)"
proof -
  let ?t = "tree_insert key' v t0"
  have ok: "tree_ok A H ?t" by (rule tree_ok_insert [OF tree_new_wf [OF assms(3)]])
  obtain pf t' where made: "generate_proof A H key ?t = (Inr pf, t')" "leaf_value pf = held_at (vt_storage ?t) key"
      "proof_type_of pf = Membership \<longleftrightarrow> leaf_value pf \<noteq> None" "proof_path pf = array_bytes key"
      "length (siblings pf) = KEY_SIZE * VERKLE_RADIX" "tree_root A H ?t KEY_SIZE [] = Inr (proof_root pf)"
      "verify_proof A H t' pf = Inr True" "vt_pc t' = vt_pc ?t" "empty_subtree_roots t' = empty_subtree_roots ?t"
    using generated_from [OF assms(1,2) ok, of key] by blast
  have held: "leaf_value pf = (if key = key' then Some v else None)"
    unfolding made(2) by (rule held_one_key [OF tree_new_nodes [OF assms(3)] assms(4)])
  then have "proof_type_of pf = (if key = key' then Membership else NonMembership)"
    using made(3) by (cases "proof_type_of pf") (auto split: if_splits)
  moreover have "new_tree A H = Some t0" "expect_proof A H key ?t = Some (pf, t')"
    by (simp_all add: new_tree_def assms(3) expect_proof_def made(1))
  moreover note verify_same_constants [OF made(8,9)]
  moreover have "empties_ok A H ?t" using ok by (simp add: tree_ok_def)
  ultimately show ?thesis
    using that [of "pf" t'] held made(4-7) tree_ok_commits [OF assms(1,2) ok] by metis
qed

lemma trie_proof_tests_pass:
  fixes A :: "('f::field, 'p, 'g::ab_group_add) ark"
  assumes A: "dense_poly A" "serializes A" and t0: "tree_new A H memory_storage_new = Some (Inr t0)"
  shows "test_vtrie_generate_and_verify_proof A H = Some ()" "test_vtrie_non_membership_proof A H = Some ()"
    "test_vtrie_invalid_proof_modified_root_hash A H = Some ()" "test_vtrie_invalid_siblings_length A H = Some ()"
proof -
  have small: "length (str_bytes ''verkle'') < 2 ^ 32" "length (str_bytes ''value'') < 2 ^ 32" by (simp_all add: str_bytes_def)
  show "test_vtrie_generate_and_verify_proof A H = Some ()"
    by (rule one_key_proof [OF A t0 small(1), of "repeated_key 10" "repeated_key 10"])
      (simp add: test_vtrie_generate_and_verify_proof_def test_simps)
  show "test_vtrie_non_membership_proof A H = Some ()"
    by (rule one_key_proof [OF A t0 small(1), of "repeated_key 11" "repeated_key 10"])
      (simp add: test_vtrie_non_membership_proof_def test_simps)
  show "test_vtrie_invalid_proof_modified_root_hash A H = Some ()"
    by (rule one_key_proof [OF A t0 small(2), of "repeated_key 20" "repeated_key 20"])
      (simp add: test_vtrie_invalid_proof_modified_root_hash_def changed_root_refused test_simps)
  show "test_vtrie_invalid_siblings_length A H = Some ()"
    by (rule one_key_proof [OF A t0 small(2), of "repeated_key 40" "repeated_key 40"])
      (simp add: test_vtrie_invalid_siblings_length_def verify_proof_def KEY_SIZE_def VERKLE_RADIX_def test_simps)
qed

text \<open>The root stays, since it depends on what was inserted; the test expects that it is not zero.\<close>

lemma trie_root_test_passes:
  fixes A :: "('f::field, 'p, 'g::ab_group_add) ark"
  assumes A: "dense_poly A" "serializes A" and t0: "tree_new A H memory_storage_new = Some (Inr t0)"
    and nonzero: "root_at A H (tree_insert (repeated_key 1) (str_bytes ''hello'') t0) KEY_SIZE [] \<noteq> 0"
  shows "test_vtrie_insert_and_root_stability A H = Some ()"
proof -
  let ?key = "repeated_key 1" and ?v = "str_bytes ''hello''"
  let ?t = "tree_insert ?key ?v t0" and ?t2 = "tree_insert ?key ?v (snd (get_root A H (tree_insert ?key ?v t0)))"
  have ok: "tree_ok A H ?t" by (rule tree_ok_insert [OF tree_new_wf [OF t0]])
  then have ok2: "tree_ok A H ?t2" by (rule tree_ok_insert [OF tree_ok_root])
  have root: "fst (get_root A H t) = Inr (root_at A H t KEY_SIZE [])"
    "tree_root A H t KEY_SIZE [] = Inr (root_at A H t KEY_SIZE [])" if "tree_ok A H t" for t
    using get_root_result [of A H t] tree_root_total(1) [OF tree_ok_commits [OF A that], of H KEY_SIZE "[]"] that
    by (simp_all add: tree_ok_def)
  have "vt_storage (snd (get_root A H ?t)) = vt_storage ?t" "vt_pc ?t2 = vt_pc ?t" "empty_subtree_scalars ?t2 = empty_subtree_scalars ?t"
    using get_root_result [of A H ?t] ok by (simp_all add: tree_ok_def)
  then have "storage_get (vt_storage ?t2) (key_for_path p) = storage_get (vt_storage ?t) (key_for_path p)" for p
    by (simp add: storage_tree_insert)
  then have "spec_commitment A H (vt_pc ?t) (empty_subtree_scalars ?t) (vt_storage ?t2) KEY_SIZE [] =
      spec_commitment A H (vt_pc ?t) (empty_subtree_scalars ?t) (vt_storage ?t) KEY_SIZE []"
    by (intro spec_commitment_local)
  then have "tree_root A H ?t2 KEY_SIZE [] = tree_root A H ?t KEY_SIZE []"
    unfolding spec_root_def \<open>vt_pc ?t2 = vt_pc ?t\<close> \<open>empty_subtree_scalars ?t2 = empty_subtree_scalars ?t\<close> by (simp only:)
  then have same: "root_at A H ?t2 KEY_SIZE [] = root_at A H ?t KEY_SIZE []"
    unfolding root(2) [OF ok] root(2) [OF ok2] by (rule sum.inject(2) [THEN iffD1])
  from nonzero same root(1) [OF ok] root(1) [OF ok2] show ?thesis
    by (simp add: test_vtrie_insert_and_root_stability_def new_tree_def t0 expect_tree_root_def test_simps)
qed

text \<open>With another first byte the path is that of an absent key, so an accepted proof would collide.\<close>

lemma next_first_key:
  "next_first (array_bytes (repeated_key b)) = array_bytes (from_be_bytes (next_first (array_bytes (repeated_key b))) :: bytes32)"
  "from_be_bytes (next_first (array_bytes (repeated_key b))) \<noteq> repeated_key b"
proof -
  show eq: "next_first (array_bytes (repeated_key b)) = array_bytes (from_be_bytes (next_first (array_bytes (repeated_key b))) :: bytes32)"
    by (simp add: next_first_def to_from_be_bytes)
  have "next_first (array_bytes (repeated_key b)) \<noteq> array_bytes (repeated_key b)"
  proof
    assume "next_first (array_bytes (repeated_key b)) = array_bytes (repeated_key b)"
    then have "next_first (array_bytes (repeated_key b)) ! 0 = array_bytes (repeated_key b) ! 0" by (rule arg_cong)
    then show False by (simp add: next_first_def)
  qed
  with eq show "from_be_bytes (next_first (array_bytes (repeated_key b))) \<noteq> repeated_key b" by metis
qed

lemma trie_path_test_passes:
  fixes A :: "('f::field, 'p, 'g::ab_group_add) ark"
  assumes A: "dense_poly A" "serializes A" and t0: "tree_new A H memory_storage_new = Some (Inr t0)"
    and t: "t = tree_insert (repeated_key 30) (str_bytes ''value'') t0"
    and free: "\<And>pf t'. expect_proof A H (repeated_key 30) t = Some (pf, t') \<Longrightarrow>
      collision_free A H t (pf\<lparr>proof_path := next_first (proof_path pf)\<rparr>) (next_first (proof_path pf)) None"
  shows "test_vtrie_invalid_proof_modified_path A H = Some ()"
proof -
  have small: "length (str_bytes ''value'') < 2 ^ 32" by (simp add: str_bytes_def)
  let ?key' = "from_be_bytes (next_first (array_bytes (repeated_key 30))) :: bytes32"
  obtain pf t' where made: "new_tree A H = Some t0" "expect_proof A H (repeated_key 30) t = Some (pf, t')"
      "leaf_value pf = Some (str_bytes ''value'')" "proof_path pf = array_bytes (repeated_key 30)"
      "tree_root A H t KEY_SIZE [] = Inr (proof_root pf)" "\<And>pf. verify_proof A H t' pf = verify_proof A H t pf"
      "commits_ok A (vt_pc t)" "empties_ok A H t"
    by (rule one_key_proof [OF A t0 small, of "repeated_key 30" "repeated_key 30"]) (simp_all add: t)
  have held: "held_at (vt_storage t) ?key' = None"
    using held_one_key [OF tree_new_nodes [OF t0] small, of "repeated_key 30" ?key'] next_first_key(2) unfolding t by metis
  have "verify_proof A H t (pf\<lparr>proof_path := next_first (proof_path pf)\<rparr>) = Inr False"
    by (rule wrong_claim_refused [OF made(7,8), of _ ?key'])
      (use made(3-5) held free [OF made(2)] next_first_key(1) [of 30] in \<open>simp_all del: array_repeated_key\<close>)
  then show ?thesis
    using made(1,2,6) by (simp add: test_vtrie_invalid_proof_modified_path_def t test_simps)
qed

end
