(* ===== verification/Unit_Tests_Second_Tree.thy ===== *)
theory Unit_Tests_Second_Tree
  imports Unit_Tests_Trees V_Trie_Canonical
begin

text \<open>
  The unit tests of the second Verkle tree (\<open>crypto/verkle/verkle_tree.rs\<close> and
  \<open>crypto/verkle/verkle_tree_test.rs\<close>). The random bytes of the stress tests are a parameter. Not
  here: \<open>test_verkle_commitment_cache_efficiency\<close>, which reads the counters the model leaves out,
  and \<open>test_verkle_tree_proof_verification_ipa_comprehensive\<close>, fifty repetitions of the tests of
  changed proofs.
\<close>

section \<open>What the tests set up\<close>

definition expect_vk_root ::
    "('f::field, 'p, 'g::ab_group_add) ark \<Rightarrow> blake3 \<Rightarrow> ('f, 'g) vk_tree \<Rightarrow> (bytes32 \<times> ('f, 'g) vk_tree) option" where
  "expect_vk_root A H t = do {
     root \<leftarrow> expect_ok (fst (vk_get_root A H t));
     Some (root, snd (vk_get_root A H t))
   }"

definition expect_vk_proof ::
    "('f::field, 'p, 'g::ab_group_add) ark \<Rightarrow> blake3 \<Rightarrow> bytes32 \<Rightarrow> ('f, 'g) vk_tree
       \<Rightarrow> (('f, 'g) vk_proof \<times> ('f, 'g) vk_tree) option" where
  "expect_vk_proof A H key t = do {
     made \<leftarrow> expect_ok (fst (vk_generate_proof A H key t));
     Some (made, snd (vk_generate_proof A H key t))
   }"

definition vk_new :: "('f::field, 'p, 'g::ab_group_add) ark \<Rightarrow> blake3 \<Rightarrow> ('f, 'g) vk_tree option" where
  "vk_new A H = vk_tree_new A H memory_storage_new"

section \<open>The tests of \<open>verkle_tree.rs\<close>\<close>

definition test_verkle_insert_and_get :: "('f::field, 'p, 'g::ab_group_add) ark \<Rightarrow> blake3 \<Rightarrow> test" where
  "test_verkle_insert_and_get A H =
     (let key = repeated_key 1; v = str_bytes ''hello'' in do {
        tree \<leftarrow> vk_new A H;
        retrieved \<leftarrow> expect_ok (vk_get key (vk_insert key v tree));
        check (retrieved = Some v)
      })"

definition test_verkle_insert_and_root_stability :: "('f::field, 'p, 'g::ab_group_add) ark \<Rightarrow> blake3 \<Rightarrow> test" where
  "test_verkle_insert_and_root_stability A H =
     (let key = repeated_key 1; v = str_bytes ''hello'' in do {
        tree \<leftarrow> vk_new A H;
        (root1, tree) \<leftarrow> expect_vk_root A H (vk_insert key v tree);
        check (root1 \<noteq> 0);
        (root2, tree) \<leftarrow> expect_vk_root A H (vk_insert key v tree);
        check (root1 = root2)
      })"

definition test_verkle_multiple_inserts_different_keys :: "('f::field, 'p, 'g::ab_group_add) ark \<Rightarrow> blake3 \<Rightarrow> test" where
  "test_verkle_multiple_inserts_different_keys A H =
     (let key1 = repeated_key 1; value1 = str_bytes ''value1''; key2 = repeated_key 2; value2 = str_bytes ''value2'' in do {
        tree \<leftarrow> vk_new A H;
        (root1, tree) \<leftarrow> expect_vk_root A H (vk_insert key1 value1 tree);
        (root2, tree) \<leftarrow> expect_vk_root A H (vk_insert key2 value2 tree);
        check (root1 \<noteq> root2);
        retrieved1 \<leftarrow> expect_ok (vk_get key1 tree);
        check (retrieved1 = Some value1);
        retrieved2 \<leftarrow> expect_ok (vk_get key2 tree);
        check (retrieved2 = Some value2)
      })"

definition test_verkle_generate_and_verify_membership_proof :: "('f::field, 'p, 'g::ab_group_add) ark \<Rightarrow> blake3 \<Rightarrow> test" where
  "test_verkle_generate_and_verify_membership_proof A H =
     (let key = repeated_key 10; v = str_bytes ''verkle'' in do {
        tree \<leftarrow> vk_new A H;
        (made, tree) \<leftarrow> expect_vk_proof A H key (vk_insert key v tree);
        check (vk_leaf_value made = Some v);
        check (vk_proof_type made = Membership);
        verified \<leftarrow> expect_ok (vk_verify_proof A H tree made);
        check verified
      })"

definition test_verkle_non_membership_proof :: "('f::field, 'p, 'g::ab_group_add) ark \<Rightarrow> blake3 \<Rightarrow> test" where
  "test_verkle_non_membership_proof A H =
     (let inserted_key = repeated_key 10; inserted_value = str_bytes ''verkle''; missing_key = repeated_key 11 in do {
        tree \<leftarrow> vk_new A H;
        (made, tree) \<leftarrow> expect_vk_proof A H missing_key (vk_insert inserted_key inserted_value tree);
        check (vk_leaf_value made = None);
        check (vk_proof_type made = NonMembership);
        verified \<leftarrow> expect_ok (vk_verify_proof A H tree made);
        check verified
      })"

definition test_verkle_invalid_proof_modified_root_hash :: "('f::field, 'p, 'g::ab_group_add) ark \<Rightarrow> blake3 \<Rightarrow> test" where
  "test_verkle_invalid_proof_modified_root_hash A H =
     (let key = repeated_key 20 in do {
        tree \<leftarrow> vk_new A H;
        (made, tree) \<leftarrow> expect_vk_proof A H key (vk_insert key (str_bytes ''value'') tree);
        verified \<leftarrow> expect_ok (vk_verify_proof A H tree (made\<lparr>vk_root := flip_first (vk_root made)\<rparr>));
        check (\<not> verified)
      })"

definition test_verkle_invalid_proof_modified_path :: "('f::field, 'p, 'g::ab_group_add) ark \<Rightarrow> blake3 \<Rightarrow> test" where
  "test_verkle_invalid_proof_modified_path A H =
     (let key = repeated_key 30 in do {
        tree \<leftarrow> vk_new A H;
        (made, tree) \<leftarrow> expect_vk_proof A H key (vk_insert key (str_bytes ''value'') tree);
        verified \<leftarrow> expect_ok (vk_verify_proof A H tree (made\<lparr>vk_path := next_first (vk_path made)\<rparr>));
        check (\<not> verified)
      })"

definition test_verkle_cache_invalidation_incremental_updates :: "('f::field, 'p, 'g::ab_group_add) ark \<Rightarrow> blake3 \<Rightarrow> test" where
  "test_verkle_cache_invalidation_incremental_updates A H = do {
     tree \<leftarrow> vk_new A H;
     (root1, tree) \<leftarrow> expect_vk_root A H (vk_insert (repeated_key 1) (str_bytes ''value1'') tree);
     (root1_again, tree) \<leftarrow> expect_vk_root A H tree;
     check (root1 = root1_again);
     (root2, tree) \<leftarrow> expect_vk_root A H (vk_insert (repeated_key 2) (str_bytes ''value2'') tree);
     check (root1 \<noteq> root2)
   }"

definition test_verkle_serialization_deserialization :: "('f::field, 'p, 'g::ab_group_add) ark \<Rightarrow> blake3 \<Rightarrow> test" where
  "test_verkle_serialization_deserialization A H = do {
     _ \<leftarrow> vk_new A H;
     (let v = str_bytes ''test_value''
      in check (deserialize_node (serialize_node (Some v)) = Some (Some v)))
   }"

section \<open>The tests of \<open>verkle_tree_test.rs\<close>\<close>

text \<open>
  The keys of the stress tests start with the index of the entry, \<open>i.to_le_bytes()\<close>; \<open>fill i\<close> are
  the 28 random bytes that follow and \<open>vals i\<close> is the random value.
\<close>

definition stress_key :: "(nat \<Rightarrow> bytes) \<Rightarrow> nat \<Rightarrow> bytes32" where
  "stress_key fill i = from_be_bytes (to_le_bytes (word_of_nat i :: u32) @ fill i)"

definition stress_pairs :: "(nat \<Rightarrow> bytes) \<Rightarrow> (nat \<Rightarrow> bytes) \<Rightarrow> nat \<Rightarrow> (bytes32 \<times> bytes) list" where
  "stress_pairs fill vals n = map (\<lambda>i. (stress_key fill i, vals i)) [0..<n]"

abbreviation vk_insert_all :: "(bytes32 \<times> bytes) list \<Rightarrow> ('f, 'g) vk_tree \<Rightarrow> ('f, 'g) vk_tree" where
  "vk_insert_all kvs \<equiv> fold (\<lambda>(key, v). vk_insert key v) kvs"

definition test_verkle_tree_stress_inserts_root_consistency ::
    "('f::field, 'p, 'g::ab_group_add) ark \<Rightarrow> blake3 \<Rightarrow> (nat \<Rightarrow> bytes) \<Rightarrow> (nat \<Rightarrow> bytes) \<Rightarrow> test" where
  "test_verkle_tree_stress_inserts_root_consistency A H fill vals =
     (let kv_pairs = stress_pairs fill vals 200 in do {
        tree \<leftarrow> vk_new A H;
        (root_first, tree) \<leftarrow> expect_vk_root A H (vk_insert_all kv_pairs tree);
        for_each kv_pairs (\<lambda>(key, v). do {
          retrieved \<leftarrow> expect_ok (vk_get key tree);
          check (retrieved = Some v)
        });
        tree2 \<leftarrow> vk_new A H;
        (root_second, tree2) \<leftarrow> expect_vk_root A H (vk_insert_all kv_pairs tree2);
        check (root_first = root_second)
      })"

text \<open>The random updates: each replaces the value of the entry with a random index.\<close>

fun update_pairs ::
    "(nat \<times> bytes) list \<Rightarrow> (bytes32 \<times> bytes) list \<Rightarrow> ('f, 'g) vk_tree \<Rightarrow> (bytes32 \<times> bytes) list \<times> ('f, 'g) vk_tree" where
  "update_pairs [] kv_pairs t = (kv_pairs, t)"
| "update_pairs ((idx, new_value) # rest) kv_pairs t =
     (let key = fst (kv_pairs ! idx)
      in update_pairs rest (kv_pairs[idx := (key, new_value)]) (vk_insert key new_value t))"

definition test_verkle_tree_cryptography_stress_1000_plus_pairs ::
    "('f::field, 'p, 'g::ab_group_add) ark \<Rightarrow> blake3 \<Rightarrow> (nat \<Rightarrow> bytes) \<Rightarrow> (nat \<Rightarrow> bytes) \<Rightarrow> (nat \<times> bytes) list \<Rightarrow> test" where
  "test_verkle_tree_cryptography_stress_1000_plus_pairs A H fill vals updates =
     (let kv_pairs = stress_pairs fill vals 300 in do {
        tree \<leftarrow> vk_new A H;
        (root_after_inserts, tree) \<leftarrow> expect_vk_root A H (vk_insert_all kv_pairs tree);
        for_each kv_pairs (\<lambda>(key, expected_value). do {
          retrieved \<leftarrow> expect_ok (vk_get key tree);
          check (retrieved = Some expected_value)
        });
        tree2 \<leftarrow> vk_new A H;
        (root_rebuilt, tree2) \<leftarrow> expect_vk_root A H (vk_insert_all kv_pairs tree2);
        check (root_after_inserts = root_rebuilt);
        (let (kv_pairs, tree) = update_pairs updates kv_pairs tree in do {
           (final_root, tree) \<leftarrow> expect_vk_root A H tree;
           tree3 \<leftarrow> vk_new A H;
           (final_root_rebuilt, tree3) \<leftarrow> expect_vk_root A H (vk_insert_all kv_pairs tree3);
           check (final_root = final_root_rebuilt)
         })
      })"

definition test_verkle_tree_proof_verification_and_tampering :: "('f::field, 'p, 'g::ab_group_add) ark \<Rightarrow> blake3 \<Rightarrow> test" where
  "test_verkle_tree_proof_verification_and_tampering A H =
     (let key = repeated_key 42; v = str_bytes ''verkle_proof_value'' in do {
        tree \<leftarrow> vk_new A H;
        (made, tree) \<leftarrow> expect_vk_proof A H key (vk_insert key v tree);
        check (vk_proof_type made = Membership);
        check (vk_leaf_value made = Some v);
        verified \<leftarrow> expect_ok (vk_verify_proof A H tree made);
        check verified;
        verified1 \<leftarrow> expect_ok (vk_verify_proof A H tree (made\<lparr>vk_root := flip_first (vk_root made)\<rparr>));
        check (\<not> verified1);
        verified2 \<leftarrow> expect_ok (vk_verify_proof A H tree
          (made\<lparr>vk_leaf_value := map_option (\<lambda>leaf. leaf[0 := xor (leaf ! 0) 255]) (vk_leaf_value made)\<rparr>));
        check (\<not> verified2);
        verified3 \<leftarrow> expect_ok (vk_verify_proof A H tree (made\<lparr>vk_path := next_first (vk_path made)\<rparr>));
        check (\<not> verified3)
      })"

definition test_verkle_tree_non_membership_proof_fails_when_data_tampered ::
    "('f::field, 'p, 'g::ab_group_add) ark \<Rightarrow> blake3 \<Rightarrow> test" where
  "test_verkle_tree_non_membership_proof_fails_when_data_tampered A H = do {
     tree \<leftarrow> vk_new A H;
     (made, tree) \<leftarrow> expect_vk_proof A H (repeated_key 2) (vk_insert (repeated_key 1) (str_bytes ''exists'') tree);
     check (vk_proof_type made = NonMembership);
     verified \<leftarrow> expect_ok (vk_verify_proof A H tree made);
     check verified;
     verified1 \<leftarrow> expect_ok (vk_verify_proof A H tree (made\<lparr>vk_leaf_value := Some (str_bytes ''fake'')\<rparr>));
     check (\<not> verified1)
   }"

section \<open>Trees by what was inserted\<close>

definition grown ::
    "('f::field, 'p, 'g::ab_group_add) ark \<Rightarrow> blake3 \<Rightarrow> ('f, 'g) vk_tree \<Rightarrow> (bytes32 \<times> bytes) list \<Rightarrow> ('f, 'g) vk_tree \<Rightarrow> bool" where
  "grown A H t0 kvs t \<longleftrightarrow>
     vk_ok A H t \<and> unpruned t \<and> same_constants t0 t \<and>
     (\<forall>p. storage_get (vk_storage t) (key_for_path p) = storage_get (vt_storage (insert_all kvs (trie_of t0))) (key_for_path p))"

definition contents_root ::
    "('f::field, 'p, 'g::ab_group_add) ark \<Rightarrow> blake3 \<Rightarrow> ('f, 'g) vk_tree \<Rightarrow> (bytes32 \<times> bytes) list \<Rightarrow> bytes32" where
  "contents_root A H t0 kvs = root_at A H (insert_all kvs (trie_of t0)) KEY_SIZE []"

lemma grown_new: "vk_new A H = Some t0 \<Longrightarrow> grown A H t0 [] t0"
  using vk_tree_new_fields [of A H memory_storage_new t0] by (simp add: vk_new_def grown_def unpruned_def same_constants_def)

lemma grown_insert: "grown A H t0 kvs t \<Longrightarrow> grown A H t0 (kvs @ [(key, v)]) (vk_insert key v t)"
  using vk_ok_insert [of A H t key v] unpruned_insert [of t key v]
  by (simp add: grown_def same_constants_def storage_tree_insert)

lemma grown_insert_all: "grown A H t0 kvs t \<Longrightarrow> grown A H t0 (kvs @ kvs') (vk_insert_all kvs' t)"
proof (induction kvs' arbitrary: kvs t)
  case (Cons kv kvs')
  from Cons.IH [OF grown_insert [OF Cons.prems], of "fst kv" "snd kv"] show ?case by (simp add: case_prod_unfold)
qed simp

lemma tree_root_contents:
  fixes A :: "('f::field, 'p, 'g::ab_group_add) ark"
  assumes "dense_poly A" "serializes A" "vk_new A H = Some t0"
  shows "tree_root A H (insert_all kvs (trie_of t0)) KEY_SIZE [] = Inr (contents_root A H t0 kvs)"
proof -
  have new: "vk_tree_new A H memory_storage_new = Some t0" using assms(3) by (simp add: vk_new_def)
  let ?t = "insert_all kvs (trie_of t0)"
  have pc: "commits_ok A (vt_pc ?t)" using vk_new_commits [OF new assms(1,2)] by simp
  have "empty_subtree_roots (insert_all kvs t) = empty_subtree_roots t" for t :: "('f, 'g) verkle_tree"
    by (induction kvs arbitrary: t) (simp_all add: case_prod_unfold)
  then have empties: "empties_ok A H ?t" using vk_new_empties [OF new] by (simp add: empties_ok_def)
  show "tree_root A H ?t KEY_SIZE [] = Inr (contents_root A H t0 kvs)"
    unfolding contents_root_def by (rule tree_root_total(1) [OF pc empties order.refl])
qed

lemma grown_spec_root:
  assumes "dense_poly A" "serializes A" "vk_new A H = Some t0" "grown A H t0 kvs t"
  shows "vk_spec_root A H t = Inr (contents_root A H t0 kvs)"
proof -
  let ?u = "insert_all kvs (trie_of t0)"
  have same: "vk_pc t = vt_pc ?u" "vk_empty_scalars t = empty_subtree_scalars ?u" and unpruned: "unpruned t"
    and st: "storage_get (vk_storage t) (key_for_path p) = storage_get (vt_storage ?u) (key_for_path p)" for p
    using assms(4) by (simp_all add: grown_def same_constants_def)
  have "spec_commitment A H (vt_pc ?u) (empty_subtree_scalars ?u) (vk_storage t) KEY_SIZE [] =
      spec_commitment A H (vt_pc ?u) (empty_subtree_scalars ?u) (vt_storage ?u) KEY_SIZE []"
    by (rule spec_commitment_local) (rule st)
  then have "tree_root A H (trie_of t) KEY_SIZE [] = tree_root A H ?u KEY_SIZE []"
    unfolding spec_root_def trie_of_fields same by (simp only:)
  then show ?thesis
    unfolding vk_root_plain(2) [OF unpruned] tree_root_contents [OF assms(1-3)] by (simp add: or_panic_def)
qed

lemma grown_root:
  assumes "dense_poly A" "serializes A" "vk_new A H = Some t0" "grown A H t0 kvs t"
  obtains t' where "expect_vk_root A H t = Some (contents_root A H t0 kvs, t')" "grown A H t0 kvs t'"
proof -
  have ok: "vk_ok A H t" using assms(4) by (simp add: grown_def)
  have "fst (vk_get_root A H t) = Inr (contents_root A H t0 kvs)"
    using vk_get_root_result [OF ok] grown_spec_root [OF assms] by simp
  moreover have "grown A H t0 kvs (snd (vk_get_root A H t))"
    using assms(4) vk_get_root_result [OF ok] vk_get_root_same [OF ok]
    by (simp add: grown_def unpruned_def same_constants_def)
  ultimately show ?thesis by (intro that) (simp_all add: expect_vk_root_def)
qed

lemma grown_get:
  assumes "vk_new A H = Some t0" "grown A H t0 kvs t" "\<forall>(key, v) \<in> set kvs. length v < 2 ^ 32"
  shows "vk_get key t = Inr (map_of (rev kvs) key)"
proof -
  have new: "vk_tree_new A H memory_storage_new = Some t0" using assms(1) by (simp add: vk_new_def)
  have ne: "array_bytes key \<noteq> []" by (metis length_array_bytes list.size(3) zero_neq_numeral)
  have "get_node_value (vt_storage (insert_all kvs (trie_of t0))) (array_bytes key) = map_of (rev kvs) key"
    using assms(3)
  proof (induction kvs rule: rev_induct)
    case Nil
    then show ?case
      using ne vk_tree_new_fields(8) [OF new]
      by (simp add: get_node_value_def memory.get_put) (simp add: memory_storage_new_def storage_get_def)
  qed (auto simp: get_node_value_insert)
  moreover have "get_node_value (vk_storage t) (array_bytes key) = get_node_value (vt_storage (insert_all kvs (trie_of t0))) (array_bytes key)"
    using assms(2) by (simp add: grown_def get_node_value_def)
  ultimately show ?thesis using assms(2) by (simp add: vk_get_eq grown_def unpruned_def)
qed

text \<open>The root depends on the last value of each key.\<close>

lemma contents_root_by_values:
  assumes "map_of (rev kvs) = map_of (rev kvs')"
  shows "contents_root A H t0 kvs = contents_root A H t0 kvs'"
proof -
  have "spec_commitment A H (vk_pc t0) (vk_empty_scalars t0) (vt_storage (insert_all kvs (trie_of t0))) KEY_SIZE [] =
      spec_commitment A H (vk_pc t0) (vk_empty_scalars t0) (vt_storage (insert_all kvs' (trie_of t0))) KEY_SIZE []"
    by (intro spec_commitment_local storage_same_values assms)
  then show ?thesis by (simp add: contents_root_def root_at_def spec_root_def)
qed

section \<open>The tests pass\<close>

lemma small_texts [simp]: "length (str_bytes txt) = length txt"
  by (simp add: str_bytes_def)

lemma get_test_passes:
  assumes "vk_new A H = Some t0"
  shows "test_verkle_insert_and_get A H = Some ()"
  using grown_get [OF assms grown_insert [OF grown_new [OF assms]], of "repeated_key 1" "str_bytes ''hello''" "repeated_key 1"]
  by (simp add: test_verkle_insert_and_get_def assms test_simps del: vk_insert_fields)

lemma serialization_test_passes:
  assumes "vk_new A H = Some t0"
  shows "test_verkle_serialization_deserialization A H = Some ()"
  by (simp add: test_verkle_serialization_deserialization_def assms deserialize_serialize_Some test_simps)

lemma vk_root_tests_pass:
  fixes A :: "('f::field, 'p, 'g::ab_group_add) ark"
  assumes A: "dense_poly A" "serializes A" and t0: "vk_new A H = Some t0"
  shows "contents_root A H t0 [(repeated_key 1, str_bytes ''hello'')] \<noteq> 0 \<Longrightarrow> test_verkle_insert_and_root_stability A H = Some ()"
    and "contents_root A H t0 [(repeated_key 1, str_bytes ''value1'')] \<noteq>
      contents_root A H t0 [(repeated_key 1, str_bytes ''value1''), (repeated_key 2, str_bytes ''value2'')] \<Longrightarrow>
      test_verkle_multiple_inserts_different_keys A H = Some () \<and>
      test_verkle_cache_invalidation_incremental_updates A H = Some ()"
proof -
  let ?kv = "(repeated_key 1, str_bytes ''hello'')"
  assume nonzero: "contents_root A H t0 [?kv] \<noteq> 0"
  obtain t1 where 1: "expect_vk_root A H (vk_insert (repeated_key 1) (str_bytes ''hello'') t0) = Some (contents_root A H t0 [?kv], t1)"
      "grown A H t0 [?kv] t1"
    using grown_root [OF A t0 grown_insert [OF grown_new [OF t0]], of "repeated_key 1" "str_bytes ''hello''"] by auto
  obtain t2 where 2: "expect_vk_root A H (vk_insert (repeated_key 1) (str_bytes ''hello'') t1) = Some (contents_root A H t0 [?kv, ?kv], t2)"
    using grown_root [OF A t0 grown_insert [OF 1(2)], of "repeated_key 1" "str_bytes ''hello''"] by auto
  have "contents_root A H t0 [?kv, ?kv] = contents_root A H t0 [?kv]" by (rule contents_root_by_values) simp
  then show "test_verkle_insert_and_root_stability A H = Some ()"
    using nonzero by (simp add: test_verkle_insert_and_root_stability_def t0 1(1) 2 test_simps del: vk_insert_fields)
next
  let ?kv1 = "(repeated_key 1, str_bytes ''value1'')" and ?kv2 = "(repeated_key 2, str_bytes ''value2'')"
  assume neq: "contents_root A H t0 [?kv1] \<noteq> contents_root A H t0 [?kv1, ?kv2]"
  obtain t1 where 1: "expect_vk_root A H (vk_insert (repeated_key 1) (str_bytes ''value1'') t0) = Some (contents_root A H t0 [?kv1], t1)"
      "grown A H t0 [?kv1] t1"
    using grown_root [OF A t0 grown_insert [OF grown_new [OF t0]], of "repeated_key 1" "str_bytes ''value1''"] by auto
  obtain t1' where again: "expect_vk_root A H t1 = Some (contents_root A H t0 [?kv1], t1')" "grown A H t0 [?kv1] t1'"
    using grown_root [OF A t0 1(2)] .
  have second: "\<exists>t2. expect_vk_root A H (vk_insert (repeated_key 2) (str_bytes ''value2'') t) = Some (contents_root A H t0 [?kv1, ?kv2], t2) \<and>
      grown A H t0 [?kv1, ?kv2] t2" if "grown A H t0 [?kv1] t" for t
    using grown_root [OF A t0 grown_insert [OF that], of "repeated_key 2" "str_bytes ''value2''"] by auto
  obtain t2 where 2: "expect_vk_root A H (vk_insert (repeated_key 2) (str_bytes ''value2'') t1) = Some (contents_root A H t0 [?kv1, ?kv2], t2)"
      "grown A H t0 [?kv1, ?kv2] t2" using second [OF 1(2)] by blast
  obtain t3 where 3: "expect_vk_root A H (vk_insert (repeated_key 2) (str_bytes ''value2'') t1') = Some (contents_root A H t0 [?kv1, ?kv2], t3)"
    using second [OF again(2)] by blast
  have "vk_get key t2 = Inr (map_of [?kv2, ?kv1] key)" for key
    using grown_get [OF t0 2(2), of key] by simp
  then show "test_verkle_multiple_inserts_different_keys A H = Some () \<and>
      test_verkle_cache_invalidation_incremental_updates A H = Some ()"
    using neq
    by (simp add: test_verkle_multiple_inserts_different_keys_def test_verkle_cache_invalidation_incremental_updates_def
        t0 1(1) again(1) 2(1) 3 test_simps del: vk_insert_fields)
qed

text \<open>The stress tests: the keys are different since their indices are.\<close>

lemma stress_keys_distinct:
  assumes "\<And>i. length (fill i) = 28" "n < 2 ^ 32"
  shows "distinct (map fst (stress_pairs fill vals n))"
proof -
  have "i = j" if "stress_key fill i = stress_key fill j" "i < n" "j < n" for i j
  proof -
    let ?bs = "\<lambda>i. to_le_bytes (word_of_nat i :: u32) @ fill i"
    have "array_bytes (stress_key fill i) = ?bs i" for i
      using assms(1) [of i] by (simp add: stress_key_def to_from_be_bytes to_le_bytes_def)
    then have "?bs i = ?bs j" using that(1) by metis
    then have "to_le_bytes (word_of_nat i :: u32) = to_le_bytes (word_of_nat j :: u32)" by (simp add: to_le_bytes_def)
    then have "from_le_bytes (to_le_bytes (word_of_nat i :: u32)) = (from_le_bytes (to_le_bytes (word_of_nat j :: u32)) :: u32)"
      by (rule arg_cong)
    then have "(word_of_nat i :: u32) = word_of_nat j" by (simp add: from_to_le_bytes)
    then show "i = j" using that(2,3) assms(2) by (simp add: word_of_nat_eq_iff take_bit_nat_eq_self)
  qed
  then have "inj_on (stress_key fill) {0..<n}" by (auto intro: inj_onI)
  then show ?thesis by (simp add: stress_pairs_def comp_def distinct_map)
qed

lemma map_of_rev_distinct: "distinct (map fst kvs) \<Longrightarrow> (key, v) \<in> set kvs \<Longrightarrow> map_of (rev kvs) key = Some v"
  by (simp add: rev_map [symmetric])

lemma stress_reads:
  assumes "vk_new A H = Some t0" "grown A H t0 (stress_pairs fill vals n) t" "n < 2 ^ 32"
    and "\<And>i. length (fill i) = 28" "\<And>i. length (vals i) < 2 ^ 32" "(key, v) \<in> set (stress_pairs fill vals n)"
  shows "vk_get key t = Inr (Some v)"
proof -
  have "\<forall>(key, v) \<in> set (stress_pairs fill vals n). length v < 2 ^ 32" using assms(5) by (auto simp: stress_pairs_def)
  from grown_get [OF assms(1,2) this, of key] show ?thesis
    using map_of_rev_distinct [OF stress_keys_distinct [OF assms(4,3)] assms(6)] by simp
qed

lemma stress_test_passes:
  fixes A :: "('f::field, 'p, 'g::ab_group_add) ark"
  assumes A: "dense_poly A" "serializes A" and t0: "vk_new A H = Some t0"
    and random: "\<And>i. length (fill i) = 28" "\<And>i. length (vals i) = 32"
  shows "test_verkle_tree_stress_inserts_root_consistency A H fill vals = Some ()"
proof -
  let ?kvs = "stress_pairs fill vals 200"
  obtain t1 where 1: "expect_vk_root A H (vk_insert_all ?kvs t0) = Some (contents_root A H t0 ?kvs, t1)" "grown A H t0 ?kvs t1"
    using grown_root [OF A t0 grown_insert_all [OF grown_new [OF t0], of ?kvs]] by auto
  have "vk_get key t1 = Inr (Some v)" if "(key, v) \<in> set ?kvs" for key v
    using stress_reads [OF t0 1(2) _ random(1) _ that] random(2) by simp
  then show ?thesis
    by (auto simp: test_verkle_tree_stress_inserts_root_consistency_def t0 1(1) Let_def test_simps)
qed

text \<open>Replacing a value in the list is inserting it: the keys are different.\<close>

lemma map_of_rev_update:
  assumes "distinct (map fst kvs)" "i < length kvs"
  shows "map_of (rev (kvs[i := (fst (kvs ! i), v)])) = (map_of (rev kvs))(fst (kvs ! i) \<mapsto> v)"
proof -
  let ?kvs = "kvs[i := (fst (kvs ! i), v)]"
  have keys: "map fst ?kvs = map fst kvs" by (simp add: map_update list_update_same_conv assms(2))
  show ?thesis
  proof
    fix key
    have "key \<in> fst ` set kvs \<Longrightarrow> \<exists>j < length kvs. fst (kvs ! j) = key" by (force simp: in_set_conv_nth)
    moreover have "map_of (rev ?kvs) (fst (kvs ! j)) = ((map_of (rev kvs))(fst (kvs ! i) \<mapsto> v)) (fst (kvs ! j))"
      if "j < length kvs" for j
    proof -
      have "(fst (kvs ! j), snd (?kvs ! j)) \<in> set ?kvs" using that nth_mem [of j ?kvs] by (cases "i = j") simp_all
      moreover have "distinct (map fst ?kvs)" unfolding keys by (rule assms(1))
      ultimately have "map_of (rev ?kvs) (fst (kvs ! j)) = Some (snd (?kvs ! j))" by (rule map_of_rev_distinct [rotated])
      moreover have "map_of (rev kvs) (fst (kvs ! j)) = Some (snd (kvs ! j))"
        using map_of_rev_distinct [OF assms(1)] that by simp
      moreover have "fst (kvs ! j) = fst (kvs ! i) \<longleftrightarrow> j = i"
        using nth_eq_iff_index_eq [OF assms(1)] that assms(2) by simp
      ultimately show ?thesis using assms(2) by auto
    qed
    moreover have "map_of (rev ?kvs) key = None \<and> map_of (rev kvs) key = None \<and> key \<noteq> fst (kvs ! i)" if "key \<notin> fst ` set kvs"
    proof -
      have "fst (kvs ! i) \<in> fst ` set kvs" using nth_mem [OF assms(2)] by (rule imageI)
      moreover have "fst ` set ?kvs = fst ` set kvs" using arg_cong [OF keys, of set] by simp
      ultimately show ?thesis using that by (auto simp: map_of_eq_None_iff)
    qed
    ultimately show "map_of (rev ?kvs) key = ((map_of (rev kvs))(fst (kvs ! i) \<mapsto> v)) key"
      by (cases "key \<in> fst ` set kvs") (metis, simp)
  qed
qed

lemma update_pairs_grown:
  assumes "grown A H t0 kvs' t" "map_of (rev kvs') = map_of (rev kvs)" "distinct (map fst kvs)"
    and "\<forall>(i, v) \<in> set updates. i < length kvs" "update_pairs updates kvs t = (kvs1, t1)"
  shows "\<exists>kvs2. grown A H t0 kvs2 t1 \<and> map_of (rev kvs2) = map_of (rev kvs1)"
  using assms
proof (induction updates arbitrary: kvs kvs' t)
  case (Cons update updates)
  obtain i v where u: "update = (i, v)" by fastforce
  have i: "i < length kvs" using Cons.prems(4) by (simp add: u)
  let ?key = "fst (kvs ! i)"
  have "map fst (kvs[i := (?key, v)]) = map fst kvs" by (simp add: map_update list_update_same_conv i)
  then have "distinct (map fst (kvs[i := (?key, v)]))" using Cons.prems(3) by simp
  moreover have "map_of (rev (kvs' @ [(?key, v)])) = map_of (rev (kvs[i := (?key, v)]))"
    unfolding map_of_rev_update [OF Cons.prems(3) i, of v] by (simp add: Cons.prems(2))
  moreover have "\<forall>(j, v) \<in> set updates. j < length (kvs[i := (?key, v)])" using Cons.prems(4) by auto
  moreover have "update_pairs updates (kvs[i := (?key, v)]) (vk_insert ?key v t) = (kvs1, t1)"
    using Cons.prems(5) by (simp add: u Let_def)
  ultimately show ?case by (intro Cons.IH [OF grown_insert [OF Cons.prems(1), of ?key v]]) simp_all
qed auto

lemma stress_updates_test_passes:
  fixes A :: "('f::field, 'p, 'g::ab_group_add) ark"
  assumes A: "dense_poly A" "serializes A" and t0: "vk_new A H = Some t0"
    and random: "\<And>i. length (fill i) = 28" "\<And>i. length (vals i) \<le> 64" "\<forall>(i, v) \<in> set updates. i < 300"
  shows "test_verkle_tree_cryptography_stress_1000_plus_pairs A H fill vals updates = Some ()"
proof -
  let ?kvs = "stress_pairs fill vals 300"
  obtain t1 where 1: "expect_vk_root A H (vk_insert_all ?kvs t0) = Some (contents_root A H t0 ?kvs, t1)" "grown A H t0 ?kvs t1"
    using grown_root [OF A t0 grown_insert_all [OF grown_new [OF t0], of ?kvs]] by auto
  have vals: "length (vals i) < 2 ^ 32" for i by (rule order.strict_trans1 [OF random(2)]) simp
  have reads: "vk_get key t1 = Inr (Some v)" if "(key, v) \<in> set ?kvs" for key v
    using stress_reads [OF t0 1(2) _ random(1) vals that] by simp
  obtain kvs2 t2 where 2: "update_pairs updates ?kvs t1 = (kvs2, t2)" by fastforce
  have distinct: "distinct (map fst ?kvs)" by (rule stress_keys_distinct [OF random(1)]) simp
  have idx: "\<forall>(i, v) \<in> set updates. i < length ?kvs" using random(3) by (simp add: stress_pairs_def)
  obtain kvs3 where 3: "grown A H t0 kvs3 t2" "map_of (rev kvs3) = map_of (rev kvs2)"
    using update_pairs_grown [OF 1(2) refl distinct idx 2] by blast
  obtain t4 where "expect_vk_root A H t2 = Some (contents_root A H t0 kvs3, t4)" using grown_root [OF A t0 3(1)] .
  moreover obtain t5 where "expect_vk_root A H (vk_insert_all kvs2 t0) = Some (contents_root A H t0 kvs2, t5)"
    using grown_root [OF A t0 grown_insert_all [OF grown_new [OF t0], of kvs2]] by auto
  moreover have "contents_root A H t0 kvs3 = contents_root A H t0 kvs2" by (rule contents_root_by_values [OF 3(2)])
  ultimately show ?thesis
    using reads by (auto simp: test_verkle_tree_cryptography_stress_1000_plus_pairs_def t0 1(1) 2 Let_def test_simps)
qed

text \<open>
  The tests of proofs. The verifier decides like that of the first tree on the same nodes, so what
  refuses a changed proof there refuses it here.
\<close>

lemma one_key_vk_proof:
  fixes A :: "('f::field, 'p, 'g::ab_group_add) ark"
  assumes "dense_poly A" "serializes A" "vk_new A H = Some t0" "length v < 2 ^ 32" "openable A H (vk_insert key' v t0) key"
  obtains pf t' where "expect_vk_proof A H key (vk_insert key' v t0) = Some (pf, t')"
    "vk_leaf_value pf = (if key = key' then Some v else None)"
    "vk_proof_type pf = (if key = key' then Membership else NonMembership)"
    "vk_path pf = array_bytes key"
    "tree_root A H (trie_of (vk_insert key' v t0)) KEY_SIZE [] = Inr (vk_root pf)"
    "vk_verify_proof A H t' pf = Inr True"
    "verify_proof A H (trie_of (vk_insert key' v t0)) (trie_proof pf) = Inr True"
    "\<And>pf. verify_proof A H (trie_of (vk_insert key' v t0)) (trie_proof pf) = Inr False \<Longrightarrow> vk_verify_proof A H t' pf = Inr False"
    "commits_ok A (vt_pc (trie_of (vk_insert key' v t0)))" "empties_ok A H (trie_of (vk_insert key' v t0))"
proof -
  let ?t = "vk_insert key' v t0"
  have new: "vk_tree_new A H memory_storage_new = Some t0" using assms(3) by (simp add: vk_new_def)
  have ok: "vk_ok A H ?t" "provable A H ?t"
    using inserted_provable [OF assms(1,2) new, of "[(key', v)]"] by (simp_all del: vk_insert_fields)
  note pv = provableD [OF ok(2)]
  obtain pf t' where made: "vk_generate_proof A H key ?t = (Inr pf, t')" "vk_spec_root A H ?t = Inr (vk_root pf)"
      "vk_leaf_value pf = held_at (vk_storage ?t) key" "vk_verify_proof A H t' pf = Inr True"
      "vk_path pf = array_bytes key" "vk_proof_type pf = Membership \<longleftrightarrow> vk_leaf_value pf \<noteq> None"
      "vk_pc t' = vk_pc ?t" "vk_empty_roots t' = vk_empty_roots ?t"
    using vk_generated_proof [OF ok assms(5)] by blast
  have nodes: "storage_get (vt_storage (trie_of t0)) (key_for_path p) = None" if "p \<noteq> []" for p
    using that vk_tree_new_fields(8) [OF new] by (simp add: memory.get_put) (simp add: memory_storage_new_def storage_get_def)
  have held: "vk_leaf_value pf = (if key = key' then Some v else None)"
    unfolding made(3) vk_insert_fields(6) by (rule held_one_key [OF nodes assms(4)])
  have root: "tree_root A H (trie_of ?t) KEY_SIZE [] = Inr (vk_root pf)"
    using trie_root_total(2) [OF ok(2) order.refl] tree_root_total(1) [OF pv(2,3) order.refl, of "[]"] made(2) by simp
  have pc': "commits_ok A (vk_pc t')" using pv(2) made(7) by simp
  have same: "verify_proof A H (trie_of t') pf = verify_proof A H (trie_of ?t) pf" for pf
    by (rule verify_same_constants) (simp_all only: trie_of_fields made(7,8))
  have "verify_proof A H (trie_of ?t) (trie_proof pf) = Inr True"
    using made(4) unfolding vk_verify_proof_eq [OF pc'] same by simp
  moreover have "vk_verify_proof A H t' pf = Inr False" if "verify_proof A H (trie_of ?t) (trie_proof pf) = Inr False" for pf
    unfolding vk_verify_proof_eq [OF pc'] same that by simp
  moreover have "vk_proof_type pf = (if key = key' then Membership else NonMembership)"
    using made(6) held by (cases "vk_proof_type pf") (auto split: if_splits)
  moreover have "expect_vk_proof A H key ?t = Some (pf, t')" by (simp add: expect_vk_proof_def made(1) del: vk_insert_fields)
  ultimately show ?thesis
    by (intro that [of pf t'] held made(4,5) root pv(2,3))
qed

lemma trie_proof_changed [simp]:
  "trie_proof (pf\<lparr>vk_root := r\<rparr>) = (trie_proof pf)\<lparr>proof_root := r\<rparr>"
  "trie_proof (pf\<lparr>vk_path := p\<rparr>) = (trie_proof pf)\<lparr>proof_path := p\<rparr>"
  "trie_proof (pf\<lparr>vk_leaf_value := l\<rparr>) = (trie_proof pf)\<lparr>leaf_value := l\<rparr>"
  by (simp_all add: trie_proof_def)

lemma vk_proof_tests_pass:
  fixes A :: "('f::field, 'p, 'g::ab_group_add) ark"
  assumes A: "dense_poly A" "serializes A" and t0: "vk_new A H = Some t0"
    and opens: "openable A H (vk_insert (repeated_key 10) (str_bytes ''verkle'') t0) (repeated_key 10)"
      "openable A H (vk_insert (repeated_key 10) (str_bytes ''verkle'') t0) (repeated_key 11)"
      "openable A H (vk_insert (repeated_key 20) (str_bytes ''value'') t0) (repeated_key 20)"
      "openable A H (vk_insert (repeated_key 1) (str_bytes ''exists'') t0) (repeated_key 2)"
  shows "test_verkle_generate_and_verify_membership_proof A H = Some ()" "test_verkle_non_membership_proof A H = Some ()"
    "test_verkle_invalid_proof_modified_root_hash A H = Some ()"
    "test_verkle_tree_non_membership_proof_fails_when_data_tampered A H = Some ()"
proof -
  have small: "length (str_bytes ''verkle'') < 2 ^ 32" "length (str_bytes ''value'') < 2 ^ 32"
    "length (str_bytes ''exists'') < 2 ^ 32" by simp_all
  show "test_verkle_generate_and_verify_membership_proof A H = Some ()"
    by (rule one_key_vk_proof [OF A t0 small(1) opens(1)])
      (simp add: test_verkle_generate_and_verify_membership_proof_def t0 test_simps del: vk_insert_fields)
  show "test_verkle_non_membership_proof A H = Some ()"
    by (rule one_key_vk_proof [OF A t0 small(1) opens(2)])
      (simp add: test_verkle_non_membership_proof_def t0 test_simps del: vk_insert_fields)
  show "test_verkle_invalid_proof_modified_root_hash A H = Some ()"
    by (rule one_key_vk_proof [OF A t0 small(2) opens(3)])
      (simp add: test_verkle_invalid_proof_modified_root_hash_def t0 changed_root_refused test_simps
        del: vk_insert_fields)
  show "test_verkle_tree_non_membership_proof_fails_when_data_tampered A H = Some ()"
    by (rule one_key_vk_proof [OF A t0 small(3) opens(4)])
      (simp add: test_verkle_tree_non_membership_proof_fails_when_data_tampered_def t0 vk_verify_proof_def test_simps
        del: vk_insert_fields)
qed

text \<open>
  A path whose first byte was changed claims a value for an absent key. The hypothesis: the changed
  proof and the tree do not collide.
\<close>

lemma changed_path_refused:
  assumes "dense_poly A" "serializes A" "vk_new A H = Some t0" "length v < 2 ^ 32"
    and "commits_ok A (vt_pc (trie_of (vk_insert (repeated_key b) v t0)))" "empties_ok A H (trie_of (vk_insert (repeated_key b) v t0))"
    and "tree_root A H (trie_of (vk_insert (repeated_key b) v t0)) KEY_SIZE [] = Inr (proof_root pf)"
    and "leaf_value pf = Some v" "proof_path pf = array_bytes (repeated_key b)"
    and "collision_free A H (trie_of (vk_insert (repeated_key b) v t0)) (pf\<lparr>proof_path := next_first (proof_path pf)\<rparr>)
      (next_first (proof_path pf)) None"
  shows "verify_proof A H (trie_of (vk_insert (repeated_key b) v t0)) (pf\<lparr>proof_path := next_first (proof_path pf)\<rparr>) = Inr False"
proof -
  let ?key' = "from_be_bytes (next_first (array_bytes (repeated_key b))) :: bytes32"
  have new: "vk_tree_new A H memory_storage_new = Some t0" using assms(3) by (simp add: vk_new_def)
  have nodes: "storage_get (vt_storage (trie_of t0)) (key_for_path p) = None" if "p \<noteq> []" for p
    using that vk_tree_new_fields(8) [OF new] by (simp add: memory.get_put) (simp add: memory_storage_new_def storage_get_def)
  have "held_at (vt_storage (trie_of (vk_insert (repeated_key b) v t0))) ?key' = (if ?key' = repeated_key b then Some v else None)"
    unfolding trie_of_fields vk_insert_fields(6) by (rule held_one_key [OF nodes assms(4)])
  then have held: "held_at (vt_storage (trie_of (vk_insert (repeated_key b) v t0))) ?key' = None"
    unfolding if_not_P [OF next_first_key(2)] .
  show ?thesis
    by (rule wrong_claim_refused [OF assms(5,6), of _ ?key'])
      (use assms(7-10) held next_first_key(1) [of b] in
        \<open>simp_all del: array_repeated_key vk_insert_fields trie_of_fields\<close>)
qed

lemma vk_path_test_passes:
  fixes A :: "('f::field, 'p, 'g::ab_group_add) ark"
  assumes A: "dense_poly A" "serializes A" and t0: "vk_new A H = Some t0"
    and t: "t = vk_insert (repeated_key 30) (str_bytes ''value'') t0" and opens: "openable A H t (repeated_key 30)"
    and free: "\<And>pf t'. expect_vk_proof A H (repeated_key 30) t = Some (pf, t') \<Longrightarrow>
      collision_free A H (trie_of t) (trie_proof (pf\<lparr>vk_path := next_first (vk_path pf)\<rparr>)) (next_first (vk_path pf)) None"
  shows "test_verkle_invalid_proof_modified_path A H = Some ()"
proof -
  have small: "length (str_bytes ''value'') < 2 ^ 32" by simp
  obtain pf t' where made: "expect_vk_proof A H (repeated_key 30) t = Some (pf, t')"
      "vk_leaf_value pf = Some (str_bytes ''value'')" "vk_path pf = array_bytes (repeated_key 30)"
      "tree_root A H (trie_of t) KEY_SIZE [] = Inr (vk_root pf)"
      "\<And>pf. verify_proof A H (trie_of t) (trie_proof pf) = Inr False \<Longrightarrow> vk_verify_proof A H t' pf = Inr False"
      "commits_ok A (vt_pc (trie_of t))" "empties_ok A H (trie_of t)"
    unfolding t by (rule one_key_vk_proof [OF A t0 small opens [unfolded t]]) (simp del: vk_insert_fields trie_of_fields)
  have "verify_proof A H (trie_of t) ((trie_proof pf)\<lparr>proof_path := next_first (proof_path (trie_proof pf))\<rparr>) = Inr False"
    unfolding t
    by (rule changed_path_refused [OF A t0 small])
      (use made free [OF made(1)] in \<open>simp_all add: t del: array_repeated_key vk_insert_fields trie_of_fields\<close>)
  then have "vk_verify_proof A H t' (pf\<lparr>vk_path := next_first (vk_path pf)\<rparr>) = Inr False" by (intro made(5)) simp
  then show ?thesis
    using made(1) by (simp add: test_verkle_invalid_proof_modified_path_def t0 t test_simps del: vk_insert_fields)
qed

lemma flipped_byte_neq: "xor b 255 \<noteq> (b :: byte)"
proof
  assume "xor b 255 = b"
  then have "xor b (xor b 255) = xor b b" by simp
  then have "(255 :: byte) = 0" by (simp add: xor.assoc [symmetric])
  then show False by simp
qed

lemma tampering_test_passes:
  fixes A :: "('f::field, 'p, 'g::ab_group_add) ark"
  assumes A: "dense_poly A" "serializes A" and t0: "vk_new A H = Some t0"
    and t: "t = vk_insert (repeated_key 42) (str_bytes ''verkle_proof_value'') t0" and opens: "openable A H t (repeated_key 42)"
    and free: "\<And>pf t'. expect_vk_proof A H (repeated_key 42) t = Some (pf, t') \<Longrightarrow>
      collision_free A H (trie_of t) (trie_proof (pf\<lparr>vk_path := next_first (vk_path pf)\<rparr>)) (next_first (vk_path pf)) None"
      "\<And>pf t'. expect_vk_proof A H (repeated_key 42) t = Some (pf, t') \<Longrightarrow>
      collision_free A H (trie_of t)
        (trie_proof (pf\<lparr>vk_leaf_value := map_option (\<lambda>leaf. leaf[0 := xor (leaf ! 0) 255]) (vk_leaf_value pf)\<rparr>))
        (vk_path pf) (vk_leaf_value pf)"
  shows "test_verkle_tree_proof_verification_and_tampering A H = Some ()"
proof -
  let ?v = "str_bytes ''verkle_proof_value''" and ?key = "repeated_key 42"
  let ?v' = "?v[0 := xor (?v ! 0) 255]"
  have small: "length ?v < 2 ^ 32" by simp
  have new: "vk_tree_new A H memory_storage_new = Some t0" using t0 by (simp add: vk_new_def)
  have nodes: "storage_get (vt_storage (trie_of t0)) (key_for_path p) = None" if "p \<noteq> []" for p
    using that vk_tree_new_fields(8) [OF new] by (simp add: memory.get_put) (simp add: memory_storage_new_def storage_get_def)
  obtain pf t' where made: "expect_vk_proof A H ?key t = Some (pf, t')"
      "vk_leaf_value pf = Some ?v" "vk_proof_type pf = Membership" "vk_path pf = array_bytes ?key"
      "tree_root A H (trie_of t) KEY_SIZE [] = Inr (vk_root pf)"
      "vk_verify_proof A H t' pf = Inr True" "verify_proof A H (trie_of t) (trie_proof pf) = Inr True"
      "\<And>pf. verify_proof A H (trie_of t) (trie_proof pf) = Inr False \<Longrightarrow> vk_verify_proof A H t' pf = Inr False"
      "commits_ok A (vt_pc (trie_of t))" "empties_ok A H (trie_of t)"
    unfolding t by (rule one_key_vk_proof [OF A t0 small opens [unfolded t]]) (simp del: vk_insert_fields trie_of_fields)
  have "verify_proof A H (trie_of t) ((trie_proof pf)\<lparr>proof_path := next_first (proof_path (trie_proof pf))\<rparr>) = Inr False"
    unfolding t
    by (rule changed_path_refused [OF A t0 small])
      (use made free(1) [OF made(1)] in \<open>simp_all add: t del: array_repeated_key vk_insert_fields trie_of_fields\<close>)
  then have path: "vk_verify_proof A H t' (pf\<lparr>vk_path := next_first (vk_path pf)\<rparr>) = Inr False" by (intro made(8)) simp
  have root: "vk_verify_proof A H t' (pf\<lparr>vk_root := flip_first (vk_root pf)\<rparr>) = Inr False"
    by (rule made(8)) (simp add: changed_root_refused [OF made(9,10,7)] del: trie_of_fields)
  have held: "held_at (vt_storage (trie_of t)) ?key = Some ?v"
    unfolding t trie_of_fields vk_insert_fields(6) using held_one_key [OF nodes small, of ?key ?key] by (simp only: if_True simp_thms)
  have "?v' \<noteq> ?v"
  proof
    assume "?v' = ?v"
    then have "?v' ! 0 = ?v ! 0" by simp
    then show False using flipped_byte_neq by (simp add: str_bytes_def)
  qed
  then have "verify_proof A H (trie_of t) (trie_proof (pf\<lparr>vk_leaf_value := Some ?v'\<rparr>)) = Inr False"
    by (intro wrong_claim_refused [OF made(9,10), of _ ?key])
      (use made(2,4,5) held free(2) [OF made(1)] in
        \<open>simp_all del: array_repeated_key vk_insert_fields trie_of_fields\<close>)
  then have "vk_verify_proof A H t' (pf\<lparr>vk_leaf_value := Some ?v'\<rparr>) = Inr False" by (rule made(8))
  then show ?thesis
    using made(1-3,6) path root
    by (simp add: test_verkle_tree_proof_verification_and_tampering_def t0 t test_simps del: vk_insert_fields)
qed

end
