(* ===== verification/Spec2Isabelle.thy ===== *)
theory Spec2Isabelle
  imports Transaction Schnorr Utxo Dag Ghostdag Topo_Sort Ghostdag_Process Finality Emission
    Reward Chain_State Pow Storage Gas_Meter Scheduler Poly_Commit V_Trie V_Trie_Store V_Trie_Cache
    V_Trie_Proof Block_Validation Manager_State Vm_Executor State_Manager Manager_Blocks
    Manager_History Group_Execution Float64 Difficulty Ipa_Tree Ipa_Tree_Cache Ipa_Tree_Ops
    Ipa_Tree_Proof Ipa_Tree_Root V_Trie_Sound V_Trie_Typed V_Trie_Canonical Signing Node_Entry
    Unit_Tests Unit_Tests_Commit Unit_Tests_Manager Unit_Tests_Trees Unit_Tests_Second_Tree
begin

text \<open>
  Verification development for the Rust crate \<open>klomang-core\<close> (a block-DAG ledger with a Verkle
  state tree and WASM contracts). File names below are relative to \<open>src/core/\<close>.

  \<^bold>\<open>The program.\<close> Blocks form a graph (\<open>dag/\<close>) that the GHOSTDAG rule (\<open>consensus/ghostdag.rs\<close>)
  colours blue or red and orders. Blocks carry transactions (\<open>state/transaction.rs\<close>), either plain
  ones that move unspent outputs or ones with a contract; their inputs are signed
  (\<open>crypto/schnorr.rs\<close>). There are two ledgers: the older \<open>BlockchainState\<close> (\<open>state/mod.rs\<close>) works
  on the UTXO set (\<open>state/utxo.rs\<close>) alone, the \<open>StateManager\<close> (\<open>state_manager.rs\<close>) keeps the UTXO
  set and a Verkle tree (\<open>state/v_trie.rs\<close>) in step, takes a snapshot per block, and runs contracts
  (\<open>vm/executor.rs\<close>) that read and write the tree under a gas budget (\<open>vm/gas_meter.rs\<close>). The tree
  commits to its nodes with polynomial commitments
  (\<open>crypto/verkle/polynomial_commitment.rs\<close>). A second tree (\<open>crypto/verkle/verkle_tree.rs\<close>),
  which the state manager does not use, keeps commitments for pruned paths, adds opening proofs and
  computes the root of a UTXO set. Miners search nonces (\<open>pow/\<close>) for a difficulty that follows the
  block times (\<open>daa/difficulty.rs\<close>). The reward rules (\<open>consensus/emission.rs\<close>,
  \<open>reward.rs\<close>, \<open>economic_constants.rs\<close>) fix the supply; the scheduler (\<open>scheduler/parallel.rs\<close>)
  groups transactions that do not conflict and has the state manager apply each group.

  \<^bold>\<open>Theories.\<close>
  \<^item> \<open>Klomang_Prelude\<close>: integer types, Rust's checked and saturating arithmetic, byte encodings,
    sums as results, insertion sort by a comparison, the fact collections. \<open>Core_Types\<close>: the
    32-byte hash and its order (\<open>crypto/hash.rs\<close>), errors (\<open>errors.rs\<close>), \<open>config.rs\<close>.
  \<^item> \<open>Transaction\<close>: \<open>state/transaction.rs\<close>, \<open>state/access_set.rs\<close>. \<open>Schnorr\<close>:
    \<open>crypto/schnorr.rs\<close>; \<open>Signing\<close>: key pairs, and signed transactions pass all checks.
    \<open>Utxo\<close>: \<open>state/utxo.rs\<close>, each operation characterised on every branch,
    value conservation, reversal. \<open>Chain_State\<close>: \<open>state/mod.rs\<close>, atomic blocks.
  \<^item> \<open>Graph_Search\<close>: the two stack-driven walks of the code and what they visit. \<open>Dag\<close>: \<open>dag/\<close>,
    with the well-formedness of graphs and the walks as reachability. \<open>Ghostdag\<close>: the definitions
    of \<open>consensus/ghostdag.rs\<close> and \<open>ordering.rs\<close>; \<open>Topo_Sort\<close>: Kahn's algorithm is correct;
    \<open>Ghostdag_Process\<close>: the invariant of coloured graphs, \<open>process_block\<close> returns and keeps it;
    \<open>Finality\<close>: orderings, selected chain, finality. \<open>Block_Validation\<close>: \<open>validate_block\<close> with
    what it calls, against the Verkle tree.
  \<^item> \<open>Emission\<close>: \<open>consensus/emission.rs\<close>, \<open>economic_constants.rs\<close>. \<open>Reward\<close>:
    \<open>consensus/reward.rs\<close>. \<open>Pow\<close>: \<open>pow/hash.rs\<close>, \<open>pow/miner.rs\<close>. \<open>Float64\<close>: the arithmetic of
    \<open>f64\<close> on rationals, rounded to nearest even. \<open>Difficulty\<close>: \<open>daa/difficulty.rs\<close> and
    \<open>calculate_next_difficulty\<close> of \<open>pow/miner.rs\<close>, and by how much a difficulty moves.
  \<^item> \<open>Storage\<close>: the trait of \<open>state/storage.rs\<close> as a locale, \<open>MemoryStorage\<close> as its model.
    \<open>Poly_Commit\<close>: polynomial commitments. \<open>V_Trie\<close>: the definitions of the Verkle tree;
    \<open>V_Trie_Store\<close>: the tree as a map; \<open>V_Trie_Cache\<close>: the cache is coherent; \<open>V_Trie_Proof\<close>:
    the cached tree refines the uncached one, and its proofs are accepted; \<open>V_Trie_Sound\<close>: accepted
    proofs are true up to named collisions; \<open>V_Trie_Canonical\<close>: the root does not depend on the
    order of insertions; \<open>V_Trie_Typed\<close>: the type of the store.
  \<^item> \<open>Ipa_Tree\<close>: the definitions of \<open>crypto/verkle/verkle_tree.rs\<close>; \<open>Ipa_Tree_Cache\<close>: its
    specification with kept commitments, the coherence of cache and root; \<open>Ipa_Tree_Ops\<close>: every
    operation keeps them; \<open>Ipa_Tree_Proof\<close>: totality, proofs; \<open>Ipa_Tree_Root\<close>: the properties, among
    them the agreement with the first tree.
  \<^item> \<open>Gas_Meter\<close>: \<open>vm/gas_meter.rs\<close>. \<open>Manager_State\<close>: the record of \<open>state_manager.rs\<close> and the
    operations contracts use. \<open>Vm_Executor\<close>: \<open>vm/executor.rs\<close>. \<open>State_Manager\<close>: the operations of
    the manager; \<open>Manager_Blocks\<close>: its invariant and the effect of a block; \<open>Manager_History\<close>:
    snapshots, rollback, pruning, the supply check; \<open>Node_Entry\<close>: validation and application composed.
  \<^item> \<open>Scheduler\<close> and \<open>Group_Execution\<close>: \<open>scheduler/parallel.rs\<close>.
  \<^item> The unit tests of the modules, translated like the code they test, pass on the model:
    \<open>Unit_Tests\<close> (emission, economic constants, storage, chain state, UTXO set),
    \<open>Unit_Tests_Commit\<close> (polynomial commitments), \<open>Unit_Tests_Manager\<close> (state manager, by a
    predicate that says which coinbases a manager holds), \<open>Unit_Tests_Trees\<close> and
    \<open>Unit_Tests_Second_Tree\<close> (the two trees, among them changed proofs, which are refused unless
    the commitment collides on them). They check the definitions against what the authors wrote
    down: on these runs the model does what they expect of the code.

  \<^bold>\<open>Correspondence.\<close> A struct is a record, an enum a datatype, a function of the code the
  definition of the same name (with a prefix or suffix where names clash, as \<open>sm_apply_block\<close>,
  \<open>tree_insert\<close>). A method that takes \<open>&mut self\<close> returns the new state, and the state after an
  error is returned too, since the code's early returns keep what was written. \<open>Result\<close> is a sum,
  \<open>Inl\<close> the error; \<open>Option\<close> is \<open>option\<close>. A panic, or a loop that need not return, is \<open>None\<close> of an
  outer \<open>option\<close>, and \<open>Panic\<close> in the second tree, where it is the only error of most functions.
  An \<open>f64\<close> is a rational or an infinity or not a number; each operation rounds its exact result.
  Integers are words of their width, \<open>+\<close> and \<open>*\<close> wrap as in a release build
  (where \<open>debug_assert\<close> is absent). A \<open>HashMap\<close> is a finite map and a \<open>HashSet\<close> a finite set;
  where the code iterates one, the order is a parameter and the theorems hold for every order.
  Panics are results too: \<open>validate_block_panics\<close> shows which keys stop a node, \<open>honest_opening_verdict\<close>
  that opening the zero polynomial does, and \<open>contract_panics_exactly\<close> which contracts do.
  Error messages are kept up to the first formatted value. \<open>println\<close> output is left out.

  \<^bold>\<open>Parameters.\<close> What is not in the repository is a parameter: \<open>blake3\<close> (a function on byte
  lists), the k256 operations (records \<open>crypto\<close> and \<open>signer\<close>, law \<open>signs\<close>; its conversions from
  slices return a value, return an error or panic, and the law \<open>conversions_return\<close> says they do not
  panic on a key of 32 bytes and a signature of at least 32), the arkworks curve,
  scalar field and dense polynomials (record \<open>ark\<close>, laws \<open>dense_poly\<close> and \<open>serializes\<close>), wasmer
  (record \<open>wasmer\<close>, law \<open>metered\<close>: its metering charges each host call), \<open>hex::encode\<close> (a function
  to strings). Each law is a named hypothesis that states documented behaviour, and the witnesses
  instantiate it. The hash function is arbitrary: where a hash must not be zero or not collide, the
  hypothesis names the hashes of the tree or the proof at hand (\<open>openable\<close>, \<open>collision_free\<close>).

  \<^bold>\<open>Interfaces.\<close> \<open>comparison\<close> (a total preorder; sorting), interpreted for the parent order, the
  score order of blocks and the schedule order; \<open>reversible\<close> (a state with undoable steps), for
  the UTXO set; \<open>pool_split\<close> (a pool split into two shares), for emission and coinbase;
  \<open>kv_store\<close> (the \<open>Storage\<close> trait), for \<open>MemoryStorage\<close>; \<open>tree_invariant\<close> (what every tree
  operation keeps, contracts keep), for the well-formed trees and the typed stores.

  \<^bold>\<open>Specifications.\<close> \<open>spec_root\<close> computes a root from the store alone, without caches: \<open>get_root\<close>
  is proved to answer it after every run of operations. \<open>vk_spec_root\<close> does so for the second tree
  from the store and the commitments kept at prunings. \<open>applied\<close>, \<open>tx_updates\<close>, \<open>utxo_total\<close>
  say what a block does to the outputs, the tree and the supply; \<open>first_error\<close> and \<open>all_applied\<close>
  what \<open>apply_block\<close> of the older ledger answers. \<open>observed_total\<close> is the time the window took, the
  specification of the direction in which a difficulty moves. \<open>guest_reaches\<close> is the run of a
  contract call by call. \<open>raw_block_reward\<close> summed score
  by score is the specification of the tables of \<open>total_emitted\<close>. Reachability along parents is
  the specification of the walks.

  \<^bold>\<open>Bounds.\<close> The tree has depth 32 and radix 256 as in the code; its recursive functions take the
  remaining height, started at \<open>KEY_SIZE = 32\<close>. Graph theorems assume fewer than \<open>2 ^ 32\<close> blocks
  where a \<open>usize\<close> or score is counted, histories fewer than \<open>2 ^ 64\<close> snapshots, supply sums
  below \<open>2 ^ 128\<close>; the depth limit of 10000 in \<open>get_virtual_selected_chain\<close> is the code's own.
  Block graphs are \<open>built\<close> from the empty one by adding and processing blocks; the invariant holds
  for blocks that arrive without children (\<open>arrives_childless\<close>), which the code does not check.
  The worklist loops are \<open>partial_function (option)\<close>; that they return is proved.

  \<^bold>\<open>Not modelled.\<close> Counters and output for logging. Module files and re-exports. The
  integration tests under \<open>tests/\<close> and two unit tests of the second tree, one of which reads the
  counters.
\<close>

end
